(* ===== verification/Prelude.thy ===== *)
theory Prelude
  imports Complex_Main "HOL-Library.Word" "HOL-Library.AList"
begin

text \<open>
  Shared vocabulary of the development: Python values, exceptions and dictionaries, byte strings
  and big-endian packing, page arithmetic, and the generic lemmas about them that the component
  theories use.

  Conventions.
  \<^item> A Python \<open>str\<close> is a \<open>string\<close> holding its UTF-8 bytes, so \<open>encode\<close> is a character-wise map.
  \<^item> A Python \<open>dict\<close> whose order is observable is an association list with \<open>AList.update\<close>
    (overwrite in place, otherwise append at the end), which is CPython's insertion order.
  \<^item> A Python \<open>int\<close> is \<open>int\<close>; lengths and list positions are \<open>nat\<close>.
  \<^item> A call that may raise returns \<open>pyexc + 'a\<close>, \<open>Inl\<close> for the exception.
\<close>

section \<open>Collections of facts\<close>

named_theorems py_defs \<open>definitions of Python-level helper operations\<close>
named_theorems safe_simps \<open>rewrite rules of the SafeKV components\<close>

section \<open>Exceptions and values\<close>

datatype pyexc =
    ValueError string
  | KeyError string
  | TypeError
  | OverflowError
  | ZeroDivisionError
  | StructError
  | OSError
  | IndexError
  | AttributeError
  | AssertionError
  | NotImplementedError
  | RuntimeError string
  | PrincipalAuthenticationError string

type_synonym 'a result = "pyexc + 'a"

definition bindE :: "'a result \<Rightarrow> ('a \<Rightarrow> 'b result) \<Rightarrow> 'b result" where
  "bindE m f = (case m of Inl e \<Rightarrow> Inl e | Inr x \<Rightarrow> f x)"

lemma bindE_simps [simp]:
  "bindE (Inl e) f = Inl e"
  "bindE (Inr x) f = f x"
  by (simp_all add: bindE_def)

lemma bindE_eq_Inr [simp]:
  "bindE m f = Inr y \<longleftrightarrow> (\<exists>x. m = Inr x \<and> f x = Inr y)"
  by (cases m) simp_all

lemma bindE_eq_Inl:
  "bindE m f = Inl e \<longleftrightarrow> m = Inl e \<or> (\<exists>x. m = Inr x \<and> f x = Inl e)"
  by (cases m) simp_all

text \<open>A call for each element of a list, and a loop whose body may raise.\<close>

fun mapE :: "('a \<Rightarrow> 'b result) \<Rightarrow> 'a list \<Rightarrow> 'b list result" where
  "mapE f [] = Inr []"
| "mapE f (x # xs) = bindE (f x) (\<lambda>y. bindE (mapE f xs) (\<lambda>ys. Inr (y # ys)))"

fun foldE :: "('k \<Rightarrow> 's \<Rightarrow> 's result) \<Rightarrow> 'k list \<Rightarrow> 's \<Rightarrow> 's result" where
  "foldE f [] s = Inr s"
| "foldE f (k # ks) s = bindE (f k s) (foldE f ks)"

lemma mapE_Inr: "(\<And>x. x \<in> set xs \<Longrightarrow> f x = Inr (g x)) \<Longrightarrow> mapE f xs = Inr (map g xs)"
  by (induction xs) auto

lemma mapE_obtain:
  assumes "\<And>x. x \<in> set xs \<Longrightarrow> \<exists>y. f x = Inr y \<and> P x y"
  shows "\<exists>ys. mapE f xs = Inr ys \<and> list_all2 P xs ys"
  using assms
proof (induction xs)
  case (Cons x xs)
  then obtain y ys where "f x = Inr y" "P x y" "mapE f xs = Inr ys" "list_all2 P xs ys" by fastforce
  then show ?case by auto
qed simp

lemma mapE_all2: "mapE f xs = Inr ys \<Longrightarrow> list_all2 (\<lambda>x y. f x = Inr y) xs ys"
  by (induction xs arbitrary: ys) auto

text \<open>A call that may raise and changes a state: the state at the raise is kept.\<close>

definition andThen :: "'a result \<times> 's \<Rightarrow> ('a \<Rightarrow> 's \<Rightarrow> 'b result \<times> 's) \<Rightarrow> 'b result \<times> 's" where
  "andThen m f = (case m of (Inl e, s) \<Rightarrow> (Inl e, s) | (Inr x, s) \<Rightarrow> f x s)"

lemma andThen_simps [simp]:
  "andThen (Inl e, s) f = (Inl e, s)"
  "andThen (Inr x, s) f = f x s"
  by (simp_all add: andThen_def)

lemma andThen_cong [fundef_cong]:
  "m = m' \<Longrightarrow> (\<And>x s. m' = (Inr x, s) \<Longrightarrow> f x s = g x s) \<Longrightarrow> andThen m f = andThen m' g"
  by (auto simp: andThen_def split: prod.splits sum.splits)

lemma andThen_Inr:
  "andThen m f = (Inr y, t) \<longleftrightarrow> (\<exists>x s. m = (Inr x, s) \<and> f x s = (Inr y, t))"
  by (auto simp: andThen_def split: prod.splits sum.splits)

lemma andThen_cases:
  assumes "andThen m f = (r, t)"
  obtains (raised) e where "m = (Inl e, t)" "r = Inl e"
    | (went_on) x s where "m = (Inr x, s)" "f x s = (r, t)"
  using assms by (auto simp: andThen_def split: prod.splits sum.splits)

text \<open>
  IEEE doubles as far as the code looks at them: it compares, truncates and packs them.
\<close>

datatype pyfloat = NaN | NegInf | PosInf | NegZero | Fin rat

fun float_le :: "pyfloat \<Rightarrow> pyfloat \<Rightarrow> bool" where
  "float_le NaN y = False"
| "float_le x NaN = False"
| "float_le NegInf y = True"
| "float_le x PosInf = True"
| "float_le PosInf y = False"
| "float_le x NegInf = False"
| "float_le NegZero NegZero = True"
| "float_le NegZero (Fin y) = (0 \<le> y)"
| "float_le (Fin x) NegZero = (x \<le> 0)"
| "float_le (Fin x) (Fin y) = (x \<le> y)"

lemma float_le_trans:
  "float_le x y \<Longrightarrow> float_le y z \<Longrightarrow> float_le x z"
  by (cases x; cases y; cases z) auto

datatype pyval =
    VNone
  | VBool bool
  | VInt int
  | VFloat pyfloat
  | VStr string
  | VList "pyval list"
  | VDict "(string \<times> pyval) list"

text \<open>
  Library functions the code calls and that are not defined here: the two digests, the IEEE
  encoding of a double and the conversions between text and numbers that need it.
\<close>

type_synonym byte = "8 word"

record stdlib =
  sha256_hexdigest :: "byte list \<Rightarrow> string"
  hmac_sha256_hexdigest :: "byte list \<Rightarrow> byte list \<Rightarrow> string"
  pack_double :: "pyfloat \<Rightarrow> byte list"
  float_of_int :: "int \<Rightarrow> pyfloat result"
  float_of_str :: "string \<Rightarrow> pyfloat result"
  str_of :: "pyval \<Rightarrow> string"

section \<open>Conversions of Python values\<close>

definition is_space :: "char \<Rightarrow> bool" where
  "is_space c \<longleftrightarrow> (of_char c :: nat) \<in> {9, 10, 11, 12, 13, 28, 29, 30, 31, 32}"

definition lstrip :: "string \<Rightarrow> string" where
  "lstrip s = dropWhile is_space s"

definition strip :: "string \<Rightarrow> string" where
  "strip s = rev (dropWhile is_space (rev (lstrip s)))"

definition is_digit :: "char \<Rightarrow> bool" where
  "is_digit c \<longleftrightarrow> 48 \<le> (of_char c :: nat) \<and> (of_char c :: nat) \<le> 57"

text \<open>
  Decimal digits with single underscores between them; the flag says whether the last character
  was a digit.
\<close>

fun digits_val :: "bool \<Rightarrow> nat \<Rightarrow> string \<Rightarrow> nat option" where
  "digits_val d acc [] = (if d then Some acc else None)"
| "digits_val d acc (c # cs) =
     (if is_digit c then digits_val True (acc * 10 + (of_char c - 48)) cs
      else if c = CHR ''_'' \<and> d then digits_val False acc cs
      else None)"

definition int_of_str :: "string \<Rightarrow> int result" where
  "int_of_str s =
     (let t = strip s;
          r = (case t of
                 [] \<Rightarrow> None
               | c # cs \<Rightarrow>
                   if c = CHR ''-'' then map_option (\<lambda>n. - int n) (digits_val False 0 cs)
                   else if c = CHR ''+'' then map_option int (digits_val False 0 cs)
                   else map_option int (digits_val False 0 t))
      in case r of None \<Rightarrow> Inl (ValueError ''invalid literal for int()'') | Some i \<Rightarrow> Inr i)"

definition trunc_rat :: "rat \<Rightarrow> int" where
  "trunc_rat r = (if 0 \<le> r then \<lfloor>r\<rfloor> else \<lceil>r\<rceil>)"

fun py_int :: "pyval \<Rightarrow> int result" where
  "py_int (VInt i) = Inr i"
| "py_int (VBool b) = Inr (if b then 1 else 0)"
| "py_int (VFloat NaN) = Inl (ValueError ''cannot convert float NaN to integer'')"
| "py_int (VFloat NegInf) = Inl OverflowError"
| "py_int (VFloat PosInf) = Inl OverflowError"
| "py_int (VFloat NegZero) = Inr 0"
| "py_int (VFloat (Fin r)) = Inr (trunc_rat r)"
| "py_int (VStr s) = int_of_str s"
| "py_int VNone = Inl TypeError"
| "py_int (VList xs) = Inl TypeError"
| "py_int (VDict d) = Inl TypeError"

fun py_float :: "stdlib \<Rightarrow> pyval \<Rightarrow> pyfloat result" where
  "py_float lib (VFloat f) = Inr f"
| "py_float lib (VInt i) = float_of_int lib i"
| "py_float lib (VBool b) = Inr (Fin (if b then 1 else 0))"
| "py_float lib (VStr s) = float_of_str lib s"
| "py_float lib VNone = Inl TypeError"
| "py_float lib (VList xs) = Inl TypeError"
| "py_float lib (VDict d) = Inl TypeError"

fun py_bool :: "pyval \<Rightarrow> bool" where
  "py_bool VNone = False"
| "py_bool (VBool b) = b"
| "py_bool (VInt i) = (i \<noteq> 0)"
| "py_bool (VFloat f) = (f \<noteq> NegZero \<and> f \<noteq> Fin 0)"
| "py_bool (VStr s) = (s \<noteq> [])"
| "py_bool (VList xs) = (xs \<noteq> [])"
| "py_bool (VDict d) = (d \<noteq> [])"

fun py_str :: "stdlib \<Rightarrow> pyval \<Rightarrow> string" where
  "py_str lib (VStr s) = s"
| "py_str lib v = str_of lib v"

section \<open>Dictionaries\<close>

definition dict_item :: "(string \<times> 'v) list \<Rightarrow> string \<Rightarrow> 'v result" where
  "dict_item d k = (case map_of d k of None \<Rightarrow> Inl (KeyError k) | Some v \<Rightarrow> Inr v)"

definition dict_get :: "('k \<times> 'v) list \<Rightarrow> 'k \<Rightarrow> 'v \<Rightarrow> 'v" where
  "dict_get d k dflt = (case map_of d k of None \<Rightarrow> dflt | Some v \<Rightarrow> v)"

abbreviation dict_set :: "'k \<Rightarrow> 'v \<Rightarrow> ('k \<times> 'v) list \<Rightarrow> ('k \<times> 'v) list" where
  "dict_set \<equiv> AList.update"

abbreviation dict_pop :: "'k \<Rightarrow> ('k \<times> 'v) list \<Rightarrow> ('k \<times> 'v) list" where
  "dict_pop \<equiv> AList.delete"

lemma map_of_dict_set [simp]: "map_of (dict_set k v d) = (map_of d)(k \<mapsto> v)"
  by (rule update_conv')

lemma map_of_dict_pop [simp]: "map_of (dict_pop k d) = (map_of d)(k := None)"
  by (rule delete_conv')

lemma dict_get_set [simp]:
  "dict_get (dict_set k v d) k' dflt = (if k' = k then v else dict_get d k' dflt)"
  by (simp add: dict_get_def)

lemma dict_get_Nil [simp]: "dict_get [] k dflt = dflt"
  by (simp add: dict_get_def)

lemma distinct_keys_dict_set:
  "distinct (map fst d) \<Longrightarrow> distinct (map fst (dict_set k v d))"
  by (rule distinct_update)

lemma keys_dict_set: "fst ` set (dict_set k v d) = insert k (fst ` set d)"
  by (metis dom_map_of_conv_image_fst map_of_dict_set dom_fun_upd option.distinct(1))

lemma dict_set_member:
  "distinct (map fst d) \<Longrightarrow>
     (k', j) \<in> set (dict_set k v d) \<longleftrightarrow> (if k' = k then j = v else (k', j) \<in> set d)"
  by (metis distinct_keys_dict_set fun_upd_apply map_of_dict_set map_of_eq_Some_iff option.inject)

lemma dict_pop_member: "(k', j) \<in> set (dict_pop k d) \<longleftrightarrow> k' \<noteq> k \<and> (k', j) \<in> set d"
  by (auto simp: AList.delete_eq)

lemma distinct_keys_dict_pop: "distinct (map fst d) \<Longrightarrow> distinct (map fst (dict_pop k d))"
  by (rule distinct_delete)

section \<open>Bytes: big-endian packing and length framing\<close>

definition utf8 :: "string \<Rightarrow> byte list" where
  "utf8 s = map of_char s"

lemma of_char_word_inj: "(of_char c :: byte) = of_char d \<longleftrightarrow> c = d"
proof
  assume "(of_char c :: byte) = of_char d"
  then have "unat (of_char c :: byte) = unat (of_char d :: byte)" by simp
  moreover have "unat (of_char x :: byte) = (of_char x :: nat)" for x :: char
  proof -
    have "unat (of_nat (of_char x :: nat) :: byte) = (of_char x :: nat) mod 2 ^ 8"
      by (simp add: unat_of_nat)
    moreover have "(of_char x :: nat) < 256"
      by (rule nat_of_char_less_256)
    ultimately show ?thesis by (simp add: of_nat_of_char)
  qed
  ultimately show "c = d" by (simp add: of_char_eq_iff)
qed simp

lemma utf8_inj [simp]: "utf8 s = utf8 t \<longleftrightarrow> s = t"
  by (simp add: utf8_def inj_map_eq_map inj_def of_char_word_inj)

fun be_bytes :: "nat \<Rightarrow> nat \<Rightarrow> byte list" where
  "be_bytes 0 n = []"
| "be_bytes (Suc k) n = be_bytes k (n div 256) @ [of_nat n]"

lemma length_be_bytes [simp]: "length (be_bytes k n) = k"
  by (induction k arbitrary: n) simp_all

fun of_be :: "byte list \<Rightarrow> nat" where
  "of_be [] = 0"
| "of_be (b # bs) = unat b * 256 ^ length bs + of_be bs"

lemma of_be_snoc: "of_be (bs @ [b]) = of_be bs * 256 + unat b"
  by (induction bs) (simp_all add: algebra_simps)

lemma of_be_be_bytes: "n < 256 ^ k \<Longrightarrow> of_be (be_bytes k n) = n"
proof (induction k arbitrary: n)
  case (Suc k)
  have "n div 256 < 256 ^ k"
    using Suc.prems by (simp add: less_mult_imp_div_less mult.commute)
  moreover have "unat (of_nat n :: byte) = n mod 256"
    by (simp add: unat_of_nat)
  ultimately show ?case
    using Suc.IH by (simp add: of_be_snoc)
qed simp

text \<open>\<open>struct.pack(">Q", n)\<close> and \<open>struct.pack(">q", i)\<close>.\<close>

definition u64_bound :: nat where
  "u64_bound = 2 ^ 64"

definition pack_Q :: "nat \<Rightarrow> byte list" where
  "pack_Q n = be_bytes 8 n"

definition pack_q :: "int \<Rightarrow> byte list result" where
  "pack_q i =
     (if - (2 ^ 63) \<le> i \<and> i < 2 ^ 63 then Inr (be_bytes 8 (nat (i mod 2 ^ 64)))
      else Inl StructError)"

lemma length_pack_Q [simp]: "length (pack_Q n) = 8"
  by (simp add: pack_Q_def)

lemma pack_Q_not_Nil [simp]: "pack_Q n \<noteq> []"
  using length_pack_Q[of n] by (metis list.size(3) zero_neq_numeral)

lemma u64_bound_256: "u64_bound = 256 ^ 8"
  by (simp add: u64_bound_def)

lemma pack_Q_inj:
  "m < u64_bound \<Longrightarrow> n < u64_bound \<Longrightarrow> pack_Q m = pack_Q n \<longleftrightarrow> m = n"
  by (metis of_be_be_bytes pack_Q_def u64_bound_256)

lemma length_pack_q: "pack_q i = Inr bs \<Longrightarrow> length bs = 8"
  by (auto simp: pack_q_def split: if_splits)

lemma pack_q_inj: "pack_q i = Inr bs \<Longrightarrow> pack_q j = Inr bs \<Longrightarrow> i = j"
proof -
  assume i: "pack_q i = Inr bs" and j: "pack_q j = Inr bs"
  then have bi: "- (2 ^ 63) \<le> i" "i < 2 ^ 63" "- (2 ^ 63) \<le> j" "j < 2 ^ 63"
    and eq: "be_bytes 8 (nat (i mod 2 ^ 64)) = be_bytes 8 (nat (j mod 2 ^ 64))"
    by (auto simp: pack_q_def split: if_splits)
  have "nat (k mod 2 ^ 64) < 256 ^ 8" for k :: int
    by (simp add: nat_less_iff)
  then have "nat (i mod 2 ^ 64) = nat (j mod 2 ^ 64)"
    using eq of_be_be_bytes by metis
  then have "i mod 2 ^ 64 = j mod 2 ^ 64"
    by (simp add: eq_nat_nat_iff)
  moreover have "i = j" if "i div 2 ^ 64 = j div 2 ^ 64" "i mod 2 ^ 64 = j mod 2 ^ 64"
    using that by (metis mult_div_mod_eq)
  moreover have "i - j = 2 ^ 64 * (i div 2 ^ 64 - j div 2 ^ 64)"
    using \<open>i mod 2 ^ 64 = j mod 2 ^ 64\<close>
    by (metis add_diff_cancel_right mult_div_mod_eq right_diff_distrib)
  moreover from this bi have "i div 2 ^ 64 - j div 2 ^ 64 = 0"
    by simp
  ultimately show "i = j" by simp
qed

definition framed :: "byte list \<Rightarrow> byte list" where
  "framed v = pack_Q (length v) @ v"

lemma length_framed [simp]: "length (framed v) = 8 + length v"
  by (simp add: framed_def)

lemma framed_append_inj:
  assumes "framed a @ xs = framed b @ ys"
    and "length a < u64_bound" and "length b < u64_bound"
  shows "a = b \<and> xs = ys"
proof -
  have "pack_Q (length a) = pack_Q (length b)" and rest: "a @ xs = b @ ys"
    using assms(1) by (simp_all add: framed_def append_eq_append_conv)
  then have "length a = length b" using assms(2,3) pack_Q_inj by blast
  then show ?thesis using rest by simp
qed

section \<open>Page arithmetic and slices\<close>

definition page_align :: "nat \<Rightarrow> nat \<Rightarrow> nat" where
  "page_align p n = n div p * p"

lemma page_align_le [simp]: "page_align p n \<le> n"
  by (simp add: page_align_def)

lemma page_align_1 [simp]: "page_align (Suc 0) n = n"
  by (simp add: page_align_def)

lemma dvd_page_align [simp]: "p dvd page_align p n"
  by (simp add: page_align_def)

definition py_slice :: "nat \<Rightarrow> nat \<Rightarrow> 'a list \<Rightarrow> 'a list" where
  "py_slice a b xs = drop a (take b xs)"

lemma length_py_slice [simp]: "length (py_slice a b xs) = min (length xs) b - a"
  by (simp add: py_slice_def)

lemma py_slice_empty [simp]: "b \<le> a \<Longrightarrow> py_slice a b xs = []"
  by (simp add: py_slice_def)

text \<open>\<open>xs[:n]\<close> for an integer that may be negative.\<close>

definition py_take :: "int \<Rightarrow> 'a list \<Rightarrow> 'a list" where
  "py_take n xs = (if 0 \<le> n then take (nat n) xs else take (nat (int (length xs) + n)) xs)"

lemma py_take_of_nat [simp]: "py_take (int n) xs = take n xs"
  by (simp add: py_take_def)

section \<open>Text\<close>

fun show_nat :: "nat \<Rightarrow> string" where
  "show_nat n = (if n < 10 then [char_of (48 + n)] else show_nat (n div 10) @ [char_of (48 + n mod 10)])"

declare show_nat.simps [simp del]

definition show_int :: "int \<Rightarrow> string" where
  "show_int i = (if i < 0 then ''-'' @ show_nat (nat (- i)) else show_nat (nat i))"

fun join_with :: "'a list \<Rightarrow> 'a list list \<Rightarrow> 'a list" where
  "join_with sep [] = []"
| "join_with sep [x] = x"
| "join_with sep (x # y # zs) = x @ sep @ join_with sep (y # zs)"

text \<open>\<open>str.split\<close> with a separator of one character: always at least one piece.\<close>

fun split_on :: "'a \<Rightarrow> 'a list \<Rightarrow> 'a list list" where
  "split_on c [] = [[]]"
| "split_on c (x # xs) =
     (if x = c then [] # split_on c xs
      else case split_on c xs of [] \<Rightarrow> [[x]] | p # ps \<Rightarrow> (x # p) # ps)"

lemma split_on_ne [simp]: "split_on c xs \<noteq> []"
  by (induction xs) (auto split: list.splits)

lemma join_split_on: "join_with [c] (split_on c xs) = xs"
proof (induction xs)
  case (Cons x xs)
  show ?case
  proof (cases "split_on c xs")
    case (Cons p ps)
    then show ?thesis using Cons.IH by (cases ps) auto
  qed simp
qed simp

end
