(* ===== verification/Principal.thy ===== *)
theory Principal
  imports Prelude
begin

text \<open>
  \<open>principal_binding.py\<close> and its use in \<open>entrypoints/http_server.py\<close>: bearer tokens are mapped to
  server-trusted principals, and the principal overwrites the client's \<open>user_id\<close> before a request
  reaches the scheduler.  The file is JSON; its parsed content is an argument.
\<close>

section \<open>String operations the binding uses\<close>

definition to_lower :: "char \<Rightarrow> char" where
  "to_lower c =
     (if 65 \<le> (of_char c :: nat) \<and> (of_char c :: nat) \<le> 90 then char_of ((of_char c :: nat) + 32)
      else c)"

definition str_lower :: "string \<Rightarrow> string" where
  "str_lower s = map to_lower s"

text \<open>\<open>s.partition(" ")\<close>: the text before the first space, whether there is one, the text after it.\<close>

fun partition_space :: "string \<Rightarrow> string \<times> bool \<times> string" where
  "partition_space [] = ([], False, [])"
| "partition_space (c # cs) =
     (if c = CHR '' '' then ([], True, cs)
      else case partition_space cs of (h, sep, t) \<Rightarrow> (c # h, sep, t))"

lemma partition_space_join:
  "partition_space s = (h, True, t) \<Longrightarrow> s = h @ CHR '' '' # t \<and> CHR '' '' \<notin> set h"
  by (induction s arbitrary: h t) (auto split: if_splits prod.splits)

lemma partition_space_append:
  "CHR '' '' \<notin> set h \<Longrightarrow> partition_space (h @ CHR '' '' # t) = (h, True, t)"
  by (induction h) auto

section \<open>PrincipalBinding\<close>

record PrincipalBinding =
  token_to_principal :: "(string \<times> string) list option"

definition binding_enabled :: "PrincipalBinding \<Rightarrow> bool" where
  "binding_enabled pb \<longleftrightarrow> token_to_principal pb \<noteq> None"

fun binding_entry :: "string \<times> pyval \<Rightarrow> (string \<times> string) option" where
  "binding_entry (token, VStr user) = (if token = [] \<or> user = [] then None else Some (token, user))"
| "binding_entry (token, v) = None"

definition binding_entries :: "(string \<times> pyval) list \<Rightarrow> (string \<times> string) list option" where
  "binding_entries d =
     (if \<exists>e \<in> set d. binding_entry e = None then None else Some (map (the \<circ> binding_entry) d))"

definition from_json_file ::
  "(string \<Rightarrow> pyval result) \<Rightarrow> string option \<Rightarrow> PrincipalBinding result" where
  "from_json_file load path =
     (case path of
        None \<Rightarrow> Inr \<lparr> token_to_principal = None \<rparr>
      | Some p \<Rightarrow>
          bindE (load p) (\<lambda>v.
            case v of
              VDict d \<Rightarrow>
                if d = [] then
                  Inl (ValueError ''Principal binding file must contain a non-empty JSON object'')
                else (case binding_entries d of
                  None \<Rightarrow> Inl (ValueError
                    ''Principal binding tokens and principal IDs must be non-empty strings'')
                | Some m \<Rightarrow> Inr \<lparr> token_to_principal = Some m \<rparr>)
            | _ \<Rightarrow>
                Inl (ValueError ''Principal binding file must contain a non-empty JSON object'')))"

definition bearer_lookup :: "(string \<times> string) list \<Rightarrow> string \<Rightarrow> string option result" where
  "bearer_lookup m h =
     (case partition_space h of (scheme, sep, token) \<Rightarrow>
        if \<not> sep \<or> str_lower scheme \<noteq> ''bearer'' \<or> token = [] \<or> strip token \<noteq> token
        then Inl (PrincipalAuthenticationError ''Invalid bearer credentials'')
        else (case map_of m token of
                None \<Rightarrow> Inl (PrincipalAuthenticationError ''Invalid bearer credentials'')
              | Some user \<Rightarrow> Inr (Some user)))"

definition authenticate :: "PrincipalBinding \<Rightarrow> string option \<Rightarrow> string option result" where
  "authenticate pb authorization =
     (case token_to_principal pb of
        None \<Rightarrow> Inr None
      | Some m \<Rightarrow>
          (case authorization of
             None \<Rightarrow> Inl (PrincipalAuthenticationError ''Bearer authentication required'')
           | Some h \<Rightarrow>
               if h = [] then Inl (PrincipalAuthenticationError ''Bearer authentication required'')
               else bearer_lookup m h))"

text \<open>
  Sampling parameters as they arrive: nothing, one dictionary, or a list of dictionaries.
\<close>

datatype sampling_arg =
    NoParams
  | OneParams "(string \<times> pyval) list"
  | ManyParams "(string \<times> pyval) list list"

definition bind_sampling_params :: "sampling_arg \<Rightarrow> string \<Rightarrow> sampling_arg" where
  "bind_sampling_params sp user =
     (case sp of
        NoParams \<Rightarrow> OneParams [(''user_id'', VStr user)]
      | ManyParams ps \<Rightarrow> ManyParams (map (dict_set ''user_id'' (VStr user)) ps)
      | OneParams d \<Rightarrow> OneParams (dict_set ''user_id'' (VStr user) d))"

definition bind_openai_user_id :: "string option \<Rightarrow> string option \<Rightarrow> string option" where
  "bind_openai_user_id request_user effective =
     (case effective of None \<Rightarrow> request_user | Some u \<Rightarrow> Some u)"

text \<open>
  The head of the \<open>/generate\<close> handler: authenticate, answer 401 on failure, otherwise pass the
  (possibly overwritten) parameters on.
\<close>

datatype http_outcome = Unauthorized string | Forward sampling_arg

definition generate_request_head ::
  "PrincipalBinding \<Rightarrow> string option \<Rightarrow> sampling_arg \<Rightarrow> http_outcome result" where
  "generate_request_head pb authorization sp =
     (case authenticate pb authorization of
        Inl (PrincipalAuthenticationError m) \<Rightarrow> Inr (Unauthorized m)
      | Inl e \<Rightarrow> Inl e
      | Inr None \<Rightarrow> Inr (Forward sp)
      | Inr (Some user) \<Rightarrow> Inr (Forward (bind_sampling_params sp user)))"

text \<open>The principals the scheduler will see in a request.\<close>

fun request_users :: "sampling_arg \<Rightarrow> pyval option list" where
  "request_users NoParams = [None]"
| "request_users (OneParams d) = [map_of d ''user_id'']"
| "request_users (ManyParams ds) = map (\<lambda>d. map_of d ''user_id'') ds"

lemma bind_sampling_params_users:
  "set (request_users (bind_sampling_params sp user)) \<subseteq> {Some (VStr user)}"
  by (cases sp) (auto simp: bind_sampling_params_def)

lemma bearer_lookup_cases:
  "(\<exists>user scheme token. bearer_lookup m h = Inr (Some user) \<and>
      h = scheme @ CHR '' '' # token \<and> CHR '' '' \<notin> set scheme \<and>
      str_lower scheme = ''bearer'' \<and> strip token = token \<and> map_of m token = Some user) \<or>
   bearer_lookup m h = Inl (PrincipalAuthenticationError ''Invalid bearer credentials'')"
proof -
  obtain scheme sep token where p: "partition_space h = (scheme, sep, token)"
    using prod_cases3 by blast
  show ?thesis
  proof (cases sep)
    case True
    with p have "h = scheme @ CHR '' '' # token \<and> CHR '' '' \<notin> set scheme"
      by (intro partition_space_join) simp
    with p True show ?thesis by (auto simp: bearer_lookup_def split: option.splits)
  qed (simp add: bearer_lookup_def p)
qed

lemma authenticate_enabled_cases:
  assumes "token_to_principal pb = Some m"
  shows "(\<exists>user scheme token. authenticate pb h = Inr (Some user) \<and>
      h = Some (scheme @ CHR '' '' # token) \<and> str_lower scheme = ''bearer'' \<and>
      map_of m token = Some user) \<or>
   (\<exists>msg. authenticate pb h = Inl (PrincipalAuthenticationError msg) \<and>
      msg \<in> {''Bearer authentication required'', ''Invalid bearer credentials''})"
proof (cases h)
  case None
  then show ?thesis by (simp add: authenticate_def assms)
next
  case (Some x)
  then show ?thesis
    using bearer_lookup_cases[of m x] by (cases "x = []") (auto simp: authenticate_def assms)
qed

section \<open>Properties\<close>



text \<open>
  Without valid credentials an enabled binding always answers 401, with a message that does not
  depend on the credentials, and never raises anything else.
\<close>

theorem invalid_credentials_unauthorized:
  assumes "token_to_principal pb = Some m"
    and "\<And>user. authenticate pb authorization \<noteq> Inr (Some user)"
  shows "\<exists>msg. generate_request_head pb authorization sp = Inr (Unauthorized msg) \<and>
           msg \<in> {''Bearer authentication required'', ''Invalid bearer credentials''}"
  using authenticate_enabled_cases[OF assms(1), of authorization] assms(2)
  by (auto simp: generate_request_head_def)

theorem invalid_credentials_unauthorized_witness:
  "\<exists>msg. generate_request_head \<lparr> token_to_principal = Some [(''t1'', ''alice'')] \<rparr> None NoParams =
      Inr (Unauthorized msg) \<and>
     msg \<in> {''Bearer authentication required'', ''Invalid bearer credentials''}"
  by (rule invalid_credentials_unauthorized) (simp_all add: authenticate_def)

end
