(* ===== verification/Policy.thy ===== *)
theory Policy
  imports Prelude
begin

text \<open>
  The plain data of \<open>mem_cache/safekv_policy.py\<close>: the visibility states of a cache variant, the
  operator authorization with its JSON mapping, verification results, namespace keys, and the
  counters and event log of \<open>SafeKVMetrics\<close>.
\<close>

section \<open>Visibility\<close>

datatype Visibility =
    PRIVATE
  | CANDIDATE
  | BUDGETED_SHARED
  | EXHAUSTED_PRIVATE
  | VERIFIED_PUBLIC

text \<open>The \<open>.value\<close> of the enum member, which is what tree nodes store.\<close>

fun vis_value :: "Visibility \<Rightarrow> string" where
  "vis_value PRIVATE = ''private''"
| "vis_value CANDIDATE = ''candidate''"
| "vis_value BUDGETED_SHARED = ''budgeted_shared''"
| "vis_value EXHAUSTED_PRIVATE = ''exhausted_private''"
| "vis_value VERIFIED_PUBLIC = ''verified_public''"

lemma vis_value_inj: "vis_value v = vis_value w \<longleftrightarrow> v = w"
  by (cases v; cases w) simp_all

section \<open>Authorizations\<close>

record PublicAuthorization =
  public_object_id :: string
  auth_issuer :: string
  auth_model_id :: string
  auth_tokenizer_version :: string
  prefix_token_length :: int
  prefix_fingerprint :: string
  auth_policy_epoch :: int
  expires_at :: pyfloat
  auth_revoked :: bool
  auth_mac :: string

definition from_mapping ::
  "stdlib \<Rightarrow> (string \<times> pyval) list \<Rightarrow> PublicAuthorization result" where
  "from_mapping lib value =
     bindE (dict_item value ''public_object_id'') (\<lambda>oid.
     bindE (dict_item value ''issuer'') (\<lambda>iss.
     bindE (dict_item value ''model_id'') (\<lambda>mid.
     bindE (dict_item value ''tokenizer_version'') (\<lambda>tok.
     bindE (bindE (dict_item value ''prefix_token_length'') py_int) (\<lambda>len.
     bindE (dict_item value ''prefix_fingerprint'') (\<lambda>fp.
     bindE (bindE (dict_item value ''policy_epoch'') py_int) (\<lambda>ep.
     bindE (bindE (dict_item value ''expires_at'') (py_float lib)) (\<lambda>ex.
     bindE (dict_item value ''revoked'') (\<lambda>rv.
     bindE (dict_item value ''mac'') (\<lambda>m.
       Inr \<lparr> public_object_id = py_str lib oid,
             auth_issuer = py_str lib iss,
             auth_model_id = py_str lib mid,
             auth_tokenizer_version = py_str lib tok,
             prefix_token_length = len,
             prefix_fingerprint = py_str lib fp,
             auth_policy_epoch = ep,
             expires_at = ex,
             auth_revoked = py_bool rv,
             auth_mac = py_str lib m \<rparr>))))))))))"

definition to_dict :: "PublicAuthorization \<Rightarrow> (string \<times> pyval) list" where
  "to_dict a =
     [(''public_object_id'', VStr (public_object_id a)),
      (''issuer'', VStr (auth_issuer a)),
      (''model_id'', VStr (auth_model_id a)),
      (''tokenizer_version'', VStr (auth_tokenizer_version a)),
      (''prefix_token_length'', VInt (prefix_token_length a)),
      (''prefix_fingerprint'', VStr (prefix_fingerprint a)),
      (''policy_epoch'', VInt (auth_policy_epoch a)),
      (''expires_at'', VFloat (expires_at a)),
      (''revoked'', VBool (auth_revoked a)),
      (''mac'', VStr (auth_mac a))]"

text \<open>The keys an authorization object must have.\<close>

definition auth_keys :: "string list" where
  "auth_keys =
     [''public_object_id'', ''issuer'', ''model_id'', ''tokenizer_version'',
      ''prefix_token_length'', ''prefix_fingerprint'', ''policy_epoch'', ''expires_at'',
      ''revoked'', ''mac'']"

lemma dict_item_Inr [simp]: "dict_item d k = Inr v \<longleftrightarrow> map_of d k = Some v"
  by (simp add: dict_item_def split: option.splits)

lemma from_mapping_to_dict: "from_mapping lib (to_dict a) = Inr a"
  by (simp add: from_mapping_def to_dict_def dict_item_def)

lemma from_mapping_keys:
  assumes "from_mapping lib d = Inr a"
  shows "set auth_keys \<subseteq> dom (map_of d)"
  using assms by (auto simp: from_mapping_def auth_keys_def)

lemma from_mapping_agrees:
  assumes "from_mapping lib d = Inr a"
    and "map_of d ''public_object_id'' = Some (VStr x)"
    and "map_of d ''mac'' = Some (VStr y)"
  shows "public_object_id a = x \<and> auth_mac a = y"
  using assms by (auto simp: from_mapping_def)

section \<open>Verification results, namespaces, variants\<close>

record VerificationResult =
  valid :: bool
  reason :: string

definition verification :: "bool \<Rightarrow> string \<Rightarrow> VerificationResult" where
  "verification v r = \<lparr> valid = v, reason = r \<rparr>"

lemma verification_simps [simp]:
  "valid (verification v r) = v" "reason (verification v r) = r"
  by (simp_all add: verification_def)

record NamespaceKey =
  ns_visibility :: Visibility
  ns_identity :: string
  ns_fingerprint :: string

definition ns_private :: "string \<Rightarrow> string \<Rightarrow> NamespaceKey" where
  "ns_private user fp =
     \<lparr> ns_visibility = PRIVATE, ns_identity = user, ns_fingerprint = fp \<rparr>"

definition ns_public :: "string \<Rightarrow> string \<Rightarrow> NamespaceKey" where
  "ns_public object_id fp =
     \<lparr> ns_visibility = VERIFIED_PUBLIC, ns_identity = object_id, ns_fingerprint = fp \<rparr>"

lemma ns_private_neq_public: "ns_private p f \<noteq> ns_public oid g"
  by (simp add: ns_private_def ns_public_def)

record VariantMetadata =
  vm_namespace_key :: NamespaceKey
  vm_visibility :: Visibility
  vm_authorization :: "PublicAuthorization option"

section \<open>Metrics\<close>

record SafeKVEvent =
  ev_name :: string
  ev_timestamp :: pyfloat
  ev_attributes :: "(string \<times> pyval) list"

definition mk_event :: "string \<Rightarrow> pyfloat \<Rightarrow> (string \<times> pyval) list \<Rightarrow> SafeKVEvent" where
  "mk_event n t attrs = \<lparr> ev_name = n, ev_timestamp = t, ev_attributes = attrs \<rparr>"

record SafeKVMetrics =
  m_counters :: "(string \<times> int) list"
  m_events :: "SafeKVEvent list"

definition COUNTER_NAMES :: "string list" where
  "COUNTER_NAMES =
     [''unauth_public_promotions'', ''victim_node_relabels'', ''private_address_aliases'',
      ''cross_tenant_private_hits'', ''public_object_created'',
      ''cross_tenant_balanced_hits'', ''budget_exhausted_nodes'']"

definition metrics_init :: SafeKVMetrics where
  "metrics_init = \<lparr> m_counters = map (\<lambda>n. (n, 0)) COUNTER_NAMES, m_events = [] \<rparr>"

definition increment ::
  "pyfloat \<Rightarrow> string \<Rightarrow> int \<Rightarrow> (string \<times> pyval) list \<Rightarrow> SafeKVMetrics
     \<Rightarrow> int result \<times> SafeKVMetrics" where
  "increment now counter amount attrs m =
     (if counter \<notin> set COUNTER_NAMES then (Inl (ValueError ''unknown SafeKV counter''), m)
      else if amount < 0 then (Inl (ValueError ''amount must be a non-negative integer''), m)
      else
        (let value = dict_get (m_counters m) counter 0 + amount;
             m1 = m\<lparr>m_counters := dict_set counter value (m_counters m)\<rparr>;
             m2 = (if attrs \<noteq> [] then m1\<lparr>m_events := m_events m1 @ [mk_event counter now attrs]\<rparr>
                   else m1)
         in (Inr value, m2)))"

definition record_event ::
  "pyfloat \<Rightarrow> string \<Rightarrow> (string \<times> pyval) list \<Rightarrow> SafeKVMetrics \<Rightarrow> SafeKVMetrics" where
  "record_event now n attrs m = m\<lparr>m_events := m_events m @ [mk_event n now attrs]\<rparr>"

definition metrics_events :: "SafeKVMetrics \<Rightarrow> SafeKVEvent list" where
  "metrics_events m = m_events m"

definition metrics_snapshot ::
  "SafeKVMetrics \<Rightarrow> (string \<times> int) list \<times> SafeKVEvent list" where
  "metrics_snapshot m = (m_counters m, m_events m)"

definition metrics_reset :: "SafeKVMetrics \<Rightarrow> SafeKVMetrics" where
  "metrics_reset m = m\<lparr>m_counters := map (\<lambda>(n, _). (n, 0)) (m_counters m), m_events := []\<rparr>"

text \<open>
  The counter table always has exactly the declared counters, each with a value that is not
  negative; so no later \<open>increment\<close> of a declared counter can miss its key.
\<close>

definition metrics_inv :: "SafeKVMetrics \<Rightarrow> bool" where
  "metrics_inv m \<longleftrightarrow>
     map fst (m_counters m) = COUNTER_NAMES \<and> (\<forall>(n, c) \<in> set (m_counters m). 0 \<le> c)"

lemma dict_set_keys_mem:
  "k \<in> fst ` set d \<Longrightarrow> map fst (dict_set k v d) = map fst d"
  by (induction d) (auto split: if_splits)

lemma dict_set_values:
  "(k', v') \<in> set (dict_set k v d) \<Longrightarrow> (k', v') \<in> set d \<or> v' = v"
  by (induction d) (auto split: if_splits)

lemma dict_get_mem:
  assumes "k \<in> fst ` set d"
  shows "\<exists>v. (k, v) \<in> set d \<and> dict_get d k dflt = v"
proof -
  from assms obtain v where "map_of d k = Some v"
    by (metis map_of_eq_None_iff not_None_eq)
  then show ?thesis by (auto simp: dict_get_def dest: map_of_SomeD)
qed

lemma metrics_inv_init: "metrics_inv metrics_init"
  by (auto simp: metrics_inv_def metrics_init_def comp_def)

lemma metrics_inv_record_event: "metrics_inv m \<Longrightarrow> metrics_inv (record_event now n a m)"
  by (simp add: metrics_inv_def record_event_def)

lemma metrics_inv_reset: "metrics_inv m \<Longrightarrow> metrics_inv (metrics_reset m)"
  by (auto simp: metrics_inv_def metrics_reset_def comp_def case_prod_beta)

lemma metrics_inv_increment:
  assumes "metrics_inv m"
  shows "metrics_inv (snd (increment now c n a m))"
proof (cases "c \<in> set COUNTER_NAMES \<and> 0 \<le> n")
  case True
  have keys: "map fst (m_counters m) = COUNTER_NAMES"
    and nonneg: "\<And>k v. (k, v) \<in> set (m_counters m) \<Longrightarrow> 0 \<le> v"
    using assms by (auto simp: metrics_inv_def)
  have mem: "c \<in> fst ` set (m_counters m)"
    using True keys by (metis image_set)
  from dict_get_mem[OF mem, of 0] have ge: "0 \<le> dict_get (m_counters m) c 0"
    using nonneg by blast
  have "map fst (dict_set c (dict_get (m_counters m) c 0 + n) (m_counters m)) = COUNTER_NAMES"
    using dict_set_keys_mem[OF mem] keys by simp
  moreover have "0 \<le> v" if "(k, v) \<in> set (dict_set c (dict_get (m_counters m) c 0 + n) (m_counters m))"
    for k v
    using dict_set_values[OF that] nonneg ge True by auto
  ultimately show ?thesis
    using True by (auto simp: metrics_inv_def increment_def Let_def)
next
  case False
  then show ?thesis using assms by (auto simp: increment_def)
qed

lemma increment_known:
  assumes "metrics_inv m" and "c \<in> set COUNTER_NAMES" and "0 \<le> n"
  shows "fst (increment now c n a m) = Inr (dict_get (m_counters m) c 0 + n)"
  using assms by (simp add: increment_def Let_def)

end
