(* ===== verification/Registry.thy ===== *)
theory Registry
  imports Policy
begin

text \<open>
  \<open>PublicRegistry\<close> of \<open>mem_cache/safekv_policy.py\<close>: the byte encoding of a prefix identity and
  of an authorization, issuing, verifying, installing and revoking authorizations.  The digests are
  the fields of \<open>stdlib\<close>; the clock is an argument.
\<close>

section \<open>The registry and its encodings\<close>

record PublicRegistry =
  operator_key :: "byte list"
  reg_policy_epoch :: int
  authorizations :: "(string \<times> PublicAuthorization) list"
  revoked_ids :: "string set"

definition OK :: string where "OK = ''ok''"
definition INVALID_MAC :: string where "INVALID_MAC = ''invalid_mac''"
definition WRONG_MODEL :: string where "WRONG_MODEL = ''wrong_model''"
definition WRONG_TOKENIZER :: string where "WRONG_TOKENIZER = ''wrong_tokenizer''"
definition WRONG_LENGTH :: string where "WRONG_LENGTH = ''wrong_length''"
definition WRONG_FINGERPRINT :: string where "WRONG_FINGERPRINT = ''wrong_fingerprint''"
definition STALE_EPOCH :: string where "STALE_EPOCH = ''stale_epoch''"
definition EXPIRED :: string where "EXPIRED = ''expired''"
definition REVOKED :: string where "REVOKED = ''revoked''"
definition UNKNOWN_OBJECT :: string where "UNKNOWN_OBJECT = ''unknown_object''"
definition OBJECT_MISMATCH :: string where "OBJECT_MISMATCH = ''object_mismatch''"

lemmas reason_defs = OK_def INVALID_MAC_def WRONG_MODEL_def WRONG_TOKENIZER_def WRONG_LENGTH_def
  WRONG_FINGERPRINT_def STALE_EPOCH_def EXPIRED_def REVOKED_def UNKNOWN_OBJECT_def
  OBJECT_MISMATCH_def

definition registry_init :: "byte list \<Rightarrow> int \<Rightarrow> PublicRegistry result" where
  "registry_init key epoch =
     (if key = [] then Inl (ValueError ''operator_key must be non-empty bytes'')
      else Inr \<lparr> operator_key = key, reg_policy_epoch = epoch,
                 authorizations = [], revoked_ids = {} \<rparr>)"

fun encode_tokens :: "int list \<Rightarrow> byte list result" where
  "encode_tokens [] = Inr []"
| "encode_tokens (t # ts) =
     (if t < 0 \<or> t > 0xFFFFFFFFFFFFFFFF
      then Inl (ValueError ''token IDs must be unsigned 64-bit integers'')
      else bindE (encode_tokens ts) (\<lambda>bs. Inr (pack_Q (nat t) @ bs)))"

definition prefix_payload :: "string \<Rightarrow> string \<Rightarrow> int list \<Rightarrow> (byte list \<times> int list) result" where
  "prefix_payload model tok tokens =
     bindE (encode_tokens tokens) (\<lambda>enc.
       Inr (framed (utf8 model) @ framed (utf8 tok) @ pack_Q (length tokens) @ enc, tokens))"

definition authorization_payload ::
  "stdlib \<Rightarrow> string \<Rightarrow> string \<Rightarrow> byte list \<Rightarrow> int \<Rightarrow> pyfloat \<Rightarrow> bool \<Rightarrow> byte list result" where
  "authorization_payload lib object_id iss payload epoch expires rvk =
     bindE (pack_q epoch) (\<lambda>ep.
       Inr (concat (map framed
         [utf8 object_id, utf8 iss, payload, ep, pack_double lib expires,
          [if rvk then 1 else 0]])))"

definition fingerprint :: "stdlib \<Rightarrow> string \<Rightarrow> string \<Rightarrow> int list \<Rightarrow> string result" where
  "fingerprint lib model tok tokens =
     bindE (prefix_payload model tok tokens) (\<lambda>(payload, _). Inr (sha256_hexdigest lib payload))"

text \<open>\<open>hmac.compare_digest\<close> on two \<open>str\<close> arguments refuses text that is not ASCII.\<close>

definition is_ascii :: "string \<Rightarrow> bool" where
  "is_ascii s \<longleftrightarrow> list_all (\<lambda>c. (of_char c :: nat) < 128) s"

definition compare_digest :: "string \<Rightarrow> string \<Rightarrow> bool result" where
  "compare_digest a b = (if is_ascii a \<and> is_ascii b then Inr (a = b) else Inl TypeError)"

section \<open>Operations\<close>

definition issue ::
  "stdlib \<Rightarrow> pyfloat \<Rightarrow> string \<Rightarrow> string \<Rightarrow> string \<Rightarrow> string \<Rightarrow> int list \<Rightarrow> pyfloat \<Rightarrow> int option \<Rightarrow> bool
     \<Rightarrow> PublicRegistry \<Rightarrow> PublicAuthorization result \<times> PublicRegistry" where
  "issue lib time object_id iss model tok token_ids expires epoch_arg rvk reg =
     (if object_id = [] \<or> iss = [] \<or> model = []
      then (Inl (ValueError ''object ID, issuer, and model ID must be non-empty''), reg)
      else case prefix_payload model tok token_ids of
        Inl e \<Rightarrow> (Inl e, reg)
      | Inr (payload, tokens) \<Rightarrow>
          (let epoch = (case epoch_arg of None \<Rightarrow> reg_policy_epoch reg | Some e \<Rightarrow> e)
           in if epoch \<noteq> reg_policy_epoch reg then (Inl (ValueError STALE_EPOCH), reg)
              else if float_le expires time then (Inl (ValueError EXPIRED), reg)
              else case authorization_payload lib object_id iss payload epoch expires rvk of
                Inl e \<Rightarrow> (Inl e, reg)
              | Inr auth_payload \<Rightarrow>
                  (let a = \<lparr> public_object_id = object_id, auth_issuer = iss,
                             auth_model_id = model, auth_tokenizer_version = tok,
                             prefix_token_length = int (length tokens),
                             prefix_fingerprint = sha256_hexdigest lib payload,
                             auth_policy_epoch = epoch, expires_at = expires,
                             auth_revoked = rvk,
                             auth_mac = hmac_sha256_hexdigest lib (operator_key reg) auth_payload \<rparr>
                   in if rvk
                      then (Inr a, reg\<lparr>revoked_ids := insert object_id (revoked_ids reg)\<rparr>)
                      else (Inr a,
                            reg\<lparr>authorizations := dict_set object_id a (authorizations reg),
                                revoked_ids := revoked_ids reg - {object_id}\<rparr>))))"

definition verify_locked ::
  "stdlib \<Rightarrow> pyfloat \<Rightarrow> PublicRegistry \<Rightarrow> PublicAuthorization \<Rightarrow> string \<Rightarrow> string \<Rightarrow> int list
     \<Rightarrow> pyfloat option \<Rightarrow> bool \<Rightarrow> VerificationResult result" where
  "verify_locked lib time reg a model tok token_ids now require_installed =
     bindE (prefix_payload model tok token_ids) (\<lambda>(payload, tokens).
     bindE (authorization_payload lib (public_object_id a) (auth_issuer a) payload
              (auth_policy_epoch a) (expires_at a) (auth_revoked a)) (\<lambda>auth_payload.
     bindE (compare_digest (hmac_sha256_hexdigest lib (operator_key reg) auth_payload)
              (auth_mac a)) (\<lambda>mac_matches.
     if auth_model_id a \<noteq> model then Inr (verification False WRONG_MODEL)
     else if auth_tokenizer_version a \<noteq> tok then Inr (verification False WRONG_TOKENIZER)
     else if prefix_token_length a \<noteq> int (length tokens)
       then Inr (verification False WRONG_LENGTH)
     else bindE (compare_digest (prefix_fingerprint a) (sha256_hexdigest lib payload)) (\<lambda>fp_matches.
       if \<not> fp_matches then Inr (verification False WRONG_FINGERPRINT)
       else if \<not> mac_matches then Inr (verification False INVALID_MAC)
       else if auth_policy_epoch a \<noteq> reg_policy_epoch reg then Inr (verification False STALE_EPOCH)
       else if float_le (expires_at a) (case now of None \<Rightarrow> time | Some t \<Rightarrow> t)
         then Inr (verification False EXPIRED)
       else if auth_revoked a \<or> public_object_id a \<in> revoked_ids reg
         then Inr (verification False REVOKED)
       else if require_installed then
         (case map_of (authorizations reg) (public_object_id a) of
            None \<Rightarrow> Inr (verification False UNKNOWN_OBJECT)
          | Some installed \<Rightarrow>
              if installed \<noteq> a then Inr (verification False OBJECT_MISMATCH)
              else Inr (verification True OK))
       else Inr (verification True OK)))))"

definition verify ::
  "stdlib \<Rightarrow> pyfloat \<Rightarrow> PublicRegistry \<Rightarrow> PublicAuthorization \<Rightarrow> string \<Rightarrow> string \<Rightarrow> int list
     \<Rightarrow> pyfloat option \<Rightarrow> VerificationResult result" where
  "verify lib time reg a model tok token_ids now =
     verify_locked lib time reg a model tok token_ids now True"

definition install ::
  "stdlib \<Rightarrow> pyfloat \<Rightarrow> PublicAuthorization \<Rightarrow> int list \<Rightarrow> string option \<Rightarrow> string option
     \<Rightarrow> pyfloat option \<Rightarrow> PublicRegistry \<Rightarrow> VerificationResult result \<times> PublicRegistry" where
  "install lib time a token_ids model_arg tok_arg now reg =
     (let checked_model = (case model_arg of None \<Rightarrow> auth_model_id a | Some m \<Rightarrow> m);
          checked_tokenizer = (case tok_arg of None \<Rightarrow> auth_tokenizer_version a | Some t \<Rightarrow> t)
      in case verify_locked lib time reg a checked_model checked_tokenizer token_ids now False of
           Inl e \<Rightarrow> (Inl e, reg)
         | Inr r \<Rightarrow>
             (Inr r,
              if valid r
              then reg\<lparr>authorizations := dict_set (public_object_id a) a (authorizations reg)\<rparr>
              else if reason r = REVOKED \<and> auth_revoked a
              then reg\<lparr>revoked_ids := insert (public_object_id a) (revoked_ids reg),
                       authorizations := dict_pop (public_object_id a) (authorizations reg)\<rparr>
              else reg))"

definition revoke :: "string \<Rightarrow> PublicRegistry \<Rightarrow> bool \<times> PublicRegistry" where
  "revoke object_id reg =
     (map_of (authorizations reg) object_id \<noteq> None,
      reg\<lparr>revoked_ids := insert object_id (revoked_ids reg)\<rparr>)"

definition is_revoked :: "PublicRegistry \<Rightarrow> string \<Rightarrow> bool" where
  "is_revoked reg object_id \<longleftrightarrow> object_id \<in> revoked_ids reg"

definition registry_reset :: "int option \<Rightarrow> PublicRegistry \<Rightarrow> PublicRegistry" where
  "registry_reset epoch reg =
     (let reg1 = reg\<lparr>authorizations := [], revoked_ids := {}\<rparr>
      in case epoch of None \<Rightarrow> reg1 | Some e \<Rightarrow> reg1\<lparr>reg_policy_epoch := e\<rparr>)"

definition registry_snapshot ::
  "PublicRegistry \<Rightarrow> int \<times> (string \<times> PublicAuthorization) list \<times> string set" where
  "registry_snapshot reg = (reg_policy_epoch reg, authorizations reg, revoked_ids reg)"

section \<open>The encodings are injective\<close>

lemma encode_tokens_length:
  "encode_tokens ts = Inr bs \<Longrightarrow> length bs = 8 * length ts"
  by (induction ts arbitrary: bs) (auto split: if_splits)

lemma encode_tokens_inj:
  "encode_tokens ts = Inr bs \<Longrightarrow> encode_tokens us = Inr bs \<Longrightarrow> ts = us"
proof (induction ts arbitrary: us bs)
  case Nil
  then show ?case by (cases us) (auto dest: encode_tokens_length split: if_splits)
next
  case (Cons t ts)
  from Cons.prems(1) obtain bt where t: "0 \<le> t" "t \<le> 0xFFFFFFFFFFFFFFFF"
    and bt: "encode_tokens ts = Inr bt" and bs: "bs = pack_Q (nat t) @ bt"
    by (auto split: if_splits)
  from Cons.prems(2) bs obtain u us' where us: "us = u # us'"
    by (cases us) auto
  with Cons.prems(2) obtain bu where u: "0 \<le> u" "u \<le> 0xFFFFFFFFFFFFFFFF"
    and bu: "encode_tokens us' = Inr bu" and bs': "bs = pack_Q (nat u) @ bu"
    by (auto split: if_splits)
  from bs bs' have "pack_Q (nat t) = pack_Q (nat u)" and "bt = bu"
    by simp_all
  moreover have "nat t < u64_bound" "nat u < u64_bound"
    using t u by (simp_all add: u64_bound_def nat_less_iff)
  ultimately have "t = u"
    using pack_Q_inj t u by (metis nat_eq_iff2)
  with Cons.IH[OF bt] bu \<open>bt = bu\<close> us show ?case by simp
qed

lemma prefix_payload_tokens: "prefix_payload m t ts = Inr (p, us) \<Longrightarrow> us = ts"
  by (auto simp: prefix_payload_def)

lemma prefix_payload_inj:
  assumes "prefix_payload m t ts = Inr (p, ts')" and "prefix_payload n u us = Inr (p, us')"
    and "length m < u64_bound" "length t < u64_bound"
    and "length n < u64_bound" "length u < u64_bound"
  shows "m = n \<and> t = u \<and> ts = us"
proof -
  obtain bt where bt: "encode_tokens ts = Inr bt"
    and pt: "p = framed (utf8 m) @ framed (utf8 t) @ pack_Q (length ts) @ bt"
    using assms(1) by (auto simp: prefix_payload_def)
  obtain bu where bu: "encode_tokens us = Inr bu"
    and pu: "p = framed (utf8 n) @ framed (utf8 u) @ pack_Q (length us) @ bu"
    using assms(2) by (auto simp: prefix_payload_def)
  have len: "length (utf8 x) = length x" for x by (simp add: utf8_def)
  from pt pu have 1: "utf8 m = utf8 n \<and>
      framed (utf8 t) @ pack_Q (length ts) @ bt = framed (utf8 u) @ pack_Q (length us) @ bu"
    by (intro framed_append_inj) (simp_all add: len assms)
  then have 2: "utf8 t = utf8 u \<and> pack_Q (length ts) @ bt = pack_Q (length us) @ bu"
    by (intro framed_append_inj) (simp_all add: len assms)
  then have "bt = bu" by simp
  with bt bu 1 2 show ?thesis by (auto dest: encode_tokens_inj)
qed

lemma authorization_payload_inj:
  assumes "authorization_payload lib o1 i1 p1 e1 x1 r1 = Inr bs"
    and "authorization_payload lib o2 i2 p2 e2 x2 r2 = Inr bs"
    and "length o1 < u64_bound" "length i1 < u64_bound" "length p1 < u64_bound"
    and "length o2 < u64_bound" "length i2 < u64_bound" "length p2 < u64_bound"
    and "length (pack_double lib x1) < u64_bound" "length (pack_double lib x2) < u64_bound"
  shows "o1 = o2 \<and> i1 = i2 \<and> p1 = p2 \<and> e1 = e2 \<and> pack_double lib x1 = pack_double lib x2
         \<and> r1 = r2"
proof -
  obtain b1 where b1: "pack_q e1 = Inr b1" and bs1: "bs = framed (utf8 o1) @ framed (utf8 i1) @
      framed p1 @ framed b1 @ framed (pack_double lib x1) @ framed [if r1 then 1 else 0] @ []"
    using assms(1) by (auto simp: authorization_payload_def)
  obtain b2 where b2: "pack_q e2 = Inr b2" and bs2: "bs = framed (utf8 o2) @ framed (utf8 i2) @
      framed p2 @ framed b2 @ framed (pack_double lib x2) @ framed [if r2 then 1 else 0] @ []"
    using assms(2) by (auto simp: authorization_payload_def)
  have len: "length (utf8 x) = length x" for x by (simp add: utf8_def)
  have small: "length b1 < u64_bound" "length b2 < u64_bound" "Suc 0 < u64_bound"
    using length_pack_q[OF b1] length_pack_q[OF b2] by (simp_all add: u64_bound_def)
  note split = framed_append_inj
  have s1: "utf8 o1 = utf8 o2" and t1: "framed (utf8 i1) @ framed p1 @ framed b1 @
      framed (pack_double lib x1) @ framed [if r1 then 1 else 0] @ [] = framed (utf8 i2) @
      framed p2 @ framed b2 @ framed (pack_double lib x2) @ framed [if r2 then 1 else 0] @ []"
    using split[OF trans[OF bs1[symmetric] bs2]] assms by (simp_all add: len)
  have s2: "utf8 i1 = utf8 i2" and t2: "framed p1 @ framed b1 @
      framed (pack_double lib x1) @ framed [if r1 then 1 else 0] @ [] =
      framed p2 @ framed b2 @ framed (pack_double lib x2) @ framed [if r2 then 1 else 0] @ []"
    using split[OF t1] assms by (simp_all add: len)
  have s3: "p1 = p2" and t3: "framed b1 @ framed (pack_double lib x1) @
      framed [if r1 then 1 else 0] @ [] = framed b2 @ framed (pack_double lib x2) @
      framed [if r2 then 1 else 0] @ []"
    using split[OF t2] assms by simp_all
  have s4: "b1 = b2" and t4: "framed (pack_double lib x1) @ framed [if r1 then 1 else 0] @ [] =
      framed (pack_double lib x2) @ framed [if r2 then 1 else 0] @ []"
    using split[OF t3] small by simp_all
  have s5: "pack_double lib x1 = pack_double lib x2"
    and t5: "framed [if r1 then 1 else 0] @ [] = framed [if r2 then 1 else 0] @ []"
    using split[OF t4] assms by simp_all
  have s6: "[if r1 then 1 else 0 :: byte] = [if r2 then 1 else 0]"
    using split[OF t5] small by simp
  have "e1 = e2" using pack_q_inj b1 b2 s4 by blast
  then show ?thesis using s1 s2 s3 s5 s6 by (auto split: if_splits)
qed

section \<open>What an accepted authorization satisfies\<close>

text \<open>
  \<open>verify_locked\<close> accepts exactly when every check passes: the identity fields, the fingerprint
  and the MAC over the payload of the presented tokens, the epoch, the expiry and the revocation
  list, and, when asked for, the installed copy.
\<close>

definition authentic ::
  "stdlib \<Rightarrow> PublicRegistry \<Rightarrow> PublicAuthorization \<Rightarrow> string \<Rightarrow> string \<Rightarrow> int list \<Rightarrow> bool" where
  "authentic lib reg a model tok ts \<longleftrightarrow>
     (case prefix_payload model tok ts of
        Inl _ \<Rightarrow> False
      | Inr (payload, _) \<Rightarrow>
          (case authorization_payload lib (public_object_id a) (auth_issuer a) payload
                  (auth_policy_epoch a) (expires_at a) (auth_revoked a) of
             Inl _ \<Rightarrow> False
           | Inr ap \<Rightarrow>
               auth_model_id a = model \<and> auth_tokenizer_version a = tok \<and>
               prefix_token_length a = int (length ts) \<and>
               prefix_fingerprint a = sha256_hexdigest lib payload \<and>
               auth_mac a = hmac_sha256_hexdigest lib (operator_key reg) ap \<and>
               is_ascii (prefix_fingerprint a) \<and> is_ascii (auth_mac a)))"

lemma authenticE:
  assumes "authentic lib reg a model tok ts"
  obtains p ap where "prefix_payload model tok ts = Inr (p, ts)"
    and "authorization_payload lib (public_object_id a) (auth_issuer a) p
           (auth_policy_epoch a) (expires_at a) (auth_revoked a) = Inr ap"
    and "auth_model_id a = model" "auth_tokenizer_version a = tok"
    and "prefix_token_length a = int (length ts)"
    and "prefix_fingerprint a = sha256_hexdigest lib p"
    and "auth_mac a = hmac_sha256_hexdigest lib (operator_key reg) ap"
    and "is_ascii (sha256_hexdigest lib p)"
    and "is_ascii (hmac_sha256_hexdigest lib (operator_key reg) ap)"
proof -
  from assms obtain p us where p: "prefix_payload model tok ts = Inr (p, us)"
    by (auto simp: authentic_def split: sum.splits)
  then have "us = ts" by (rule prefix_payload_tokens)
  with p assms show thesis
    by (auto simp: authentic_def intro!: that split: sum.splits)
qed

lemma authentic_key:
  "operator_key reg = operator_key reg' \<Longrightarrow>
     authentic lib reg a model tok ts = authentic lib reg' a model tok ts"
  by (auto simp: authentic_def split: sum.splits)

lemma verify_locked_valid_iff:
  "(\<exists>r. verify_locked lib time reg a model tok ts now ri = Inr r \<and> valid r) \<longleftrightarrow>
     authentic lib reg a model tok ts \<and>
     auth_policy_epoch a = reg_policy_epoch reg \<and>
     \<not> float_le (expires_at a) (case now of None \<Rightarrow> time | Some t \<Rightarrow> t) \<and>
     \<not> auth_revoked a \<and> public_object_id a \<notin> revoked_ids reg \<and>
     (ri \<longrightarrow> map_of (authorizations reg) (public_object_id a) = Some a)"
proof (cases "prefix_payload model tok ts")
  case (Inl e)
  then show ?thesis by (simp add: verify_locked_def authentic_def)
next
  case (Inr pt)
  then obtain p where p: "prefix_payload model tok ts = Inr (p, ts)"
    using prefix_payload_tokens by (metis prod.exhaust)
  show ?thesis
  proof (cases "authorization_payload lib (public_object_id a) (auth_issuer a) p
                  (auth_policy_epoch a) (expires_at a) (auth_revoked a)")
    case (Inl e)
    with p show ?thesis by (simp add: verify_locked_def authentic_def)
  next
    case (Inr ap)
    with p show ?thesis
      by (auto simp: verify_locked_def authentic_def compare_digest_def
          split: if_splits option.splits)
  qed
qed

lemma reasons_not_OK:
  "INVALID_MAC \<noteq> OK" "WRONG_MODEL \<noteq> OK" "WRONG_TOKENIZER \<noteq> OK" "WRONG_LENGTH \<noteq> OK"
  "WRONG_FINGERPRINT \<noteq> OK" "STALE_EPOCH \<noteq> OK" "EXPIRED \<noteq> OK" "REVOKED \<noteq> OK"
  "UNKNOWN_OBJECT \<noteq> OK" "OBJECT_MISMATCH \<noteq> OK"
  by (simp_all add: reason_defs)

lemma verify_locked_reason_OK:
  assumes "verify_locked lib time reg a model tok ts now ri = Inr r"
  shows "valid r \<longleftrightarrow> reason r = OK"
  using assms
  by (auto simp: verify_locked_def reasons_not_OK split: if_splits option.splits prod.splits)

lemma verify_locked_revoked:
  assumes "verify_locked lib time reg a model tok ts now ri = Inr r"
    and "is_revoked reg (public_object_id a)"
  shows "\<not> valid r"
  using assms verify_locked_valid_iff[of lib time reg a model tok ts now ri]
  by (auto simp: is_revoked_def)

text \<open>An authentic revocation manifest is recognised as such.\<close>

lemma verify_locked_revocation_manifest:
  assumes "authentic lib reg a model tok ts"
    and "auth_policy_epoch a = reg_policy_epoch reg"
    and "\<not> float_le (expires_at a) (case now of None \<Rightarrow> time | Some t \<Rightarrow> t)"
    and "auth_revoked a"
  shows "verify_locked lib time reg a model tok ts now ri = Inr (verification False REVOKED)"
  using assms(1)
proof (rule authenticE)
qed (use assms in \<open>simp add: verify_locked_def compare_digest_def\<close>)

section \<open>Issuing\<close>

text \<open>Digests are ASCII text: \<open>hexdigest\<close> returns hexadecimal digits.\<close>

definition hex_digests :: "stdlib \<Rightarrow> bool" where
  "hex_digests lib \<longleftrightarrow>
     (\<forall>p. is_ascii (sha256_hexdigest lib p)) \<and> (\<forall>k p. is_ascii (hmac_sha256_hexdigest lib k p))"

lemma issue_result:
  assumes "issue lib time oid iss model tok ts ex ep rvk reg = (Inr a, reg')"
  shows "public_object_id a = oid" "auth_revoked a = rvk" "expires_at a = ex"
    and "auth_policy_epoch a = reg_policy_epoch reg" "\<not> float_le ex time"
    and "operator_key reg' = operator_key reg" "reg_policy_epoch reg' = reg_policy_epoch reg"
    and "rvk \<Longrightarrow> oid \<in> revoked_ids reg'"
    and "\<not> rvk \<Longrightarrow> oid \<notin> revoked_ids reg' \<and> map_of (authorizations reg') oid = Some a"
  using assms by (auto simp: issue_def Let_def split: if_splits sum.splits option.splits)

lemma issue_payload:
  assumes "issue lib time oid iss model tok ts ex ep rvk reg = (Inr a, reg')"
  obtains payload ap where "prefix_payload model tok ts = Inr (payload, ts)"
    and "authorization_payload lib oid iss payload (reg_policy_epoch reg) ex rvk = Inr ap"
    and "auth_mac a = hmac_sha256_hexdigest lib (operator_key reg) ap"
    and "prefix_fingerprint a = sha256_hexdigest lib payload"
    and "auth_issuer a = iss" "auth_model_id a = model" "auth_tokenizer_version a = tok"
    and "prefix_token_length a = int (length ts)"
proof -
  from assms obtain payload us where p: "prefix_payload model tok ts = Inr (payload, us)"
    by (auto simp: issue_def split: if_splits sum.splits)
  then have "us = ts" by (rule prefix_payload_tokens)
  with p assms show thesis
    by (auto simp: issue_def Let_def intro!: that split: if_splits sum.splits option.splits)
qed

lemma issue_authentic:
  assumes "issue lib time oid iss model tok ts ex ep rvk reg = (Inr a, reg')"
    and "hex_digests lib" and "operator_key reg'' = operator_key reg"
  shows "authentic lib reg'' a model tok ts"
proof -
  from issue_payload[OF assms(1)] obtain payload ap where
    *: "prefix_payload model tok ts = Inr (payload, ts)"
      "authorization_payload lib oid iss payload (reg_policy_epoch reg) ex rvk = Inr ap"
      "auth_mac a = hmac_sha256_hexdigest lib (operator_key reg) ap"
      "prefix_fingerprint a = sha256_hexdigest lib payload"
      "auth_issuer a = iss" "auth_model_id a = model" "auth_tokenizer_version a = tok"
      "prefix_token_length a = int (length ts)" .
  then show ?thesis
    using issue_result[OF assms(1)] assms(2,3)
    by (simp add: authentic_def hex_digests_def)
qed

section \<open>Revocation as an interface\<close>

text \<open>
  What the prefix cache relies on: once an object is revoked, the steps a request can cause
  (installing, verifying, revoking) never make it acceptable again.
\<close>

locale revocation =
  fixes step :: "'op \<Rightarrow> 's \<Rightarrow> 's"
    and revoked :: "'s \<Rightarrow> string \<Rightarrow> bool"
    and accepts :: "'s \<Rightarrow> 'a \<Rightarrow> bool"
    and subject_of :: "'a \<Rightarrow> string"
  assumes step_keeps: "revoked s x \<Longrightarrow> revoked (step p s) x"
    and revoked_rejects: "revoked s (subject_of a) \<Longrightarrow> \<not> accepts s a"
begin

lemma run_keeps: "revoked s x \<Longrightarrow> revoked (fold step ps s) x"
  by (induction ps arbitrary: s) (simp_all add: step_keeps)

lemma run_rejects: "revoked s (subject_of a) \<Longrightarrow> \<not> accepts (fold step ps s) a"
  using run_keeps revoked_rejects by blast

end

datatype registry_op =
    OpVerify pyfloat PublicAuthorization string string "int list" "pyfloat option"
  | OpInstall pyfloat PublicAuthorization "int list" "string option" "string option" "pyfloat option"
  | OpRevoke string

fun registry_step :: "stdlib \<Rightarrow> registry_op \<Rightarrow> PublicRegistry \<Rightarrow> PublicRegistry" where
  "registry_step lib (OpVerify time a model tok ts now) reg = reg"
| "registry_step lib (OpInstall time a ts model tok now) reg =
     snd (install lib time a ts model tok now reg)"
| "registry_step lib (OpRevoke oid) reg = snd (revoke oid reg)"

definition accepts_install ::
  "stdlib \<Rightarrow> pyfloat \<Rightarrow> int list \<Rightarrow> string option \<Rightarrow> string option \<Rightarrow> pyfloat option
     \<Rightarrow> PublicRegistry \<Rightarrow> PublicAuthorization \<Rightarrow> bool" where
  "accepts_install lib time ts model tok now reg a \<longleftrightarrow>
     (case fst (install lib time a ts model tok now reg) of Inl _ \<Rightarrow> False | Inr r \<Rightarrow> valid r)"

lemma install_keeps_revoked:
  "is_revoked reg x \<Longrightarrow> is_revoked (snd (install lib time a ts model tok now reg)) x"
  by (auto simp: install_def is_revoked_def Let_def split: sum.splits)

lemma registry_step_keeps_revoked:
  "is_revoked reg x \<Longrightarrow> is_revoked (registry_step lib p reg) x"
  by (cases p) (simp_all add: install_keeps_revoked, simp add: revoke_def is_revoked_def)

lemma install_valid_iff:
  "accepts_install lib time ts model tok now reg a \<longleftrightarrow>
     (\<exists>r. verify_locked lib time reg a
            (case model of None \<Rightarrow> auth_model_id a | Some m \<Rightarrow> m)
            (case tok of None \<Rightarrow> auth_tokenizer_version a | Some t \<Rightarrow> t) ts now False = Inr r
          \<and> valid r)"
  by (auto simp: accepts_install_def install_def Let_def split: sum.splits)

lemma revoked_not_installed:
  "is_revoked reg (public_object_id a) \<Longrightarrow> \<not> accepts_install lib time ts model tok now reg a"
  by (auto simp: install_valid_iff dest: verify_locked_revoked)

interpretation reg: revocation
  "registry_step lib" is_revoked "accepts_install lib time ts model tok now" public_object_id
  by unfold_locales (simp_all add: registry_step_keeps_revoked revoked_not_installed)

section \<open>A concrete library for examples\<close>

text \<open>Digests that print the bytes in hexadecimal: enough to run the encodings on small inputs.\<close>

definition nibble :: "nat \<Rightarrow> char" where
  "nibble n = (if n < 10 then char_of (48 + n) else char_of (87 + n mod 16))"

definition hexdump :: "byte list \<Rightarrow> string" where
  "hexdump bs = concat (map (\<lambda>b. [nibble (unat b div 16), nibble (unat b mod 16)]) bs)"

definition demo_lib :: stdlib where
  "demo_lib =
     \<lparr> sha256_hexdigest = hexdump,
       hmac_sha256_hexdigest = (\<lambda>k p. hexdump (k @ p)),
       pack_double = (\<lambda>f. case f of Fin r \<Rightarrow> be_bytes 8 (nat \<lfloor>r\<rfloor>) | _ \<Rightarrow> be_bytes 8 0),
       float_of_int = (\<lambda>i. Inr (Fin (of_int i))),
       float_of_str = (\<lambda>s. Inl (ValueError s)),
       str_of = (\<lambda>v. ''?'') \<rparr>"

definition demo_registry :: PublicRegistry where
  "demo_registry =
     \<lparr> operator_key = [1, 2], reg_policy_epoch = 1, authorizations = [], revoked_ids = {} \<rparr>"

lemma nibble_ascii: "(of_char (nibble n) :: nat) < 128"
  by (auto simp: nibble_def)

lemma hexdump_ascii: "is_ascii (hexdump bs)"
  by (auto simp: is_ascii_def hexdump_def list_all_iff nibble_ascii)

lemma demo_lib_hex: "hex_digests demo_lib"
  by (simp add: hex_digests_def demo_lib_def hexdump_ascii)

definition demo_issue :: "PublicAuthorization result \<times> PublicRegistry" where
  "demo_issue =
     issue demo_lib (Fin 0) ''doc'' ''op'' ''m'' ''t'' [5, 6] (Fin 10) None False demo_registry"

lemma demo_issue_Inr: "\<exists>a reg'. demo_issue = (Inr a, reg')"
  by (simp add: demo_issue_def issue_def demo_registry_def prefix_payload_def
      authorization_payload_def pack_q_def Let_def)

section \<open>Properties\<close>






text \<open>
  Resetting the registry forgets revocations.  An authorization that was acceptable before its
  object was revoked is acceptable again after \<open>reset()\<close> without a new epoch, which is the call
  \<open>RadixCache.reset\<close> makes on every cache flush.
\<close>

theorem reset_readmits_revoked:
  assumes "accepts_install lib time ts model tok now reg a"
  shows "accepts_install lib time ts model tok now
           (registry_reset None (snd (revoke (public_object_id a) reg))) a"
proof -
  let ?reg' = "registry_reset None (snd (revoke (public_object_id a) reg))"
  have "operator_key ?reg' = operator_key reg" "reg_policy_epoch ?reg' = reg_policy_epoch reg"
    "revoked_ids ?reg' = {}"
    by (simp_all add: registry_reset_def revoke_def Let_def)
  with assms authentic_key[of ?reg' reg] show ?thesis
    by (simp add: install_valid_iff verify_locked_valid_iff)
qed

theorem reset_readmits_revoked_witness:
  "\<exists>a reg'. demo_issue = (Inr a, reg') \<and>
     accepts_install demo_lib (Fin 3) [5, 6] None None None reg' a \<and>
     accepts_install demo_lib (Fin 3) [5, 6] None None None
       (registry_reset None (snd (revoke (public_object_id a) reg'))) a"
proof -
  obtain a reg' where di: "demo_issue = (Inr a, reg')" using demo_issue_Inr by blast
  note i = di[unfolded demo_issue_def]
  have m: "auth_model_id a = ''m''" "auth_tokenizer_version a = ''t''"
    using issue_payload[OF i] by blast+
  have "authentic demo_lib reg' a ''m'' ''t'' [5, 6]"
    by (rule issue_authentic[OF i demo_lib_hex]) (rule issue_result(6)[OF i])
  then have ok: "accepts_install demo_lib (Fin 3) [5, 6] None None None reg' a"
    using issue_result[OF i] m
    by (auto simp: install_valid_iff verify_locked_valid_iff)
  show ?thesis using reset_readmits_revoked[OF ok] ok di by blast
qed

text \<open>
  An authorization whose epoch does not fit 64 bits makes the verifier raise.  \<open>struct.pack\<close>
  fails before any check, so \<open>install\<close> raises instead of returning a reason code, whatever the
  registry holds and without any knowledge of the operator key.
\<close>

theorem oversized_epoch_raises:
  assumes "prefix_payload (case model of None \<Rightarrow> auth_model_id a | Some m \<Rightarrow> m)
             (case tok of None \<Rightarrow> auth_tokenizer_version a | Some t \<Rightarrow> t) ts = Inr p"
    and "2 ^ 63 \<le> auth_policy_epoch a"
  shows "install lib time a ts model tok now reg = (Inl StructError, reg)"
proof -
  have "pack_q (auth_policy_epoch a) = Inl StructError"
    using assms(2) by (simp add: pack_q_def)
  then show ?thesis
    using assms(1) by (cases p) (simp add: install_def verify_locked_def authorization_payload_def)
qed

theorem oversized_epoch_raises_witness:
  "install demo_lib (Fin 0)
     \<lparr> public_object_id = ''doc'', auth_issuer = ''x'', auth_model_id = ''m'',
       auth_tokenizer_version = ''t'', prefix_token_length = 1, prefix_fingerprint = ''f'',
       auth_policy_epoch = 2 ^ 70, expires_at = Fin 9, auth_revoked = False, auth_mac = ''0'' \<rparr>
     [7] (Some ''m'') (Some ''t'') None demo_registry = (Inl StructError, demo_registry)"
  by (rule oversized_epoch_raises[where p = "(framed (utf8 ''m'') @ framed (utf8 ''t'') @
        pack_Q 1 @ pack_Q 7, [7])"])
     (simp_all add: prefix_payload_def)

end
