(* ===== verification/Ledger.thy ===== *)
theory Ledger
  imports Prelude
begin

text \<open>
  \<open>DurableLedger\<close> of \<open>mem_cache/safekv_policy.py\<close>: the cross-tenant hit counters, in memory or
  backed by one JSON file that several worker processes share under an advisory lock.  The file is
  an explicit value that every operation reads and returns; what the environment decides (whether
  the lock file can be opened, whether writing succeeds) is the record \<open>ledger_io\<close>.
\<close>

section \<open>State\<close>

text \<open>
  The backing file: absent, not loadable as a dictionary of integers (with the exception text), or
  holding the stored dictionary.
\<close>

datatype ledger_file = NoFile | Unreadable string | Stored "(string \<times> int) list"

record DurableLedger =
  l_path :: "string option"
  l_store :: "(string \<times> int) list"
  l_available :: bool
  l_ready :: bool
  l_load_error :: "string option"

record ledger_io =
  lock_opens :: bool
  save_error :: "string option"

definition io_ok :: ledger_io where
  "io_ok = \<lparr> lock_opens = True, save_error = None \<rparr>"

section \<open>Operations\<close>

definition ledger_load :: "ledger_file \<Rightarrow> DurableLedger \<Rightarrow> DurableLedger" where
  "ledger_load disk l =
     (case disk of
        Stored d \<Rightarrow> l\<lparr>l_store := d, l_ready := True, l_load_error := None\<rparr>
      | NoFile \<Rightarrow> l\<lparr>l_ready := True, l_load_error := None\<rparr>
      | Unreadable e \<Rightarrow> l\<lparr>l_ready := False, l_load_error := Some e\<rparr>)"

definition ledger_init :: "string option \<Rightarrow> ledger_file \<Rightarrow> DurableLedger" where
  "ledger_init path disk =
     (let l = \<lparr> l_path = path, l_store = [], l_available = True, l_ready = True,
                l_load_error = None \<rparr>
      in if path \<noteq> None then ledger_load disk l else l)"

definition is_operational :: "DurableLedger \<Rightarrow> bool" where
  "is_operational l \<longleftrightarrow> l_available l \<and> l_ready l"

definition load_error :: "DurableLedger \<Rightarrow> string option" where
  "load_error l = l_load_error l"

definition set_available :: "bool \<Rightarrow> DurableLedger \<Rightarrow> DurableLedger" where
  "set_available b l = l\<lparr>l_available := b\<rparr>"

definition process_lock :: "ledger_io \<Rightarrow> DurableLedger \<Rightarrow> unit result" where
  "process_lock io l = (if l_path l = None \<or> lock_opens io then Inr () else Inl OSError)"

definition reload_locked :: "ledger_file \<Rightarrow> DurableLedger \<Rightarrow> bool \<times> DurableLedger" where
  "reload_locked disk l =
     (if l_path l = None then (True, l)
      else case disk of
        Stored d \<Rightarrow> (True, l\<lparr>l_store := d, l_ready := True, l_load_error := None\<rparr>)
      | NoFile \<Rightarrow> (True, l\<lparr>l_store := [], l_ready := True, l_load_error := None\<rparr>)
      | Unreadable e \<Rightarrow> (False, l\<lparr>l_ready := False, l_load_error := Some e\<rparr>))"

definition save_locked :: "ledger_io \<Rightarrow> DurableLedger \<Rightarrow> ledger_file \<Rightarrow> unit result \<times> ledger_file" where
  "save_locked io l disk =
     (if l_path l = None then (Inr (), disk)
      else case save_error io of
        None \<Rightarrow> (Inr (), Stored (l_store l))
      | Some e \<Rightarrow> (Inl (RuntimeError e), disk))"

definition reserve_hit ::
  "ledger_io \<Rightarrow> string \<Rightarrow> int \<Rightarrow> DurableLedger \<Rightarrow> ledger_file
     \<Rightarrow> (bool \<times> int \<times> string) result \<times> DurableLedger \<times> ledger_file" where
  "reserve_hit io fp budget l disk =
     (if budget \<le> 0 then (Inl (ValueError ''budget must be positive''), l, disk)
      else if \<not> l_available l
        then (Inr (False, dict_get (l_store l) fp 0, ''unavailable''), l, disk)
      else if \<not> l_ready l
        then (Inr (False, dict_get (l_store l) fp 0, ''recovery_incomplete''), l, disk)
      else case process_lock io l of
        Inl e \<Rightarrow> (Inl e, l, disk)
      | Inr _ \<Rightarrow>
          (case reload_locked disk l of
             (False, l1) \<Rightarrow>
               (Inr (False, dict_get (l_store l1) fp 0, ''recovery_incomplete''), l1, disk)
           | (True, l1) \<Rightarrow>
               (let current = dict_get (l_store l1) fp 0
                in if current \<ge> budget then (Inr (False, current, ''exhausted''), l1, disk)
                   else
                     (let l2 = l1\<lparr>l_store := dict_set fp (current + 1) (l_store l1)\<rparr>
                      in case save_locked io l2 disk of
                           (Inl e, disk') \<Rightarrow>
                             (Inr (False, current, ''persist_failed''),
                              l2\<lparr>l_store := dict_set fp current (l_store l2), l_ready := False,
                                 l_load_error := save_error io\<rparr>, disk')
                         | (Inr _, disk') \<Rightarrow> (Inr (True, current + 1, ''ok''), l2, disk')))))"

definition refresh :: "ledger_io \<Rightarrow> DurableLedger \<Rightarrow> ledger_file \<Rightarrow> DurableLedger result" where
  "refresh io l disk =
     (if l_path l \<noteq> None \<and> l_available l \<and> l_ready l
      then bindE (process_lock io l) (\<lambda>_. Inr (snd (reload_locked disk l)))
      else Inr l)"

definition charged_hits ::
  "ledger_io \<Rightarrow> string \<Rightarrow> DurableLedger \<Rightarrow> ledger_file \<Rightarrow> int result \<times> DurableLedger" where
  "charged_hits io fp l disk =
     (case refresh io l disk of
        Inl e \<Rightarrow> (Inl e, l)
      | Inr l1 \<Rightarrow> (Inr (dict_get (l_store l1) fp 0), l1))"

definition add_hits ::
  "ledger_io \<Rightarrow> string \<Rightarrow> int \<Rightarrow> bool \<Rightarrow> DurableLedger \<Rightarrow> ledger_file
     \<Rightarrow> int result \<times> DurableLedger \<times> ledger_file" where
  "add_hits io fp hits persist l disk =
     (if hits < 0 then (Inl (ValueError ''hits must be non-negative''), l, disk)
      else
        (let new_total = dict_get (l_store l) fp 0 + hits;
             l1 = l\<lparr>l_store := dict_set fp new_total (l_store l)\<rparr>
         in if persist
            then (case process_lock io l1 of
                    Inl e \<Rightarrow> (Inl e, l1, disk)
                  | Inr _ \<Rightarrow>
                      (case save_locked io l1 disk of
                         (Inl e, disk') \<Rightarrow> (Inl e, l1, disk')
                       | (Inr _, disk') \<Rightarrow> (Inr new_total, l1, disk')))
            else (Inr new_total, l1, disk)))"

definition merge_pending ::
  "(string \<times> int) list \<Rightarrow> (string \<times> int) list \<Rightarrow> (string \<times> int) list" where
  "merge_pending pending store =
     fold (\<lambda>(fp, hits) st. dict_set fp (max hits (dict_get st fp 0)) st) pending store"

definition ledger_flush ::
  "ledger_io \<Rightarrow> DurableLedger \<Rightarrow> ledger_file \<Rightarrow> unit result \<times> DurableLedger \<times> ledger_file" where
  "ledger_flush io l disk =
     (if \<not> l_available l \<or> \<not> l_ready l then (Inr (), l, disk)
      else case process_lock io l of
        Inl e \<Rightarrow> (Inl e, l, disk)
      | Inr _ \<Rightarrow>
          (let pending = l_store l
           in case reload_locked disk l of
                (False, l1) \<Rightarrow> (Inr (), l1, disk)
              | (True, l1) \<Rightarrow>
                  (let l2 = l1\<lparr>l_store := merge_pending pending (l_store l1)\<rparr>;
                       (r, disk') = save_locked io l2 disk
                   in (r, l2, disk'))))"

definition ledger_reset ::
  "ledger_io \<Rightarrow> DurableLedger \<Rightarrow> ledger_file \<Rightarrow> unit result \<times> DurableLedger \<times> ledger_file" where
  "ledger_reset io l disk =
     (case process_lock io l of
        Inl e \<Rightarrow> (Inl e, l, disk)
      | Inr _ \<Rightarrow>
          (let l1 = l\<lparr>l_store := [], l_ready := True, l_load_error := None\<rparr>;
               (r, disk') = save_locked io l1 disk
           in (r, l1, disk')))"

definition ledger_snapshot ::
  "ledger_io \<Rightarrow> DurableLedger \<Rightarrow> ledger_file \<Rightarrow> (string \<times> int) list result \<times> DurableLedger" where
  "ledger_snapshot io l disk =
     (case refresh io l disk of
        Inl e \<Rightarrow> (Inl e, l)
      | Inr l1 \<Rightarrow> (Inr (l_store l1), l1))"

lemmas ledger_op_defs = reserve_hit_def charged_hits_def refresh_def ledger_flush_def
  ledger_snapshot_def set_available_def reload_locked_def process_lock_def save_locked_def

section \<open>Reading the file\<close>

fun file_count :: "ledger_file \<Rightarrow> string \<Rightarrow> int" where
  "file_count (Stored d) k = dict_get d k 0"
| "file_count NoFile k = 0"
| "file_count (Unreadable e) k = 0"

fun wf_file :: "ledger_file \<Rightarrow> bool" where
  "wf_file (Stored d) = distinct (map fst d)"
| "wf_file NoFile = True"
| "wf_file (Unreadable e) = False"

lemma merge_pending_get:
  "distinct (map fst p) \<Longrightarrow>
     dict_get (merge_pending p st) k 0 =
       (if k \<in> fst ` set p then max (dict_get p k 0) (dict_get st k 0) else dict_get st k 0)"
proof (induction p arbitrary: st)
  case (Cons x p)
  obtain k' v where x: "x = (k', v)" by (cases x)
  have "dict_get ((k', v) # p) k 0 = (if k = k' then v else dict_get p k 0)"
    by (simp add: dict_get_def)
  moreover have "merge_pending (x # p) st =
      merge_pending p (dict_set k' (max v (dict_get st k' 0)) st)"
    by (simp add: merge_pending_def x)
  ultimately show ?case
    using Cons.IH[of "dict_set k' (max v (dict_get st k' 0)) st"] Cons.prems
    by (auto simp: x)
qed (simp add: merge_pending_def)

lemma merge_pending_distinct:
  "distinct (map fst st) \<Longrightarrow> distinct (map fst (merge_pending p st))"
  by (induction p arbitrary: st)
     (auto simp: merge_pending_def case_prod_beta intro: distinct_keys_dict_set)

section \<open>Processes sharing one ledger file\<close>

text \<open>
  A process keeps a copy of the counters.  It is in step with the file when its copy is a
  dictionary and no counter of it exceeds the file's.
\<close>

definition in_step :: "ledger_file \<Rightarrow> DurableLedger \<Rightarrow> bool" where
  "in_step disk l \<longleftrightarrow>
     l_path l \<noteq> None \<and> distinct (map fst (l_store l)) \<and>
     (\<forall>k. dict_get (l_store l) k 0 \<le> file_count disk k)"

definition within_budget :: "int \<Rightarrow> ledger_file \<Rightarrow> bool" where
  "within_budget B disk \<longleftrightarrow> wf_file disk \<and> (\<forall>k. 0 \<le> file_count disk k \<and> file_count disk k \<le> B)"

definition file_le :: "ledger_file \<Rightarrow> ledger_file \<Rightarrow> bool" where
  "file_le f g \<longleftrightarrow> (\<forall>k. file_count f k \<le> file_count g k)"

lemma file_le_refl [simp]: "file_le f f"
  by (simp add: file_le_def)

lemma in_step_mono: "in_step f l \<Longrightarrow> file_le f g \<Longrightarrow> in_step g l"
  by (auto simp: in_step_def file_le_def intro: order_trans)

lemma reload_in_step:
  assumes "wf_file disk" and "l_path l \<noteq> None"
  shows "\<exists>l1. reload_locked disk l = (True, l1) \<and> in_step disk l1 \<and> l_path l1 = l_path l \<and>
           (\<forall>k. dict_get (l_store l1) k 0 = file_count disk k)"
  using assms by (cases disk) (auto simp: reload_locked_def in_step_def)

lemma ledger_init_in_step:
  "wf_file disk \<Longrightarrow> in_step disk (ledger_init (Some p) disk)"
  by (cases disk) (auto simp: ledger_init_def ledger_load_def in_step_def Let_def)

datatype ledger_op =
    Reserve string ledger_io
  | ChargedHits string ledger_io
  | Flush ledger_io
  | Snapshot ledger_io
  | SetAvailable bool
  | Restart

text \<open>
  One operation of one process: which fingerprint was served, if any, the process's ledger and the
  file afterwards.  A restart throws the process's copy away and loads the file.
\<close>

fun proc_step ::
  "int \<Rightarrow> ledger_op \<Rightarrow> DurableLedger \<Rightarrow> ledger_file \<Rightarrow> string option \<times> DurableLedger \<times> ledger_file" where
  "proc_step B (Reserve fp io) l disk =
     (case reserve_hit io fp B l disk of
        (Inr (True, _, _), l', disk') \<Rightarrow> (Some fp, l', disk')
      | (_, l', disk') \<Rightarrow> (None, l', disk'))"
| "proc_step B (ChargedHits fp io) l disk = (None, snd (charged_hits io fp l disk), disk)"
| "proc_step B (Flush io) l disk = (None, snd (ledger_flush io l disk))"
| "proc_step B (Snapshot io) l disk = (None, snd (ledger_snapshot io l disk), disk)"
| "proc_step B (SetAvailable b) l disk = (None, set_available b l, disk)"
| "proc_step B Restart l disk = (None, ledger_init (l_path l) disk, disk)"

text \<open>What one operation of one process guarantees to all of them.\<close>

definition good_step ::
  "int \<Rightarrow> ledger_file \<Rightarrow> string option \<times> DurableLedger \<times> ledger_file \<Rightarrow> bool" where
  "good_step B disk r \<longleftrightarrow>
     (case r of (served, l', disk') \<Rightarrow>
        within_budget B disk' \<and> in_step disk' l' \<and> file_le disk disk' \<and>
        (\<forall>k. served = Some k \<longrightarrow> file_count disk' k = file_count disk k + 1))"

lemma refresh_in_step:
  assumes "in_step disk l" and "wf_file disk" and "refresh io l disk = Inr l1"
  shows "in_step disk l1"
proof (cases "l_available l \<and> l_ready l")
  case True
  then show ?thesis
    using assms reload_in_step[of disk l]
    by (auto simp: refresh_def in_step_def)
qed (use assms in \<open>auto simp: refresh_def split: if_splits\<close>)

lemma reserve_good:
  assumes "in_step disk l" and "within_budget B disk"
  shows "good_step B disk (proc_step B (Reserve fp io) l disk)"
proof (cases "B \<le> 0 \<or> \<not> l_available l \<or> \<not> l_ready l \<or> \<not> lock_opens io")
  case True
  then show ?thesis
    using assms by (auto simp: reserve_hit_def good_step_def process_lock_def in_step_def)
next
  case False
  have path: "l_path l \<noteq> None" and wf: "wf_file disk"
    using assms by (auto simp: in_step_def within_budget_def)
  obtain l1 where l1: "reload_locked disk l = (True, l1)" "in_step disk l1" "l_path l1 = l_path l"
    and eq: "\<And>k. dict_get (l_store l1) k 0 = file_count disk k"
    using reload_in_step[OF wf path] by blast
  show ?thesis
  proof (cases "file_count disk fp \<ge> B")
    case True
    then show ?thesis
      using False l1 eq assms by (simp add: reserve_hit_def process_lock_def good_step_def)
  next
    case lt: False
    let ?st = "dict_set fp (file_count disk fp + 1) (l_store l1)"
    have dist: "distinct (map fst ?st)"
      using l1(2) by (auto simp: in_step_def intro: distinct_keys_dict_set)
    have nn: "0 \<le> file_count disk k" "file_count disk k \<le> B" for k
      using assms(2) by (auto simp: within_budget_def)
    show ?thesis
    proof (cases "save_error io")
      case None
      have cnt: "file_count (Stored ?st) k = (if k = fp then file_count disk k + 1 else file_count disk k)"
        for k by (simp add: eq)
      have "within_budget B (Stored ?st)"
        using lt nn dist cnt by (auto simp: within_budget_def)
      then show ?thesis
        using False lt None l1 eq path dist cnt
        by (simp add: reserve_hit_def process_lock_def save_locked_def good_step_def in_step_def
            file_le_def Let_def)
    next
      case (Some e)
      then show ?thesis
        using False lt l1 eq path dist assms(2) nn
        by (auto simp: reserve_hit_def process_lock_def save_locked_def good_step_def in_step_def
            Let_def intro: distinct_keys_dict_set)
    qed
  qed
qed

lemma flush_good:
  assumes "in_step disk l" and "within_budget B disk"
  shows "good_step B disk (proc_step B (Flush io) l disk)"
proof (cases "l_available l \<and> l_ready l \<and> lock_opens io")
  case False
  then show ?thesis
    using assms by (auto simp: ledger_flush_def good_step_def process_lock_def in_step_def)
next
  case True
  have path: "l_path l \<noteq> None" and wf: "wf_file disk" and dl: "distinct (map fst (l_store l))"
    and le: "\<And>k. dict_get (l_store l) k 0 \<le> file_count disk k"
    using assms by (auto simp: in_step_def within_budget_def)
  obtain l1 where l1: "reload_locked disk l = (True, l1)" "in_step disk l1" "l_path l1 = l_path l"
    and eq: "\<And>k. dict_get (l_store l1) k 0 = file_count disk k"
    using reload_in_step[OF wf path] by blast
  let ?st = "merge_pending (l_store l) (l_store l1)"
  have dist: "distinct (map fst ?st)"
    using l1(2) by (auto simp: in_step_def intro: merge_pending_distinct)
  have cnt: "dict_get ?st k 0 = file_count disk k" for k
    using le[of k] by (simp add: merge_pending_get[OF dl] eq max_def)
  show ?thesis
    using True path l1 dist cnt assms(2)
    by (cases "save_error io")
       (simp_all add: ledger_flush_def process_lock_def save_locked_def good_step_def in_step_def
         within_budget_def file_le_def Let_def)
qed

lemma proc_step_good:
  assumes "in_step disk l" and "within_budget B disk"
  shows "good_step B disk (proc_step B p l disk)"
proof (cases p)
  case (Reserve fp io)
  then show ?thesis using reserve_good[OF assms] by simp
next
  case (Flush io)
  then show ?thesis using flush_good[OF assms] by simp
next
  case (ChargedHits fp io)
  then show ?thesis
    using assms refresh_in_step[of disk l io]
    by (auto simp: good_step_def charged_hits_def within_budget_def split: sum.splits)
next
  case (Snapshot io)
  then show ?thesis
    using assms refresh_in_step[of disk l io]
    by (auto simp: good_step_def ledger_snapshot_def within_budget_def split: sum.splits)
next
  case (SetAvailable b)
  then show ?thesis using assms by (simp add: good_step_def in_step_def set_available_def)
next
  case Restart
  then show ?thesis
    using assms ledger_init_in_step[of disk]
    by (auto simp: good_step_def within_budget_def in_step_def[of disk l])
qed

section \<open>The budget contract\<close>

text \<open>
  A machine whose steps may serve a key keeps a budget when every served step is charged, charges
  never go down and never exceed the bound.  The client's conclusion is proved once here: over any
  run, a key is served at most as often as its remaining budget.
\<close>

fun served_count :: "('p \<Rightarrow> 's \<Rightarrow> 'k option \<times> 's) \<Rightarrow> 'k \<Rightarrow> 'p list \<Rightarrow> 's \<Rightarrow> nat" where
  "served_count step k [] s = 0"
| "served_count step k (p # ps) s =
     (case step p s of (r, s') \<Rightarrow> (if r = Some k then 1 else 0) + served_count step k ps s')"

fun run_machine :: "('p \<Rightarrow> 's \<Rightarrow> 'k option \<times> 's) \<Rightarrow> 'p list \<Rightarrow> 's \<Rightarrow> 's" where
  "run_machine step [] s = s"
| "run_machine step (p # ps) s = run_machine step ps (snd (step p s))"

locale budget_machine =
  fixes step :: "'p \<Rightarrow> 's \<Rightarrow> 'k option \<times> 's"
    and charged :: "'s \<Rightarrow> 'k \<Rightarrow> int"
    and ok :: "'s \<Rightarrow> bool"
    and B :: int
  assumes ok_step: "ok s \<Longrightarrow> ok (snd (step p s))"
    and charge: "ok s \<Longrightarrow> fst (step p s) = Some k \<Longrightarrow> charged (snd (step p s)) k \<ge> charged s k + 1"
    and mono: "ok s \<Longrightarrow> charged s k \<le> charged (snd (step p s)) k"
    and bounded: "ok s \<Longrightarrow> charged s k \<le> B"
begin

lemma served_le_charged:
  "ok s \<Longrightarrow> int (served_count step k ps s) \<le> charged (run_machine step ps s) k - charged s k"
proof (induction ps arbitrary: s)
  case (Cons p ps)
  obtain r s' where rs: "step p s = (r, s')" by fastforce
  with Cons.prems ok_step[of s p] have "ok s'" by simp
  from Cons.IH[OF this] show ?case
    using charge[OF Cons.prems, of p k] mono[OF Cons.prems, of k p] by (auto simp: rs)
qed simp

lemma ok_run: "ok s \<Longrightarrow> ok (run_machine step ps s)"
  by (induction ps arbitrary: s) (simp_all add: ok_step)

lemma served_le_budget: "ok s \<Longrightarrow> int (served_count step k ps s) \<le> B - charged s k"
  using served_le_charged[of s k ps] bounded[OF ok_run[of s ps], of k] by simp

end

record cluster =
  procs :: "DurableLedger list"
  c_disk :: ledger_file

definition cluster_step :: "int \<Rightarrow> nat \<times> ledger_op \<Rightarrow> cluster \<Rightarrow> string option \<times> cluster" where
  "cluster_step B ip c =
     (case ip of (i, p) \<Rightarrow>
        if i < length (procs c)
        then (case proc_step B p (procs c ! i) (c_disk c) of
                (served, l', disk') \<Rightarrow> (served, c\<lparr>procs := (procs c)[i := l'], c_disk := disk'\<rparr>))
        else (None, c))"

definition cluster_inv :: "int \<Rightarrow> cluster \<Rightarrow> bool" where
  "cluster_inv B c \<longleftrightarrow> within_budget B (c_disk c) \<and> (\<forall>l \<in> set (procs c). in_step (c_disk c) l)"

definition cluster_init :: "nat \<Rightarrow> string \<Rightarrow> cluster" where
  "cluster_init n path = \<lparr> procs = replicate n (ledger_init (Some path) NoFile), c_disk = NoFile \<rparr>"

lemma cluster_inv_init: "0 \<le> B \<Longrightarrow> cluster_inv B (cluster_init n path)"
  by (auto simp: cluster_inv_def cluster_init_def within_budget_def ledger_init_in_step)

lemma cluster_step_good:
  assumes "cluster_inv B c" and "cluster_step B ip c = (r, c')"
  shows "cluster_inv B c' \<and> file_le (c_disk c) (c_disk c') \<and>
         (\<forall>k. r = Some k \<longrightarrow> file_count (c_disk c') k = file_count (c_disk c) k + 1)"
proof -
  obtain i p where ip: "ip = (i, p)" by (cases ip)
  show ?thesis
  proof (cases "i < length (procs c)")
    case True
    obtain served l' disk' where ps: "proc_step B p (procs c ! i) (c_disk c) = (served, l', disk')"
      using prod_cases3 by blast
    have "in_step (c_disk c) (procs c ! i)" "within_budget B (c_disk c)"
      using assms(1) True by (auto simp: cluster_inv_def)
    from proc_step_good[OF this, of p] have
      good: "within_budget B disk'" "in_step disk' l'" "file_le (c_disk c) disk'"
        "\<And>k. served = Some k \<Longrightarrow> file_count disk' k = file_count (c_disk c) k + 1"
      by (auto simp: good_step_def ps)
    have "in_step disk' l" if "l \<in> set ((procs c)[i := l'])" for l
      using set_update_subset_insert[of "procs c" i l'] that assms(1) good(2,3)
      by (auto simp: cluster_inv_def intro: in_step_mono)
    then show ?thesis
      using assms(2) good ps True by (auto simp: cluster_step_def ip cluster_inv_def)
  next
    case False
    then show ?thesis using assms by (auto simp: cluster_step_def ip)
  qed
qed

interpretation cluster: budget_machine
  "cluster_step B" "\<lambda>c. file_count (c_disk c)" "cluster_inv B" B
proof
  fix c p k
  assume c: "cluster_inv B c"
  obtain r c' where rc: "cluster_step B p c = (r, c')" by fastforce
  note good = cluster_step_good[OF c rc]
  show "cluster_inv B (snd (cluster_step B p c))" using good rc by simp
  show "file_count (c_disk c) k \<le> file_count (c_disk (snd (cluster_step B p c))) k"
    using good rc by (simp add: file_le_def)
  show "file_count (c_disk c) k \<le> B" using c by (simp add: cluster_inv_def within_budget_def)
  show "file_count (c_disk c) k + 1 \<le> file_count (c_disk (snd (cluster_step B p c))) k"
    if "fst (cluster_step B p c) = Some k"
    using that good rc by simp
qed

section \<open>Properties\<close>

text \<open>
  C17: all processes together serve a fingerprint at most \<open>budget\<close> times.  Any number of worker
  processes share one ledger file; they reserve, read, flush, toggle availability, fail to lock or
  to write, and restart, in any interleaving.  The number of accepted reservations of a fingerprint
  never exceeds the access budget.
\<close>

theorem cluster_serves_at_most_budget:
  "served_count (cluster_step (int budget)) fp ps (cluster_init n path) \<le> budget"
proof -
  have "int (served_count (cluster_step (int budget)) fp ps (cluster_init n path)) \<le>
      int budget - file_count (c_disk (cluster_init n path)) fp"
    by (rule cluster.served_le_budget) (simp add: cluster_inv_init)
  then show ?thesis by (simp add: cluster_init_def)
qed

text \<open>
  A reservation is durable before it is granted.  When a file-backed ledger grants a hit, a
  process that starts from the resulting file sees the hit charged, so neither eviction nor a
  restart gives budget back.
\<close>

theorem granted_hit_survives_restart:
  assumes "reserve_hit io fp budget l disk = (Inr (True, charged, why), l', disk')"
    and "l_path l = Some path"
  shows "fst (charged_hits io fp (ledger_init (Some path) disk') disk') = Inr charged \<and>
         charged \<le> budget"
proof -
  obtain l1 where l1: "reload_locked disk l = (True, l1)" and lk: "lock_opens io"
    using assms
    by (auto simp: reserve_hit_def process_lock_def split: if_splits sum.splits prod.splits bool.splits)
  have p1: "l_path l1 = Some path"
    using l1 assms(2) by (auto simp: reload_locked_def split: ledger_file.splits if_splits)
  have lt: "dict_get (l_store l1) fp 0 < budget" and c: "charged = dict_get (l_store l1) fp 0 + 1"
    and d: "disk' = Stored (dict_set fp charged (l_store l1))"
    using assms l1 lk p1
    by (auto simp: reserve_hit_def process_lock_def save_locked_def Let_def
        split: if_splits option.splits)
  then show ?thesis
    using lk by (simp add: charged_hits_def refresh_def ledger_init_def ledger_load_def
        process_lock_def reload_locked_def)
qed

theorem granted_hit_survives_restart_witness:
  "fst (charged_hits io_ok ''f''
     (ledger_init (Some ''p'') (Stored [(''f'', 1)])) (Stored [(''f'', 1)])) = Inr 1 \<and> (1::int) \<le> 3"
  by (rule granted_hit_survives_restart[where l = "ledger_init (Some ''p'') NoFile" and disk = NoFile
        and why = "''ok''" and l' = "(ledger_init (Some ''p'') NoFile)\<lparr>l_store := [(''f'', 1)]\<rparr>"])
     (simp_all add: reserve_hit_def ledger_init_def ledger_load_def process_lock_def
       reload_locked_def save_locked_def io_ok_def dict_get_def)

text \<open>
  C22: the ledger fails closed.  If the ledger is unavailable, has not recovered, or its file cannot
  be read, a reservation is never granted and no counter, in memory or on disk, changes.
\<close>

theorem ledger_fails_closed:
  assumes "\<not> is_operational l \<or> (l_path l \<noteq> None \<and> disk = Unreadable e)"
    and "reserve_hit io fp budget l disk = (r, l', disk')"
  shows "(\<forall>charged why. r \<noteq> Inr (True, charged, why)) \<and> l_store l' = l_store l \<and> disk' = disk"
  using assms
  by (auto simp: reserve_hit_def is_operational_def process_lock_def reload_locked_def
      split: if_splits sum.splits)

theorem ledger_fails_closed_witness:
  "(\<forall>charged why. Inr (False, 4, ''unavailable'') \<noteq> (Inr (True, charged, why) :: (bool \<times> int \<times> string) result)) \<and>
   l_store (set_available False (ledger_init (Some ''p'') (Stored [(''f'', 4)]))) =
   l_store (set_available False (ledger_init (Some ''p'') (Stored [(''f'', 4)]))) \<and>
   Stored [(''f'', 4)] = Stored [(''f'', 4 :: int)]"
  by (rule ledger_fails_closed[where fp = "''f''" and budget = 9 and io = io_ok and e = "[]"])
     (simp_all add: is_operational_def set_available_def ledger_init_def ledger_load_def
       reserve_hit_def dict_get_def)

definition capped_reserve :: "int \<Rightarrow> 'k \<Rightarrow> ('k \<Rightarrow> int) \<Rightarrow> bool \<times> ('k \<Rightarrow> int)" where
  "capped_reserve B k c = (if c k < B then (True, c(k := c k + 1)) else (False, c))"

definition counters :: "DurableLedger \<Rightarrow> string \<Rightarrow> int" where
  "counters l k = dict_get (l_store l) k 0"



text \<open>
  C36: \<open>add_hits(persist=True)\<close> can lose other processes' charges.  It writes the process's own copy
  over the file without reading it first, so for every other fingerprint the file afterwards holds
  the writer's possibly stale counter, whatever the file held.
\<close>

theorem add_hits_overwrites_file:
  assumes "l_path l \<noteq> None" and "lock_opens io" and "save_error io = None" and "0 \<le> hits"
    and "fp' \<noteq> fp"
  shows "\<exists>total l' disk'. add_hits io fp hits True l disk = (Inr total, l', disk') \<and>
           file_count disk' fp' = counters l fp'"
  using assms
  by (auto simp: add_hits_def process_lock_def save_locked_def counters_def Let_def)

theorem add_hits_overwrites_file_witness:
  "\<exists>total l' disk'. add_hits io_ok ''g'' 1 True (ledger_init (Some ''p'') NoFile) (Stored [(''f'', 5)])
     = (Inr total, l', disk') \<and>
     file_count disk' ''f'' = counters (ledger_init (Some ''p'') NoFile) ''f''"
  by (rule add_hits_overwrites_file)
     (simp_all add: ledger_init_def ledger_load_def io_ok_def)

end
