(* ===== verification/Mem_Pool.thy ===== *)
theory Mem_Pool
  imports Prelude "HOL-Library.Multiset"
begin

text \<open>
  The two index pools of \<open>mem_cache/memory_pool.py\<close>: \<open>ReqToTokenPool\<close> (a row of token locations per
  request) and \<open>TokenToKVPoolAllocator\<close> (slots of the KV cache, slot 0 reserved for padding), and
  the contract of a slot allocator as a locale that both this allocator and the paged one meet.
\<close>

section \<open>ReqToTokenPool\<close>

record ReqToTokenPool =
  rt_size :: nat
  rt_max_context_len :: nat
  req_to_token :: "int list list"
  rt_free_slots :: "nat list"

definition req_pool_init :: "nat \<Rightarrow> nat \<Rightarrow> ReqToTokenPool" where
  "req_pool_init sz ctx =
     \<lparr> rt_size = sz, rt_max_context_len = ctx,
       req_to_token = replicate sz (replicate ctx 0), rt_free_slots = [0..<sz] \<rparr>"

text \<open>
  \<open>req_to_token[(row, slice(a, b))] = values\<close>: the slice is clipped to the row, and an assignment
  of another length raises.
\<close>

definition req_pool_write ::
  "nat \<Rightarrow> nat \<Rightarrow> nat \<Rightarrow> int list \<Rightarrow> ReqToTokenPool \<Rightarrow> unit result \<times> ReqToTokenPool" where
  "req_pool_write row a b vals p =
     (if row \<ge> length (req_to_token p) then (Inl IndexError, p)
      else
        (let xs = req_to_token p ! row; b' = min b (length xs)
         in if length vals \<noteq> b' - a then (Inl (RuntimeError ''shape mismatch''), p)
            else (Inr (), p\<lparr>req_to_token :=
                    (req_to_token p)[row := take (min a (length xs)) xs @ vals @ drop (max a b') xs]\<rparr>)))"

definition req_pool_row :: "nat \<Rightarrow> nat \<Rightarrow> ReqToTokenPool \<Rightarrow> int list" where
  "req_pool_row row n p = take n (req_to_token p ! row)"

definition req_pool_available_size :: "ReqToTokenPool \<Rightarrow> nat" where
  "req_pool_available_size p = length (rt_free_slots p)"

definition req_pool_alloc :: "nat \<Rightarrow> ReqToTokenPool \<Rightarrow> nat list option \<times> ReqToTokenPool" where
  "req_pool_alloc need p =
     (if need > length (rt_free_slots p) then (None, p)
      else (Some (take need (rt_free_slots p)),
            p\<lparr>rt_free_slots := drop need (rt_free_slots p)\<rparr>))"

text \<open>\<open>free\<close> takes one row index or a list of them; one index is the list of length one.\<close>

definition req_pool_free :: "nat list \<Rightarrow> ReqToTokenPool \<Rightarrow> ReqToTokenPool" where
  "req_pool_free idx p = p\<lparr>rt_free_slots := rt_free_slots p @ idx\<rparr>"

definition req_pool_clear :: "ReqToTokenPool \<Rightarrow> ReqToTokenPool" where
  "req_pool_clear p = p\<lparr>rt_free_slots := [0..<rt_size p]\<rparr>"

text \<open>Reading back what was written, and leaving the other rows alone.\<close>

lemma req_pool_write_same:
  assumes "req_pool_write row a b vals p = (Inr (), p')"
    and "a \<le> b" and "b \<le> length (req_to_token p ! row)"
  shows "drop a (req_pool_row row b p') = vals \<and>
         req_pool_row row a p' = req_pool_row row a p"
  using assms by (auto simp: req_pool_write_def req_pool_row_def Let_def min_def split: if_splits)

lemma req_pool_write_other:
  assumes "req_pool_write row a b vals p = (r, p')" and "row' \<noteq> row"
  shows "req_pool_row row' n p' = req_pool_row row' n p"
  using assms by (auto simp: req_pool_write_def req_pool_row_def Let_def split: if_splits)

section \<open>TokenToKVPoolAllocator\<close>

record TokenToKVPoolAllocator =
  al_size :: nat
  free_slots :: "int list"
  is_not_in_free_group :: bool
  free_group :: "int list list"

definition alloc_clear :: "TokenToKVPoolAllocator \<Rightarrow> TokenToKVPoolAllocator" where
  "alloc_clear a = a\<lparr>free_slots := map int [1..<Suc (al_size a)], is_not_in_free_group := True,
                     free_group := []\<rparr>"

definition allocator_init :: "nat \<Rightarrow> TokenToKVPoolAllocator" where
  "allocator_init sz =
     alloc_clear \<lparr> al_size = sz, free_slots = [], is_not_in_free_group = True, free_group = [] \<rparr>"

definition available_size :: "TokenToKVPoolAllocator \<Rightarrow> nat" where
  "available_size a = length (free_slots a)"

definition alloc :: "nat \<Rightarrow> TokenToKVPoolAllocator \<Rightarrow> int list option \<times> TokenToKVPoolAllocator" where
  "alloc need a =
     (if need > length (free_slots a) then (None, a)
      else (Some (take need (free_slots a)), a\<lparr>free_slots := drop need (free_slots a)\<rparr>))"

definition free :: "int list \<Rightarrow> TokenToKVPoolAllocator \<Rightarrow> TokenToKVPoolAllocator" where
  "free idx a =
     (if idx = [] then a
      else if is_not_in_free_group a then a\<lparr>free_slots := free_slots a @ idx\<rparr>
      else a\<lparr>free_group := free_group a @ [idx]\<rparr>)"

definition free_group_begin :: "TokenToKVPoolAllocator \<Rightarrow> TokenToKVPoolAllocator" where
  "free_group_begin a = a\<lparr>is_not_in_free_group := False, free_group := []\<rparr>"

definition free_group_end :: "TokenToKVPoolAllocator \<Rightarrow> TokenToKVPoolAllocator" where
  "free_group_end a =
     (let a1 = a\<lparr>is_not_in_free_group := True\<rparr>
      in if free_group a1 \<noteq> [] then free (concat (free_group a1)) a1 else a1)"

definition backup_state :: "TokenToKVPoolAllocator \<Rightarrow> int list" where
  "backup_state a = free_slots a"

definition restore_state :: "int list \<Rightarrow> TokenToKVPoolAllocator \<Rightarrow> TokenToKVPoolAllocator" where
  "restore_state fs a = a\<lparr>free_slots := fs\<rparr>"

section \<open>The contract of a slot allocator\<close>

text \<open>
  The slots an allocator can still give out (now, or after the open free group ends) as a multiset;
  allocating moves slots out of it, freeing moves them back.
\<close>

locale slot_allocator =
  fixes al :: "nat \<Rightarrow> 's \<Rightarrow> 'i list option \<times> 's"
    and fr :: "'i list \<Rightarrow> 's \<Rightarrow> 's"
    and pool :: "'s \<Rightarrow> 'i multiset"
  assumes al_Some: "al n s = (Some xs, s') \<Longrightarrow> mset xs + pool s' = pool s"
    and al_None: "al n s = (None, s') \<Longrightarrow> pool s' = pool s"
    and fr_pool: "pool (fr xs s) = mset xs + pool s"
begin

lemma al_held:
  "al n s = (Some xs, s') \<Longrightarrow> mset (held @ xs) + pool s' = mset held + pool s"
  using al_Some[of n s xs s'] by (simp add: ac_simps)

lemma fr_held:
  assumes "mset xs \<subseteq># held"
  shows "(held - mset xs) + pool (fr xs s) = held + pool s"
  using assms by (simp add: fr_pool multiset_eq_iff mset_subset_eq_count subset_mset.add_diff_assoc2)

end

definition pool_mset :: "TokenToKVPoolAllocator \<Rightarrow> int multiset" where
  "pool_mset a =
     mset (free_slots a) + (if is_not_in_free_group a then {#} else mset (concat (free_group a)))"

lemma alloc_Some_iff:
  "alloc n a = (Some xs, a') \<longleftrightarrow>
     n \<le> length (free_slots a) \<and> xs = take n (free_slots a) \<and>
     a' = a\<lparr>free_slots := drop n (free_slots a)\<rparr>"
  by (auto simp: alloc_def)

interpretation kv: slot_allocator alloc free pool_mset
proof
  fix n a xs a'
  assume "alloc n a = (Some xs, a')"
  then have xs: "xs = take n (free_slots a)" and a': "a' = a\<lparr>free_slots := drop n (free_slots a)\<rparr>"
    by (simp_all add: alloc_Some_iff)
  have "mset (take n (free_slots a)) + mset (drop n (free_slots a)) = mset (free_slots a)"
    by (metis append_take_drop_id mset_append)
  then show "mset xs + pool_mset a' = pool_mset a"
    by (simp add: xs a' pool_mset_def add.assoc[symmetric])
qed (auto simp: alloc_def free_def pool_mset_def split: if_splits)

lemma pool_mset_begin: "is_not_in_free_group a \<Longrightarrow> pool_mset (free_group_begin a) = pool_mset a"
  by (simp add: pool_mset_def free_group_begin_def)

lemma pool_mset_end: "\<not> is_not_in_free_group a \<Longrightarrow> pool_mset (free_group_end a) = pool_mset a"
  by (cases "free_group a") (auto simp: pool_mset_def free_group_end_def free_def Let_def)

lemma pool_mset_init: "pool_mset (allocator_init n) = mset (map int [1..<Suc n])"
  by (simp add: pool_mset_def allocator_init_def alloc_clear_def)

section \<open>Clients and the allocator\<close>

text \<open>
  The allocator together with the slots its clients hold.  A client frees only what it holds, and a
  free group is opened only when none is open; these are the ways the scheduler calls it.
\<close>

record kv_system =
  kv_alloc :: TokenToKVPoolAllocator
  kv_held :: "int multiset"

inductive kv_step :: "kv_system \<Rightarrow> kv_system \<Rightarrow> bool" where
  kv_alloc: "alloc n (kv_alloc s) = (Some xs, a') \<Longrightarrow>
     kv_step s (s\<lparr>kv_alloc := a', kv_held := kv_held s + mset xs\<rparr>)"
| kv_refuse: "alloc n (kv_alloc s) = (None, a') \<Longrightarrow> kv_step s (s\<lparr>kv_alloc := a'\<rparr>)"
| kv_free: "mset xs \<subseteq># kv_held s \<Longrightarrow>
     kv_step s (s\<lparr>kv_alloc := free xs (kv_alloc s), kv_held := kv_held s - mset xs\<rparr>)"
| kv_begin: "is_not_in_free_group (kv_alloc s) \<Longrightarrow>
     kv_step s (s\<lparr>kv_alloc := free_group_begin (kv_alloc s)\<rparr>)"
| kv_end: "\<not> is_not_in_free_group (kv_alloc s) \<Longrightarrow>
     kv_step s (s\<lparr>kv_alloc := free_group_end (kv_alloc s)\<rparr>)"

inductive kv_reachable :: "nat \<Rightarrow> kv_system \<Rightarrow> bool" for sz where
  kv_start: "kv_reachable sz \<lparr> kv_alloc = allocator_init sz, kv_held = {#} \<rparr>"
| kv_more: "kv_reachable sz s \<Longrightarrow> kv_step s t \<Longrightarrow> kv_reachable sz t"

lemma kv_step_conserves:
  "kv_step s t \<Longrightarrow> kv_held t + pool_mset (kv_alloc t) = kv_held s + pool_mset (kv_alloc s)"
proof (induction rule: kv_step.induct)
  case (kv_alloc n s xs a')
  then show ?case using kv.al_Some[of n "kv_system.kv_alloc s" xs a'] by (simp add: ac_simps)
next
  case (kv_refuse n s a')
  then show ?case using kv.al_None by simp
next
  case (kv_free xs s)
  then show ?case using kv.fr_held by simp
qed (simp_all add: pool_mset_begin pool_mset_end)

lemma kv_reachable_conserves:
  "kv_reachable sz s \<Longrightarrow> kv_held s + pool_mset (kv_alloc s) = mset (map int [1..<Suc sz])"
  by (induction rule: kv_reachable.induct) (simp_all add: pool_mset_init kv_step_conserves)

section \<open>Properties\<close>

text \<open>
  C24: a KV slot is never handed out twice and never lost.  In every state reachable by allocating,
  refusing, freeing what is held, and opening and closing free groups, the slots held by clients and
  the slots the allocator can still give out are exactly the slots 1 to \<open>size\<close>, each once; slot 0,
  the padding slot, is never given out.
\<close>

theorem kv_slots_partitioned:
  assumes "kv_reachable sz s"
  shows "kv_held s + pool_mset (kv_alloc s) = mset_set {1..int sz} \<and> 0 \<notin># kv_held s"
proof -
  have "mset (map int [1..<Suc sz]) = mset_set (set (map int [1..<Suc sz]))"
    by (rule mset_set_set[symmetric]) (simp add: distinct_map)
  moreover have "set (map int [1..<Suc sz]) = {1..int sz}"
    by (simp add: atLeastLessThanSuc_atLeastAtMost image_int_atLeastAtMost del: upt_Suc)
  ultimately have eq: "kv_held s + pool_mset (kv_alloc s) = mset_set {1..int sz}"
    using kv_reachable_conserves[OF assms] by simp
  moreover have "0 \<notin># kv_held s"
  proof
    assume "0 \<in># kv_held s"
    then have "0 \<in># mset_set {1..int sz}" by (metis eq union_iff)
    then show False by simp
  qed
  ultimately show ?thesis by blast
qed

theorem kv_slots_partitioned_witness:
  "kv_held \<lparr> kv_alloc = (allocator_init 2)\<lparr>free_slots := [2]\<rparr>, kv_held = {#1#} \<rparr> +
     pool_mset (kv_alloc \<lparr> kv_alloc = (allocator_init 2)\<lparr>free_slots := [2]\<rparr>, kv_held = {#1#} \<rparr>)
     = mset_set {1..int 2} \<and>
   0 \<notin># kv_held \<lparr> kv_alloc = (allocator_init 2)\<lparr>free_slots := [2]\<rparr>, kv_held = {#1#} \<rparr>"
proof (rule kv_slots_partitioned)
  let ?s = "\<lparr> kv_alloc = allocator_init 2, kv_held = {#} \<rparr>"
  have "alloc 1 (kv_system.kv_alloc ?s) = (Some [1], (allocator_init 2)\<lparr>free_slots := [2]\<rparr>)"
    by (simp add: alloc_def allocator_init_def alloc_clear_def upt_rec)
  from kv_step.kv_alloc[OF this]
  have "kv_step ?s \<lparr> kv_alloc = (allocator_init 2)\<lparr>free_slots := [2]\<rparr>, kv_held = {#1#} \<rparr>"
    by simp
  then show "kv_reachable 2
      \<lparr> kv_alloc = (allocator_init 2)\<lparr>free_slots := [2]\<rparr>, kv_held = {#1#} \<rparr>"
    by (rule kv_reachable.kv_more[OF kv_reachable.kv_start])
qed

text \<open>
  Restoring a backup undoes an allocation.  The speculative path allocates, looks, and rolls
  back: \<open>restore_state\<close> with the saved free list gives back exactly the allocator it started from.
\<close>

lemma restore_after_alloc:
  "restore_state (backup_state a) (snd (alloc n a)) = a"
  by (simp add: restore_state_def backup_state_def alloc_def)

end
