(* ===== verification/Paged_Alloc.thy ===== *)
theory Paged_Alloc
  imports Mem_Pool
begin

unbundle bit_operations_syntax

text \<open>
  \<open>mem_cache/paged_allocator.py\<close>: the page-aligned allocator and its two Triton kernels.  A kernel
  launch runs one program per request; a program is modelled by the list of stores it performs
  (address in \<open>out_indices\<close>, value), and the launch by applying the stores of all programs.
  Lengths are \<open>nat\<close> (the callers pass \<open>prefix_len \<le> seq_len\<close>); locations are \<open>int\<close>
  because \<open>last_loc\<close> is -1 for an empty prefix.
\<close>

section \<open>The kernels\<close>

fun bit_length :: "nat \<Rightarrow> nat" where
  "bit_length n = (if n = 0 then 0 else Suc (bit_length (n div 2)))"

declare bit_length.simps [simp del]

definition next_power_of_2 :: "nat \<Rightarrow> nat" where
  "next_power_of_2 n = (if n > 0 then 2 ^ bit_length (n - 1) else 1)"

definition ceil_pages :: "nat \<Rightarrow> nat \<Rightarrow> nat" where
  "ceil_pages ps n = (n + ps - 1) div ps"

definition new_pages :: "nat \<Rightarrow> nat \<times> nat \<Rightarrow> nat" where
  "new_pages ps ps_len = (case ps_len of (pre, sq) \<Rightarrow> ceil_pages ps sq - ceil_pages ps pre)"

definition extend_len :: "nat \<times> nat \<Rightarrow> nat" where
  "extend_len ps_len = (case ps_len of (pre, sq) \<Rightarrow> sq - pre)"

text \<open>
  One program of \<open>alloc_extend_kernel\<close>: it fills the rest of the old partial page, then whole new
  pages, then a new partial page.
\<close>

definition alloc_extend_prog ::
  "nat \<Rightarrow> nat \<Rightarrow> int list \<Rightarrow> (nat \<times> nat) list \<Rightarrow> int list \<Rightarrow> nat \<Rightarrow> (nat \<times> int) list" where
  "alloc_extend_prog ps mx fp lens last_loc pid =
     (let (pre, sq) = lens ! pid;
          sum_extend_lens = sum_list (map extend_len (take (Suc pid) lens));
          output_start_loc = sum_extend_lens - extend_len (pre, sq);
          own_pages = new_pages ps (pre, sq);
          new_page_start_loc = sum_list (map (new_pages ps) (take (Suc pid) lens)) - own_pages;
          num_part1 = min sq (ceil_pages ps pre * ps) - pre;
          part1 = map (\<lambda>off. (output_start_loc + off, last_loc ! pid + 1 + int off))
                    [0..<min ps num_part1]
      in if pre + num_part1 = sq then part1
         else
           (let num_part2 = sq div ps * ps - ceil_pages ps pre * ps;
                part2 = map (\<lambda>off. (output_start_loc + num_part1 + off,
                               fp ! (new_page_start_loc + off div ps) * int ps + int (off mod ps)))
                          [0..<min mx num_part2]
            in if pre + num_part1 + num_part2 = sq then part1 @ part2
               else
                 (let num_part3 = sq - sq div ps * ps;
                      start_loc = fp ! (new_page_start_loc + own_pages - 1);
                      part3 = map (\<lambda>off. (output_start_loc + num_part1 + num_part2 + off,
                                     start_loc * int ps + int off))
                                [0..<min ps num_part3]
                  in part1 @ part2 @ part3)))"

definition alloc_extend_ret :: "nat \<Rightarrow> (nat \<times> nat) list \<Rightarrow> int" where
  "alloc_extend_ret ps lens =
     push_bit 32 (int (sum_list (map (new_pages ps) lens))) OR int (sum_list (map extend_len lens))"

definition alloc_decode_prog ::
  "nat \<Rightarrow> int list \<Rightarrow> nat list \<Rightarrow> int list \<Rightarrow> nat \<Rightarrow> (nat \<times> int) list" where
  "alloc_decode_prog ps fp seq_lens last_loc pid =
     (let sq = seq_lens ! pid;
          own = new_pages ps (sq - 1, sq);
          start = sum_list (map (\<lambda>n. new_pages ps (n - 1, n)) (take (Suc pid) seq_lens)) - own
      in if own = 0 then [(pid, last_loc ! pid + 1)]
         else [(pid, fp ! start * int ps)])"

definition store_all :: "(nat \<times> int) list \<Rightarrow> int list \<Rightarrow> int list" where
  "store_all ws out = fold (\<lambda>(i, v) o'. o'[i := v]) ws out"

section \<open>PagedTokenToKVPoolAllocator\<close>

record PagedTokenToKVPoolAllocator =
  pg_size :: nat
  pg_page_size :: nat
  pg_num_pages :: nat
  free_pages :: "int list"
  pg_is_not_in_free_group :: bool
  pg_free_group :: "int list list"
  pg_debug_mode :: bool

definition paged_clear :: "PagedTokenToKVPoolAllocator \<Rightarrow> PagedTokenToKVPoolAllocator" where
  "paged_clear a =
     a\<lparr>free_pages := map int [1..<Suc (pg_num_pages a)], pg_is_not_in_free_group := True,
       pg_free_group := []\<rparr>"

definition paged_init :: "nat \<Rightarrow> nat \<Rightarrow> bool \<Rightarrow> PagedTokenToKVPoolAllocator" where
  "paged_init sz ps debug =
     paged_clear \<lparr> pg_size = sz, pg_page_size = ps, pg_num_pages = sz div ps, free_pages = [],
                   pg_is_not_in_free_group = True, pg_free_group = [], pg_debug_mode = debug \<rparr>"

definition paged_available_size :: "PagedTokenToKVPoolAllocator \<Rightarrow> nat" where
  "paged_available_size a = length (free_pages a) * pg_page_size a"

definition page_indices :: "nat \<Rightarrow> int list \<Rightarrow> int list" where
  "page_indices ps pages = concat (map (\<lambda>p. map (\<lambda>off. p * int ps + int off) [0..<ps]) pages)"

definition paged_alloc ::
  "nat \<Rightarrow> PagedTokenToKVPoolAllocator
     \<Rightarrow> int list option result \<times> PagedTokenToKVPoolAllocator" where
  "paged_alloc need a =
     (if pg_debug_mode a \<and> need mod pg_page_size a \<noteq> 0 then (Inl AssertionError, a)
      else
        (let num_pages = need div pg_page_size a
         in if num_pages > length (free_pages a) then (Inr None, a)
            else (Inr (Some (page_indices (pg_page_size a) (take num_pages (free_pages a)))),
                  a\<lparr>free_pages := drop num_pages (free_pages a)\<rparr>)))"

definition alloc_extend ::
  "int list \<Rightarrow> (nat \<times> nat) list \<Rightarrow> int list \<Rightarrow> nat \<Rightarrow> PagedTokenToKVPoolAllocator
     \<Rightarrow> int list option result \<times> PagedTokenToKVPoolAllocator" where
  "alloc_extend buf lens last_loc extend_num_tokens a =
     (let ps = pg_page_size a
      in if pg_debug_mode a \<and>
            (\<exists>((pre, sq), loc) \<in> set (zip lens last_loc). (loc + 1) mod int ps \<noteq> int (pre mod ps))
         then (Inl AssertionError, a)
         else
           (let out = store_all
                  (concat (map (alloc_extend_prog ps (next_power_of_2 extend_num_tokens)
                                  (free_pages a) lens last_loc) [0..<length lens]))
                  (take extend_num_tokens buf);
                merged_value = alloc_extend_ret ps lens;
                num_new_pages = drop_bit 32 merged_value
            in if pg_debug_mode a \<and> \<not> distinct out then (Inl AssertionError, a)
               else if num_new_pages > int (length (free_pages a)) then (Inr None, a)
               else (Inr (Some out), a\<lparr>free_pages := drop (nat num_new_pages) (free_pages a)\<rparr>)))"

definition alloc_decode ::
  "int list \<Rightarrow> nat list \<Rightarrow> int list \<Rightarrow> PagedTokenToKVPoolAllocator
     \<Rightarrow> int list option result \<times> PagedTokenToKVPoolAllocator" where
  "alloc_decode buf seq_lens last_loc a =
     (let ps = pg_page_size a
      in if pg_debug_mode a \<and>
            (\<exists>(sq, loc) \<in> set (zip seq_lens last_loc). (loc + 2) mod int ps \<noteq> int (sq mod ps))
         then (Inl AssertionError, a)
         else
           (let out = store_all
                  (concat (map (alloc_decode_prog ps (free_pages a) seq_lens last_loc)
                     [0..<length seq_lens]))
                  (take (length seq_lens) buf);
                num_new_pages = sum_list (map (\<lambda>n. new_pages ps (n - 1, n)) seq_lens)
            in if pg_debug_mode a \<and> \<not> distinct out then (Inl AssertionError, a)
               else if num_new_pages > length (free_pages a) then (Inr None, a)
               else (Inr (Some out), a\<lparr>free_pages := drop num_new_pages (free_pages a)\<rparr>)))"

definition unique_pages :: "nat \<Rightarrow> int list \<Rightarrow> int list" where
  "unique_pages ps idx = sort (remdups (map (\<lambda>i. i div int ps) idx))"

definition paged_free ::
  "int list \<Rightarrow> PagedTokenToKVPoolAllocator \<Rightarrow> unit result \<times> PagedTokenToKVPoolAllocator" where
  "paged_free idx a =
     (if idx = [] then (Inr (), a)
      else
        (let a1 = (if pg_is_not_in_free_group a
                   then a\<lparr>free_pages := unique_pages (pg_page_size a) idx @ free_pages a\<rparr>
                   else a\<lparr>pg_free_group := pg_free_group a @ [idx]\<rparr>)
         in (if pg_debug_mode a1 \<and> \<not> distinct (free_pages a1) then Inl AssertionError else Inr (),
             a1)))"

definition paged_free_group_begin ::
  "PagedTokenToKVPoolAllocator \<Rightarrow> PagedTokenToKVPoolAllocator" where
  "paged_free_group_begin a = a\<lparr>pg_is_not_in_free_group := False, pg_free_group := []\<rparr>"

definition paged_free_group_end ::
  "PagedTokenToKVPoolAllocator \<Rightarrow> unit result \<times> PagedTokenToKVPoolAllocator" where
  "paged_free_group_end a =
     (let a1 = a\<lparr>pg_is_not_in_free_group := True\<rparr>
      in if pg_free_group a1 \<noteq> [] then paged_free (concat (pg_free_group a1)) a1 else (Inr (), a1))"

definition paged_backup_state :: "PagedTokenToKVPoolAllocator \<Rightarrow> int list" where
  "paged_backup_state a = free_pages a"

definition paged_restore_state ::
  "int list \<Rightarrow> PagedTokenToKVPoolAllocator \<Rightarrow> PagedTokenToKVPoolAllocator" where
  "paged_restore_state fp a = a\<lparr>free_pages := fp\<rparr>"

section \<open>Arithmetic of pages\<close>

lemma bit_length_bound: "n < 2 ^ bit_length n"
proof (induction n rule: bit_length.induct)
  case (1 n)
  show ?case
  proof (cases "n = 0")
    case False
    then have "n div 2 < 2 ^ bit_length (n div 2)" using 1 by simp
    then have "n < 2 * 2 ^ bit_length (n div 2)" by linarith
    then show ?thesis using False by (subst bit_length.simps) simp
  qed (simp add: bit_length.simps)
qed

lemma next_power_of_2_ge: "n \<le> next_power_of_2 n"
  using bit_length_bound[of "n - 1"] by (auto simp: next_power_of_2_def)

lemma ceil_pages_ge: "0 < ps \<Longrightarrow> n \<le> ceil_pages ps n * ps"
proof -
  assume "0 < ps"
  have "n + ps - 1 < (n + ps - 1) div ps * ps + ps"
    using \<open>0 < ps\<close> by (metis add.commute div_mult_mod_eq mod_less_divisor nat_add_left_cancel_less)
  then show ?thesis using \<open>0 < ps\<close> by (simp add: ceil_pages_def)
qed

lemma ceil_pages_lt: "0 < ps \<Longrightarrow> ceil_pages ps n * ps < n + ps"
proof -
  assume "0 < ps"
  have "(n + ps - 1) div ps * ps \<le> n + ps - 1" by (rule div_times_less_eq_dividend)
  then show ?thesis using \<open>0 < ps\<close> unfolding ceil_pages_def by linarith
qed

lemma ceil_pages_partial: "0 < ps \<Longrightarrow> n mod ps \<noteq> 0 \<Longrightarrow> ceil_pages ps n = Suc (n div ps)"
proof -
  assume ps: "0 < ps" and n: "n mod ps \<noteq> 0"
  have "n + ps - 1 = (n mod ps - 1) + Suc (n div ps) * ps"
    using n div_mult_mod_eq[of n ps] unfolding mult_Suc by linarith
  then have "(n + ps - 1) div ps = Suc (n div ps) + (n mod ps - 1) div ps"
    using ps by (simp only: div_mult_self1)
  moreover have "(n mod ps - 1) div ps = 0"
    using ps by (simp add: less_imp_diff_less)
  ultimately show ?thesis by (simp add: ceil_pages_def)
qed

lemma map_upt_append:
  "map f [0..<a] @ map (\<lambda>i. f (a + i)) [0..<b] = map f [0..<a + b]"
  by (induction b) simp_all

section \<open>What the extend kernel computes\<close>

text \<open>
  The reference: the location of position \<open>j\<close> of a request is in the page the prefix ended in, as
  long as that page lasts, and after that in the request's own run of pages of the free list.
\<close>

definition ref_loc :: "nat \<Rightarrow> int list \<Rightarrow> nat \<Rightarrow> nat \<Rightarrow> int \<Rightarrow> nat \<Rightarrow> int" where
  "ref_loc ps fp page_start pre loc j =
     (if j < ceil_pages ps pre * ps then loc + 1 + int (j - pre)
      else fp ! (page_start + (j div ps - ceil_pages ps pre)) * int ps + int (j mod ps))"

definition page_start_of :: "nat \<Rightarrow> (nat \<times> nat) list \<Rightarrow> nat \<Rightarrow> nat" where
  "page_start_of ps lens pid = sum_list (map (new_pages ps) (take pid lens))"

definition out_start_of :: "(nat \<times> nat) list \<Rightarrow> nat \<Rightarrow> nat" where
  "out_start_of lens pid = sum_list (map extend_len (take pid lens))"

definition extend_ref :: "nat \<Rightarrow> int list \<Rightarrow> (nat \<times> nat) list \<Rightarrow> int list \<Rightarrow> nat \<Rightarrow> int list" where
  "extend_ref ps fp lens last_loc pid =
     (case lens ! pid of (pre, sq) \<Rightarrow>
        map (ref_loc ps fp (page_start_of ps lens pid) pre (last_loc ! pid)) [pre..<sq])"

lemma length_extend_ref: "length (extend_ref ps fp lens last_loc pid) = extend_len (lens ! pid)"
  by (simp add: extend_ref_def extend_len_def split: prod.splits)

lemma sum_take_Suc:
  "pid < length xs \<Longrightarrow> sum_list (map f (take (Suc pid) xs)) = sum_list (map f (take pid xs)) + f (xs ! pid)"
  for f :: "'a \<Rightarrow> nat"
  by (simp add: take_Suc_conv_app_nth)

lemma extend_values:
  fixes ps pre sq st nps :: nat and fp :: "int list" and loc :: int
  assumes ps: "0 < ps" and le: "pre \<le> sq" and mx: "sq - pre \<le> mx"
  defines "n1 \<equiv> min sq (ceil_pages ps pre * ps) - pre"
  defines "n2 \<equiv> sq div ps * ps - ceil_pages ps pre * ps"
  defines "n3 \<equiv> sq - sq div ps * ps"
  defines "G \<equiv> \<lambda>k. (st + k, ref_loc ps fp nps pre loc (pre + k))"
  shows "map (\<lambda>off. (st + off, loc + 1 + int off)) [0..<min ps n1] = map G [0..<n1]"
    and "pre + n1 \<noteq> sq \<Longrightarrow>
       map (\<lambda>off. (st + n1 + off, fp ! (nps + off div ps) * int ps + int (off mod ps)))
         [0..<min mx n2] = map (\<lambda>off. G (n1 + off)) [0..<n2]"
    and "pre + n1 \<noteq> sq \<Longrightarrow> pre + n1 + n2 \<noteq> sq \<Longrightarrow>
       map (\<lambda>off. (st + n1 + n2 + off,
              fp ! (nps + new_pages ps (pre, sq) - 1) * int ps + int off)) [0..<min ps n3]
         = map (\<lambda>off. G (n1 + n2 + off)) [0..<n3] \<and> n1 + n2 + n3 = sq - pre"
    and "pre + n1 \<noteq> sq \<Longrightarrow> pre + n1 + n2 = sq \<Longrightarrow> n1 + n2 = sq - pre"
    and "pre + n1 = sq \<Longrightarrow> n1 = sq - pre"
proof -
  let ?c = "ceil_pages ps pre"
  have c: "pre \<le> ?c * ps" "?c * ps < pre + ps"
    using ceil_pages_ge[OF ps] ceil_pages_lt[OF ps] by auto
  have n1: "n1 < ps" "\<And>k. k < n1 \<Longrightarrow> pre + k < ?c * ps"
    using c by (auto simp: n1_def)
  then show "map (\<lambda>off. (st + off, loc + 1 + int off)) [0..<min ps n1] = map G [0..<n1]"
    by (auto simp: G_def ref_loc_def min_def)
  assume "pre + n1 \<noteq> sq"
  then have lt: "?c * ps < sq" and n1': "n1 = ?c * ps - pre"
    using le by (auto simp: n1_def min_def split: if_splits)
  have cle: "?c \<le> sq div ps" using lt ps by (simp add: less_eq_div_iff_mult_less_eq)
  have fl: "sq div ps * ps \<le> sq" by simp
  have n2: "n2 \<le> mx" using mx c(1) fl lt unfolding n2_def by linarith
  have pos2: "pre + (n1 + off) = ?c * ps + off" for off using n1' c by simp
  show "map (\<lambda>off. (st + n1 + off, fp ! (nps + off div ps) * int ps + int (off mod ps)))
         [0..<min mx n2] = map (\<lambda>off. G (n1 + off)) [0..<n2]"
    using n2 ps by (auto simp: G_def ref_loc_def pos2 min_absorb2)
  have pos3: "pre + (n1 + n2 + off) = sq div ps * ps + off" for off
    using pos2[of "n2 + off"] mult_le_mono1[OF cle, of ps] unfolding n2_def by linarith
  show "n1 + n2 = sq - pre" if "pre + n1 + n2 = sq" using that by simp
  assume "pre + n1 + n2 \<noteq> sq"
  then have ne: "sq mod ps \<noteq> 0"
    using pos3[of 0] by (metis add.assoc add.right_neutral div_mult_mod_eq)
  have n3: "n3 = sq mod ps" by (simp add: n3_def minus_div_mult_eq_mod)
  have own: "nps + new_pages ps (pre, sq) - Suc 0 = nps + (sq div ps - ?c)"
    using ceil_pages_partial[OF ps ne] cle by (simp add: new_pages_def Suc_diff_le)
  have sum: "n1 + n2 + n3 = sq - pre"
    using pos3[of n3] n3 by (metis add_diff_cancel_left' div_mult_mod_eq)
  have div: "(sq div ps * ps + off) div ps = sq div ps" "(sq div ps * ps + off) mod ps = off"
    "\<not> sq div ps * ps + off < ?c * ps"
    if "off < n3" for off
    using that n3 ps mod_less_divisor[OF ps, of sq] cle
    by (simp_all add: not_less trans_le_add1)
  show "map (\<lambda>off. (st + n1 + n2 + off,
              fp ! (nps + new_pages ps (pre, sq) - 1) * int ps + int off)) [0..<min ps n3]
         = map (\<lambda>off. G (n1 + n2 + off)) [0..<n3] \<and> n1 + n2 + n3 = sq - pre"
    using div ps n3 sum
    by (auto simp: G_def ref_loc_def pos3 own min_def dest: mod_less_divisor[of ps sq])
qed (auto simp: n1_def)

lemma alloc_extend_prog_stores:
  assumes ps: "0 < ps" and pid: "pid < length lens" and eq: "lens ! pid = (pre, sq)"
    and le: "pre \<le> sq" and mx: "sq - pre \<le> mx"
  shows "alloc_extend_prog ps mx fp lens last_loc pid =
     map (\<lambda>k. (out_start_of lens pid + k,
              ref_loc ps fp (page_start_of ps lens pid) pre (last_loc ! pid) (pre + k)))
       [0..<sq - pre]"
proof -
  have st: "sum_list (map extend_len (take (Suc pid) lens)) - extend_len (pre, sq)
      = out_start_of lens pid"
    "sum_list (map (new_pages ps) (take (Suc pid) lens)) - new_pages ps (pre, sq)
      = page_start_of ps lens pid"
    by (simp_all add: sum_take_Suc[OF pid] eq out_start_of_def page_start_of_def)
  let ?n1 = "min sq (ceil_pages ps pre * ps) - pre"
  let ?n2 = "sq div ps * ps - ceil_pages ps pre * ps"
  note ev = extend_values(1-3)[OF ps le mx, where st = "out_start_of lens pid" and
      loc = "last_loc ! pid" and fp = fp and nps = "page_start_of ps lens pid"]
  note len = extend_values(4-5)[OF ps le mx]
  note app = map_upt_append[where f = "\<lambda>k. (out_start_of lens pid + k,
      ref_loc ps fp (page_start_of ps lens pid) pre (last_loc ! pid) (pre + k))"]
  note defn = alloc_extend_prog_def eq Let_def prod.case st
  consider (one) "pre + ?n1 = sq" | (two) "pre + ?n1 \<noteq> sq" "pre + ?n1 + ?n2 = sq"
    | (three) "pre + ?n1 \<noteq> sq" "pre + ?n1 + ?n2 \<noteq> sq" by blast
  then show ?thesis
  proof cases
    case one
    show ?thesis unfolding defn if_P[OF one] ev(1) using len(2)[OF one] by (simp only:)
  next
    case two
    show ?thesis
      unfolding defn if_not_P[OF two(1)] if_P[OF two(2)] ev(1) ev(2)[OF two(1)] app
      using len(1)[OF two] by (simp only:)
  next
    case three
    show ?thesis
      unfolding defn if_not_P[OF three(1)] if_not_P[OF three(2)] ev(1) ev(2)[OF three(1)]
        ev(3)[OF three, THEN conjunct1] append_assoc[symmetric] app
      using ev(3)[OF three, THEN conjunct2] by (simp only:)
  qed
qed

lemma store_all_append: "store_all (ws @ vs) out = store_all vs (store_all ws out)"
  by (simp add: store_all_def)

lemma store_all_run:
  "s + n \<le> length out \<Longrightarrow>
     store_all (map (\<lambda>k. (s + k, g k)) [0..<n]) out = take s out @ map g [0..<n] @ drop (s + n) out"
proof (induction n)
  case (Suc n)
  then have "drop (s + n) out = out ! (s + n) # drop (Suc (s + n)) out"
    by (intro Cons_nth_drop_Suc[symmetric]) simp
  then show ?case
    using Suc by (simp add: store_all_append) (simp add: store_all_def list_update_append)
qed (simp add: store_all_def)

definition lens_ok :: "(nat \<times> nat) list \<Rightarrow> bool" where
  "lens_ok lens = (\<forall>(pre, sq) \<in> set lens. pre \<le> sq)"

lemma out_start_le: "pid < length lens \<Longrightarrow>
  out_start_of lens pid + extend_len (lens ! pid) = out_start_of lens (Suc pid)"
  by (simp add: out_start_of_def sum_take_Suc)

lemma out_start_mono: "pid \<le> length lens \<Longrightarrow> out_start_of lens pid \<le> sum_list (map extend_len lens)"
  unfolding out_start_of_def
  by (metis append_take_drop_id le_add1 map_append sum_list_append)

lemma length_concat_extend_ref:
  "m \<le> length lens \<Longrightarrow>
     length (concat (map (extend_ref ps fp lens last_loc) [0..<m])) = out_start_of lens m"
  by (induction m) (simp_all add: length_extend_ref out_start_le, simp add: out_start_of_def)

lemma stores_all_programs:
  assumes ps: "0 < ps" and ok: "lens_ok lens" and mx: "sum_list (map extend_len lens) \<le> mx"
    and len: "sum_list (map extend_len lens) \<le> length out" and m: "m \<le> length lens"
  shows "store_all (concat (map (alloc_extend_prog ps mx fp lens last_loc) [0..<m])) out =
     concat (map (extend_ref ps fp lens last_loc) [0..<m]) @ drop (out_start_of lens m) out"
  using m
proof (induction m)
  case 0
  show ?case by (simp add: store_all_def out_start_of_def)
next
  case (Suc m)
  obtain pre sq where eq: "lens ! m = (pre, sq)" by (cases "lens ! m")
  have le: "pre \<le> sq" using ok eq Suc.prems nth_mem[of m lens] by (auto simp: lens_ok_def)
  have nx: "out_start_of lens m + (sq - pre) = out_start_of lens (Suc m)"
    using out_start_le[of m lens] Suc.prems by (simp add: eq extend_len_def)
  have bnd: "out_start_of lens (Suc m) \<le> sum_list (map extend_len lens)"
    using out_start_mono[OF Suc.prems] .
  let ?done = "concat (map (extend_ref ps fp lens last_loc) [0..<m])"
  have ld: "length ?done = out_start_of lens m"
    using Suc.prems by (intro length_concat_extend_ref) simp
  have prog: "alloc_extend_prog ps mx fp lens last_loc m =
     map (\<lambda>k. (out_start_of lens m + k,
              ref_loc ps fp (page_start_of ps lens m) pre (last_loc ! m) (pre + k))) [0..<sq - pre]"
    using Suc.prems nx bnd mx by (intro alloc_extend_prog_stores[OF ps _ eq le]) auto
  have ref: "map (\<lambda>k. ref_loc ps fp (page_start_of ps lens m) pre (last_loc ! m) (pre + k))
      [0..<sq - pre] = extend_ref ps fp lens last_loc m"
    using le by (intro nth_equalityI) (auto simp: extend_ref_def eq)
  let ?now = "?done @ drop (out_start_of lens m) out"
  have "store_all (alloc_extend_prog ps mx fp lens last_loc m) ?now =
      take (out_start_of lens m) ?now @ extend_ref ps fp lens last_loc m
        @ drop (out_start_of lens m + (sq - pre)) ?now"
    unfolding prog ref[symmetric] using nx bnd len ld by (intro store_all_run) simp
  also have "\<dots> = ?done @ extend_ref ps fp lens last_loc m @ drop (out_start_of lens (Suc m)) out"
    using ld by (simp flip: nx add: add.commute)
  finally show ?case using Suc by (simp add: store_all_append)
qed

lemma alloc_extend_ret_pages:
  "sum_list (map extend_len lens) < 2 ^ 32 \<Longrightarrow>
     drop_bit 32 (alloc_extend_ret ps lens) = int (sum_list (map (new_pages ps) lens))"
proof -
  assume small: "sum_list (map extend_len lens) < 2 ^ 32"
  have "drop_bit 32 (int (sum_list (map extend_len lens))) = 0"
    using small by (simp add: drop_bit_eq_div)
  then show ?thesis by (simp add: alloc_extend_ret_def drop_bit_or drop_bit_push_bit_int)
qed

lemma alloc_extend_out:
  assumes "0 < ps" "lens_ok lens" "sum_list (map extend_len lens) = n" "n \<le> length buf"
  shows "store_all (concat (map (alloc_extend_prog ps (next_power_of_2 n) fp lens last_loc)
            [0..<length lens])) (take n buf)
       = concat (map (extend_ref ps fp lens last_loc) [0..<length lens])"
  using assms next_power_of_2_ge[of n] by (simp add: stores_all_programs out_start_of_def)

text \<open>
  C25: the extend allocation computes its specification.  Whatever the uninitialised output buffer
  held, three-phase kernel programs running over all requests leave the concatenation of the
  reference locations of every request, the number of pages decoded from the packed 64-bit return
  value is the number the requests need, exactly that many pages leave the front of the free list,
  and when there are too few the allocation fails with the free list unchanged.
\<close>

theorem alloc_extend_correct:
  assumes "0 < pg_page_size a" and "\<not> pg_debug_mode a" and "lens_ok lens"
    and "sum_list (map extend_len lens) = n" and "n \<le> length buf" and "n < 2 ^ 32"
  shows "alloc_extend buf lens last_loc n a =
     (let need = sum_list (map (new_pages (pg_page_size a)) lens)
      in if length (free_pages a) < need then (Inr None, a)
         else (Inr (Some (concat (map (extend_ref (pg_page_size a) (free_pages a) lens last_loc)
                                    [0..<length lens]))),
               a\<lparr>free_pages := drop need (free_pages a)\<rparr>))"
  using assms by (simp add: alloc_extend_def alloc_extend_out alloc_extend_ret_pages Let_def)

theorem alloc_extend_correct_witness:
  "alloc_extend (replicate 8 7) [(3, 6), (0, 5)] [14, -1] 8 (paged_init 32 4 False) =
     (Inr (Some [15, 4, 5, 8, 9, 10, 11, 12]), (paged_init 32 4 False)\<lparr>free_pages := [4, 5, 6, 7, 8]\<rparr>)"
proof -
  let ?a = "paged_init 32 4 False" and ?lens = "[(3, 6), (0, 5)] :: (nat \<times> nat) list"
  have "alloc_extend (replicate 8 7) ?lens [14, -1] 8 ?a =
     (let need = sum_list (map (new_pages (pg_page_size ?a)) ?lens)
      in if length (free_pages ?a) < need then (Inr None, ?a)
         else (Inr (Some (concat (map (extend_ref (pg_page_size ?a) (free_pages ?a) ?lens [14, -1])
                                    [0..<length ?lens]))),
               ?a\<lparr>free_pages := drop need (free_pages ?a)\<rparr>))"
    by (rule alloc_extend_correct)
      (simp_all add: paged_init_def paged_clear_def lens_ok_def extend_len_def)
  also have "\<dots> = (Inr (Some [15, 4, 5, 8, 9, 10, 11, 12]), ?a\<lparr>free_pages := [4, 5, 6, 7, 8]\<rparr>)"
    by code_simp
  finally show ?thesis .
qed

lemma ref_loc_aligned:
  assumes "0 < ps" "(loc + 1) mod int ps = int (pre mod ps)" "pre \<le> j"
  shows "ref_loc ps fp start pre loc j mod int ps = int (j mod ps)"
proof (cases "j < ceil_pages ps pre * ps")
  case True
  have "(loc + 1 + int (j - pre)) mod int ps = (int pre + int (j - pre)) mod int ps"
    using assms(2) by (metis mod_add_left_eq zmod_int)
  also have "\<dots> = int (j mod ps)" using assms(3) by (simp flip: of_nat_add zmod_int)
  finally show ?thesis using True by (simp add: ref_loc_def)
next
  case False
  then show ?thesis by (simp add: ref_loc_def zmod_int mod_mult_self3 add.commute)
qed

lemma nth_extend_ref:
  "lens ! pid = (pre, sq) \<Longrightarrow> k < sq - pre \<Longrightarrow>
     extend_ref ps fp lens last_loc pid ! k
       = ref_loc ps fp (page_start_of ps lens pid) pre (last_loc ! pid) (pre + k)"
  by (simp add: extend_ref_def)

text \<open>
  Extending keeps page alignment.  If the prefix of a request ends at a slot whose successor has
  the offset of the prefix length in its page (the precondition the debug assertion checks), then
  every new token of the request gets a slot at the offset of its own position.
\<close>

theorem extend_keeps_alignment:
  assumes "0 < ps" and "lens ! pid = (pre, sq)" and "k < sq - pre"
    and "(last_loc ! pid + 1) mod int ps = int (pre mod ps)"
  shows "extend_ref ps fp lens last_loc pid ! k mod int ps = int ((pre + k) mod ps)"
  using assms by (simp only: nth_extend_ref) (simp add: ref_loc_aligned)

theorem extend_keeps_alignment_witness:
  "extend_ref 4 [1, 2, 3] [(3, 6), (0, 5)] [14, -1] 0 ! 2 mod int 4 = int ((3 + 2) mod 4)"
  using extend_keeps_alignment[of 4 "[(3, 6), (0, 5)]" 0 3 6 2 "[14, -1]" "[1, 2, 3]"] by simp

section \<open>Decoding is extending by one token\<close>

definition decode_lens :: "nat list \<Rightarrow> (nat \<times> nat) list" where
  "decode_lens seq_lens = map (\<lambda>n. (n - 1, n)) seq_lens"

lemma new_pages_decode:
  assumes "0 < ps" "0 < n"
  shows "new_pages ps (n - 1, n) = (if (n - 1) mod ps = 0 then 1 else 0)"
proof -
  obtain m where n: "n = Suc m" using assms(2) by (cases n) auto
  have "ceil_pages ps n = Suc (m div ps)"
    using n assms(1) by (simp add: ceil_pages_def add.commute)
  moreover have "ceil_pages ps m = m div ps" if "m mod ps = 0"
  proof -
    have "m + ps - 1 = (ps - 1) + m div ps * ps"
      using that assms(1) div_mult_mod_eq[of m ps] by linarith
    then have "(m + ps - 1) div ps = m div ps + (ps - 1) div ps"
      using assms(1) by (simp only: div_mult_self1)
    then show ?thesis using assms(1) by (simp add: ceil_pages_def)
  qed
  ultimately show ?thesis
    using n ceil_pages_partial[OF assms(1), of m] by (simp add: new_pages_def)
qed

lemma out_start_decode:
  "\<forall>n \<in> set seq_lens. 0 < n \<Longrightarrow> pid \<le> length seq_lens \<Longrightarrow>
     out_start_of (decode_lens seq_lens) pid = pid"
proof (induction pid)
  case (Suc pid)
  then have "seq_lens ! pid \<in> set seq_lens" by simp
  with Suc.prems(1) have "0 < seq_lens ! pid" by blast
  then have "extend_len (decode_lens seq_lens ! pid) = 1"
    using Suc.prems(2) by (simp add: decode_lens_def extend_len_def)
  moreover have "length (decode_lens seq_lens) = length seq_lens" by (simp add: decode_lens_def)
  ultimately show ?case
    using Suc out_start_le[of pid "decode_lens seq_lens"] by simp
qed (simp add: out_start_of_def)

lemma alloc_decode_prog_extend:
  assumes ps: "0 < ps" and pos: "\<forall>n \<in> set seq_lens. 0 < n" and pid: "pid < length seq_lens"
    and mx: "0 < mx"
  shows "alloc_decode_prog ps fp seq_lens last_loc pid
       = alloc_extend_prog ps mx fp (decode_lens seq_lens) last_loc pid"
proof -
  define n where "n = seq_lens ! pid"
  have n: "0 < n" using pos pid by (simp add: n_def)
  have nth: "decode_lens seq_lens ! pid = (n - 1, n)" using pid by (simp add: decode_lens_def n_def)
  have pg: "sum_list (map (\<lambda>n. new_pages ps (n - 1, n)) (take (Suc pid) seq_lens))
      - new_pages ps (n - 1, n) = page_start_of ps (decode_lens seq_lens) pid"
    using pid by (simp add: page_start_of_def decode_lens_def sum_take_Suc n_def take_map o_def)
  have run: "alloc_extend_prog ps mx fp (decode_lens seq_lens) last_loc pid =
     [(pid, ref_loc ps fp (page_start_of ps (decode_lens seq_lens) pid) (n - 1) (last_loc ! pid) (n - 1))]"
    using alloc_extend_prog_stores[OF ps _ nth, of mx fp last_loc] n mx pid
      out_start_decode[OF pos, of pid]
    by (simp add: decode_lens_def)
  show ?thesis
  proof (cases "(n - 1) mod ps = 0")
    case True
    have nlt: "\<not> n - 1 < ceil_pages ps (n - 1) * ps"
    proof -
      have "ceil_pages ps (n - 1) * ps < (n - 1) div ps * ps + ps"
        using ceil_pages_lt[OF ps, of "n - 1"] True div_mult_mod_eq[of "n - 1" ps] by linarith
      then have "ceil_pages ps (n - 1) < Suc ((n - 1) div ps)"
        by (metis add.commute mult_Suc mult_less_cancel2)
      then have "ceil_pages ps (n - 1) * ps \<le> (n - 1) div ps * ps" by simp
      then show ?thesis using div_times_less_eq_dividend[of "n - 1" ps] by linarith
    qed
    have "(n - 1) div ps - ceil_pages ps (n - 1) = 0"
      using ceil_pages_ge[OF ps, of "n - 1"] True ps
      by (metis diff_is_0_eq div_le_mono nonzero_mult_div_cancel_right not_gr_zero)
    then show ?thesis
      using True nlt pg new_pages_decode[OF ps n]
      by (simp add: run alloc_decode_prog_def ref_loc_def Let_def flip: n_def)
  next
    case False
    then have "n - 1 < ceil_pages ps (n - 1) * ps"
      using ceil_pages_ge[OF ps, of "n - 1"]
      by (metis le_neq_implies_less mod_mult_self2_is_0)
    then show ?thesis
      using False new_pages_decode[OF ps n]
      by (simp add: run alloc_decode_prog_def ref_loc_def Let_def flip: n_def)
  qed
qed

text \<open>
  The decode kernel is the extend kernel at one new token per request.  Its shorter code path
  (one store per program, no packed return value) returns the same slots, takes the same pages and
  fails in the same cases as extending every request by one token, for any output buffer.
\<close>

theorem decode_is_extend_by_one:
  assumes ps: "0 < pg_page_size a" and dbg: "\<not> pg_debug_mode a"
    and pos: "\<forall>n \<in> set seq_lens. 0 < n"
    and buf: "length seq_lens \<le> length buf" and small: "length seq_lens < 2 ^ 32"
  shows "alloc_decode buf seq_lens last_loc a
       = alloc_extend buf (decode_lens seq_lens) last_loc (length seq_lens) a"
proof -
  have sum: "sum_list (map extend_len (decode_lens seq_lens)) = length seq_lens"
    using out_start_decode[OF pos, of "length seq_lens"] by (simp add: out_start_of_def decode_lens_def)
  have len: "length (decode_lens seq_lens) = length seq_lens" by (simp add: decode_lens_def)
  have progs: "map (alloc_decode_prog (pg_page_size a) (free_pages a) seq_lens last_loc)
        [0..<length seq_lens]
      = map (alloc_extend_prog (pg_page_size a) (next_power_of_2 (length seq_lens)) (free_pages a)
          (decode_lens seq_lens) last_loc) [0..<length (decode_lens seq_lens)]"
    using ps pos by (auto simp: len next_power_of_2_def intro!: alloc_decode_prog_extend)
  have pages: "sum_list (map (\<lambda>n. new_pages (pg_page_size a) (n - 1, n)) seq_lens)
      = sum_list (map (new_pages (pg_page_size a)) (decode_lens seq_lens))"
    by (simp add: decode_lens_def o_def)
  have ret: "drop_bit 32 (alloc_extend_ret (pg_page_size a) (decode_lens seq_lens))
      = int (sum_list (map (new_pages (pg_page_size a)) (decode_lens seq_lens)))"
    using small sum by (intro alloc_extend_ret_pages) simp
  show ?thesis
    unfolding alloc_decode_def alloc_extend_def Let_def progs pages ret using dbg by simp
qed

theorem decode_is_extend_by_one_witness:
  "alloc_decode [0, 0] [5, 7] [3, 9] (paged_init 32 4 False) =
     alloc_extend [0, 0] (decode_lens [5, 7]) [3, 9] (length [5::nat, 7]) (paged_init 32 4 False)"
  by (rule decode_is_extend_by_one) (simp_all add: paged_init_def paged_clear_def)

section \<open>Whole pages come back\<close>

lemma page_of_index: "off < ps \<Longrightarrow> (p * int ps + int off) div int ps = p"
  by (simp add: div_add1_eq)

lemma pages_of_page_indices:
  assumes "0 < ps"
  shows "set (map (\<lambda>i. i div int ps) (page_indices ps pages)) = set pages"
proof -
  have "(\<lambda>i. i div int ps) ` (\<lambda>off. p * int ps + int off) ` {0..<ps} = {p}" for p
    using assms by (auto simp: page_of_index image_image intro!: image_eqI[of _ _ 0])
  then have "(\<Union>p \<in> set pages. (\<lambda>i. i div int ps) ` (\<lambda>off. p * int ps + int off) ` {0..<ps})
      = set pages" by simp
  then show ?thesis by (simp add: page_indices_def image_UN)
qed

lemma mset_unique_pages:
  assumes "0 < ps" "distinct pages"
  shows "mset (unique_pages ps (page_indices ps pages)) = mset pages"
proof -
  have "set (unique_pages ps (page_indices ps pages)) = set pages"
    using pages_of_page_indices[OF assms(1)] by (simp add: unique_pages_def)
  moreover have "distinct (unique_pages ps (page_indices ps pages))"
    by (simp add: unique_pages_def)
  ultimately show ?thesis using assms(2) by (metis mset_set_set)
qed

text \<open>
  Allocating whole pages and freeing the returned indices is neutral.  From a free list without
  duplicates, the allocation hands out the requested number of slots, and freeing them outside a free
  group puts back exactly the pages that were taken, so the free list has the same pages as before
  and the debug assertion on duplicates does not fire.
\<close>

theorem paged_alloc_free_neutral:
  assumes "0 < pg_page_size a" and "distinct (free_pages a)" and "pg_is_not_in_free_group a"
    and "need mod pg_page_size a = 0" and "need \<le> paged_available_size a"
  shows "\<exists>idx a1 a2. paged_alloc need a = (Inr (Some idx), a1) \<and> length idx = need
     \<and> paged_available_size a1 + need = paged_available_size a
     \<and> paged_free idx a1 = (Inr (), a2) \<and> mset (free_pages a2) = mset (free_pages a)"
proof -
  let ?ps = "pg_page_size a" and ?n = "need div pg_page_size a"
  let ?pages = "take ?n (free_pages a)"
  let ?idx = "page_indices ?ps ?pages"
  have nd: "?n * ?ps = need" using assms(4) by (simp add: mod_eq_0_iff_dvd)
  have n: "?n \<le> length (free_pages a)"
    using assms(1,5) nd by (simp add: paged_available_size_def) (metis mult_le_cancel2)
  have dp: "distinct ?pages" using assms(2) by simp
  have alloc: "paged_alloc need a
      = (Inr (Some ?idx), a\<lparr>free_pages := drop ?n (free_pages a)\<rparr>)"
    using assms n by (simp add: paged_alloc_def Let_def)
  have len: "length ?idx = need"
    using nd n by (simp add: page_indices_def length_concat o_def sum_list_triv)
  have ms: "mset (unique_pages ?ps ?idx @ drop ?n (free_pages a)) = mset (free_pages a)"
    by (simp only: mset_append mset_unique_pages[OF assms(1) dp])
       (simp flip: mset_append)
  have di: "distinct (unique_pages ?ps ?idx @ drop ?n (free_pages a))"
    using assms(2) mset_eq_imp_distinct_iff[OF ms] by blast
  have free: "paged_free ?idx (a\<lparr>free_pages := drop ?n (free_pages a)\<rparr>)
      = (Inr (), if ?idx = [] then a\<lparr>free_pages := drop ?n (free_pages a)\<rparr>
                 else a\<lparr>free_pages := unique_pages ?ps ?idx @ drop ?n (free_pages a)\<rparr>)"
    using assms(3) di by (simp add: paged_free_def Let_def)
  have av: "paged_available_size (a\<lparr>free_pages := drop ?n (free_pages a)\<rparr>) + need
      = paged_available_size a"
    using n nd by (simp add: paged_available_size_def diff_mult_distrib)
      (metis le_add_diff_inverse2 mult_le_mono1)
  have "?idx = [] \<Longrightarrow> ?n = 0" using len nd assms(1) by auto
  then show ?thesis using alloc len free av ms by auto
qed

theorem paged_alloc_free_neutral_witness:
  "\<exists>idx a1 a2. paged_alloc 8 (paged_init 32 4 True) = (Inr (Some idx), a1) \<and> length idx = 8
     \<and> paged_available_size a1 + 8 = paged_available_size (paged_init 32 4 True)
     \<and> paged_free idx a1 = (Inr (), a2)
     \<and> mset (free_pages a2) = mset (free_pages (paged_init 32 4 True))"
  by (rule paged_alloc_free_neutral)
     (simp_all add: paged_init_def paged_clear_def paged_available_size_def distinct_map)

end
