(* ===== verification/Heapq.thy ===== *)
theory Heapq
  imports Prelude "HOL-Library.Multiset"
begin

text \<open>
  Python's \<open>heapq\<close> on a list, as \<open>RadixCache.evict\<close> uses it: \<open>heapify\<close>, \<open>heappop\<close> and
  \<open>heappush\<close> with the element order \<open>lt\<close> (\<open>TreeNode.__lt__\<close> compares hit counts).  The sift loops
  are those of the library, so ties come out in the order CPython produces.
\<close>

section \<open>The sift loops\<close>

text \<open>
  In both loops the position \<open>pos\<close> is a hole whose content is \<open>newitem\<close>; the list keeps the stale
  element there until the final store.
\<close>

function siftdown_loop :: "('a \<Rightarrow> 'a \<Rightarrow> bool) \<Rightarrow> nat \<Rightarrow> 'a \<Rightarrow> nat \<Rightarrow> 'a list \<Rightarrow> 'a list" where
  "siftdown_loop lt startpos newitem pos heap =
     (if startpos < pos \<and> lt newitem (heap ! ((pos - 1) div 2))
      then siftdown_loop lt startpos newitem ((pos - 1) div 2) (heap[pos := heap ! ((pos - 1) div 2)])
      else heap[pos := newitem])"
  by pat_completeness auto
termination
  by (relation "measure (\<lambda>(lt, startpos, newitem, pos, heap). pos)") auto

definition siftdown :: "('a \<Rightarrow> 'a \<Rightarrow> bool) \<Rightarrow> nat \<Rightarrow> nat \<Rightarrow> 'a list \<Rightarrow> 'a list" where
  "siftdown lt startpos pos heap = siftdown_loop lt startpos (heap ! pos) pos heap"

definition smaller_child :: "('a \<Rightarrow> 'a \<Rightarrow> bool) \<Rightarrow> 'a list \<Rightarrow> nat \<Rightarrow> nat" where
  "smaller_child lt heap pos =
     (let childpos = 2 * pos + 1; rightpos = childpos + 1
      in if rightpos < length heap \<and> \<not> lt (heap ! childpos) (heap ! rightpos) then rightpos
         else childpos)"

lemma smaller_child_gt: "pos < smaller_child lt heap pos"
  by (simp add: smaller_child_def Let_def)

lemma smaller_child_less:
  "2 * pos + 1 < length heap \<Longrightarrow> smaller_child lt heap pos < length heap"
  by (simp add: smaller_child_def Let_def)

function siftup_loop :: "('a \<Rightarrow> 'a \<Rightarrow> bool) \<Rightarrow> nat \<Rightarrow> 'a list \<Rightarrow> nat \<times> 'a list" where
  "siftup_loop lt pos heap =
     (if 2 * pos + 1 < length heap
      then siftup_loop lt (smaller_child lt heap pos) (heap[pos := heap ! smaller_child lt heap pos])
      else (pos, heap))"
  by pat_completeness auto
termination
  by (relation "measure (\<lambda>(lt, pos, heap). length heap - pos)")
     (auto intro: diff_less_mono2 simp: smaller_child_gt)

definition siftup :: "('a \<Rightarrow> 'a \<Rightarrow> bool) \<Rightarrow> nat \<Rightarrow> 'a list \<Rightarrow> 'a list" where
  "siftup lt pos heap =
     (case siftup_loop lt pos heap of
        (pos', heap') \<Rightarrow> siftdown lt pos pos' (heap'[pos' := heap ! pos]))"

declare siftdown_loop.simps [simp del] siftup_loop.simps [simp del]

section \<open>The queue operations\<close>

definition heappush :: "('a \<Rightarrow> 'a \<Rightarrow> bool) \<Rightarrow> 'a list \<Rightarrow> 'a \<Rightarrow> 'a list" where
  "heappush lt heap item = siftdown lt 0 (length heap) (heap @ [item])"

definition heappop :: "('a \<Rightarrow> 'a \<Rightarrow> bool) \<Rightarrow> 'a list \<Rightarrow> ('a \<times> 'a list) result" where
  "heappop lt heap =
     (if heap = [] then Inl IndexError
      else
        (let lastelt = last heap; rest = butlast heap
         in if rest = [] then Inr (lastelt, [])
            else Inr (hd rest, siftup lt 0 (rest[0 := lastelt]))))"

definition heapify :: "('a \<Rightarrow> 'a \<Rightarrow> bool) \<Rightarrow> 'a list \<Rightarrow> 'a list" where
  "heapify lt xs = fold (siftup lt) (rev [0..<length xs div 2]) xs"

section \<open>The loops permute\<close>

lemma mset_move_hole:
  assumes "i < length xs" and "j < length xs" and "i \<noteq> j"
  shows "mset (xs[i := xs ! j, j := y]) = mset (xs[i := y])"
proof -
  have "xs[i := xs ! j, j := y] = (xs[i := y])[i := (xs[i := y]) ! j, j := (xs[i := y]) ! i]"
    using assms by (simp add: list_update_swap)
  also have "mset \<dots> = mset (xs[i := y])"
    using assms by (intro mset_swap) simp_all
  finally show ?thesis .
qed

lemma length_siftdown_loop [simp]:
  "length (siftdown_loop lt st y pos heap) = length heap"
proof (induction lt st y pos heap rule: siftdown_loop.induct)
  case (1 lt st y pos heap)
  then show ?case by (subst siftdown_loop.simps) simp
qed

lemma mset_siftdown_loop:
  "pos < length heap \<Longrightarrow> mset (siftdown_loop lt st y pos heap) = mset (heap[pos := y])"
proof (induction lt st y pos heap rule: siftdown_loop.induct)
  case (1 lt st y pos heap)
  show ?case
  proof (cases "st < pos \<and> lt y (heap ! ((pos - 1) div 2))")
    case True
    let ?q = "(pos - 1) div 2"
    have q: "?q < length heap" "?q \<noteq> pos" using True "1.prems" by auto
    have "mset (siftdown_loop lt st y pos heap) =
        mset (siftdown_loop lt st y ?q (heap[pos := heap ! ?q]))"
      using True by (simp only: siftdown_loop.simps[of lt st y pos heap] simp_thms if_True)
    also have "\<dots> = mset (heap[pos := heap ! ?q, ?q := y])"
      using "1.IH"[OF True] q by simp
    also have "\<dots> = mset (heap[pos := y])"
      by (intro mset_move_hole) (use q "1.prems" in simp_all)
    finally show ?thesis .
  next
    case False
    then have "siftdown_loop lt st y pos heap = heap[pos := y]"
      by (simp only: siftdown_loop.simps[of lt st y pos heap] if_False simp_thms)
    then show ?thesis by simp
  qed
qed

lemma siftup_loop_props:
  "pos < length heap \<Longrightarrow> siftup_loop lt pos heap = (p', h') \<Longrightarrow>
     p' < length heap \<and> length h' = length heap \<and> mset (h'[p' := y]) = mset (heap[pos := y])"
proof (induction lt pos heap arbitrary: p' h' rule: siftup_loop.induct)
  case (1 lt pos heap)
  show ?case
  proof (cases "2 * pos + 1 < length heap")
    case True
    let ?c = "smaller_child lt heap pos"
    have c: "?c < length heap" "pos \<noteq> ?c"
      using smaller_child_less[OF True] smaller_child_gt[of pos lt heap] by auto
    have eq: "siftup_loop lt ?c (heap[pos := heap ! ?c]) = (p', h')"
      using "1.prems"(2) True by (subst (asm) siftup_loop.simps) simp
    from "1.IH"[OF True _ eq] c show ?thesis
      using mset_move_hole[of pos heap ?c y] "1.prems"(1) by simp
  next
    case False
    with "1.prems" show ?thesis by (subst (asm) siftup_loop.simps) auto
  qed
qed

lemma siftdown_perm:
  "pos < length heap \<Longrightarrow> mset (siftdown lt st pos heap) = mset heap"
  by (simp add: siftdown_def mset_siftdown_loop)

lemma siftup_perm:
  assumes "pos < length heap"
  shows "mset (siftup lt pos heap) = mset heap"
proof -
  obtain p' h' where eq: "siftup_loop lt pos heap = (p', h')" by fastforce
  from siftup_loop_props[OF assms eq, of "heap ! pos"]
  show ?thesis by (simp add: siftup_def eq siftdown_perm)
qed

lemma heappush_perm: "mset (heappush lt heap x) = add_mset x (mset heap)"
  by (simp add: heappush_def siftdown_perm)

lemma heappop_perm:
  assumes "heappop lt heap = Inr (x, heap')"
  shows "mset heap = add_mset x (mset heap')"
proof -
  from assms have ne: "heap \<noteq> []" by (auto simp: heappop_def)
  then have heap: "heap = butlast heap @ [last heap]" by simp
  show ?thesis
  proof (cases "butlast heap")
    case Nil
    with heap have "heap = [last heap]" by simp
    moreover from Nil assms ne have "x = last heap" "heap' = []"
      by (auto simp: heappop_def Let_def)
    ultimately show ?thesis by (metis mset.simps)
  next
    case (Cons y ys)
    with assms ne have x: "x = y" and h': "heap' = siftup lt 0 (last heap # ys)"
      by (auto simp: heappop_def Let_def)
    have "mset heap' = mset (last heap # ys)" unfolding h' by (rule siftup_perm) simp
    moreover have "mset heap = mset (butlast heap @ [last heap])" using heap by simp
    ultimately show ?thesis by (simp add: Cons x)
  qed
qed

lemma heappop_length:
  "heappop lt heap = Inr (x, heap') \<Longrightarrow> length heap = Suc (length heap')"
  using heappop_perm by (metis size_add_mset size_mset)

lemma heappop_total: "heap \<noteq> [] \<Longrightarrow> \<exists>x heap'. heappop lt heap = Inr (x, heap')"
  by (simp add: heappop_def Let_def)

lemma length_siftup: "pos < length heap \<Longrightarrow> length (siftup lt pos heap) = length heap"
  by (metis siftup_perm size_mset)

lemma fold_siftup_perm:
  "\<forall>i \<in> set is. i < length ys \<Longrightarrow> mset (fold (siftup lt) is ys) = mset ys"
  by (induction "is" arbitrary: ys) (simp_all add: siftup_perm length_siftup)

lemma heapify_perm: "mset (heapify lt xs) = mset xs"
  unfolding heapify_def by (rule fold_siftup_perm) auto

section \<open>The queue as an interface\<close>

text \<open>What eviction needs of its queue: it neither loses nor invents nodes.\<close>

locale worklist =
  fixes build :: "'a list \<Rightarrow> 'q"
    and push :: "'q \<Rightarrow> 'a \<Rightarrow> 'q"
    and pop :: "'q \<Rightarrow> ('a \<times> 'q) result"
    and items :: "'q \<Rightarrow> 'a multiset"
  assumes build_items: "items (build xs) = mset xs"
    and push_items: "items (push q x) = add_mset x (items q)"
    and pop_items: "pop q = Inr (x, q') \<Longrightarrow> items q = add_mset x (items q')"
begin

lemma pop_member: "pop q = Inr (x, q') \<Longrightarrow> x \<in># items q"
  by (simp add: pop_items)

lemma pop_rest: "pop q = Inr (x, q') \<Longrightarrow> y \<in># items q' \<Longrightarrow> y \<in># items q"
  by (simp add: pop_items)

lemma push_all:
  "(\<forall>y \<in># items q. P y) \<Longrightarrow> P x \<Longrightarrow> \<forall>y \<in># items (push q x). P y"
  by (simp add: push_items)

end

interpretation hq: worklist "heapify lt" "heappush lt" "heappop lt" mset
  by unfold_locales (simp_all add: heapify_perm heappush_perm heappop_perm)

end
