(* ===== verification/Tree_Node.thy ===== *)
theory Tree_Node
  imports Policy Mem_Pool
begin

text \<open>
  \<open>mem_cache/tree_node.py\<close> and the key functions of \<open>mem_cache/radix_cache.py\<close>.

  Nodes live in an arena, the list of all \<open>TreeNode\<close> objects created so far; the identity of a node
  is its position, which is also its \<open>id\<close> (the class counter).  Objects that are no longer
  reachable stay in the arena, so a request may still hold one.  The child dictionary is keyed by
  the first page of the child's key; for page size 1 the code uses the first token itself, here the
  list of that one token.  \<open>RadixCache\<close> gives every node a key and a value as soon as it is made, so
  both are plain lists.
\<close>

section \<open>TreeNode\<close>

record TreeNode =
  n_children :: "(int list \<times> nat) list"
  n_parent :: "nat option"
  n_key :: "int list"
  n_value :: "int list"
  n_lock_ref :: int
  n_hit_count :: int
  n_private_tag :: int
  n_need_check_privacy :: bool
  n_creator_id :: "string option"
  n_creator_set :: "string set"
  n_creator_count :: nat
  n_access_budget :: int
  n_permanently_private :: bool
  n_visibility :: string
  n_namespace_key :: "NamespaceKey option"
  n_prompt :: "string option"

definition tree_node_init :: TreeNode where
  "tree_node_init =
     \<lparr> n_children = [], n_parent = None, n_key = [], n_value = [], n_lock_ref = 0,
       n_hit_count = 0, n_private_tag = 1, n_need_check_privacy = True, n_creator_id = None,
       n_creator_set = {}, n_creator_count = 0, n_access_budget = 0,
       n_permanently_private = False, n_visibility = ''private'', n_namespace_key = None,
       n_prompt = Some [] \<rparr>"

definition node_object_id :: "nat \<Rightarrow> string" where
  "node_object_id i = ''node-'' @ show_nat i"

definition node_lt :: "TreeNode list \<Rightarrow> nat \<Rightarrow> nat \<Rightarrow> bool" where
  "node_lt ns a b \<longleftrightarrow> n_hit_count (ns ! a) < n_hit_count (ns ! b)"

section \<open>Key functions\<close>

fun key_match_page_size1 :: "int list \<Rightarrow> int list \<Rightarrow> nat" where
  "key_match_page_size1 (x # xs) (y # ys) = (if x \<noteq> y then 0 else Suc (key_match_page_size1 xs ys))"
| "key_match_page_size1 _ _ = 0"

text \<open>The page size is positive; the guard only makes the loop total at 0.\<close>

function key_match_paged_loop :: "nat \<Rightarrow> int list \<Rightarrow> int list \<Rightarrow> nat \<Rightarrow> nat" where
  "key_match_paged_loop ps key0 key1 i =
     (if 0 < ps \<and> i < min (length key0) (length key1)
      then if py_slice i (i + ps) key0 \<noteq> py_slice i (i + ps) key1 then i
           else key_match_paged_loop ps key0 key1 (i + ps)
      else i)"
  by pat_completeness auto
termination
  by (relation "measure (\<lambda>(ps, key0, key1, i). length key0 - i)") auto

declare key_match_paged_loop.simps [simp del]

definition key_match :: "nat \<Rightarrow> int list \<Rightarrow> int list \<Rightarrow> nat" where
  "key_match ps key0 key1 =
     (if ps = 1 then key_match_page_size1 key0 key1 else key_match_paged_loop ps key0 key1 0)"

definition get_child_key :: "nat \<Rightarrow> int list \<Rightarrow> int list" where
  "get_child_key ps key = take ps key"

section \<open>Facts about key matching\<close>

lemma match1_le: "key_match_page_size1 xs ys \<le> min (length xs) (length ys)"
  by (induction xs ys rule: key_match_page_size1.induct) auto

lemma match1_take: "take (key_match_page_size1 xs ys) xs = take (key_match_page_size1 xs ys) ys"
  by (induction xs ys rule: key_match_page_size1.induct) auto

lemma match1_maximal:
  "key_match_page_size1 xs ys < min (length xs) (length ys) \<Longrightarrow>
     xs ! key_match_page_size1 xs ys \<noteq> ys ! key_match_page_size1 xs ys"
  by (induction xs ys rule: key_match_page_size1.induct) auto

lemma take_add_slice: "take (i + n) xs = take i xs @ py_slice i (i + n) xs"
  unfolding py_slice_def drop_take by (simp add: take_add)

lemma paged_loop_ge: "i \<le> key_match_paged_loop ps k0 k1 i"
proof (induction ps k0 k1 i rule: key_match_paged_loop.induct)
  case (1 ps k0 k1 i)
  then show ?case by (subst key_match_paged_loop.simps) auto
qed

lemma paged_loop_take:
  "take i k0 = take i k1 \<Longrightarrow>
     take (key_match_paged_loop ps k0 k1 i) k0 = take (key_match_paged_loop ps k0 k1 i) k1"
proof (induction ps k0 k1 i rule: key_match_paged_loop.induct)
  case (1 ps k0 k1 i)
  then show ?case by (subst (1 2) key_match_paged_loop.simps) (auto simp: take_add_slice)
qed

lemma paged_loop_dvd: "ps dvd i \<Longrightarrow> ps dvd key_match_paged_loop ps k0 k1 i"
proof (induction ps k0 k1 i rule: key_match_paged_loop.induct)
  case (1 ps k0 k1 i)
  then show ?case by (subst key_match_paged_loop.simps) auto
qed

lemma paged_loop_le:
  "ps dvd length k0 \<Longrightarrow> ps dvd length k1 \<Longrightarrow> ps dvd i \<Longrightarrow> i \<le> min (length k0) (length k1) \<Longrightarrow>
     key_match_paged_loop ps k0 k1 i \<le> min (length k0) (length k1)"
proof (induction ps k0 k1 i rule: key_match_paged_loop.induct)
  case (1 ps k0 k1 i)
  have step: "i + ps \<le> n" if "i < n" "ps dvd n" for n
    using that 1(4) by (metis add.commute add_le_cancel_right dvd_add_right_iff dvd_imp_le
        le_add_diff_inverse less_imp_le zero_less_diff)
  show ?case
    using 1 step[of "length k0"] step[of "length k1"]
    by (subst key_match_paged_loop.simps) (auto simp: min_def split: if_splits)
qed

lemma paged_loop_pos:
  "0 < ps \<Longrightarrow> k0 \<noteq> [] \<Longrightarrow> k1 \<noteq> [] \<Longrightarrow> take ps k0 = take ps k1 \<Longrightarrow>
     ps \<le> key_match_paged_loop ps k0 k1 0"
  by (subst key_match_paged_loop.simps) (use paged_loop_ge[of ps ps k0 k1] in \<open>auto simp: py_slice_def\<close>)

lemma key_match_take: "take (key_match ps k0 k1) k0 = take (key_match ps k0 k1) k1"
  using match1_take[of k0 k1] paged_loop_take[of 0 k0 k1 ps] by (simp add: key_match_def)

lemma key_match_pos:
  assumes "0 < ps" "k0 \<noteq> []" "k1 \<noteq> []" "get_child_key ps k0 = get_child_key ps k1"
  shows "0 < key_match ps k0 k1"
proof (cases "ps = 1")
  case True
  then show ?thesis
    using assms by (cases k0; cases k1) (auto simp: key_match_def get_child_key_def)
next
  case False
  then show ?thesis
    using assms paged_loop_pos[of ps k0 k1] by (simp add: key_match_def get_child_key_def)
qed

text \<open>Keys whose length is a whole number of pages; at page size 1 every key is.\<close>

lemma key_match_le:
  "ps dvd length k0 \<Longrightarrow> ps dvd length k1 \<Longrightarrow> key_match ps k0 k1 \<le> min (length k0) (length k1)"
  using match1_le[of k0 k1] paged_loop_le[of ps k0 k1 0] by (simp add: key_match_def)

lemma key_match_dvd: "ps dvd key_match ps k0 k1"
  by (simp add: key_match_def paged_loop_dvd)

end
