(* ===== verification/Radix_Cache.thy ===== *)
theory Radix_Cache
  imports Tree_Node Registry Ledger Paged_Alloc Heapq
    "HOL-Library.List_Lexorder" "HOL-Library.Char_ord" "HOL-Library.Product_Lexorder"
begin

text \<open>
  \<open>mem_cache/radix_cache.py\<close>: the radix cache with its SafeKV namespaces.  The state record has the
  fields of the class, the arena of nodes, the file behind the ledger, the queue of the privacy
  judge and the two memory pools.  A method that may raise returns \<open>'a result \<times> RadixCache\<close>; one
  whose loop might not end is wrapped in \<open>option\<close>.

  The environment gives the clock readings and the ledger's I/O outcomes, indexed by a tick the state
  counts, so that two readings of one call may differ; Python's \<open>hash\<close> of a token tuple; and the
  text of an exception.
\<close>

section \<open>State\<close>

datatype KVCacheEvent =
    BlockStored "int list" "int option" "int list" nat "int option"
  | BlockRemoved "int list"
  | AllBlocksCleared

record PrivateNodeTask =
  t_node :: nat
  t_task_type :: string
  t_context :: string
  t_prompt :: string
  t_request_id :: string
  t_timestamp :: pyfloat
  t_privacy :: bool

datatype kv_allocator =
    Slots TokenToKVPoolAllocator
  | Pages PagedTokenToKVPoolAllocator

fun kv_free :: "int list \<Rightarrow> kv_allocator \<Rightarrow> unit result \<times> kv_allocator" where
  "kv_free idx (Slots a) = (Inr (), Slots (free idx a))"
| "kv_free idx (Pages a) = (case paged_free idx a of (r, a') \<Rightarrow> (r, Pages a'))"

record cache_env =
  env_lib :: stdlib
  env_clock :: "nat \<Rightarrow> pyfloat"
  env_io :: "nat \<Rightarrow> ledger_io"
  env_hash :: "int list \<Rightarrow> int"
  env_exc_text :: "pyexc \<Rightarrow> string"

record RadixCache =
  req_to_token_pool :: ReqToTokenPool
  token_to_kv_pool_allocator :: kv_allocator
  page_size :: nat
  disable :: bool
  enable_kv_cache_events :: bool
  kv_event_queue :: "KVCacheEvent list"
  tier_1_task_queue :: "PrivateNodeTask list"
  access_budget_B :: int
  creator_threshold_K :: int
  safekv_mode :: string
  experiment_autoshare :: bool
  model_id :: string
  tokenizer_version :: string
  metrics :: SafeKVMetrics
  ledger :: DurableLedger
  ledger_disk :: ledger_file
  registry :: PublicRegistry
  private_roots :: "(string \<times> nat) list"
  public_roots :: "(string \<times> nat) list"
  public_tokens :: "(string \<times> int list) list"
  nodes :: "TreeNode list"
  root_node :: nat
  evictable_sz :: int
  protected_sz :: int
  ticks :: nat

abbreviation nd :: "RadixCache \<Rightarrow> nat \<Rightarrow> TreeNode" where
  "nd c i \<equiv> nodes c ! i"

definition upd :: "nat \<Rightarrow> (TreeNode \<Rightarrow> TreeNode) \<Rightarrow> RadixCache \<Rightarrow> RadixCache" where
  "upd i f c = c\<lparr>nodes := (nodes c)[i := f (nodes c ! i)]\<rparr>"

definition add_node :: "TreeNode \<Rightarrow> RadixCache \<Rightarrow> RadixCache" where
  "add_node t c = c\<lparr>nodes := nodes c @ [t]\<rparr>"

definition log_event :: "cache_env \<Rightarrow> string \<Rightarrow> (string \<times> pyval) list \<Rightarrow> RadixCache \<Rightarrow> RadixCache" where
  "log_event env n attrs c =
     c\<lparr>metrics := record_event (env_clock env (ticks c)) n attrs (metrics c), ticks := Suc (ticks c)\<rparr>"

definition log_count :: "cache_env \<Rightarrow> string \<Rightarrow> (string \<times> pyval) list \<Rightarrow> RadixCache \<Rightarrow> RadixCache" where
  "log_count env n attrs c =
     c\<lparr>metrics := snd (increment (env_clock env (ticks c)) n 1 attrs (metrics c)),
       ticks := Suc (ticks c)\<rparr>"

section \<open>Events\<close>

definition record_store_event :: "cache_env \<Rightarrow> nat \<Rightarrow> RadixCache \<Rightarrow> RadixCache" where
  "record_store_event env i c =
     (if enable_kv_cache_events c
      then (case n_parent (nd c i) of
              None \<Rightarrow> c
            | Some p \<Rightarrow>
                c\<lparr>kv_event_queue := kv_event_queue c @
                   [BlockStored [env_hash env (n_key (nd c i))] (Some (env_hash env (n_key (nd c p))))
                      (n_key (nd c i)) (length (n_key (nd c i))) None]\<rparr>)
      else c)"

definition record_remove_event :: "cache_env \<Rightarrow> nat \<Rightarrow> RadixCache \<Rightarrow> RadixCache" where
  "record_remove_event env i c =
     (if enable_kv_cache_events c
      then c\<lparr>kv_event_queue := kv_event_queue c @ [BlockRemoved [env_hash env (n_key (nd c i))]]\<rparr>
      else c)"

definition record_all_cleared_event :: "RadixCache \<Rightarrow> RadixCache" where
  "record_all_cleared_event c =
     (if enable_kv_cache_events c then c\<lparr>kv_event_queue := kv_event_queue c @ [AllBlocksCleared]\<rparr>
      else c)"

definition take_events :: "RadixCache \<Rightarrow> KVCacheEvent list \<times> RadixCache" where
  "take_events c =
     (if \<not> enable_kv_cache_events c then ([], c)
      else (kv_event_queue c, c\<lparr>kv_event_queue := []\<rparr>))"

section \<open>Construction and namespaces\<close>

definition cache_reset :: "RadixCache \<Rightarrow> RadixCache" where
  "cache_reset c =
     (let root = tree_node_init\<lparr>n_key := [], n_value := [], n_lock_ref := 1, n_visibility := ''root''\<rparr>
      in record_all_cleared_event
           ((add_node root c)\<lparr>root_node := length (nodes c), private_roots := [], public_roots := [],
              public_tokens := [], registry := registry_reset None (registry c),
              metrics := metrics_reset (metrics c), evictable_sz := 0, protected_sz := 0\<rparr>))"

definition cache_init ::
  "ReqToTokenPool \<Rightarrow> kv_allocator \<Rightarrow> nat \<Rightarrow> bool \<Rightarrow> bool \<Rightarrow> int \<Rightarrow> int \<Rightarrow> string \<Rightarrow> string option \<Rightarrow> int
     \<Rightarrow> string option \<Rightarrow> string option \<Rightarrow> string option \<Rightarrow> bool \<Rightarrow> ledger_file \<Rightarrow> RadixCache result" where
  "cache_init pool al ps dis events B K mode key epoch model tok path autoshare disk =
     bindE (registry_init (utf8 (case key of None \<Rightarrow> ''safekv-development-key''
                                  | Some k \<Rightarrow> if k = [] then ''safekv-development-key'' else k)) epoch)
       (\<lambda>reg. Inr (cache_reset
          \<lparr> req_to_token_pool = pool, token_to_kv_pool_allocator = al, page_size = ps,
            disable = dis, enable_kv_cache_events = events, kv_event_queue = [],
            tier_1_task_queue = [], access_budget_B = B, creator_threshold_K = K,
            safekv_mode = mode, experiment_autoshare = autoshare,
            model_id = (case model of None \<Rightarrow> ''unknown-model''
                        | Some m \<Rightarrow> if m = [] then ''unknown-model'' else m),
            tokenizer_version = (case tok of None \<Rightarrow> ''unknown-tokenizer''
                        | Some m \<Rightarrow> if m = [] then ''unknown-tokenizer'' else m),
            metrics = metrics_init, ledger = ledger_init path disk, ledger_disk = disk,
            registry = reg, private_roots = [], public_roots = [], public_tokens = [], nodes = [],
            root_node = 0, evictable_sz = 0, protected_sz = 0, ticks = 0 \<rparr>))"

definition new_namespace_root :: "NamespaceKey \<Rightarrow> RadixCache \<Rightarrow> nat \<times> RadixCache" where
  "new_namespace_root ns c =
     (length (nodes c),
      add_node (tree_node_init\<lparr>n_key := [], n_value := [], n_lock_ref := 1,
                  n_parent := Some (root_node c), n_namespace_key := Some ns,
                  n_visibility := vis_value (ns_visibility ns)\<rparr>) c)"

definition private_root :: "string \<Rightarrow> bool \<Rightarrow> RadixCache \<Rightarrow> nat option \<times> RadixCache" where
  "private_root user_id create c =
     (case map_of (private_roots c) user_id of
        Some r \<Rightarrow> (Some r, c)
      | None \<Rightarrow>
          if create
          then (case new_namespace_root (ns_private user_id ''namespace-root'') c of
                  (r, c1) \<Rightarrow> (Some r, c1\<lparr>private_roots := dict_set user_id r (private_roots c1)\<rparr>))
          else (None, c))"

definition caught :: "pyexc \<Rightarrow> bool" where
  "caught e = (case e of KeyError _ \<Rightarrow> True | TypeError \<Rightarrow> True | ValueError _ \<Rightarrow> True | _ \<Rightarrow> False)"

definition parse_authorization ::
  "cache_env \<Rightarrow> (string \<times> pyval) list option \<Rightarrow> RadixCache
     \<Rightarrow> PublicAuthorization option result \<times> RadixCache" where
  "parse_authorization env auth c =
     (case auth of
        None \<Rightarrow> (Inr None, c)
      | Some d \<Rightarrow>
          if d = [] then (Inr None, c)
          else case from_mapping (env_lib env) d of
            Inr a \<Rightarrow> (Inr (Some a), c)
          | Inl e \<Rightarrow>
              if caught e
              then (Inr None, log_event env ''authorization_rejected''
                      [(''reason'', VStr ''malformed''), (''detail'', VStr (env_exc_text env e))] c)
              else (Inl e, c))"

definition install_authorization ::
  "cache_env \<Rightarrow> (string \<times> pyval) list option \<Rightarrow> int list \<Rightarrow> RadixCache
     \<Rightarrow> (PublicAuthorization option \<times> string) result \<times> RadixCache" where
  "install_authorization env auth key c =
     andThen (parse_authorization env auth c) (\<lambda>parsed c1.
       case parsed of
         None \<Rightarrow> (Inr (None, if auth = None \<or> auth = Some [] then ''none'' else ''malformed''), c1)
       | Some a \<Rightarrow>
           (case install (env_lib env) (env_clock env (ticks c1)) a key (Some (model_id c1))
                   (Some (tokenizer_version c1)) None (registry c1) of
              (Inl e, reg) \<Rightarrow> (Inl e, c1\<lparr>registry := reg, ticks := Suc (ticks c1)\<rparr>)
            | (Inr r, reg) \<Rightarrow>
                (let c2 = log_event env ''authorization_verified''
                       [(''object_id'', VStr (public_object_id a)), (''accepted'', VBool (valid r)),
                        (''reason'', VStr (reason r))]
                       (c1\<lparr>registry := reg, ticks := Suc (ticks c1)\<rparr>)
                 in if \<not> valid r then (Inr (None, reason r), c2)
                    else
                      (let oid = public_object_id a;
                           c3 = c2\<lparr>public_tokens := dict_set oid key (public_tokens c2)\<rparr>
                       in if map_of (public_roots c3) oid = None
                          then (case new_namespace_root (ns_public oid (prefix_fingerprint a)) c3 of
                                  (i, c4) \<Rightarrow>
                                    (Inr (Some a, reason r),
                                     c4\<lparr>public_roots := dict_set oid i (public_roots c4)\<rparr>))
                          else (Inr (Some a, reason r), c3)))))"

definition public_matches :: "int list \<Rightarrow> RadixCache \<Rightarrow> (nat \<times> string) list" where
  "public_matches key c =
     map (\<lambda>(oid, tokens). (length tokens, oid))
       (filter (\<lambda>(oid, tokens). \<not> is_revoked (registry c) oid \<and> length tokens \<le> length key \<and>
                  take (length tokens) key = tokens) (public_tokens c))"

definition matching_public_root :: "int list \<Rightarrow> RadixCache \<Rightarrow> (nat \<times> string) option result" where
  "matching_public_root key c =
     (if public_matches key c = [] then Inr None
      else let oid = snd (Max (set (public_matches key c)))
           in case map_of (public_roots c) oid of
                None \<Rightarrow> Inl (KeyError oid)
              | Some r \<Rightarrow> Inr (Some (r, oid)))"

section \<open>Fingerprints\<close>

definition node_fingerprint :: "cache_env \<Rightarrow> RadixCache \<Rightarrow> int list \<Rightarrow> string" where
  "node_fingerprint env c key =
     (if key = [] then ''empty''
      else sha256_hexdigest (env_lib env) (utf8 (join_with [char_of (0::nat)]
        [show_int (reg_policy_epoch (registry c)), model_id c, tokenizer_version c,
         join_with '','' (map show_int key)])))"

definition value_identity :: "cache_env \<Rightarrow> int list \<Rightarrow> string" where
  "value_identity env v = sha256_hexdigest (env_lib env) (utf8 (join_with '','' (map show_int v)))"

definition flush_budgets_to_ledger :: "cache_env \<Rightarrow> RadixCache \<Rightarrow> unit result \<times> RadixCache" where
  "flush_budgets_to_ledger env c =
     (case ledger_flush (env_io env (ticks c)) (ledger c) (ledger_disk c) of
        (r, l, disk) \<Rightarrow> (r, c\<lparr>ledger := l, ledger_disk := disk, ticks := Suc (ticks c)\<rparr>))"

section \<open>Lookup\<close>

definition visible_to :: "RadixCache \<Rightarrow> nat \<Rightarrow> string option \<Rightarrow> bool" where
  "visible_to c i user_id =
     (if safekv_mode c = ''none'' then True
      else if n_visibility (nd c i) = vis_value VERIFIED_PUBLIC then True
      else if user_id \<noteq> None \<and> user_id = n_creator_id (nd c i) then True
      else if safekv_mode c = ''balanced'' \<and> n_visibility (nd c i) = vis_value BUDGETED_SHARED \<and>
              \<not> n_permanently_private (nd c i) then True
      else False)"

definition exhaust :: "TreeNode \<Rightarrow> TreeNode" where
  "exhaust t = t\<lparr>n_visibility := vis_value EXHAUSTED_PRIVATE, n_permanently_private := True\<rparr>"

definition reserve_balanced_hit :: "cache_env \<Rightarrow> nat \<Rightarrow> RadixCache \<Rightarrow> bool result \<times> RadixCache" where
  "reserve_balanced_hit env child c =
     (if n_visibility (nd c child) \<noteq> vis_value BUDGETED_SHARED then (Inr False, c)
      else
        (let fp = node_fingerprint env c (n_key (nd c child))
         in case reserve_hit (env_io env (ticks c)) fp (access_budget_B c) (ledger c) (ledger_disk c) of
              (Inl e, l, disk) \<Rightarrow> (Inl e, c\<lparr>ledger := l, ledger_disk := disk, ticks := Suc (ticks c)\<rparr>)
            | (Inr (accepted, charged, why), l, disk) \<Rightarrow>
                (let c1 = c\<lparr>ledger := l, ledger_disk := disk, ticks := Suc (ticks c)\<rparr>
                 in if \<not> accepted
                    then (Inr False,
                          log_event env ''balanced_hit_denied''
                            [(''fingerprint'', VStr fp), (''reason'', VStr why),
                             (''charged_hits'', VInt charged)] (upd child exhaust c1))
                    else
                      (let c2 = log_count env ''cross_tenant_balanced_hits''
                             [(''fingerprint'', VStr fp), (''budget'', VInt charged)]
                             (upd child (n_access_budget_update (\<lambda>_. charged)) c1)
                       in (Inr True,
                           if charged \<ge> access_budget_B c2
                           then log_count env ''budget_exhausted_nodes'' [(''fingerprint'', VStr fp)]
                                  (upd child exhaust c2)
                           else c2)))))"

definition split_node :: "cache_env \<Rightarrow> nat \<Rightarrow> nat \<Rightarrow> RadixCache \<Rightarrow> nat result \<times> RadixCache" where
  "split_node env child split_len c =
     (let c1 = record_remove_event env child c;
          t = nd c1 child; ps = page_size c1; new = length (nodes c1);
          key = n_key t;
          new_node = tree_node_init\<lparr>
            n_children := [(get_child_key ps (drop split_len key), child)],
            n_parent := n_parent t, n_lock_ref := n_lock_ref t, n_key := take split_len key,
            n_value := take split_len (n_value t), n_creator_id := n_creator_id t,
            n_private_tag := n_private_tag t, n_need_check_privacy := n_need_check_privacy t,
            n_creator_set := n_creator_set t, n_creator_count := n_creator_count t,
            n_access_budget := n_access_budget t,
            n_permanently_private := n_permanently_private t, n_visibility := n_visibility t,
            n_namespace_key := n_namespace_key t, n_hit_count := n_hit_count t,
            n_prompt := n_prompt t\<rparr>;
          c2 = upd child (\<lambda>t. t\<lparr>n_parent := Some new, n_key := drop split_len (n_key t),
                 n_value := drop split_len (n_value t)\<rparr>) (add_node new_node c1)
      in case n_parent t of
           None \<Rightarrow> (Inl AttributeError, c2)
         | Some p \<Rightarrow>
             (Inr new,
              record_store_event env child (record_store_event env new
                (upd p (\<lambda>t. t\<lparr>n_children := dict_set (get_child_key ps key) new (n_children t)\<rparr>)
                   c2))))"

definition budget_applies :: "RadixCache \<Rightarrow> nat \<Rightarrow> string option \<Rightarrow> bool" where
  "budget_applies c child user_id \<longleftrightarrow>
     safekv_mode c = ''balanced'' \<and> n_visibility (nd c child) = vis_value BUDGETED_SHARED \<and>
     user_id \<noteq> None \<and> user_id \<noteq> n_creator_id (nd c child)"

definition charge :: "cache_env \<Rightarrow> nat \<Rightarrow> string option \<Rightarrow> RadixCache \<Rightarrow> bool result \<times> RadixCache" where
  "charge env child user_id c =
     (if budget_applies c child user_id then reserve_balanced_hit env child c else (Inr True, c))"

text \<open>The loop of \<open>_match_prefix_helper\<close>; it ends because each turn consumes part of the key.\<close>

function match_loop ::
  "cache_env \<Rightarrow> string option \<Rightarrow> nat \<Rightarrow> int list \<Rightarrow> int list list \<Rightarrow> RadixCache
     \<Rightarrow> (int list list \<times> nat) result \<times> RadixCache" where
  "match_loop env user_id node key vals c =
     (if key = [] then (Inr (vals, node), c)
      else case map_of (n_children (nd c node)) (get_child_key (page_size c) key) of
        None \<Rightarrow> (Inr (vals, node), c)
      | Some child \<Rightarrow>
          if \<not> visible_to c child user_id then (Inr (vals, node), c)
          else
            (let prefix_len = key_match (page_size c) (n_key (nd c child)) key
             in if prefix_len = 0 then (Inr (vals, node), c)
                else andThen (charge env child user_id c) (\<lambda>ok c1.
                  if \<not> ok then (Inr (vals, node), c1)
                  else
                    (let c2 = upd child (\<lambda>t. t\<lparr>n_hit_count := n_hit_count t + 1\<rparr>) c1
                     in if prefix_len < length (n_key (nd c2 child))
                        then andThen (split_node env child prefix_len c2) (\<lambda>new c3.
                               (Inr (vals @ [n_value (nd c3 new)], new), c3))
                        else match_loop env user_id child (drop prefix_len key)
                               (vals @ [n_value (nd c2 child)]) c2))))"
  by pat_completeness auto
termination
  by (relation "measure (\<lambda>(env, user_id, node, key, vals, c). length key)") auto

declare match_loop.simps [simp del]

definition match_prefix_helper ::
  "cache_env \<Rightarrow> nat \<Rightarrow> int list \<Rightarrow> string option \<Rightarrow> RadixCache
     \<Rightarrow> (int list list \<times> nat) result \<times> RadixCache" where
  "match_prefix_helper env node key user_id c = match_loop env user_id node key [] c"

text \<open>The search of other principals' trees in balanced mode, in the order of \<open>private_roots\<close>.\<close>

fun match_others ::
  "cache_env \<Rightarrow> (string \<times> nat) list \<Rightarrow> int list \<Rightarrow> string \<Rightarrow> RadixCache
     \<Rightarrow> (int list \<times> nat) option result \<times> RadixCache" where
  "match_others env [] key user_id c = (Inr None, c)"
| "match_others env ((owner, r) # rest) key user_id c =
     andThen (match_prefix_helper env r key (Some user_id) c) (\<lambda>(vals, last_node) c1.
       if vals \<noteq> []
       then (Inr (Some (concat vals, last_node)),
             log_event env ''lookup'' [(''requester'', VStr user_id),
               (''served_namespace'', VStr ''budgeted_shared''), (''owner'', VStr owner),
               (''hit'', VBool True)] c1)
       else match_others env rest key user_id c1)"

definition match_private ::
  "cache_env \<Rightarrow> int list \<Rightarrow> string \<Rightarrow> RadixCache \<Rightarrow> (int list \<times> nat) option result \<times> RadixCache" where
  "match_private env key user_id c =
     (case map_of (private_roots c) user_id of
        None \<Rightarrow> (Inr None, c)
      | Some r \<Rightarrow>
          andThen (match_prefix_helper env r key (Some user_id) c) (\<lambda>(vals, last_node) c1.
            (Inr (if vals \<noteq> [] then Some (concat vals, last_node) else None),
             log_event env ''lookup'' [(''requester'', VStr user_id),
               (''served_namespace'', VStr ''private''), (''owner'', VStr user_id),
               (''hit'', VBool (vals \<noteq> []))] c1)))"

definition match_public ::
  "cache_env \<Rightarrow> int list \<Rightarrow> string \<Rightarrow> (string \<times> pyval) list option \<Rightarrow> RadixCache
     \<Rightarrow> (int list \<times> nat) option result \<times> RadixCache" where
  "match_public env key user_id auth c =
     andThen (install_authorization env auth key c) (\<lambda>(installed_auth, _) c1.
     andThen (case installed_auth of
                Some a \<Rightarrow>
                  (case map_of (public_roots c1) (public_object_id a) of
                     None \<Rightarrow> (Inl (KeyError (public_object_id a)), c1)
                   | Some r \<Rightarrow> (Inr (Some (r, public_object_id a)), c1))
              | None \<Rightarrow> (matching_public_root key c1, c1)) (\<lambda>found c2.
     case found of
       None \<Rightarrow> (Inr None, c2)
     | Some (r, oid) \<Rightarrow>
         andThen (match_prefix_helper env r key (Some user_id) c2) (\<lambda>(vals, last_node) c3.
           if vals \<noteq> [] \<or> installed_auth \<noteq> None
           then (Inr (Some (concat vals, last_node)),
                 log_event env ''lookup'' [(''requester'', VStr user_id),
                   (''served_namespace'', VStr ''verified_public''),
                   (''public_object_id'', VStr oid), (''hit'', VBool (vals \<noteq> []))] c3)
           else (Inr None, c3))))"

definition aligned_key :: "nat \<Rightarrow> int list \<Rightarrow> int list" where
  "aligned_key ps key = (if ps \<noteq> 1 then take (page_align ps (length key)) key else key)"

text \<open>
  \<open>match_prefix\<close>.  The scrub of a device buffer after a miss changes nothing the program can read
  and is left out.
\<close>

definition match_prefix ::
  "cache_env \<Rightarrow> int list \<Rightarrow> string option \<Rightarrow> (string \<times> pyval) list option \<Rightarrow> RadixCache
     \<Rightarrow> (int list \<times> nat) result \<times> RadixCache" where
  "match_prefix env key user_id auth c =
     (if disable c \<or> length key = 0 then (Inr ([], root_node c), c)
      else if safekv_mode c = ''none''
      then andThen (match_prefix_helper env (root_node c) (aligned_key (page_size c) key) user_id c)
             (\<lambda>(vals, last_node) c1.
                (Inr (if vals \<noteq> [] then (concat vals, last_node) else ([], root_node c1)), c1))
      else if user_id = None \<or> user_id = Some []
      then (Inr ([], root_node c), log_event env ''lookup_denied''
              [(''reason'', VStr ''missing_principal'')] c)
      else
        (let key' = aligned_key (page_size c) key; uid = the user_id
         in andThen (match_public env key' uid auth c) (\<lambda>pub c1.
            case pub of
              Some r \<Rightarrow> (Inr r, c1)
            | None \<Rightarrow>
                andThen (match_private env key' uid c1) (\<lambda>priv c2.
                case priv of
                  Some r \<Rightarrow> (Inr r, c2)
                | None \<Rightarrow>
                    andThen (if safekv_mode c2 = ''balanced''
                             then match_others env
                                    (filter (\<lambda>(u, _). u \<noteq> uid) (private_roots c2)) key' uid c2
                             else (Inr None, c2)) (\<lambda>oth c3.
                    case oth of
                      Some r \<Rightarrow> (Inr r, c3)
                    | None \<Rightarrow> (Inr ([], root_node c3), c3))))))"

section \<open>Insertion\<close>

text \<open>
  \<open>PrivateJudgeClient.update_privacy\<close>: a child of a confirmed private node inherits, a request with
  no text stays private unchecked, every other node is queued with the last line but one of its
  prompt.
\<close>

definition judged_line :: "string \<Rightarrow> string" where
  "judged_line prompt =
     (let ls = split_on (char_of (10::nat)) (strip prompt)
      in if length ls > 1 then ls ! (length ls - 2) else last ls)"

definition update_privacy :: "cache_env \<Rightarrow> nat \<Rightarrow> string option \<Rightarrow> RadixCache \<Rightarrow> RadixCache" where
  "update_privacy env i prompt c =
     (if (case n_parent (nd c i) of
            None \<Rightarrow> False
          | Some p \<Rightarrow> \<not> n_need_check_privacy (nd c p) \<and> n_private_tag (nd c p) = 1)
      then upd i (\<lambda>t. t\<lparr>n_need_check_privacy := False\<rparr>) c
      else if prompt = None \<or> prompt = Some []
      then upd i (\<lambda>t. t\<lparr>n_need_check_privacy := False\<rparr>) c
      else
        (let line = judged_line (the prompt);
             task = \<lparr> t_node = i, t_task_type = ''update_private'', t_context = line,
                      t_prompt = line, t_request_id = [], t_timestamp = env_clock env (ticks c),
                      t_privacy = True \<rparr>
         in c\<lparr>tier_1_task_queue := tier_1_task_queue c @ [task], ticks := Suc (ticks c)\<rparr>))"

text \<open>The node that one turn of the chunk loop of \<open>_insert_helper\<close> makes.\<close>

definition chunk_size :: nat where
  "chunk_size = 1024"

definition public_namespace :: "NamespaceKey option \<Rightarrow> bool" where
  "public_namespace ns = (case ns of None \<Rightarrow> False | Some k \<Rightarrow> ns_visibility k = VERIFIED_PUBLIC)"

definition fresh_node ::
  "RadixCache \<Rightarrow> nat \<Rightarrow> int list \<Rightarrow> int list \<Rightarrow> string option \<Rightarrow> string option \<Rightarrow> TreeNode" where
  "fresh_node c node key value prompt user_id =
     (let users = (case user_id of None \<Rightarrow> {} | Some u \<Rightarrow> if u = [] then {} else {u});
          ns = n_namespace_key (nd c node);
          t = tree_node_init\<lparr>n_parent := Some node, n_key := take chunk_size key,
                n_value := take chunk_size value, n_prompt := prompt, n_private_tag := 1,
                n_access_budget := 0, n_creator_id := user_id, n_creator_set := users,
                n_creator_count := card users, n_namespace_key := ns\<rparr>
      in if public_namespace ns
         then t\<lparr>n_private_tag := 0, n_visibility := vis_value VERIFIED_PUBLIC, n_creator_id := None\<rparr>
         else if experiment_autoshare c \<and> safekv_mode c = ''balanced''
         then t\<lparr>n_visibility := vis_value BUDGETED_SHARED, n_private_tag := 0,
                n_need_check_privacy := False\<rparr>
         else t\<lparr>n_visibility := vis_value PRIVATE\<rparr>)"

definition judge_fresh ::
  "cache_env \<Rightarrow> nat \<Rightarrow> nat \<Rightarrow> string option \<Rightarrow> RadixCache \<Rightarrow> RadixCache" where
  "judge_fresh env node new prompt c =
     (if \<not> public_namespace (n_namespace_key (nd c node)) \<and>
         \<not> (experiment_autoshare c \<and> safekv_mode c = ''balanced'') \<and> safekv_mode c \<noteq> ''strict''
      then update_privacy env new prompt c else c)"

function insert_chunks ::
  "cache_env \<Rightarrow> nat \<Rightarrow> int list \<Rightarrow> int list \<Rightarrow> int list \<Rightarrow> string option \<Rightarrow> string option \<Rightarrow> RadixCache
     \<Rightarrow> RadixCache" where
  "insert_chunks env node child_key key value prompt user_id c =
     (if value = [] then c
      else
        (let new = length (nodes c);
             c1 = judge_fresh env node new prompt
                    (add_node (fresh_node c node key value prompt user_id) c);
             c2 = upd node (\<lambda>t. t\<lparr>n_children := dict_set child_key new (n_children t)\<rparr>) c1;
             c3 = record_store_event env new
                    (c2\<lparr>evictable_sz := evictable_sz c2 + int (min chunk_size (length value))\<rparr>);
             key' = drop chunk_size key
         in insert_chunks env new (if key' \<noteq> [] then get_child_key (page_size c3) key' else child_key)
              key' (drop chunk_size value) prompt user_id c3))"
  by pat_completeness auto
termination
  by (relation "measure (\<lambda>(env, node, ck, key, value, prompt, user_id, c). length value)")
     (auto simp: chunk_size_def)

declare insert_chunks.simps [simp del]

text \<open>
  The descent of \<open>_insert_helper\<close>.  It ends on a well-formed tree, where every turn consumes part of
  the key; on a malformed one it might not, hence \<open>option\<close>.
\<close>

partial_function (option) insert_walk ::
  "cache_env \<Rightarrow> nat \<Rightarrow> int list \<Rightarrow> int list \<Rightarrow> int list \<Rightarrow> nat \<Rightarrow> RadixCache
     \<Rightarrow> ((nat \<times> int list \<times> int list \<times> int list \<times> nat) result \<times> RadixCache) option" where
  "insert_walk env node child_key key value plen c =
     (if key = [] then Some (Inr (node, child_key, key, value, plen), c)
      else case map_of (n_children (nd c node)) child_key of
        None \<Rightarrow> Some (Inr (node, child_key, key, value, plen), c)
      | Some child \<Rightarrow>
          (let prefix_len = key_match (page_size c) (n_key (nd c child)) key;
               key' = drop prefix_len key;
               ck' = (if key' \<noteq> [] then get_child_key (page_size c) key' else child_key)
           in if prefix_len < length (n_key (nd c child))
              then (case split_node env child prefix_len c of
                      (Inl e, c1) \<Rightarrow> Some (Inl e, c1)
                    | (Inr new, c1) \<Rightarrow>
                        insert_walk env new ck' key' (drop prefix_len value) (plen + prefix_len) c1)
              else insert_walk env child ck' key' (drop prefix_len value) (plen + prefix_len) c))"

definition insert_helper ::
  "cache_env \<Rightarrow> nat \<Rightarrow> int list \<Rightarrow> int list \<Rightarrow> string option \<Rightarrow> string option \<Rightarrow> RadixCache
     \<Rightarrow> (nat result \<times> RadixCache) option" where
  "insert_helper env node key value prompt user_id c =
     (if length key = 0 then Some (Inr 0, c)
      else case insert_walk env node (get_child_key (page_size c) key) key value 0 c of
        None \<Rightarrow> None
      | Some (Inl e, c1) \<Rightarrow> Some (Inl e, c1)
      | Some (Inr (node', ck, key', value', plen), c1) \<Rightarrow>
          Some (Inr plen,
                if key' \<noteq> [] then insert_chunks env node' ck key' value' prompt user_id c1 else c1))"

definition insert_target ::
  "cache_env \<Rightarrow> int list \<Rightarrow> string \<Rightarrow> (string \<times> pyval) list option \<Rightarrow> RadixCache
     \<Rightarrow> (PublicAuthorization option \<times> nat) result \<times> RadixCache" where
  "insert_target env key uid auth c =
     andThen (parse_authorization env auth c) (\<lambda>parsed c1.
     andThen (case parsed of
                None \<Rightarrow> (Inr None, c1)
              | Some a \<Rightarrow>
                  if prefix_token_length a \<le> int (length key)
                  then andThen (install_authorization env auth (py_take (prefix_token_length a) key) c1)
                         (\<lambda>(inst, _) c2. (Inr inst, c2))
                  else (Inr None, c1)) (\<lambda>inst c2.
     case inst of
       Some a \<Rightarrow>
         (case map_of (public_roots c2) (public_object_id a) of
            None \<Rightarrow> (Inl (KeyError (public_object_id a)), c2)
          | Some r \<Rightarrow> (Inr (Some a, r), c2))
     | None \<Rightarrow> (case private_root uid True c2 of (r, c3) \<Rightarrow> (Inr (None, the r), c3))))"

definition cache_insert ::
  "cache_env \<Rightarrow> int list \<Rightarrow> int list option \<Rightarrow> string option \<Rightarrow> string option
     \<Rightarrow> (string \<times> pyval) list option \<Rightarrow> RadixCache \<Rightarrow> (nat result \<times> RadixCache) option" where
  "cache_insert env key value prompt user_id auth c =
     (if disable c then Some (Inr 0, c)
      else if safekv_mode c = ''none''
      then insert_helper env (root_node c) key (case value of None \<Rightarrow> key | Some v \<Rightarrow> v) prompt user_id c
      else if user_id = None \<or> user_id = Some [] then Some (Inr 0, c)
      else
        (let value' = (case value of None \<Rightarrow> key | Some v \<Rightarrow> v)
         in case insert_target env key (the user_id) auth c of
              (Inl e, c1) \<Rightarrow> Some (Inl e, c1)
            | (Inr (None, r), c1) \<Rightarrow> insert_helper env r key value' prompt user_id c1
            | (Inr (Some a, r), c1) \<Rightarrow>
                (let was_empty = (n_children (nd c1 r) = [])
                 in case insert_helper env r (py_take (prefix_token_length a) key)
                           (py_take (prefix_token_length a) value') prompt user_id c1 of
                      None \<Rightarrow> None
                    | Some (Inl e, c2) \<Rightarrow> Some (Inl e, c2)
                    | Some (Inr n, c2) \<Rightarrow>
                        Some (Inr n,
                              if was_empty \<and> n_children (nd c2 r) \<noteq> []
                              then log_count env ''public_object_created''
                                     [(''object_id'', VStr (public_object_id a))] c2
                              else c2))))"

section \<open>Locks\<close>

partial_function (option) inc_lock_loop ::
  "nat option \<Rightarrow> int \<Rightarrow> RadixCache \<Rightarrow> (int result \<times> RadixCache) option" where
  "inc_lock_loop node delta c =
     (case node of
        None \<Rightarrow> Some (Inl AttributeError, c)
      | Some i \<Rightarrow>
          if i = root_node c then Some (Inr delta, c)
          else
            (let n = int (length (n_value (nd c i)));
                 c1 = (if n_lock_ref (nd c i) = 0
                       then c\<lparr>evictable_sz := evictable_sz c - n,
                              protected_sz := protected_sz c + n\<rparr>
                       else c);
                 delta1 = (if n_lock_ref (nd c i) = 0 then delta - n else delta)
             in inc_lock_loop (n_parent (nd c i)) delta1
                  (upd i (\<lambda>t. t\<lparr>n_lock_ref := n_lock_ref t + 1\<rparr>) c1)))"

definition inc_lock_ref :: "nat \<Rightarrow> RadixCache \<Rightarrow> (int result \<times> RadixCache) option" where
  "inc_lock_ref node c = (if disable c then Some (Inr 0, c) else inc_lock_loop (Some node) 0 c)"

partial_function (option) dec_lock_loop ::
  "nat option \<Rightarrow> int \<Rightarrow> RadixCache \<Rightarrow> (int result \<times> RadixCache) option" where
  "dec_lock_loop node delta c =
     (case node of
        None \<Rightarrow> Some (Inl AttributeError, c)
      | Some i \<Rightarrow>
          if i = root_node c then Some (Inr delta, c)
          else
            (let n = int (length (n_value (nd c i)));
                 c1 = (if n_lock_ref (nd c i) = 1
                       then c\<lparr>evictable_sz := evictable_sz c + n,
                              protected_sz := protected_sz c - n\<rparr>
                       else c);
                 delta1 = (if n_lock_ref (nd c i) = 1 then delta + n else delta)
             in dec_lock_loop (n_parent (nd c i)) delta1
                  (upd i (\<lambda>t. t\<lparr>n_lock_ref := n_lock_ref t - 1\<rparr>) c1)))"

definition dec_lock_ref :: "nat \<Rightarrow> RadixCache \<Rightarrow> (int result \<times> RadixCache) option" where
  "dec_lock_ref node c = (if disable c then Some (Inr 0, c) else dec_lock_loop (Some node) 0 c)"

definition evictable_size :: "RadixCache \<Rightarrow> int" where
  "evictable_size c = evictable_sz c"

definition protected_size :: "RadixCache \<Rightarrow> int" where
  "protected_size c = protected_sz c"

section \<open>Walks over the trees\<close>

text \<open>
  The order in which a loop \<open>while stack: x = stack.pop(); ...; stack.extend(x.children.values())\<close>
  visits the nodes.  The list is the stack with its top first.
\<close>

definition child_ids :: "TreeNode list \<Rightarrow> nat \<Rightarrow> nat list" where
  "child_ids ns i = map snd (n_children (ns ! i))"

partial_function (option) dfs_order :: "TreeNode list \<Rightarrow> nat list \<Rightarrow> nat list option" where
  "dfs_order ns stack =
     (case stack of
        [] \<Rightarrow> Some []
      | x # rest \<Rightarrow>
          Option.bind (dfs_order ns (rev (child_ids ns x) @ rest)) (\<lambda>xs. Some (x # xs)))"

definition namespace_roots :: "RadixCache \<Rightarrow> nat list" where
  "namespace_roots c = map snd (private_roots c) @ map snd (public_roots c)"

definition total_size :: "RadixCache \<Rightarrow> nat option" where
  "total_size c =
     (case dfs_order (nodes c) (rev (namespace_roots c)) of
        None \<Rightarrow> None
      | Some xs \<Rightarrow> Some (sum_list (map (\<lambda>i. length (n_value (nd c i))) xs)))"

definition collect_leaves :: "RadixCache \<Rightarrow> nat list option" where
  "collect_leaves c =
     (case dfs_order (nodes c) (rev (concat (map (child_ids (nodes c)) (namespace_roots c)))) of
        None \<Rightarrow> None
      | Some xs \<Rightarrow> Some (filter (\<lambda>i. n_children (nd c i) = []) xs))"

text \<open>\<open>all_values_flatten\<close>: pre-order, the children of a node in dictionary order.\<close>

partial_function (option) pre_order :: "TreeNode list \<Rightarrow> nat list \<Rightarrow> nat list option" where
  "pre_order ns todo =
     (case todo of
        [] \<Rightarrow> Some []
      | x # rest \<Rightarrow>
          Option.bind (pre_order ns (child_ids ns x @ rest)) (\<lambda>xs. Some (x # xs)))"

definition all_values_flatten :: "RadixCache \<Rightarrow> int list option" where
  "all_values_flatten c =
     (case pre_order (nodes c) (concat (map (child_ids (nodes c)) (namespace_roots c))) of
        None \<Rightarrow> None
      | Some xs \<Rightarrow> Some (concat (map (\<lambda>i. n_value (nd c i)) xs)))"

section \<open>Promotion\<close>

definition promotable :: "string \<Rightarrow> TreeNode \<Rightarrow> bool" where
  "promotable fp t \<longleftrightarrow>
     n_visibility t = vis_value PRIVATE \<and> \<not> n_permanently_private t \<and>
     (case n_namespace_key t of None \<Rightarrow> False | Some k \<Rightarrow> ns_fingerprint k = fp)"

definition promote_node :: "cache_env \<Rightarrow> nat \<Rightarrow> RadixCache \<Rightarrow> unit result \<times> RadixCache" where
  "promote_node env i c =
     (let node_fp = node_fingerprint env c (n_key (nd c i))
      in if \<not> is_operational (ledger c) then (Inr (), upd i exhaust c)
         else
           (case charged_hits (env_io env (ticks c)) node_fp (ledger c) (ledger_disk c) of
              (Inl e, l) \<Rightarrow> (Inl e, c\<lparr>ledger := l, ticks := Suc (ticks c)\<rparr>)
            | (Inr charged, l) \<Rightarrow>
                (let c1 = upd i (n_access_budget_update (\<lambda>_. charged))
                       (c\<lparr>ledger := l, ticks := Suc (ticks c)\<rparr>)
                 in (Inr (),
                     if charged \<ge> access_budget_B c1 then upd i exhaust c1
                     else upd i (n_visibility_update (\<lambda>_. vis_value BUDGETED_SHARED)) c1))))"

fun promote_list ::
  "cache_env \<Rightarrow> string \<Rightarrow> nat list \<Rightarrow> nat \<Rightarrow> RadixCache \<Rightarrow> nat result \<times> RadixCache" where
  "promote_list env fp [] promoted c = (Inr promoted, c)"
| "promote_list env fp (i # is') promoted c =
     (if promotable fp (nd c i)
      then andThen (promote_node env i c) (\<lambda>_ c1. promote_list env fp is' (Suc promoted) c1)
      else promote_list env fp is' promoted c)"

definition promote_to_budgeted ::
  "cache_env \<Rightarrow> string \<Rightarrow> string \<Rightarrow> RadixCache \<Rightarrow> (nat result \<times> RadixCache) option" where
  "promote_to_budgeted env user_id fp c =
     (if safekv_mode c \<noteq> ''balanced'' then Some (Inr 0, c)
      else case map_of (private_roots c) user_id of
        None \<Rightarrow> Some (Inr 0, c)
      | Some r \<Rightarrow>
          (case dfs_order (nodes c) (rev (child_ids (nodes c) r)) of
             None \<Rightarrow> None
           | Some xs \<Rightarrow> Some (promote_list env fp xs 0 c)))"

section \<open>Snapshot\<close>

record variant =
  v_node_id :: nat
  v_object_id :: string
  v_visibility :: string
  v_namespace_visibility :: "string option"
  v_namespace_identity :: "string option"
  v_creator_id :: "string option"
  v_token_count :: nat
  v_kv_address_id :: string

definition variant_of :: "cache_env \<Rightarrow> RadixCache \<Rightarrow> nat \<Rightarrow> nat \<Rightarrow> variant" where
  "variant_of env c root_id i =
     (let t = nd c i;
          ns = (case n_namespace_key t of None \<Rightarrow> n_namespace_key (nd c root_id) | Some k \<Rightarrow> Some k)
      in \<lparr> v_node_id = i, v_object_id = node_object_id i, v_visibility = n_visibility t,
           v_namespace_visibility = map_option (\<lambda>k. vis_value (ns_visibility k)) ns,
           v_namespace_identity = map_option ns_identity ns, v_creator_id = n_creator_id t,
           v_token_count = length (n_key t), v_kv_address_id = value_identity env (n_value t) \<rparr>)"

fun root_variants :: "cache_env \<Rightarrow> RadixCache \<Rightarrow> nat list \<Rightarrow> variant list option" where
  "root_variants env c [] = Some []"
| "root_variants env c (r # rs) =
     (case dfs_order (nodes c) (rev (child_ids (nodes c) r)) of
        None \<Rightarrow> None
      | Some xs \<Rightarrow> map_option ((@) (map (variant_of env c r) xs)) (root_variants env c rs))"

record snapshot =
  s_mode :: string
  s_model_id :: string
  s_tokenizer_version :: string
  s_policy_epoch :: int
  s_access_budget_B :: int
  s_counters :: "(string \<times> int) list"
  s_ledger :: "(string \<times> int) list"
  s_events :: "SafeKVEvent list"
  s_variants :: "variant list"
  s_private_principals :: "string list"
  s_public_object_ids :: "string list"

definition safekv_snapshot :: "cache_env \<Rightarrow> RadixCache \<Rightarrow> (snapshot result \<times> RadixCache) option" where
  "safekv_snapshot env c =
     (case root_variants env c (namespace_roots c) of
        None \<Rightarrow> None
      | Some vs \<Rightarrow>
          (case ledger_snapshot (env_io env (ticks c)) (ledger c) (ledger_disk c) of
             (Inl e, l) \<Rightarrow> Some (Inl e, c\<lparr>ledger := l, ticks := Suc (ticks c)\<rparr>)
           | (Inr d, l) \<Rightarrow>
               Some (Inr \<lparr> s_mode = safekv_mode c, s_model_id = model_id c,
                           s_tokenizer_version = tokenizer_version c,
                           s_policy_epoch = reg_policy_epoch (registry c),
                           s_access_budget_B = access_budget_B c,
                           s_counters = fst (metrics_snapshot (metrics c)), s_ledger = d,
                           s_events = snd (metrics_snapshot (metrics c)), s_variants = vs,
                           s_private_principals = sort (map fst (private_roots c)),
                           s_public_object_ids = sort (map fst (public_roots c)) \<rparr>,
                     c\<lparr>ledger := l, ticks := Suc (ticks c)\<rparr>)))"

section \<open>Eviction\<close>

text \<open>
  \<open>_delete_leaf\<close> deletes the entry that holds the node; were there none, the loop variable would be
  left at the last key and that entry would go.
\<close>

definition delete_leaf :: "nat \<Rightarrow> RadixCache \<Rightarrow> unit result \<times> RadixCache" where
  "delete_leaf x c =
     (case n_parent (nd c x) of
        None \<Rightarrow> (Inl AttributeError, c)
      | Some p \<Rightarrow>
          (let chs = n_children (nd c p)
           in if chs = [] then (Inl (RuntimeError ''UnboundLocalError''), c)
              else
                (let k = (case find (\<lambda>(k, v). v = x) chs of
                            Some (k, _) \<Rightarrow> k | None \<Rightarrow> fst (last chs));
                     c1 = upd p (\<lambda>t. t\<lparr>n_children := dict_pop k (n_children t)\<rparr>) c
                 in (Inr (), c1\<lparr>evictable_sz := evictable_sz c1 - int (length (n_key (nd c1 x)))\<rparr>))))"

definition free_kv :: "int list \<Rightarrow> RadixCache \<Rightarrow> unit result \<times> RadixCache" where
  "free_kv idx c =
     (case kv_free idx (token_to_kv_pool_allocator c) of
        (r, a) \<Rightarrow> (r, c\<lparr>token_to_kv_pool_allocator := a\<rparr>))"

text \<open>One eviction: free the slots, unlink the leaf, log it, and say whether the parent became a leaf.\<close>

definition evict_one :: "cache_env \<Rightarrow> nat \<Rightarrow> RadixCache \<Rightarrow> nat option result \<times> RadixCache" where
  "evict_one env x c =
     andThen (free_kv (n_value (nd c x)) c) (\<lambda>_ c1.
     andThen (delete_leaf x c1) (\<lambda>_ c2.
       case n_parent (nd c2 x) of
         None \<Rightarrow> (Inl AttributeError, c2)
       | Some p \<Rightarrow>
           (Inr (if n_children (nd c2 p) = [] then Some p else None), record_remove_event env x c2)))"

partial_function (option) evict_loop ::
  "cache_env \<Rightarrow> int \<Rightarrow> nat list \<Rightarrow> int \<Rightarrow> RadixCache \<Rightarrow> (unit result \<times> RadixCache) option" where
  "evict_loop env num_tokens leaves num_evicted c =
     (if num_evicted < num_tokens \<and> leaves \<noteq> []
      then (case heappop (node_lt (nodes c)) leaves of
              Inl e \<Rightarrow> Some (Inl e, c)
            | Inr (x, leaves1) \<Rightarrow>
                if x = root_node c then Some (Inr (), c)
                else if n_lock_ref (nd c x) > 0 then evict_loop env num_tokens leaves1 num_evicted c
                else case evict_one env x c of
                  (Inl e, c1) \<Rightarrow> Some (Inl e, c1)
                | (Inr new_leaf, c1) \<Rightarrow>
                    evict_loop env num_tokens
                      (case new_leaf of None \<Rightarrow> leaves1 | Some p \<Rightarrow> heappush (node_lt (nodes c1)) leaves1 p)
                      (num_evicted + int (length (n_value (nd c x)))) c1)
      else Some (Inr (), c))"

definition evict :: "cache_env \<Rightarrow> int \<Rightarrow> RadixCache \<Rightarrow> (unit result \<times> RadixCache) option" where
  "evict env num_tokens c =
     (if disable c then Some (Inr (), c)
      else case collect_leaves c of
        None \<Rightarrow> None
      | Some leaves \<Rightarrow> evict_loop env num_tokens (heapify (node_lt (nodes c)) leaves) 0 c)"

section \<open>Requests\<close>

record Req =
  r_req_pool_idx :: nat
  r_origin_input_ids :: "int list"
  r_output_ids :: "int list"
  r_fill_ids :: "int list"
  r_origin_input_text :: "string option"
  r_prefix_indices :: "int list"
  r_last_node :: nat
  r_user_id :: "string option"
  r_public_authorization :: "(string \<times> pyval) list option"

text \<open>A method that may raise, may not end and changes the cache, followed by another.\<close>

definition thenO ::
  "('a result \<times> 's) option \<Rightarrow> ('a \<Rightarrow> 's \<Rightarrow> ('b result \<times> 's) option) \<Rightarrow> ('b result \<times> 's) option" where
  "thenO m f = Option.bind m (\<lambda>(r, s). case r of Inl e \<Rightarrow> Some (Inl e, s) | Inr x \<Rightarrow> f x s)"

definition read_row :: "nat \<Rightarrow> int \<Rightarrow> RadixCache \<Rightarrow> int list result \<times> RadixCache" where
  "read_row row n c =
     (if row < length (req_to_token (req_to_token_pool c))
      then (Inr (py_take n (req_to_token (req_to_token_pool c) ! row)), c)
      else (Inl IndexError, c))"

definition release_req_slot :: "nat \<Rightarrow> RadixCache \<Rightarrow> RadixCache" where
  "release_req_slot row c = c\<lparr>req_to_token_pool := req_pool_free [row] (req_to_token_pool c)\<rparr>"

definition cache_finished_req ::
  "cache_env \<Rightarrow> Req \<Rightarrow> RadixCache \<Rightarrow> (unit result \<times> RadixCache) option" where
  "cache_finished_req env req c =
     (if disable c
      then Some (andThen (read_row (r_req_pool_idx req)
                   (int (length (r_origin_input_ids req)) + int (length (r_output_ids req)) - 1) c)
             (\<lambda>kv c1. andThen (free_kv kv c1)
               (\<lambda>_ c2. (Inr (), release_req_slot (r_req_pool_idx req) c2))))
      else
        (let token_ids = butlast (r_origin_input_ids req @ r_output_ids req)
         in thenO (Some (read_row (r_req_pool_idx req) (int (length token_ids)) c)) (\<lambda>kv c1.
            let plen = (if page_size c1 \<noteq> 1 then page_align (page_size c1) (length kv) else length kv)
            in thenO (Some (if page_size c1 \<noteq> 1 then free_kv (drop plen kv) c1 else (Inr (), c1))) (\<lambda>_ c2.
               thenO (cache_insert env (take plen token_ids) (Some (take plen kv))
                        (r_origin_input_text req) (r_user_id req) (r_public_authorization req) c2)
                 (\<lambda>new_prefix_len c3.
               thenO (Some (free_kv (py_slice (length (r_prefix_indices req)) new_prefix_len kv) c3))
                 (\<lambda>_ c4.
               thenO (dec_lock_ref (r_last_node req) (release_req_slot (r_req_pool_idx req) c4))
                 (\<lambda>_ c5. Some (Inr (), c5))))))))"

definition write_row :: "nat \<Rightarrow> nat \<Rightarrow> nat \<Rightarrow> int list \<Rightarrow> RadixCache \<Rightarrow> unit result \<times> RadixCache" where
  "write_row row a b vals c =
     (case req_pool_write row a b vals (req_to_token_pool c) of
        (r, p) \<Rightarrow> (r, c\<lparr>req_to_token_pool := p\<rparr>))"

definition cache_unfinished_req ::
  "cache_env \<Rightarrow> Req \<Rightarrow> RadixCache \<Rightarrow> (Req result \<times> RadixCache) option" where
  "cache_unfinished_req env req c =
     (if disable c then Some (Inr req, c)
      else
        thenO (Some (read_row (r_req_pool_idx req) (int (length (r_fill_ids req))) c)) (\<lambda>kv c1.
        let plen = (if page_size c1 \<noteq> 1 then page_align (page_size c1) (length kv) else length kv);
            tokens = take plen (r_fill_ids req)
        in thenO (cache_insert env tokens (Some (take plen kv)) (r_origin_input_text req)
                    (r_user_id req) (r_public_authorization req) c1) (\<lambda>new_prefix_len c2.
           thenO (Some (free_kv (py_slice (length (r_prefix_indices req)) new_prefix_len kv) c2)) (\<lambda>_ c3.
           thenO (Some (match_prefix env tokens (r_user_id req) (r_public_authorization req) c3))
             (\<lambda>(new_indices, new_last_node) c4.
           thenO (Some (write_row (r_req_pool_idx req) (length (r_prefix_indices req))
                          (length new_indices)
                          (drop (length (r_prefix_indices req)) new_indices) c4)) (\<lambda>_ c5.
           thenO (dec_lock_ref (r_last_node req) c5) (\<lambda>_ c6.
           thenO (inc_lock_ref new_last_node c6) (\<lambda>_ c7.
             Some (Inr (req\<lparr>r_prefix_indices :=
                               (if page_size c7 \<noteq> 1 then new_indices @ drop (length new_indices) kv
                                else new_indices),
                             r_last_node := new_last_node\<rparr>), c7)))))))))"

declare insert_walk.simps [code] inc_lock_loop.simps [code] dec_lock_loop.simps [code]
  dfs_order.simps [code] pre_order.simps [code] evict_loop.simps [code]

end
