(* ===== verification/Radix_Tree.thy ===== *)
theory Radix_Tree
  imports Radix_Cache
begin

text \<open>
  The shape invariant of the radix trees and its preservation by every structural step: field
  updates, node splits, new leaves, new namespace roots and deleted leaves.
\<close>

section \<open>The invariant\<close>

definition child_ok :: "nat \<Rightarrow> TreeNode list \<Rightarrow> nat \<Rightarrow> int list \<Rightarrow> nat \<Rightarrow> bool" where
  "child_ok ps ns i k j \<longleftrightarrow>
     j < length ns \<and> n_parent (ns ! j) = Some i \<and> n_key (ns ! j) \<noteq> [] \<and>
     k = get_child_key ps (n_key (ns ! j))"

definition children_ok :: "nat \<Rightarrow> TreeNode list \<Rightarrow> nat \<Rightarrow> bool" where
  "children_ok ps ns i \<longleftrightarrow>
     distinct (map fst (n_children (ns ! i))) \<and>
     (\<forall>(k, j) \<in> set (n_children (ns ! i)). child_ok ps ns i k j)"

definition ranked :: "TreeNode list \<Rightarrow> (nat \<Rightarrow> nat) \<Rightarrow> bool" where
  "ranked ns d \<longleftrightarrow>
     (\<forall>i < length ns. \<forall>p. n_parent (ns ! i) = Some p \<longrightarrow> p < length ns \<and> d p < d i)"

definition tree_ok :: "nat \<Rightarrow> TreeNode list \<Rightarrow> bool" where
  "tree_ok ps ns \<longleftrightarrow>
     0 < ps \<and> (\<exists>d. ranked ns d) \<and>
     (\<forall>i < length ns. children_ok ps ns i \<and> length (n_key (ns ! i)) = length (n_value (ns ! i)))"

definition same_shape :: "TreeNode \<Rightarrow> TreeNode \<Rightarrow> bool" where
  "same_shape t t' \<longleftrightarrow>
     n_children t' = n_children t \<and> n_parent t' = n_parent t \<and> n_key t' = n_key t \<and>
     n_value t' = n_value t \<and> n_creator_id t' = n_creator_id t \<and> n_namespace_key t' = n_namespace_key t"

lemma tree_okD:
  assumes "tree_ok ps ns" "i < length ns"
  shows "children_ok ps ns i" "length (n_key (ns ! i)) = length (n_value (ns ! i))"
  using assms by (simp_all add: tree_ok_def)

lemma tree_ok_pos: "tree_ok ps ns \<Longrightarrow> 0 < ps"
  by (simp add: tree_ok_def)

lemma child_okI:
  "tree_ok ps ns \<Longrightarrow> i < length ns \<Longrightarrow> (k, j) \<in> set (n_children (ns ! i)) \<Longrightarrow> child_ok ps ns i k j"
  by (auto simp: tree_ok_def children_ok_def)

lemma child_of_map:
  "tree_ok ps ns \<Longrightarrow> i < length ns \<Longrightarrow> map_of (n_children (ns ! i)) k = Some j \<Longrightarrow> child_ok ps ns i k j"
  by (rule child_okI) (auto dest: map_of_SomeD)

lemma map_of_child:
  assumes "tree_ok ps ns" "i < length ns" "(k, j) \<in> set (n_children (ns ! i))"
  shows "map_of (n_children (ns ! i)) k = Some j"
  using assms by (auto simp: tree_ok_def children_ok_def)

lemma parent_less: "tree_ok ps ns \<Longrightarrow> i < length ns \<Longrightarrow> n_parent (ns ! i) = Some p \<Longrightarrow> p < length ns"
  by (auto simp: tree_ok_def ranked_def)

lemma parent_neq: "tree_ok ps ns \<Longrightarrow> i < length ns \<Longrightarrow> n_parent (ns ! i) = Some p \<Longrightarrow> p \<noteq> i"
  by (auto simp: tree_ok_def ranked_def)

section \<open>Updates that keep the shape\<close>

lemma same_shape_refl [simp]: "same_shape t t"
  by (simp add: same_shape_def)

lemma tree_ok_same_shape:
  assumes "tree_ok ps ns" and "length ns' = length ns"
    and "\<And>i. i < length ns \<Longrightarrow> same_shape (ns ! i) (ns' ! i)"
  shows "tree_ok ps ns'"
proof -
  have ch: "child_ok ps ns' i k j = child_ok ps ns i k j" for i k j
    using assms(2) assms(3)[of j] by (auto simp: child_ok_def same_shape_def)
  obtain d where "ranked ns d" using assms(1) by (auto simp: tree_ok_def)
  then have "ranked ns' d" using assms(2,3) by (auto simp: ranked_def same_shape_def)
  moreover have "children_ok ps ns' i" "length (n_key (ns' ! i)) = length (n_value (ns' ! i))"
    if "i < length ns" for i
    using tree_okD[OF assms(1) that] assms(3)[OF that]
    by (auto simp: children_ok_def ch same_shape_def)
  ultimately show ?thesis using assms(1,2) by (auto simp: tree_ok_def)
qed

lemma tree_ok_update:
  assumes "tree_ok ps ns" and "\<And>t. same_shape t (f t)"
  shows "tree_ok ps (ns[i := f (ns ! i)])"
proof (rule tree_ok_same_shape[OF assms(1)])
  show "same_shape (ns ! j) (ns[i := f (ns ! i)] ! j)" if "j < length ns" for j
    using assms(2) that by (cases "j = i") auto
qed simp

section \<open>Splitting a node\<close>

text \<open>What \<open>_split_node\<close> does to the arena.\<close>

definition upper_half :: "nat \<Rightarrow> TreeNode \<Rightarrow> nat \<Rightarrow> nat \<Rightarrow> TreeNode" where
  "upper_half ps t child n =
     tree_node_init\<lparr>
       n_children := [(get_child_key ps (drop n (n_key t)), child)],
       n_parent := n_parent t, n_lock_ref := n_lock_ref t, n_key := take n (n_key t),
       n_value := take n (n_value t), n_creator_id := n_creator_id t,
       n_private_tag := n_private_tag t, n_need_check_privacy := n_need_check_privacy t,
       n_creator_set := n_creator_set t, n_creator_count := n_creator_count t,
       n_access_budget := n_access_budget t,
       n_permanently_private := n_permanently_private t, n_visibility := n_visibility t,
       n_namespace_key := n_namespace_key t, n_hit_count := n_hit_count t, n_prompt := n_prompt t\<rparr>"

definition lower_half :: "nat \<Rightarrow> nat \<Rightarrow> TreeNode \<Rightarrow> TreeNode" where
  "lower_half new n t =
     t\<lparr>n_parent := Some new, n_key := drop n (n_key t), n_value := drop n (n_value t)\<rparr>"

definition split_arena :: "nat \<Rightarrow> nat \<Rightarrow> nat \<Rightarrow> nat \<Rightarrow> TreeNode list \<Rightarrow> TreeNode list" where
  "split_arena ps p child n ns =
     (let t = ns ! child; new = length ns;
          ns1 = (ns @ [upper_half ps t child n])[child := lower_half new n t]
      in ns1[p := (ns1 ! p)\<lparr>n_children := dict_set (get_child_key ps (n_key t)) new (n_children (ns1 ! p))\<rparr>])"

lemma nodes_record_events [simp]:
  "nodes (record_store_event env i c) = nodes c"
  "nodes (record_remove_event env i c) = nodes c"
  "page_size (record_store_event env i c) = page_size c"
  "page_size (record_remove_event env i c) = page_size c"
  "safekv_mode (record_store_event env i c) = safekv_mode c"
  "safekv_mode (record_remove_event env i c) = safekv_mode c"
  "root_node (record_store_event env i c) = root_node c"
  "root_node (record_remove_event env i c) = root_node c"
  "private_roots (record_store_event env i c) = private_roots c"
  "private_roots (record_remove_event env i c) = private_roots c"
  "public_roots (record_store_event env i c) = public_roots c"
  "public_roots (record_remove_event env i c) = public_roots c"
  "disable (record_store_event env i c) = disable c"
  "disable (record_remove_event env i c) = disable c"
  by (simp_all add: record_store_event_def record_remove_event_def split: option.splits)

lemma nodes_log [simp]:
  "nodes (log_event env n a c) = nodes c" "nodes (log_count env n a c) = nodes c"
  "page_size (log_event env n a c) = page_size c" "page_size (log_count env n a c) = page_size c"
  "safekv_mode (log_event env n a c) = safekv_mode c" "safekv_mode (log_count env n a c) = safekv_mode c"
  "root_node (log_event env n a c) = root_node c" "root_node (log_count env n a c) = root_node c"
  "private_roots (log_event env n a c) = private_roots c"
  "private_roots (log_count env n a c) = private_roots c"
  "public_roots (log_event env n a c) = public_roots c"
  "public_roots (log_count env n a c) = public_roots c"
  "access_budget_B (log_count env n a c) = access_budget_B c"
  "disable (log_event env n a c) = disable c" "disable (log_count env n a c) = disable c"
  by (simp_all add: log_event_def log_count_def)

lemma upd_simps [simp]:
  "nodes (upd i f c) = (nodes c)[i := f (nd c i)]" "page_size (upd i f c) = page_size c"
  "safekv_mode (upd i f c) = safekv_mode c" "root_node (upd i f c) = root_node c"
  "private_roots (upd i f c) = private_roots c" "public_roots (upd i f c) = public_roots c"
  "access_budget_B (upd i f c) = access_budget_B c"
  "nodes (add_node t c) = nodes c @ [t]" "page_size (add_node t c) = page_size c"
  "safekv_mode (add_node t c) = safekv_mode c" "root_node (add_node t c) = root_node c"
  "private_roots (add_node t c) = private_roots c" "public_roots (add_node t c) = public_roots c"
  "disable (upd i f c) = disable c" "disable (add_node t c) = disable c"
  by (simp_all add: upd_def add_node_def)

lemma split_node_eq:
  assumes "n_parent (nd c child) = Some p" and "child < length (nodes c)"
  shows "\<exists>c'. split_node env child n c = (Inr (length (nodes c)), c') \<and>
     nodes c' = split_arena (page_size c) p child n (nodes c) \<and> page_size c' = page_size c \<and>
     safekv_mode c' = safekv_mode c \<and> root_node c' = root_node c \<and>
     private_roots c' = private_roots c \<and> public_roots c' = public_roots c \<and> disable c' = disable c"
proof -
  have "(nodes c @ [t]) ! child = nd c child" for t using assms(2) by (simp add: nth_append)
  then show ?thesis
    using assms
    by (simp add: split_node_def split_arena_def upper_half_def lower_half_def Let_def)
qed

lemma length_split_arena [simp]: "length (split_arena ps p child n ns) = Suc (length ns)"
  by (simp add: split_arena_def Let_def)

lemma nth_split_arena:
  assumes "child < length ns" "p < length ns" "p \<noteq> child"
  shows "split_arena ps p child n ns ! length ns = upper_half ps (ns ! child) child n"
    and "split_arena ps p child n ns ! child = lower_half (length ns) n (ns ! child)"
    and "split_arena ps p child n ns ! p =
           (ns ! p)\<lparr>n_children := dict_set (get_child_key ps (n_key (ns ! child))) (length ns)
                                  (n_children (ns ! p))\<rparr>"
    and "i < length ns \<Longrightarrow> i \<noteq> p \<Longrightarrow> i \<noteq> child \<Longrightarrow> split_arena ps p child n ns ! i = ns ! i"
  using assms by (auto simp: split_arena_def Let_def nth_append nth_list_update)

lemma tree_ok_split:
  assumes ok: "tree_ok ps ns" and p: "p < length ns"
    and mem: "map_of (n_children (ns ! p)) k = Some child"
    and n: "ps \<le> n" "n < length (n_key (ns ! child))"
  shows "tree_ok ps (split_arena ps p child n ns)"
proof -
  let ?ns = "split_arena ps p child n ns" and ?new = "length ns"
  have co: "child_ok ps ns p k child" by (rule child_of_map[OF ok p mem])
  then have c: "child < length ns" and par: "n_parent (ns ! child) = Some p"
    and key: "n_key (ns ! child) \<noteq> []" and k: "k = get_child_key ps (n_key (ns ! child))"
    by (auto simp: child_ok_def)
  have pc: "p \<noteq> child" by (rule parent_neq[OF ok c par])
  note nth = nth_split_arena[OF c p pc, where ps = ps and n = n]
  have ps: "0 < ps" by (rule tree_ok_pos[OF ok])
  have len: "length (n_key (ns ! i)) = length (n_value (ns ! i))" if "i < length ns" for i
    using tree_okD[OF ok that] by simp
  obtain d where d: "ranked ns d" using ok by (auto simp: tree_ok_def)
  define d' where "d' = (\<lambda>i. if i = ?new then 2 * d child - 1 else 2 * d i)"
  have dp: "d p < d child" using d c par by (auto simp: ranked_def)
  have rk: "ranked ?ns d'"
    unfolding ranked_def
  proof (intro allI impI)
    fix i q
    assume i: "i < length ?ns" and q: "n_parent (?ns ! i) = Some q"
    have old: "q < length ns \<and> d q < d i" if "i < length ns" "n_parent (ns ! i) = Some q"
      using d that by (auto simp: ranked_def)
    consider "i = ?new" | "i = child" | "i = p" | "i < length ns" "i \<noteq> child" "i \<noteq> p"
      using i by fastforce
    then show "q < length ?ns \<and> d' q < d' i"
    proof cases
      case 1
      then show ?thesis
        using q p dp par by (auto simp: nth upper_half_def tree_node_init_def d'_def)
    next
      case 2
      then show ?thesis using q c dp by (auto simp: nth lower_half_def d'_def)
    next
      case 3
      then show ?thesis using q old p by (auto simp: nth d'_def)
    next
      case 4
      then show ?thesis using q old by (auto simp: nth d'_def)
    qed
  qed
  have keep: "child_ok ps ?ns i k' j" if "child_ok ps ns i k' j" "j \<noteq> child" for i k' j
    using that nth by (cases "j = p") (auto simp: child_ok_def)
  have new: "child_ok ps ?ns p k ?new"
    using n k par key ps
    by (auto simp: child_ok_def nth upper_half_def tree_node_init_def get_child_key_def min_def)
  have low: "child_ok ps ?ns ?new (get_child_key ps (drop n (n_key (ns ! child)))) child"
    using n c by (auto simp: child_ok_def nth lower_half_def)
  have other: "j \<noteq> child" if "i < length ns" "(k', j) \<in> set (n_children (ns ! i))" "i \<noteq> p \<or> k' \<noteq> k" for i k' j
    using child_okI[OF ok that(1,2)] par k that(3) by (auto simp: child_ok_def)
  have "children_ok ps ?ns i \<and> length (n_key (?ns ! i)) = length (n_value (?ns ! i))"
    if i: "i < length ?ns" for i
  proof -
    consider "i = ?new" | "i = child" | "i = p" | "i < length ns" "i \<noteq> child" "i \<noteq> p"
      using i by fastforce
    then show ?thesis
    proof cases
      case 1
      then show ?thesis
        using low len[OF c] by (simp add: children_ok_def nth upper_half_def tree_node_init_def)
    next
      case 2
      have "\<forall>(k', j) \<in> set (n_children (ns ! child)). child_ok ps ?ns child k' j"
        using child_okI[OF ok c] other[OF c] keep pc by fast
      then show ?thesis
        using 2 len[OF c] tree_okD(1)[OF ok c] by (simp add: children_ok_def nth lower_half_def)
    next
      case 3
      have "child_ok ps ?ns p k' j" if "(k', j) \<in> set (dict_set k ?new (n_children (ns ! p)))" for k' j
        using that tree_okD(1)[OF ok p] new child_okI[OF ok p] other[OF p] keep
        by (cases "k' = k") (auto simp: children_ok_def dict_set_member)
      then show ?thesis
        using 3 len[OF p] tree_okD(1)[OF ok p] k
        by (auto simp: children_ok_def nth distinct_update)
    next
      case 4
      have "\<forall>(k', j) \<in> set (n_children (ns ! i)). child_ok ps ?ns i k' j"
        using child_okI[OF ok 4(1)] other[OF 4(1)] keep 4(3) by fast
      then show ?thesis
        using 4 len[OF 4(1)] tree_okD(1)[OF ok 4(1)] by (simp add: children_ok_def nth)
    qed
  qed
  then show ?thesis using ps rk by (auto simp: tree_ok_def)
qed

section \<open>Adding and removing nodes\<close>

lemma tree_ok_append:
  assumes ok: "tree_ok ps ns" and kids: "n_children t = []"
    and par: "\<And>p. n_parent t = Some p \<Longrightarrow> p < length ns"
    and len: "length (n_key t) = length (n_value t)"
  shows "tree_ok ps (ns @ [t])"
proof -
  obtain d where d: "ranked ns d" using ok by (auto simp: tree_ok_def)
  define d' where
    "d' = d(length ns := (case n_parent t of None \<Rightarrow> 0 | Some p \<Rightarrow> Suc (d p)))"
  have "ranked (ns @ [t]) d'"
    using d par by (fastforce simp: ranked_def d'_def nth_append less_Suc_eq split: if_splits)
  moreover have "child_ok ps (ns @ [t]) i k j" if "child_ok ps ns i k j" for i k j
    using that by (simp add: child_ok_def nth_append)
  then have "children_ok ps (ns @ [t]) i" if "i < Suc (length ns)" for i
    using that tree_okD(1)[OF ok, of i] kids
    by (cases "i = length ns") (auto simp: children_ok_def nth_append)
  moreover have "length (n_key ((ns @ [t]) ! i)) = length (n_value ((ns @ [t]) ! i))"
    if "i < Suc (length ns)" for i
    using that ok len by (cases "i = length ns") (auto simp: tree_ok_def nth_append)
  ultimately show ?thesis using ok by (auto simp: tree_ok_def)
qed

lemma tree_ok_set_children:
  assumes ok: "tree_ok ps ns" and "distinct (map fst chs)"
    and "\<And>k j. (k, j) \<in> set chs \<Longrightarrow> child_ok ps ns p k j"
  shows "tree_ok ps (ns[p := (ns ! p)\<lparr>n_children := chs\<rparr>])"
proof (cases "p < length ns")
  case True
  let ?ns = "ns[p := (ns ! p)\<lparr>n_children := chs\<rparr>]"
  have nth: "n_parent (?ns ! i) = n_parent (ns ! i)" "n_key (?ns ! i) = n_key (ns ! i)"
    "n_value (?ns ! i) = n_value (ns ! i)" for i
    by (cases "i = p"; simp add: True)+
  have co: "child_ok ps ?ns i k j = child_ok ps ns i k j" for i k j
    by (simp add: child_ok_def nth)
  have "children_ok ps ?ns i" if "i < length ns" for i
    using that assms(2,3) tree_okD(1)[OF ok that]
    by (cases "i = p") (auto simp: children_ok_def co)
  moreover obtain d where "ranked ns d" using ok by (auto simp: tree_ok_def)
  then have "ranked ?ns d" by (simp add: ranked_def nth)
  ultimately show ?thesis using ok by (auto simp: tree_ok_def nth)
qed (use ok in \<open>simp add: list_update_beyond\<close>)

lemma tree_ok_leaf:
  assumes ok: "tree_ok ps ns" and p: "p < length ns" and t: "n_children t = []" "n_parent t = Some p"
    "n_key t \<noteq> []" "length (n_key t) = length (n_value t)" and k: "k = get_child_key ps (n_key t)"
  shows "tree_ok ps ((ns @ [t])[p := (ns ! p)\<lparr>n_children := dict_set k (length ns) (n_children (ns ! p))\<rparr>])"
proof -
  let ?ns = "ns @ [t]"
  have ok': "tree_ok ps ?ns" using ok p t by (intro tree_ok_append) auto
  have p': "p < length ?ns" and nth: "?ns ! p = ns ! p" using p by (simp_all add: nth_append)
  have dist: "distinct (map fst (n_children (ns ! p)))"
    using tree_okD(1)[OF ok p] by (simp add: children_ok_def)
  have "child_ok ps ?ns p k (length ns)" using t k by (simp add: child_ok_def)
  then have "child_ok ps ?ns p k' j"
    if "(k', j) \<in> set (dict_set k (length ns) (n_children (ns ! p)))" for k' j
    using that child_okI[OF ok' p', of k' j] by (auto simp: dict_set_member[OF dist] nth split: if_splits)
  then show ?thesis
    using tree_ok_set_children[OF ok', of "dict_set k (length ns) (n_children (ns ! p))" p] dist
    by (simp add: nth distinct_keys_dict_set)
qed

lemma tree_ok_delete:
  assumes ok: "tree_ok ps ns" and p: "p < length ns"
  shows "tree_ok ps (ns[p := (ns ! p)\<lparr>n_children := dict_pop k (n_children (ns ! p))\<rparr>])"
  using tree_okD(1)[OF ok p] child_okI[OF ok p]
  by (intro tree_ok_set_children[OF ok]) (auto simp: children_ok_def distinct_keys_dict_pop dict_pop_member)

section \<open>The invariant of a cache\<close>

definition cache_ok :: "RadixCache \<Rightarrow> bool" where
  "cache_ok c \<longleftrightarrow>
     tree_ok (page_size c) (nodes c) \<and> root_node c < length (nodes c) \<and>
     (\<forall>r \<in> set (namespace_roots c). r < length (nodes c))"

lemma cache_ok_root: "cache_ok c \<Longrightarrow> root_node c < length (nodes c)"
  by (simp add: cache_ok_def)

lemma cache_ok_private: "cache_ok c \<Longrightarrow> (u, r) \<in> set (private_roots c) \<Longrightarrow> r < length (nodes c)"
  by (force simp: cache_ok_def namespace_roots_def)

lemma cache_ok_public: "cache_ok c \<Longrightarrow> (u, r) \<in> set (public_roots c) \<Longrightarrow> r < length (nodes c)"
  by (force simp: cache_ok_def namespace_roots_def)

definition same_frame :: "RadixCache \<Rightarrow> RadixCache \<Rightarrow> bool" where
  "same_frame c c' \<longleftrightarrow>
     page_size c' = page_size c \<and> safekv_mode c' = safekv_mode c \<and> root_node c' = root_node c \<and>
     private_roots c' = private_roots c \<and> public_roots c' = public_roots c \<and> disable c' = disable c"

lemma same_frame_refl [simp]: "same_frame c c"
  by (simp add: same_frame_def)

lemma same_frame_trans: "same_frame a b \<Longrightarrow> same_frame b c \<Longrightarrow> same_frame a c"
  by (simp add: same_frame_def)

text \<open>
  What a lookup may do to a node it visits: count, note the budget, and take the node out of
  sharing; the tree around it, its creator, locks and namespace stay.
\<close>

definition touched :: "TreeNode \<Rightarrow> TreeNode \<Rightarrow> bool" where
  "touched t t' \<longleftrightarrow>
     same_shape t t' \<and> n_lock_ref t' = n_lock_ref t \<and>
     (n_visibility t' = n_visibility t \<and> n_permanently_private t' = n_permanently_private t \<or>
      n_visibility t' = vis_value EXHAUSTED_PRIVATE \<and> n_permanently_private t')"

lemma touched_refl [simp]: "touched t t"
  by (simp add: touched_def)

lemma touched_hit: "touched t t' \<Longrightarrow> touched t (t'\<lparr>n_hit_count := n\<rparr>)"
  by (simp add: touched_def same_shape_def)

lemma reserve_touches:
  assumes "reserve_balanced_hit env child c = (r, c1)" and "child < length (nodes c)"
  shows "same_frame c c1" "touched (nd c child) (nd c1 child)"
    "nodes c1 = (nodes c)[child := nd c1 child]"
  using assms unfolding reserve_balanced_hit_def
  by (auto simp: Let_def same_frame_def touched_def same_shape_def exhaust_def
      split: if_splits prod.splits sum.splits)

lemma charge_touches:
  assumes "charge env child u c = (r, c1)" and "child < length (nodes c)"
  shows "same_frame c c1" "touched (nd c child) (nd c1 child)"
    "nodes c1 = (nodes c)[child := nd c1 child]"
  using assms reserve_touches[of env child c r c1]
  by (auto simp: charge_def split: if_splits)

text \<open>The precondition of a visit: the child hangs under the node and the requester may see it.\<close>

definition may_visit :: "string option \<Rightarrow> RadixCache \<Rightarrow> nat \<Rightarrow> nat \<Rightarrow> bool" where
  "may_visit u c node child \<longleftrightarrow>
     cache_ok c \<and> node < length (nodes c) \<and> visible_to c child u \<and>
     (\<exists>k. map_of (n_children (nd c node)) k = Some child)"

lemma may_visitD:
  assumes "may_visit u c node child"
  shows "child < length (nodes c)" "n_parent (nd c child) = Some node" "node \<noteq> child"
    "node < length (nodes c)" "tree_ok (page_size c) (nodes c)"
proof -
  obtain k where ok: "tree_ok (page_size c) (nodes c)" and n: "node < length (nodes c)"
    and m: "map_of (n_children (nd c node)) k = Some child"
    using assms by (auto simp: may_visit_def cache_ok_def)
  from child_of_map[OF ok n m]
  show c: "child < length (nodes c)" and "n_parent (nd c child) = Some node"
    by (auto simp: child_ok_def)
  then show "node \<noteq> child" using parent_neq[OF ok c] by auto
  show "node < length (nodes c)" "tree_ok (page_size c) (nodes c)" by (fact n, fact ok)
qed

lemma tree_ok_touch:
  assumes "tree_ok ps ns" "touched (ns ! i) t"
  shows "tree_ok ps (ns[i := t])"
proof (rule tree_ok_same_shape[OF assms(1)])
  show "same_shape (ns ! j) (ns[i := t] ! j)" if "j < length ns" for j
    using assms(2) that by (cases "j = i") (auto simp: touched_def)
qed simp

lemma cache_ok_touch:
  assumes "may_visit u c node child" "same_frame c c'" "touched (nd c child) t"
    "nodes c' = (nodes c)[child := t]"
  shows "cache_ok c'"
  using assms tree_ok_touch[of "page_size c" "nodes c" child t]
  by (auto simp: cache_ok_def may_visit_def same_frame_def namespace_roots_def)

lemma cache_ok_split:
  assumes v: "may_visit u c node child" and f: "same_frame c c'" and t: "touched (nd c child) t"
    and n: "page_size c \<le> n" "n < length (n_key (nd c child))"
    and eq: "nodes c' = split_arena (page_size c) node child n ((nodes c)[child := t])"
  shows "cache_ok c'"
proof -
  note vd = may_visitD[OF v]
  obtain k where m: "map_of (n_children (nd c node)) k = Some child"
    using v by (auto simp: may_visit_def)
  have ok: "tree_ok (page_size c) ((nodes c)[child := t])"
    using vd(5) t by (rule tree_ok_touch)
  have "tree_ok (page_size c) (nodes c')"
    unfolding eq using vd m n t
    by (intro tree_ok_split[OF ok, of node k]) (auto simp: touched_def same_shape_def)
  then show ?thesis
    using v f by (auto simp: cache_ok_def may_visit_def same_frame_def namespace_roots_def eq less_Suc_eq)
qed

end
