(* ===== verification/Radix_Lookup.thy ===== *)
theory Radix_Lookup
  imports Radix_Tree
begin

text \<open>
  What a lookup does, step by step: the elimination rule of the match loop on a well-formed cache,
  and a locale that lifts a relation between caches from the single steps to \<open>match_prefix\<close>.
\<close>

section \<open>One turn of the match loop\<close>

lemma key_match_ge_page: "0 < key_match ps k0 k1 \<Longrightarrow> ps \<le> key_match ps k0 k1"
  using key_match_dvd[of ps k0 k1] by (auto dest: dvd_imp_le)

lemma same_frame_upd [simp]: "same_frame c (upd i f c') \<longleftrightarrow> same_frame c c'"
  by (simp add: same_frame_def)

lemma match_turn:
  assumes run: "match_loop env u node key vals c = (r, c')"
    and ok: "cache_ok c" and node: "node < length (nodes c)"
  obtains (stop) "r = Inr (vals, node)" "c' = c"
      "key = [] \<or> (\<forall>child. map_of (n_children (nd c node)) (get_child_key (page_size c) key) = Some child
                    \<longrightarrow> \<not> visible_to c child u)"
    | (refused) child t where "may_visit u c node child" "same_frame c c'" "touched (nd c child) t"
        "nodes c' = (nodes c)[child := t]" "r = Inr (vals, node) \<or> (\<exists>e. r = Inl e)"
        "budget_applies c child u"
    | (split) child t n where "may_visit u c node child" "same_frame c c'" "touched (nd c child) t"
        "map_of (n_children (nd c node)) (get_child_key (page_size c) key) = Some child"
        "n = key_match (page_size c) (n_key (nd c child)) key"
        "page_size c \<le> n" "n < length (n_key (nd c child))"
        "nodes c' = split_arena (page_size c) node child n ((nodes c)[child := t])"
        "r = Inr (vals @ [take n (n_value (nd c child))], length (nodes c))"
    | (descend) child t n c2 where "may_visit u c node child" "same_frame c c2"
        "touched (nd c child) t" "nodes c2 = (nodes c)[child := t]" "key \<noteq> []"
        "map_of (n_children (nd c node)) (get_child_key (page_size c) key) = Some child"
        "n = key_match (page_size c) (n_key (nd c child)) key"
        "page_size c \<le> n" "length (n_key (nd c child)) \<le> n"
        "match_loop env u child (drop n key) (vals @ [n_value (nd c child)]) c2 = (r, c')"
proof (cases "key = [] \<or> (\<forall>child. map_of (n_children (nd c node)) (get_child_key (page_size c) key)
    = Some child \<longrightarrow> \<not> visible_to c child u)")
  case True
  then have "r = Inr (vals, node) \<and> c' = c"
    using run by (subst (asm) match_loop.simps) (auto split: option.splits if_splits)
  then show thesis using stop True by blast
next
  case False
  then obtain child where key: "key \<noteq> []" and vis: "visible_to c child u"
    and m: "map_of (n_children (nd c node)) (get_child_key (page_size c) key) = Some child" by blast
  let ?n = "key_match (page_size c) (n_key (nd c child)) key"
  have mv: "may_visit u c node child" using ok node vis m by (auto simp: may_visit_def)
  note vd = may_visitD[OF mv]
  have co: "child_ok (page_size c) (nodes c) node (get_child_key (page_size c) key) child"
    using child_of_map[OF vd(5) node m] .
  have n: "0 < ?n"
    using co key tree_ok_pos[OF vd(5)] by (intro key_match_pos) (auto simp: child_ok_def)
  then have np: "page_size c \<le> ?n" by (rule key_match_ge_page)
  obtain rc c1 where ch: "charge env child u c = (rc, c1)" by fastforce
  note ct = charge_touches[OF ch vd(1)]
  define t where "t = (nd c1 child)\<lparr>n_hit_count := n_hit_count (nd c1 child) + 1\<rparr>"
  define c2 where "c2 = upd child (\<lambda>t. t\<lparr>n_hit_count := n_hit_count t + 1\<rparr>) c1"
  have t: "touched (nd c child) t" using ct(2) by (simp add: t_def touched_hit)
  have n2: "nodes c2 = (nodes c)[child := t]" "same_frame c c2"
    using ct by (simp_all add: c2_def t_def) (metis list_update_overwrite)
  have t2: "nd c2 child = t" "n_key t = n_key (nd c child)" "n_value t = n_value (nd c child)"
    using n2 vd(1) t by (simp_all add: touched_def same_shape_def)
  have ps: "page_size c2 = page_size c" using n2 by (simp add: same_frame_def)
  show thesis
  proof (cases rc)
    case (Inl e)
    then have "r = Inl e" "c' = c1" "budget_applies c child u"
      using run key m vis n ch
      by (subst (asm) match_loop.simps, simp, simp add: charge_def split: if_splits)+
    then show thesis using refused[OF mv, of "nd c1 child"] ct by blast
  next
    case (Inr accepted)
    have body: "(if \<not> accepted then (Inr (vals, node), c1)
       else if ?n < length (n_key (nd c child))
       then andThen (split_node env child ?n c2) (\<lambda>new c3. (Inr (vals @ [n_value (nd c3 new)], new), c3))
       else match_loop env u child (drop ?n key) (vals @ [n_value (nd c child)]) c2) = (r, c')"
      using run key m vis n ch Inr t2 ps
      by (subst (asm) match_loop.simps) (cases accepted; simp add: Let_def del: upd_simps flip: c2_def split: if_splits)
    show thesis
    proof (cases accepted)
      case False
      then have "budget_applies c child u" using ch Inr by (auto simp: charge_def split: if_splits)
      moreover have "r = Inr (vals, node)" "c' = c1" using body False by simp_all
      ultimately show thesis using refused[OF mv, of "nd c1 child"] ct by blast
    next
      case acc: True
      show thesis
      proof (cases "?n < length (n_key (nd c child))")
        case True
        have par: "n_parent (nd c2 child) = Some node"
          using t2 t vd(2) by (simp add: touched_def same_shape_def)
        have len: "child < length (nodes c2)" using n2 vd(1) by simp
        obtain c3 where c3: "split_node env child ?n c2 = (Inr (length (nodes c2)), c3)"
          "nodes c3 = split_arena (page_size c2) node child ?n (nodes c2)" "same_frame c2 c3"
          using split_node_eq[OF par len, of env ?n] by (auto simp: same_frame_def)
        have "nd c3 (length (nodes c2)) = upper_half (page_size c) t child ?n"
          using c3(2) ps n2 t2 nth_split_arena(1)[of child "nodes c2" node "page_size c" ?n] vd len
          by simp
        then have "r = Inr (vals @ [take ?n (n_value (nd c child))], length (nodes c))" "c' = c3"
          using body acc True c3(1) t2 n2 by (auto simp: upper_half_def tree_node_init_def)
        then show thesis
          using split[OF mv, of t ?n] same_frame_trans[OF n2(2) c3(3)] t m np True c3(2) n2 ps by simp
      next
        case False
        then show thesis
          using body acc descend[OF mv n2(2) t n2(1) key m refl np] by simp
      qed
    qed
  qed
qed

section \<open>Authorisations and roots\<close>

text \<open>Steps that change no node: logging, the registry, the table of public tokens.\<close>

definition same_nodes :: "RadixCache \<Rightarrow> RadixCache \<Rightarrow> bool" where
  "same_nodes c c' \<longleftrightarrow> nodes c' = nodes c \<and> same_frame c c'"

lemma same_nodes_simps [simp]:
  "same_nodes c c" "same_nodes c (log_event env n a c') \<longleftrightarrow> same_nodes c c'"
  "same_nodes c (log_count env n a c') \<longleftrightarrow> same_nodes c c'"
  by (simp_all add: same_nodes_def same_frame_def)

lemma same_nodes_trans: "same_nodes a b \<Longrightarrow> same_nodes b c \<Longrightarrow> same_nodes a c"
  by (simp add: same_nodes_def same_frame_def)

lemma cache_ok_same_nodes: "same_nodes c c' \<Longrightarrow> cache_ok c \<Longrightarrow> cache_ok c'"
  by (simp add: same_nodes_def same_frame_def cache_ok_def namespace_roots_def)

lemma parse_authorization_same_nodes:
  "parse_authorization env auth c = (r, c') \<Longrightarrow> same_nodes c c'"
  by (auto simp: parse_authorization_def split: option.splits sum.splits if_splits)

text \<open>A namespace root joins: an empty node under the global root.\<close>

definition adds_root :: "RadixCache \<Rightarrow> RadixCache \<Rightarrow> bool" where
  "adds_root c c' \<longleftrightarrow>
     page_size c' = page_size c \<and> safekv_mode c' = safekv_mode c \<and> root_node c' = root_node c \<and>
     disable c' = disable c \<and>
     (\<exists>ns. nodes c' = nodes c @ [tree_node_init\<lparr>n_key := [], n_value := [], n_lock_ref := 1,
                  n_parent := Some (root_node c), n_namespace_key := Some ns,
                  n_visibility := vis_value (ns_visibility ns)\<rparr>] \<and>
        (\<forall>(u, r) \<in> set (private_roots c'). (u, r) \<in> set (private_roots c) \<or>
           r = length (nodes c) \<and> ns = ns_private u ''namespace-root'') \<and>
        (\<forall>(oid, r) \<in> set (public_roots c'). (oid, r) \<in> set (public_roots c) \<or>
           r = length (nodes c) \<and> ns_visibility ns = VERIFIED_PUBLIC)) \<and>
     set (namespace_roots c') \<subseteq> insert (length (nodes c)) (set (namespace_roots c))"

lemma cache_ok_adds_root:
  assumes "cache_ok c" "adds_root c c'"
  shows "cache_ok c'"
proof -
  obtain t where t: "nodes c' = nodes c @ [t]" "n_children t = []" "n_parent t = Some (root_node c)"
    "length (n_key t) = length (n_value t)"
    using assms(2) by (auto simp: adds_root_def tree_node_init_def)
  have "tree_ok (page_size c) (nodes c @ [t])"
    using assms(1) t by (intro tree_ok_append) (auto simp: cache_ok_def)
  then show ?thesis
    using assms t by (auto simp: cache_ok_def adds_root_def less_Suc_eq)
qed

lemma fst_set_dict_set: "(k, v) \<in> set (dict_set k' v' d) \<Longrightarrow> (k, v) \<in> set d \<or> (k, v) = (k', v')"
  by (induction d) (auto split: if_splits)

lemma snd_set_dict_set: "snd ` set (dict_set k v d) \<subseteq> insert v (snd ` set d)"
  by (force dest: fst_set_dict_set)

lemma adds_root_public:
  assumes "ns_visibility ns = VERIFIED_PUBLIC"
  shows "adds_root c ((add_node (tree_node_init\<lparr>n_key := [], n_value := [], n_lock_ref := 1,
       n_parent := Some (root_node c), n_namespace_key := Some ns,
       n_visibility := vis_value (ns_visibility ns)\<rparr>) c)
     \<lparr>public_roots := dict_set oid (length (nodes c)) (public_roots c)\<rparr>)"
  using assms snd_set_dict_set[of oid "length (nodes c)" "public_roots c"]
    fst_set_dict_set[of _ _ oid "length (nodes c)" "public_roots c"]
  by (auto simp: adds_root_def namespace_roots_def add_node_def intro!: exI[of _ ns])

lemma adds_root_private:
  "adds_root c ((add_node (tree_node_init\<lparr>n_key := [], n_value := [], n_lock_ref := 1,
       n_parent := Some (root_node c), n_namespace_key := Some (ns_private oid ''namespace-root''),
       n_visibility := vis_value (ns_visibility (ns_private oid ''namespace-root''))\<rparr>) c)
     \<lparr>private_roots := dict_set oid (length (nodes c)) (private_roots c)\<rparr>)"
  using snd_set_dict_set[of oid "length (nodes c)" "private_roots c"]
    fst_set_dict_set[of _ _ oid "length (nodes c)" "private_roots c"]
  by (auto simp: adds_root_def namespace_roots_def add_node_def
      intro!: exI[of _ "ns_private oid ''namespace-root''"])

lemma install_authorization_steps:
  assumes "install_authorization env auth key c = (r, c')"
  obtains (quiet) "same_nodes c c'" | (root) c1 where "same_nodes c c1" "adds_root c1 c'"
proof -
  obtain rp c1 where p: "parse_authorization env auth c = (rp, c1)" by fastforce
  note sn = parse_authorization_same_nodes[OF p]
  show thesis
  proof (cases "\<exists>a. rp = Inr (Some a)")
    case False
    then have "c' = c1"
      using assms p by (auto simp: install_authorization_def andThen_def split: sum.splits option.splits)
    then show thesis using quiet sn by simp
  next
    case True
    then obtain a where rp: "rp = Inr (Some a)" by blast
    obtain ri reg where i: "install (env_lib env) (env_clock env (ticks c1)) a key
        (Some (model_id c1)) (Some (tokenizer_version c1)) None (registry c1) = (ri, reg)" by fastforce
    define c2 where "c2 = c1\<lparr>registry := reg, ticks := Suc (ticks c1)\<rparr>"
    have sn2: "same_nodes c c2" using sn by (simp add: c2_def same_nodes_def same_frame_def)
    show thesis
    proof (cases ri)
      case (Inl e)
      then have "c' = c2" using assms p rp i by (simp add: install_authorization_def c2_def)
      then show thesis using quiet sn2 by simp
    next
      case (Inr v)
      define c3 where "c3 = log_event env ''authorization_verified''
           [(''object_id'', VStr (public_object_id a)), (''accepted'', VBool (valid v)),
            (''reason'', VStr (reason v))] c2"
      define c4 where "c4 = c3\<lparr>public_tokens := dict_set (public_object_id a) key (public_tokens c3)\<rparr>"
      have sn4: "same_nodes c c3" "same_nodes c c4"
        using sn2 by (simp_all add: c3_def c4_def same_nodes_def same_frame_def)
      have eq: "c' = (if \<not> valid v then c3
           else if map_of (public_roots c4) (public_object_id a) = None
           then (case new_namespace_root (ns_public (public_object_id a) (prefix_fingerprint a)) c4 of
                   (j, c5) \<Rightarrow> c5\<lparr>public_roots := dict_set (public_object_id a) j (public_roots c5)\<rparr>)
           else c4)"
        using assms p rp i Inr
        by (auto simp: install_authorization_def Let_def new_namespace_root_def c2_def c3_def c4_def
            split: if_splits)
      have "adds_root c4 (case new_namespace_root (ns_public (public_object_id a) (prefix_fingerprint a)) c4 of
                   (j, c5) \<Rightarrow> c5\<lparr>public_roots := dict_set (public_object_id a) j (public_roots c5)\<rparr>)"
        using adds_root_public[of "ns_public (public_object_id a) (prefix_fingerprint a)" c4 "public_object_id a"]
        by (simp add: new_namespace_root_def ns_public_def)
      then show thesis using eq quiet root sn4 by (auto split: if_splits)
    qed
  qed
qed

lemma private_root_steps:
  assumes "private_root u create c = (r, c')"
  obtains (quiet) "c' = c" "r = map_of (private_roots c) u" "create \<Longrightarrow> r \<noteq> None"
    | (root) "adds_root c c'" "r = Some (length (nodes c))"
  using assms adds_root_private[where c = c and oid = u] that
  by (auto simp: private_root_def new_namespace_root_def split: option.splits if_splits)

section \<open>Lifting a relation through a lookup\<close>

text \<open>
  The contract of the single steps of a lookup by a requester, and what it gives: if quiet steps,
  visits, splits of visited nodes and new roots are in a transitive relation, so is every lookup.
\<close>

locale lookup_law =
  fixes R :: "string option \<Rightarrow> RadixCache \<Rightarrow> RadixCache \<Rightarrow> bool"
  assumes quiet_step: "same_nodes c c' \<Longrightarrow> R u c c'"
    and trans_step: "R u c1 c2 \<Longrightarrow> R u c2 c3 \<Longrightarrow> R u c1 c3"
    and visit_step: "may_visit u c node child \<Longrightarrow> same_frame c c' \<Longrightarrow> touched (nd c child) t \<Longrightarrow>
      nodes c' = (nodes c)[child := t] \<Longrightarrow> R u c c'"
    and split_step: "may_visit u c node child \<Longrightarrow> same_frame c c' \<Longrightarrow> touched (nd c child) t \<Longrightarrow>
      page_size c \<le> n \<Longrightarrow> n < length (n_key (nd c child)) \<Longrightarrow>
      nodes c' = split_arena (page_size c) node child n ((nodes c)[child := t]) \<Longrightarrow> R u c c'"
    and root_step: "cache_ok c \<Longrightarrow> adds_root c c' \<Longrightarrow> R u c c'"
begin

definition keeps :: "string option \<Rightarrow> RadixCache \<Rightarrow> RadixCache \<Rightarrow> bool" where
  "keeps u c c' \<longleftrightarrow> R u c c' \<and> cache_ok c' \<and> length (nodes c) \<le> length (nodes c')"

lemma keeps_trans: "keeps u a b \<Longrightarrow> keeps u b c \<Longrightarrow> keeps u a c"
  by (auto simp: keeps_def intro: trans_step)

lemma keeps_quiet: "cache_ok c \<Longrightarrow> same_nodes c c' \<Longrightarrow> keeps u c c'"
  by (auto simp: keeps_def quiet_step cache_ok_same_nodes) (simp add: same_nodes_def)

lemma keeps_refl: "cache_ok c \<Longrightarrow> keeps u c c"
  by (simp add: keeps_quiet)

lemma keeps_log [simp]:
  assumes "keeps u c c'"
  shows "keeps u c (log_event env n a c')" "keeps u c (log_count env n a c')"
  using keeps_trans[OF assms keeps_quiet] assms by (simp_all add: keeps_def)

lemma match_loop_keeps:
  "match_loop env u node key vals c = (r, c') \<Longrightarrow> cache_ok c \<Longrightarrow> node < length (nodes c) \<Longrightarrow>
     keeps u c c' \<and> same_frame c c'"
proof (induction "length key" arbitrary: node key vals c rule: less_induct)
  case less
  from less.prems show ?case
  proof (cases rule: match_turn)
    case stop
    then show ?thesis using less.prems by (simp add: keeps_refl)
  next
    case (refused child t)
    then show ?thesis using visit_step[of u c node child c' t] cache_ok_touch[of u c node child c' t]
      by (simp add: keeps_def)
  next
    case (split child t n)
    then show ?thesis
      using split_step[of u c node child c' t n] cache_ok_split[of u c node child c' t n]
      by (simp add: keeps_def)
  next
    case (descend child t n c2)
    have k: "keeps u c c2"
      using visit_step[OF descend(1-4)] cache_ok_touch[OF descend(1-4)] descend(4) by (simp add: keeps_def)
    have "0 < n" using descend(8) may_visitD(5)[OF descend(1), THEN tree_ok_pos] by simp
    then have "length (drop n key) < length key" using descend(5) by simp
    from less.hyps[OF this descend(10)] k may_visitD(1)[OF descend(1)] descend(4)
    have "keeps u c2 c' \<and> same_frame c2 c'" by (simp add: keeps_def)
    then show ?thesis using k descend(2) by (blast intro: keeps_trans same_frame_trans)
  qed
qed

lemma helper_keeps:
  "match_prefix_helper env node key u c = (r, c') \<Longrightarrow> cache_ok c \<Longrightarrow> node < length (nodes c) \<Longrightarrow>
     keeps u c c' \<and> same_frame c c'"
  unfolding match_prefix_helper_def by (rule match_loop_keeps)

lemma install_keeps:
  assumes "install_authorization env auth key c = (r, c')" "cache_ok c"
  shows "keeps u c c'"
  using assms(1)
proof (cases rule: install_authorization_steps)
  case quiet
  then show ?thesis using assms(2) by (simp add: keeps_quiet)
next
  case (root c1)
  then have k: "keeps u c c1" using assms(2) by (simp add: keeps_quiet)
  moreover have "keeps u c1 c'"
    using k root(2) by (auto simp: keeps_def cache_ok_adds_root root_step) (auto simp: adds_root_def)
  ultimately show ?thesis by (rule keeps_trans)
qed

lemma match_others_keeps:
  "match_others env roots key uid c = (r, c') \<Longrightarrow> cache_ok c \<Longrightarrow>
     \<forall>(o', i) \<in> set roots. i < length (nodes c) \<Longrightarrow> keeps (Some uid) c c'"
proof (induction env roots key uid c rule: match_others.induct)
  case (1 env key uid c)
  then show ?case by (auto simp: keeps_refl)
next
  case (2 env owner i rest key uid c)
  obtain rh c1 where h: "match_prefix_helper env i key (Some uid) c = (rh, c1)" by fastforce
  have k: "keeps (Some uid) c c1" using helper_keeps[OF h 2(3)] 2(4) by auto
  show ?case
  proof (cases rh)
    case (Inl e)
    then show ?thesis using 2(2) h k by simp
  next
    case (Inr p)
    obtain vals last_node where p: "p = (vals, last_node)" by (cases p)
    show ?thesis
    proof (cases "vals = []")
      case False
      then show ?thesis using 2(2) h k Inr p by auto
    next
      case True
      have "\<forall>(o', i) \<in> set rest. i < length (nodes c1)"
        using 2(4) k by (auto simp: keeps_def dest!: bspec)
      then have "keeps (Some uid) c1 c'"
        using 2(1)[of p c1] 2(2) h Inr p True k by (simp add: keeps_def)
      then show ?thesis using k by (rule keeps_trans[rotated])
    qed
  qed
qed

lemma match_private_keeps:
  assumes "match_private env key uid c = (r, c')" "cache_ok c"
  shows "keeps (Some uid) c c'"
proof (cases "map_of (private_roots c) uid")
  case None
  then show ?thesis using assms by (simp add: match_private_def keeps_refl)
next
  case (Some i)
  obtain rh c1 where h: "match_prefix_helper env i key (Some uid) c = (rh, c1)" by fastforce
  have "i < length (nodes c)" using cache_ok_private[OF assms(2) map_of_SomeD[OF Some]] .
  then have "keeps (Some uid) c c1" using helper_keeps[OF h assms(2)] by blast
  then show ?thesis
    using assms(1) Some h by (cases rh) (auto simp: match_private_def)
qed

lemma matching_public_root_less:
  "matching_public_root key c = Inr (Some (i, oid)) \<Longrightarrow> cache_ok c \<Longrightarrow> i < length (nodes c)"
  by (auto simp: matching_public_root_def Let_def split: if_splits option.splits
      dest!: map_of_SomeD cache_ok_public)

lemma match_public_keeps:
  assumes "match_public env key uid auth c = (r, c')" "cache_ok c"
  shows "keeps (Some uid) c c'"
proof -
  obtain ri c1 where i: "install_authorization env auth key c = (ri, c1)" by fastforce
  have k1: "keeps (Some uid) c c1" by (rule install_keeps[OF i assms(2)])
  then have ok1: "cache_ok c1" by (simp add: keeps_def)
  show ?thesis
  proof (cases ri)
    case (Inl e)
    then show ?thesis using assms i k1 by (simp add: match_public_def)
  next
    case (Inr q)
    obtain inst why where q: "q = (inst, why)" by (cases q)
    define found where "found = (case inst of
                Some a \<Rightarrow> (case map_of (public_roots c1) (public_object_id a) of
                     None \<Rightarrow> Inl (KeyError (public_object_id a))
                   | Some r \<Rightarrow> Inr (Some (r, public_object_id a)))
              | None \<Rightarrow> matching_public_root key c1)"
    have run: "andThen (found, c1) (\<lambda>found c2.
     case found of
       None \<Rightarrow> (Inr None, c2)
     | Some (r, oid) \<Rightarrow>
         andThen (match_prefix_helper env r key (Some uid) c2) (\<lambda>(vals, last_node) c3.
           if vals \<noteq> [] \<or> inst \<noteq> None
           then (Inr (Some (concat vals, last_node)),
                 log_event env ''lookup'' [(''requester'', VStr uid),
                   (''served_namespace'', VStr ''verified_public''),
                   (''public_object_id'', VStr oid), (''hit'', VBool (vals \<noteq> []))] c3)
           else (Inr None, c3))) = (r, c')"
      using assms(1) i Inr q
      by (auto simp: match_public_def found_def andThen_def split: option.splits)
    have less: "j < length (nodes c1)" if "found = Inr (Some (j, oid))" for j oid
      using that ok1 matching_public_root_less[of key c1 j oid]
      by (auto simp: found_def split: option.splits dest!: map_of_SomeD cache_ok_public)
    show ?thesis
    proof (cases "\<exists>j oid. found = Inr (Some (j, oid))")
      case False
      then have "c' = c1" using run by (cases found) (auto split: option.splits)
      then show ?thesis using k1 by simp
    next
      case True
      then obtain j oid where f: "found = Inr (Some (j, oid))" by blast
      obtain rh c3 where h: "match_prefix_helper env j key (Some uid) c1 = (rh, c3)" by fastforce
      have "keeps (Some uid) c1 c3" using helper_keeps[OF h ok1 less[OF f]] by simp
      then have "keeps (Some uid) c c3" using k1 by (rule keeps_trans[rotated])
      then show ?thesis using run f h by (cases rh) (auto split: if_splits)
    qed
  qed
qed

lemma match_prefix_keeps:
  assumes run: "match_prefix env key u auth c = (r, c')" and ok: "cache_ok c"
  shows "keeps u c c'"
proof -
  consider (off) "disable c \<or> length key = 0" | (none) "\<not> (disable c \<or> length key = 0)" "safekv_mode c = ''none''"
    | (anon) "\<not> (disable c \<or> length key = 0)" "safekv_mode c \<noteq> ''none''" "u = None \<or> u = Some []"
    | (user) uid where "\<not> (disable c \<or> length key = 0)" "safekv_mode c \<noteq> ''none''" "u = Some uid" "uid \<noteq> []"
    by (metis option.exhaust)
  then show ?thesis
  proof cases
    case off
    then show ?thesis using run ok by (simp add: match_prefix_def keeps_refl)
  next
    case none
    obtain rh c1 where h: "match_prefix_helper env (root_node c) (aligned_key (page_size c) key) u c
        = (rh, c1)" by fastforce
    have "keeps u c c1" using helper_keeps[OF h ok cache_ok_root[OF ok]] by simp
    then show ?thesis using run none h by (cases rh) (auto simp: match_prefix_def)
  next
    case anon
    then show ?thesis using run ok by (auto simp: match_prefix_def keeps_refl)
  next
    case user
    let ?key = "aligned_key (page_size c) key"
    obtain rp c1 where p: "match_public env ?key uid auth c = (rp, c1)" by fastforce
    obtain rv c2 where v: "match_private env ?key uid c1 = (rv, c2)" by fastforce
    obtain ro c3 where o: "match_others env (filter (\<lambda>(w, _). w \<noteq> uid) (private_roots c2)) ?key uid c2
        = (ro, c3)" by fastforce
    have k1: "keeps u c c1" using match_public_keeps[OF p ok] user by simp
    have k2: "keeps u c c2"
      using match_private_keeps[OF v] k1 user by (auto simp: keeps_def intro: trans_step)
    have "keeps u c2 c3"
      using match_others_keeps[OF o] k2 user by (auto simp: keeps_def dest: cache_ok_private)
    then have k3: "keeps u c c3" using k2 by (rule keeps_trans[rotated])
    show ?thesis
      using run user p v o k1 k2 k3
      by (auto simp: match_prefix_def Let_def andThen_def split: sum.splits option.splits if_splits)
  qed
qed

lemma match_prefix_related:
  "match_prefix env key u auth c = (r, c') \<Longrightarrow> cache_ok c \<Longrightarrow> R u c c'"
  using match_prefix_keeps by (simp add: keeps_def)

end

interpretation shape: lookup_law "\<lambda>u c c'. length (nodes c) \<le> length (nodes c')"
  by unfold_locales (auto simp: same_nodes_def adds_root_def)

lemma match_prefix_cache_ok:
  "match_prefix env key u auth c = (r, c') \<Longrightarrow> cache_ok c \<Longrightarrow> cache_ok c'"
  using shape.match_prefix_keeps by (simp add: shape.keeps_def)

end
