(* ===== verification/Radix_Root.thy ===== *)
theory Radix_Root
  imports Radix_Lookup
begin

text \<open>
  The roots of the namespaces: nodes that are in no child dictionary and point to the global root.
  A relation between arenas that every operation respects keeps them so.
\<close>

section \<open>Nodes without a child entry\<close>

definition orphan :: "TreeNode list \<Rightarrow> nat \<Rightarrow> bool" where
  "orphan ns r \<longleftrightarrow> (\<forall>i < length ns. r \<notin> snd ` set (n_children (ns ! i)))"

definition keeps_orphans :: "TreeNode list \<Rightarrow> TreeNode list \<Rightarrow> bool" where
  "keeps_orphans ns ns' \<longleftrightarrow>
     length ns \<le> length ns' \<and>
     (\<forall>r < length ns. orphan ns r \<longrightarrow> orphan ns' r \<and> n_parent (ns' ! r) = n_parent (ns ! r))"

lemma keeps_orphans_refl [simp]: "keeps_orphans ns ns"
  by (simp add: keeps_orphans_def)

lemma keeps_orphans_trans: "keeps_orphans a b \<Longrightarrow> keeps_orphans b c \<Longrightarrow> keeps_orphans a c"
  by (auto simp: keeps_orphans_def)

text \<open>Enough for one step: nothing loses its parent but a child, and no dictionary gains an old node.\<close>

lemma keeps_orphansI:
  assumes "length ns \<le> length ns'"
    and "\<And>r. r < length ns \<Longrightarrow> orphan ns r \<Longrightarrow> n_parent (ns' ! r) = n_parent (ns ! r)"
    and "\<And>i r. i < length ns' \<Longrightarrow> r < length ns \<Longrightarrow> r \<in> snd ` set (n_children (ns' ! i)) \<Longrightarrow>
      \<exists>j < length ns. r \<in> snd ` set (n_children (ns ! j))"
  shows "keeps_orphans ns ns'"
  using assms unfolding keeps_orphans_def orphan_def by blast

lemma keeps_orphans_shape:
  assumes "length ns' = length ns" "\<And>j. j < length ns \<Longrightarrow> same_shape (ns ! j) (ns' ! j)"
  shows "keeps_orphans ns ns'"
  by (rule keeps_orphansI) (use assms in \<open>auto simp: same_shape_def\<close>)

lemma keeps_orphans_touch: "touched (ns ! i) t \<Longrightarrow> keeps_orphans ns (ns[i := t])"
proof (rule keeps_orphans_shape)
  show "same_shape (ns ! j) (ns[i := t] ! j)" if "touched (ns ! i) t" "j < length ns" for j
    using that by (cases "j = i") (auto simp: touched_def same_shape_def)
qed auto

lemma keeps_orphans_split:
  assumes "child < length ns" "p < length ns" "p \<noteq> child" "child \<in> snd ` set (n_children (ns ! p))"
  shows "keeps_orphans ns (split_arena ps p child n ns)"
proof (rule keeps_orphansI)
  note nth = nth_split_arena[OF assms(1-3)]
  show "length ns \<le> length (split_arena ps p child n ns)" by (simp add: length_split_arena)
  show "n_parent (split_arena ps p child n ns ! r) = n_parent (ns ! r)" if "r < length ns" "orphan ns r" for r
  proof -
    have "r \<noteq> child" using that(2) assms(2,4) by (auto simp: orphan_def)
    then show ?thesis using nth(3)[of ps n] nth(4)[OF that(1), of ps n] by (cases "r = p") auto
  qed
  fix i r
  assume i: "i < length (split_arena ps p child n ns)" and r: "r < length ns"
    and mem: "r \<in> snd ` set (n_children (split_arena ps p child n ns ! i))"
  show "\<exists>j < length ns. r \<in> snd ` set (n_children (ns ! j))"
  proof (cases "i = length ns")
    case True
    then have "r = child" using mem nth(1)[of ps n] by (auto simp: upper_half_def)
    then show ?thesis using assms(2,4) by blast
  next
    case False
    then have il: "i < length ns" using i by (simp add: length_split_arena)
    have "r \<in> snd ` set (n_children (ns ! i))"
    proof (cases "i = p")
      case True
      then show ?thesis
        using mem r nth(3)[of ps n] snd_set_dict_set[of _ "length ns" "n_children (ns ! p)"] by fastforce
    next
      case np: False
      then show ?thesis
        using mem nth(2)[of ps n] nth(4)[OF il np, of ps n] by (cases "i = child") (auto simp: lower_half_def)
    qed
    then show ?thesis using il by blast
  qed
qed

lemma keeps_orphans_leaf:
  assumes "p < length ns" "n_children t = []"
  shows "keeps_orphans ns ((ns @ [t])[p := (ns ! p)\<lparr>n_children := dict_set k (length ns) (n_children (ns ! p))\<rparr>])"
proof (rule keeps_orphansI)
  let ?ns = "(ns @ [t])[p := (ns ! p)\<lparr>n_children := dict_set k (length ns) (n_children (ns ! p))\<rparr>]"
  show "n_parent (?ns ! r) = n_parent (ns ! r)" if "r < length ns" for r
    using that assms(1) by (auto simp: nth_list_update nth_append)
  fix i r
  assume i: "i < length ?ns" and r: "r < length ns" and mem: "r \<in> snd ` set (n_children (?ns ! i))"
  have "i \<noteq> length ns" using mem assms by (auto simp: nth_list_update nth_append)
  then have il: "i < length ns" using i by simp
  then have "r \<in> snd ` set (n_children (ns ! i))"
    using mem r assms(1) snd_set_dict_set[of k "length ns" "n_children (ns ! p)"]
    by (cases "i = p") (auto simp: nth_list_update nth_append)
  then show "\<exists>j < length ns. r \<in> snd ` set (n_children (ns ! j))" using il by blast
qed simp

lemma orphan_parentless:
  assumes "tree_ok ps ns" "n_parent (ns ! r) = None"
  shows "orphan ns r"
  using child_okI[OF assms(1)] assms(2) by (force simp: orphan_def child_ok_def)

lemma orphan_beyond: "tree_ok ps ns \<Longrightarrow> length ns \<le> r \<Longrightarrow> orphan ns r"
  using child_okI by (force simp: orphan_def child_ok_def)

section \<open>Rooted caches\<close>

definition rooted :: "RadixCache \<Rightarrow> bool" where
  "rooted c \<longleftrightarrow>
     n_parent (nd c (root_node c)) = None \<and>
     (\<forall>r \<in> set (namespace_roots c). orphan (nodes c) r \<and> n_parent (nd c r) = Some (root_node c))"

lemma rooted_keeps:
  assumes "rooted c" "cache_ok c" "same_frame c c'" "keeps_orphans (nodes c) (nodes c')"
  shows "rooted c'"
proof -
  have root: "orphan (nodes c) (root_node c)"
    using assms(1,2) orphan_parentless by (auto simp: rooted_def cache_ok_def)
  then show ?thesis
    using assms by (auto simp: rooted_def cache_ok_def same_frame_def namespace_roots_def keeps_orphans_def)
qed

lemma rooted_same_nodes: "rooted c \<Longrightarrow> same_nodes c c' \<Longrightarrow> rooted c'"
  by (auto simp: rooted_def same_nodes_def same_frame_def namespace_roots_def)

lemma rooted_adds_root:
  assumes "rooted c" "cache_ok c" "adds_root c c'"
  shows "rooted c'"
proof -
  obtain t where t: "nodes c' = nodes c @ [t]" "n_children t = []" "n_parent t = Some (root_node c)"
    using assms(3) by (auto simp: adds_root_def tree_node_init_def)
  have ok: "tree_ok (page_size c) (nodes c)" using assms(2) by (simp add: cache_ok_def)
  have or: "orphan (nodes c') r" if "orphan (nodes c) r" for r
    using that t(1,2) by (auto simp: orphan_def nth_append less_Suc_eq)
  have sub: "set (namespace_roots c') \<subseteq> insert (length (nodes c)) (set (namespace_roots c))"
    "root_node c' = root_node c" using assms(3) by (simp_all add: adds_root_def)
  have "orphan (nodes c') r \<and> n_parent (nd c' r) = Some (root_node c)" if "r \<in> set (namespace_roots c')" for r
  proof (cases "r = length (nodes c)")
    case True
    then show ?thesis using or[OF orphan_beyond[OF ok, of r]] t by simp
  next
    case False
    then have "r \<in> set (namespace_roots c)" using that sub by auto
    then show ?thesis
      using assms(1,2) or t(1) by (auto simp: rooted_def cache_ok_def nth_append)
  qed
  moreover have "n_parent (nd c' (root_node c)) = None"
    using assms(1,2) t(1) by (auto simp: rooted_def cache_ok_def nth_append)
  ultimately show ?thesis using sub(2) by (simp add: rooted_def)
qed

interpretation roots: lookup_law "\<lambda>u c c'. rooted c \<longrightarrow> rooted c'"
proof
  show "rooted c \<longrightarrow> rooted c'" if "same_nodes c c'" for c c' using that rooted_same_nodes by blast
  show "rooted c \<longrightarrow> rooted c'" if "may_visit u c node child" "same_frame c c'" "touched (nd c child) t"
    "nodes c' = (nodes c)[child := t]" for u c node child c' t
    using rooted_keeps[of c c'] that keeps_orphans_touch[OF that(3)] by (simp add: may_visit_def)
  show "rooted c \<longrightarrow> rooted c'" if v: "may_visit u c node child" and f: "same_frame c c'" "touched (nd c child) t"
    and "nodes c' = split_arena (page_size c) node child n ((nodes c)[child := t])" for u c node child c' t n
  proof -
    note vd = may_visitD[OF v]
    have "child \<in> snd ` set (n_children ((nodes c)[child := t] ! node))"
      using v vd(3) by (auto simp: may_visit_def dest!: map_of_SomeD intro!: rev_image_eqI)
    then have "keeps_orphans ((nodes c)[child := t]) (nodes c')"
      unfolding that(4) using vd by (intro keeps_orphans_split) auto
    then have "keeps_orphans (nodes c) (nodes c')"
      using keeps_orphans_trans[OF keeps_orphans_touch[OF f(2)]] by blast
    then show ?thesis using rooted_keeps[of c c'] v f(1) by (simp add: may_visit_def)
  qed
  show "rooted c \<longrightarrow> rooted c'" if "cache_ok c" "adds_root c c'" for c c'
    using that rooted_adds_root by blast
qed auto

lemma match_prefix_rooted:
  "match_prefix env key u auth c = (r, c') \<Longrightarrow> cache_ok c \<Longrightarrow> rooted c \<Longrightarrow> rooted c'"
  using roots.match_prefix_keeps by (simp add: roots.keeps_def)

end
