(* ===== verification/Radix_Insert.thy ===== *)
theory Radix_Insert
  imports Radix_Root
begin

text \<open>
  Insertion: the descent ends on a well-formed cache, insertion keeps the invariant, and every
  operation that builds a cache gives one that satisfies it.
\<close>

section \<open>Descending\<close>

lemma split_keeps:
  assumes ok: "cache_ok c" and node: "node < length (nodes c)"
    and m: "map_of (n_children (nd c node)) k = Some child"
    and n: "page_size c \<le> n" "n < length (n_key (nd c child))"
  shows "\<exists>c'. split_node env child n c = (Inr (length (nodes c)), c') \<and> cache_ok c' \<and> same_frame c c' \<and>
     nodes c' = split_arena (page_size c) node child n (nodes c) \<and> keeps_orphans (nodes c) (nodes c')"
proof -
  have tok: "tree_ok (page_size c) (nodes c)" using ok by (simp add: cache_ok_def)
  have co: "child_ok (page_size c) (nodes c) node k child" by (rule child_of_map[OF tok node m])
  obtain c' where c': "split_node env child n c = (Inr (length (nodes c)), c')"
    "nodes c' = split_arena (page_size c) node child n (nodes c)" "same_frame c c'"
    using split_node_eq[of c child node env n] co by (auto simp: child_ok_def same_frame_def)
  moreover have "cache_ok c'"
    using ok tree_ok_split[OF tok node m n] c'(2,3)
    by (auto simp: cache_ok_def same_frame_def namespace_roots_def less_Suc_eq)
  moreover have "keeps_orphans (nodes c) (nodes c')"
    unfolding c'(2) using co node parent_neq[OF tok, of child node] map_of_SomeD[OF m]
    by (intro keeps_orphans_split) (force simp: child_ok_def)+
  ultimately show ?thesis by blast
qed

definition walked ::
  "RadixCache \<Rightarrow> int list \<Rightarrow> int list \<Rightarrow> nat \<Rightarrow> nat \<Rightarrow> int list \<Rightarrow> int list \<Rightarrow> int list \<Rightarrow> nat \<Rightarrow> RadixCache \<Rightarrow> bool"
where
  "walked c key vl plen node' ck' key' vl' plen' c' \<longleftrightarrow>
     cache_ok c' \<and> same_frame c c' \<and> node' < length (nodes c') \<and> length (nodes c) \<le> length (nodes c') \<and>
     keeps_orphans (nodes c) (nodes c') \<and>
     (key' \<noteq> [] \<longrightarrow> ck' = get_child_key (page_size c') key' \<and>
        map_of (n_children (nd c' node')) ck' = None) \<and>
     (\<exists>m. key' = drop m key \<and> vl' = drop m vl \<and> plen' = plen + m)"

lemma insert_walk_total:
  "cache_ok c \<Longrightarrow> node < length (nodes c) \<Longrightarrow> (key \<noteq> [] \<Longrightarrow> ck = get_child_key (page_size c) key) \<Longrightarrow>
     \<exists>node' ck' key' vl' plen' c'.
       insert_walk env node ck key vl plen c = Some (Inr (node', ck', key', vl', plen'), c') \<and>
       walked c key vl plen node' ck' key' vl' plen' c'"
proof (induction "length key" arbitrary: node ck key vl plen c rule: less_induct)
  case less
  note ok = less.prems(1) and node = less.prems(2)
  show ?case
  proof (cases "key = [] \<or> map_of (n_children (nd c node)) ck = None")
    case True
    then have "insert_walk env node ck key vl plen c = Some (Inr (node, ck, key, vl, plen), c)"
      by (subst insert_walk.simps) auto
    moreover have "walked c key vl plen node ck key vl plen c"
      using less.prems True by (auto simp: walked_def intro: exI[of _ 0])
    ultimately show ?thesis by blast
  next
    case False
    then obtain child where key: "key \<noteq> []" and m: "map_of (n_children (nd c node)) ck = Some child" by auto
    let ?n = "key_match (page_size c) (n_key (nd c child)) key"
    let ?ck = "if drop ?n key \<noteq> [] then get_child_key (page_size c) (drop ?n key) else ck"
    have tok: "tree_ok (page_size c) (nodes c)" using ok by (simp add: cache_ok_def)
    have co: "child_ok (page_size c) (nodes c) node ck child" by (rule child_of_map[OF tok node m])
    have pos: "0 < ?n"
      using co key less.prems(3) tree_ok_pos[OF tok] by (intro key_match_pos) (auto simp: child_ok_def)
    then have np: "page_size c \<le> ?n" by (rule key_match_ge_page)
    have shorter: "length (drop ?n key) < length key" using pos key by simp
    obtain c1 node1 where
      go: "insert_walk env node ck key vl plen c =
             insert_walk env node1 ?ck (drop ?n key) (drop ?n vl) (plen + ?n) c1"
      and c1: "cache_ok c1" "same_frame c c1" "node1 < length (nodes c1)" "length (nodes c) \<le> length (nodes c1)"
        "keeps_orphans (nodes c) (nodes c1)"
    proof (cases "?n < length (n_key (nd c child))")
      case True
      obtain c1 where s: "split_node env child ?n c = (Inr (length (nodes c)), c1)" "cache_ok c1"
        "same_frame c c1" "nodes c1 = split_arena (page_size c) node child ?n (nodes c)"
        "keeps_orphans (nodes c) (nodes c1)"
        using split_keeps[OF ok node m np True] by blast
      have "insert_walk env node ck key vl plen c =
          insert_walk env (length (nodes c)) ?ck (drop ?n key) (drop ?n vl) (plen + ?n) c1"
        using key m True s(1) by (subst insert_walk.simps) (simp add: Let_def)
      then show thesis using that[of "length (nodes c)" c1] s by simp
    next
      case False
      have "insert_walk env node ck key vl plen c =
          insert_walk env child ?ck (drop ?n key) (drop ?n vl) (plen + ?n) c"
        using key m False by (subst insert_walk.simps) (simp add: Let_def)
      then show thesis using that[of child c] ok co by (simp add: child_ok_def)
    qed
    have "\<exists>node' ck' key' vl' plen' c'.
       insert_walk env node1 ?ck (drop ?n key) (drop ?n vl) (plen + ?n) c1
         = Some (Inr (node', ck', key', vl', plen'), c') \<and>
       walked c1 (drop ?n key) (drop ?n vl) (plen + ?n) node' ck' key' vl' plen' c'"
      using c1 by (intro less.hyps[OF shorter]) (auto simp: same_frame_def)
    then obtain node' ck' key' vl' plen' c' where
      r: "insert_walk env node1 ?ck (drop ?n key) (drop ?n vl) (plen + ?n) c1
         = Some (Inr (node', ck', key', vl', plen'), c')"
      and w: "walked c1 (drop ?n key) (drop ?n vl) (plen + ?n) node' ck' key' vl' plen' c'" by blast
    from w have "walked c key vl plen node' ck' key' vl' plen' c'"
      using c1 by (auto simp: walked_def add.commute add.left_commute intro: same_frame_trans keeps_orphans_trans
          intro!: exI[of _ "_ + ?n"])
    then show ?thesis using go r by auto
  qed
qed

section \<open>Adding chunks\<close>

lemma update_privacy_shape:
  assumes "new < length (nodes c)"
  shows "same_frame c (update_privacy env new prompt c)"
    "nodes (update_privacy env new prompt c) = (nodes c)[new := nd (update_privacy env new prompt c) new]"
    "same_shape (nd c new) (nd (update_privacy env new prompt c) new)"
  using assms by (simp_all add: update_privacy_def same_frame_def same_shape_def Let_def)

lemma judge_fresh_shape:
  assumes "new < length (nodes c)"
  shows "same_frame c (judge_fresh env node new prompt c)"
    "nodes (judge_fresh env node new prompt c) = (nodes c)[new := nd (judge_fresh env node new prompt c) new]"
    "same_shape (nd c new) (nd (judge_fresh env node new prompt c) new)"
  using update_privacy_shape[OF assms, of env prompt] by (auto simp: judge_fresh_def)

lemma fresh_node_shape:
  "n_children (fresh_node c node key vl prompt u) = []"
  "n_parent (fresh_node c node key vl prompt u) = Some node"
  "n_key (fresh_node c node key vl prompt u) = take chunk_size key"
  "n_value (fresh_node c node key vl prompt u) = take chunk_size vl"
  by (simp_all add: fresh_node_def Let_def tree_node_init_def)

text \<open>One turn of the chunk loop.\<close>

definition add_chunk ::
  "cache_env \<Rightarrow> nat \<Rightarrow> int list \<Rightarrow> int list \<Rightarrow> int list \<Rightarrow> string option \<Rightarrow> string option \<Rightarrow> RadixCache \<Rightarrow> RadixCache"
where
  "add_chunk env node ck key vl prompt u c =
     (let new = length (nodes c);
          c1 = judge_fresh env node new prompt (add_node (fresh_node c node key vl prompt u) c);
          c2 = upd node (\<lambda>t. t\<lparr>n_children := dict_set ck new (n_children t)\<rparr>) c1
      in record_store_event env new
           (c2\<lparr>evictable_sz := evictable_sz c2 + int (min chunk_size (length vl))\<rparr>))"

lemma insert_chunks_turn:
  "insert_chunks env node ck key vl prompt u c =
     (if vl = [] then c
      else insert_chunks env (length (nodes c))
             (if drop chunk_size key \<noteq> [] then get_child_key (page_size c) (drop chunk_size key) else ck)
             (drop chunk_size key) (drop chunk_size vl) prompt u
             (add_chunk env node ck key vl prompt u c))"
  using judge_fresh_shape(1)[of "length (nodes c)" "add_node (fresh_node c node key vl prompt u) c" env node prompt]
  by (subst insert_chunks.simps) (auto simp: add_chunk_def Let_def same_frame_def)

lemma add_chunk_arena:
  assumes "node < length (nodes c)"
  shows "\<exists>t. same_shape (fresh_node c node key vl prompt u) t \<and>
     nodes (add_chunk env node ck key vl prompt u c) =
       (nodes c @ [t])[node := (nd c node)\<lparr>n_children := dict_set ck (length (nodes c)) (n_children (nd c node))\<rparr>] \<and>
     same_frame c (add_chunk env node ck key vl prompt u c)"
proof -
  let ?f = "fresh_node c node key vl prompt u"
  let ?c1 = "judge_fresh env node (length (nodes c)) prompt (add_node ?f c)"
  define t where "t = nd ?c1 (length (nodes c))"
  note jf = judge_fresh_shape[of "length (nodes c)" "add_node ?f c" env node prompt]
  have n1: "nodes ?c1 = nodes c @ [t]" using jf(2) by (simp add: t_def)
  have "same_shape ?f t" using jf(3) by (simp add: t_def)
  moreover have "nd ?c1 node = nd c node" using n1 assms by (simp add: nth_append)
  ultimately show ?thesis
    using n1 jf(1) by (auto simp: add_chunk_def Let_def same_frame_def)
qed

lemma add_chunk_ok:
  assumes ok: "cache_ok c" and node: "node < length (nodes c)" and key: "key \<noteq> []"
    and len: "length key = length vl" and ck: "ck = get_child_key (page_size c) key"
    and ps: "page_size c \<le> chunk_size"
  shows "cache_ok (add_chunk env node ck key vl prompt u c)"
proof -
  obtain t where t: "same_shape (fresh_node c node key vl prompt u) t"
    and eq: "nodes (add_chunk env node ck key vl prompt u c) =
       (nodes c @ [t])[node := (nd c node)\<lparr>n_children := dict_set ck (length (nodes c)) (n_children (nd c node))\<rparr>]"
    and fr: "same_frame c (add_chunk env node ck key vl prompt u c)"
    using add_chunk_arena[OF node] by blast
  have "tree_ok (page_size c) (nodes c)" using ok by (simp add: cache_ok_def)
  then have "tree_ok (page_size c) (nodes (add_chunk env node ck key vl prompt u c))"
    unfolding eq using node t key len ck ps
    by (intro tree_ok_leaf)
       (auto simp: same_shape_def fresh_node_shape chunk_size_def get_child_key_def min_def)
  then show ?thesis
    using ok fr by (auto simp: cache_ok_def same_frame_def namespace_roots_def eq less_Suc_eq)
qed

lemma insert_chunks_ok:
  "cache_ok c \<Longrightarrow> node < length (nodes c) \<Longrightarrow> length key = length vl \<Longrightarrow> page_size c \<le> chunk_size \<Longrightarrow>
     (key \<noteq> [] \<Longrightarrow> ck = get_child_key (page_size c) key) \<Longrightarrow>
     cache_ok (insert_chunks env node ck key vl prompt u c) \<and>
     same_frame c (insert_chunks env node ck key vl prompt u c) \<and>
     length (nodes c) \<le> length (nodes (insert_chunks env node ck key vl prompt u c)) \<and>
     keeps_orphans (nodes c) (nodes (insert_chunks env node ck key vl prompt u c))"
proof (induction "length vl" arbitrary: node ck key vl c rule: less_induct)
  case less
  show ?case
  proof (cases "vl = []")
    case True
    then show ?thesis using less.prems by (simp add: insert_chunks_turn[of env node])
  next
    case False
    then have key: "key \<noteq> []" using less.prems(3) by auto
    let ?c = "add_chunk env node ck key vl prompt u c"
    have ok: "cache_ok ?c" using less.prems key by (intro add_chunk_ok) auto
    have fr: "same_frame c ?c" and len: "length (nodes ?c) = Suc (length (nodes c))"
      using add_chunk_arena[OF less.prems(2), of key vl prompt u env ck] by auto
    have ko: "keeps_orphans (nodes c) (nodes ?c)"
      using add_chunk_arena[OF less.prems(2), of key vl prompt u env ck] keeps_orphans_leaf[OF less.prems(2)]
      by (auto simp: same_shape_def fresh_node_shape)
    have shorter: "length (drop chunk_size vl) < length vl"
      using False by (simp add: chunk_size_def)
    have "cache_ok (insert_chunks env (length (nodes c))
             (if drop chunk_size key \<noteq> [] then get_child_key (page_size c) (drop chunk_size key) else ck)
             (drop chunk_size key) (drop chunk_size vl) prompt u ?c) \<and>
       same_frame ?c (insert_chunks env (length (nodes c))
             (if drop chunk_size key \<noteq> [] then get_child_key (page_size c) (drop chunk_size key) else ck)
             (drop chunk_size key) (drop chunk_size vl) prompt u ?c) \<and>
       length (nodes ?c) \<le> length (nodes (insert_chunks env (length (nodes c))
             (if drop chunk_size key \<noteq> [] then get_child_key (page_size c) (drop chunk_size key) else ck)
             (drop chunk_size key) (drop chunk_size vl) prompt u ?c)) \<and>
       keeps_orphans (nodes ?c) (nodes (insert_chunks env (length (nodes c))
             (if drop chunk_size key \<noteq> [] then get_child_key (page_size c) (drop chunk_size key) else ck)
             (drop chunk_size key) (drop chunk_size vl) prompt u ?c))"
      using ok fr len less.prems by (intro less.hyps[OF shorter]) (auto simp: same_frame_def)
    then show ?thesis
      using False fr len ko
      by (subst (1 2 3 4) insert_chunks_turn) (auto intro: same_frame_trans keeps_orphans_trans)
  qed
qed

section \<open>The public operations\<close>

lemma insert_helper_ok:
  assumes ok: "cache_ok c" and node: "node < length (nodes c)" and len: "length key = length vl"
    and ps: "page_size c \<le> chunk_size"
  shows "\<exists>n c'. insert_helper env node key vl prompt u c = Some (Inr n, c') \<and> cache_ok c' \<and>
     same_frame c c' \<and> length (nodes c) \<le> length (nodes c') \<and> keeps_orphans (nodes c) (nodes c')"
proof (cases "key = []")
  case True
  then show ?thesis using ok by (simp add: insert_helper_def)
next
  case False
  obtain node' ck' key' vl' plen' c1 where
    w: "insert_walk env node (get_child_key (page_size c) key) key vl 0 c
          = Some (Inr (node', ck', key', vl', plen'), c1)"
    and wk: "walked c key vl 0 node' ck' key' vl' plen' c1"
    using insert_walk_total[OF ok node, where key = key and plen = 0 and env = env and vl = vl] by blast
  let ?c = "if key' \<noteq> [] then insert_chunks env node' ck' key' vl' prompt u c1 else c1"
  have "cache_ok ?c \<and> same_frame c1 ?c \<and> length (nodes c1) \<le> length (nodes ?c) \<and>
      keeps_orphans (nodes c1) (nodes ?c)"
    using wk insert_chunks_ok[of c1 node' key' vl' ck' env prompt u] ps len
    by (auto simp: walked_def same_frame_def)
  then show ?thesis
    using False w wk by (auto simp: insert_helper_def walked_def intro: same_frame_trans keeps_orphans_trans)
qed

lemma insert_target_ok:
  assumes run: "insert_target env key uid auth c = (r, c')" and ok: "cache_ok c"
  shows "cache_ok c' \<and> page_size c' = page_size c \<and> safekv_mode c' = safekv_mode c \<and>
     (rooted c \<longrightarrow> rooted c') \<and> (\<forall>a i. r = Inr (a, i) \<longrightarrow> i < length (nodes c'))"
proof -
  obtain rp c1 where p: "parse_authorization env auth c = (rp, c1)" by fastforce
  have s1: "same_nodes c c1" by (rule parse_authorization_same_nodes[OF p])
  have ok1: "cache_ok c1" by (rule cache_ok_same_nodes[OF s1 ok])
  define second where "second = (case rp of Inl e \<Rightarrow> (Inl e, c1) | Inr parsed \<Rightarrow> (case parsed of
                None \<Rightarrow> (Inr None, c1)
              | Some a \<Rightarrow>
                  if prefix_token_length a \<le> int (length key)
                  then andThen (install_authorization env auth (py_take (prefix_token_length a) key) c1)
                         (\<lambda>(inst, _) c2. (Inr inst, c2))
                  else (Inr None, c1)))"
  obtain ri c2 where s: "second = (ri, c2)" by fastforce
  have ins: "cache_ok d' \<and> page_size d' = page_size d \<and> safekv_mode d' = safekv_mode d \<and> (rooted d \<longrightarrow> rooted d')"
    if "install_authorization env auth k d = (x, d')" "cache_ok d" for k d x d'
    using that(1)
  proof (cases rule: install_authorization_steps)
    case quiet
    then show ?thesis
      using that(2) cache_ok_same_nodes rooted_same_nodes[OF _ quiet] by (auto simp: same_nodes_def same_frame_def)
  next
    case (root e)
    then show ?thesis
      using that(2) cache_ok_same_nodes[OF root(1)] cache_ok_adds_root[OF _ root(2)]
        rooted_adds_root[OF rooted_same_nodes[OF _ root(1)] _ root(2)]
      by (auto simp: same_nodes_def same_frame_def adds_root_def)
  qed
  have ok2: "cache_ok c2 \<and> page_size c2 = page_size c \<and> safekv_mode c2 = safekv_mode c \<and> (rooted c \<longrightarrow> rooted c2)"
    using s ok1 s1 ins rooted_same_nodes[OF _ s1]
    by (fastforce simp: second_def same_nodes_def same_frame_def andThen_def
        split: sum.splits option.splits if_splits prod.splits)
  have run2: "andThen (ri, c2) (\<lambda>inst c2. case inst of
       Some a \<Rightarrow> (case map_of (public_roots c2) (public_object_id a) of
            None \<Rightarrow> (Inl (KeyError (public_object_id a)), c2)
          | Some r \<Rightarrow> (Inr (Some a, r), c2))
     | None \<Rightarrow> (case private_root uid True c2 of (r, c3) \<Rightarrow> (Inr (None, the r), c3))) = (r, c')"
    using run p s by (cases rp) (auto simp: insert_target_def second_def)
  show ?thesis
  proof (cases "ri = Inr None")
    case True
    obtain ro c3 where pr: "private_root uid True c2 = (ro, c3)" by fastforce
    have eq: "r = Inr (None, the ro)" "c' = c3" using run2 True pr by auto
    from pr show ?thesis
    proof (cases rule: private_root_steps)
      case quiet
      have "\<exists>i. ro = Some i \<and> i < length (nodes c2)"
        using quiet ok2 cache_ok_private[of c2 uid] by (auto dest: map_of_SomeD)
      then show ?thesis using eq quiet ok2 by auto
    next
      case root
      then show ?thesis
        using eq ok2 cache_ok_adds_root[of c2 c3] rooted_adds_root[of c2 c3] by (auto simp: adds_root_def)
    qed
  next
    case False
    then have "c' = c2" "\<And>a i. r = Inr (a, i) \<Longrightarrow> \<exists>oid. (oid, i) \<in> set (public_roots c2)"
      using run2 by (cases ri; auto split: option.splits dest: map_of_SomeD)+
    then show ?thesis using ok2 by (auto dest: cache_ok_public)
  qed
qed

lemma cache_insert_ok:
  assumes ok: "cache_ok c" and len: "\<And>v. value_arg = Some v \<Longrightarrow> length v = length key"
    and ps: "page_size c \<le> chunk_size"
  shows "\<exists>r c'. cache_insert env key value_arg prompt u auth c = Some (r, c') \<and> cache_ok c' \<and>
     page_size c' = page_size c \<and> (rooted c \<longrightarrow> rooted c')"
proof -
  define v where "v = (case value_arg of None \<Rightarrow> key | Some v \<Rightarrow> v)"
  have lv: "length key = length v" using len by (auto simp: v_def split: option.splits)
  obtain rt c1 where t: "insert_target env key (the u) auth c = (rt, c1)" by fastforce
  note tok = insert_target_ok[OF t ok]
  have helper: "\<exists>n d'. insert_helper env i k w prompt u d = Some (Inr n, d') \<and> cache_ok d' \<and>
      page_size d' = page_size c \<and> (rooted d \<longrightarrow> rooted d')"
    if "cache_ok d" "i < length (nodes d)" "length k = length w" "page_size d = page_size c" for i k w d
    using insert_helper_ok[OF that(1-3), of env prompt u] that(1,4) ps rooted_keeps[of d]
    by (fastforce simp: same_frame_def)
  consider (off) "disable c" | (none) "\<not> disable c" "safekv_mode c = ''none''"
    | (anon) "\<not> disable c" "safekv_mode c \<noteq> ''none''" "u = None \<or> u = Some []"
    | (bad) e where "\<not> disable c" "safekv_mode c \<noteq> ''none''" "\<not> (u = None \<or> u = Some [])" "rt = Inl e"
    | (priv) i where "\<not> disable c" "safekv_mode c \<noteq> ''none''" "\<not> (u = None \<or> u = Some [])"
        "rt = Inr (None, i)"
    | (pub) a i where "\<not> disable c" "safekv_mode c \<noteq> ''none''" "\<not> (u = None \<or> u = Some [])"
        "rt = Inr (Some a, i)"
    by (cases rt; metis prod.exhaust not_None_eq)
  then show ?thesis
  proof cases
    case none
    then show ?thesis
      using helper[OF ok cache_ok_root[OF ok] lv refl] by (auto simp: cache_insert_def v_def)
  next
    case priv
    then show ?thesis
      using helper[of c1 i key v] tok lv t by (auto simp: cache_insert_def v_def Let_def)
  next
    case pub
    let ?k = "py_take (prefix_token_length a) key" and ?v = "py_take (prefix_token_length a) v"
    have "length ?k = length ?v" using lv by (simp add: py_take_def)
    then obtain n d where d: "insert_helper env i ?k ?v prompt u c1 = Some (Inr n, d)" "cache_ok d" "page_size d = page_size c"
      "rooted c1 \<longrightarrow> rooted d"
      using helper[of c1 i ?k ?v] tok pub by auto
    have "cache_ok (log_count env s x d)" "rooted d \<Longrightarrow> rooted (log_count env s x d)" for s x
      using d(2) by (simp_all add: cache_ok_def namespace_roots_def rooted_def)
    then show ?thesis
      using pub t d tok by (auto simp: cache_insert_def v_def Let_def)
  qed (use ok t tok in \<open>auto simp: cache_insert_def\<close>)
qed

lemma tree_ok_empty: "0 < ps \<Longrightarrow> tree_ok ps []"
  by (simp add: tree_ok_def ranked_def)

lemma cache_reset_ok:
  assumes "tree_ok (page_size c) (nodes c)"
  shows "cache_ok (cache_reset c)"
proof -
  have "tree_ok (page_size c) (nodes c @ [t])" if "n_children t = []" "n_parent t = None"
    "n_key t = []" "n_value t = []" for t
    using assms that by (intro tree_ok_append) auto
  then show ?thesis
    by (auto simp: cache_ok_def cache_reset_def record_all_cleared_event_def Let_def namespace_roots_def
        add_node_def tree_node_init_def)
qed

lemma cache_init_ok:
  assumes "cache_init pool al ps dis ev B K mode key epoch model tok path auto disk = Inr c" "0 < ps"
  shows "cache_ok c"
  using assms by (auto simp: cache_init_def intro!: cache_reset_ok tree_ok_empty)

section \<open>A small cache for concrete runs\<close>

definition demo_env :: cache_env where
  "demo_env = \<lparr> env_lib = demo_lib, env_clock = (\<lambda>_. Fin 0), env_io = (\<lambda>_. io_ok),
                env_hash = sum_list, env_exc_text = (\<lambda>_. []) \<rparr>"

definition demo_cache :: "string \<Rightarrow> bool \<Rightarrow> RadixCache" where
  "demo_cache mode share =
     projr (cache_init (req_pool_init 2 8) (Slots (allocator_init 8)) 1 False False 2 2 mode None 1
              None None None share NoFile)"

definition demo_insert :: "int list \<Rightarrow> string \<Rightarrow> RadixCache \<Rightarrow> RadixCache" where
  "demo_insert key user c =
     snd (the (cache_insert demo_env key (Some (map ((+) 10) key)) None (Some user) None c))"

lemma demo_cache_ok: "cache_ok (demo_cache mode share)"
proof -
  obtain c where c: "cache_init (req_pool_init 2 8) (Slots (allocator_init 8)) 1 False False 2 2 mode None 1
              None None None share NoFile = Inr c"
    by (auto simp: cache_init_def registry_init_def utf8_def)
  then show ?thesis using cache_init_ok[OF c] by (simp add: demo_cache_def)
qed

lemma demo_insert_ok:
  assumes "cache_ok c" "page_size c \<le> chunk_size"
  shows "cache_ok (demo_insert key user c)"
proof -
  obtain r c' where "cache_insert demo_env key (Some (map ((+) 10) key)) None (Some user) None c = Some (r, c')"
    "cache_ok c'"
    using cache_insert_ok[OF assms(1) _ assms(2), where value_arg = "Some (map ((+) 10) key)" and key = key]
    by (metis length_map option.inject)
  then show ?thesis by (simp add: demo_insert_def)
qed

text \<open>Rewriting rules that run the operations on concrete caches.\<close>

lemmas cache_eval = demo_cache_def demo_insert_def demo_env_def cache_init_def registry_init_def
  registry_reset_def cache_reset_def record_all_cleared_event_def Let_def add_node_def upd_def
  tree_node_init_def insert_helper_def insert_walk.simps insert_chunks.simps judge_fresh_def
  fresh_node_def public_namespace_def record_store_event_def record_remove_event_def
  get_child_key_def chunk_size_def utf8_def cache_insert_def insert_target_def
  parse_authorization_def install_authorization_def private_root_def new_namespace_root_def
  ns_private_def key_match_def split_node_def match_prefix_def match_public_def match_private_def
  matching_public_root_def public_matches_def aligned_key_def match_prefix_helper_def
  match_loop.simps visible_to_def charge_def budget_applies_def log_event_def

end
