(* ===== verification/Radix_Isolation.thy ===== *)
theory Radix_Isolation
  imports Radix_Insert
begin

text \<open>
  Isolation of principals: what a requester can read from the cache, that a lookup returns nothing
  else and widens nobody's view, and that a lookup leaves the nodes the requester may not see alone.
\<close>

section \<open>Readable slots\<close>

definition node_visible :: "string \<Rightarrow> TreeNode \<Rightarrow> string option \<Rightarrow> bool" where
  "node_visible mode t u \<longleftrightarrow>
     mode = ''none'' \<or> n_visibility t = vis_value VERIFIED_PUBLIC \<or> (u \<noteq> None \<and> u = n_creator_id t) \<or>
     (mode = ''balanced'' \<and> n_visibility t = vis_value BUDGETED_SHARED \<and> \<not> n_permanently_private t)"

lemma visible_to_node: "visible_to c i u = node_visible (safekv_mode c) (nd c i) u"
  by (auto simp: visible_to_def node_visible_def)

definition readable :: "string option \<Rightarrow> RadixCache \<Rightarrow> int set" where
  "readable u c = (\<Union>t \<in> {t \<in> set (nodes c). node_visible (safekv_mode c) t u}. set (n_value t))"

text \<open>A node is covered by another that has its slots and is visible to everyone it is visible to.\<close>

definition covered :: "string \<Rightarrow> TreeNode \<Rightarrow> TreeNode \<Rightarrow> bool" where
  "covered mode t t' \<longleftrightarrow>
     set (n_value t') \<subseteq> set (n_value t) \<and> (\<forall>u. node_visible mode t' u \<longrightarrow> node_visible mode t u)"

definition narrower :: "RadixCache \<Rightarrow> RadixCache \<Rightarrow> bool" where
  "narrower c c' \<longleftrightarrow>
     safekv_mode c' = safekv_mode c \<and>
     (\<forall>t' \<in> set (nodes c'). n_value t' = [] \<or> (\<exists>t \<in> set (nodes c). covered (safekv_mode c) t t'))"

lemma narrower_readable: "narrower c c' \<Longrightarrow> readable u c' \<subseteq> readable u c"
  unfolding narrower_def readable_def covered_def by fastforce

lemma covered_trans: "covered mode a b \<Longrightarrow> covered mode b c \<Longrightarrow> covered mode a c"
  by (auto simp: covered_def)

lemma covered_empty: "covered mode t t' \<Longrightarrow> n_value t = [] \<Longrightarrow> n_value t' = []"
  by (simp add: covered_def)

lemma narrower_trans:
  assumes "narrower a b" "narrower b c"
  shows "narrower a c"
proof -
  have "n_value t' = [] \<or> (\<exists>t \<in> set (nodes a). covered (safekv_mode a) t t')" if tc: "t' \<in> set (nodes c)" for t'
  proof (cases "n_value t' = []")
    case False
    then obtain s where s: "s \<in> set (nodes b)" "covered (safekv_mode b) s t'"
      using assms(2) tc unfolding narrower_def by blast
    then have "n_value s \<noteq> []" using False covered_empty by blast
    then obtain t where "t \<in> set (nodes a)" "covered (safekv_mode a) t s"
      using assms(1) s(1) unfolding narrower_def by blast
    then show ?thesis using s(2) assms(1) covered_trans by (fastforce simp: narrower_def)
  qed simp
  then show ?thesis using assms by (simp add: narrower_def)
qed

lemma covered_refl: "covered mode t t"
  by (simp add: covered_def)

lemma touched_covered: "touched t t' \<Longrightarrow> covered mode t t'"
  by (auto simp: covered_def touched_def same_shape_def node_visible_def)

lemma split_arena_nodes:
  "set (split_arena ps p child n ns) \<subseteq>
     set ns \<union> {upper_half ps (ns ! child) child n, lower_half (length ns) n (ns ! child)} \<union>
     {t. \<exists>t0 chs. t = t0\<lparr>n_children := chs\<rparr> \<and>
        t0 \<in> set ns \<union> {upper_half ps (ns ! child) child n, lower_half (length ns) n (ns ! child)}} \<or>
   length ns < p"
proof (cases "p \<le> length ns")
  case True
  define ns1 where "ns1 = (ns @ [upper_half ps (ns ! child) child n])[child := lower_half (length ns) n (ns ! child)]"
  have s1: "set ns1 \<subseteq> set ns \<union> {upper_half ps (ns ! child) child n, lower_half (length ns) n (ns ! child)}"
    unfolding ns1_def by (rule subset_trans[OF set_update_subset_insert]) auto
  have "ns1 ! p \<in> set ns1" using True by (simp add: ns1_def)
  moreover have "set (split_arena ps p child n ns) \<subseteq>
      insert ((ns1 ! p)\<lparr>n_children := dict_set (get_child_key ps (n_key (ns ! child))) (length ns)
        (n_children (ns1 ! p))\<rparr>) (set ns1)"
    unfolding split_arena_def Let_def ns1_def[symmetric] by (rule set_update_subset_insert)
  ultimately show ?thesis using s1 by blast
qed simp

lemma covered_halves:
  "covered mode t (upper_half ps t child n)" "covered mode t (lower_half new n t)"
  by (auto simp: covered_def upper_half_def lower_half_def node_visible_def tree_node_init_def
      dest: in_set_takeD in_set_dropD)

lemma covered_children: "covered mode t (t'\<lparr>n_children := chs\<rparr>) \<longleftrightarrow> covered mode t t'"
  by (simp add: covered_def node_visible_def)

lemma narrower_split:
  assumes "may_visit u c node child" "same_frame c c'" "touched (nd c child) t"
    "nodes c' = split_arena (page_size c) node child n ((nodes c)[child := t])"
  shows "narrower c c'"
proof -
  note vd = may_visitD[OF assms(1)]
  let ?ns = "(nodes c)[child := t]" and ?m = "safekv_mode c"
  have t: "?ns ! child = t" using vd(1) by simp
  have cov: "\<exists>s \<in> set (nodes c). covered ?m s x" if "x \<in> set ?ns" for x
  proof -
    have "x = t \<or> x \<in> set (nodes c)" using that set_update_subset_insert[of "nodes c" child t] by auto
    then show ?thesis
      using touched_covered[OF assms(3), of ?m] vd(1) covered_refl[of ?m x] by auto
  qed
  have half: "\<exists>s \<in> set (nodes c). covered ?m s x"
    if "x \<in> {upper_half (page_size c) t child n, lower_half (length ?ns) n t}" for x
  proof -
    have "covered ?m t x" using that covered_halves by auto
    then have "covered ?m (nd c child) x" using touched_covered[OF assms(3)] covered_trans by blast
    then show ?thesis using vd(1) by auto
  qed
  have "\<exists>s \<in> set (nodes c). covered ?m s x" if "x \<in> set (nodes c')" for x
  proof -
    from split_arena_nodes[of "page_size c" node child n ?ns] that vd(4)
    consider "x \<in> set ?ns" | "x \<in> {upper_half (page_size c) t child n, lower_half (length ?ns) n t}"
      | t0 chs where "x = t0\<lparr>n_children := chs\<rparr>"
          "t0 \<in> set ?ns \<union> {upper_half (page_size c) t child n, lower_half (length ?ns) n t}"
      unfolding assms(4) t by (auto 0 3)
    then show ?thesis
    proof cases
      case 1
      then show ?thesis by (rule cov)
    next
      case 2
      then show ?thesis by (rule half)
    next
      case 3
      then show ?thesis using cov[of t0] half[of t0] by (auto simp: covered_children)
    qed
  qed
  then show ?thesis using assms(2) by (simp add: narrower_def same_frame_def)
qed

interpretation narrow: lookup_law "\<lambda>u c c'. narrower c c'"
proof
  show "narrower c c'" if "same_nodes c c'" for c c'
    using that covered_refl by (auto simp: narrower_def same_nodes_def same_frame_def)
  show "narrower c1 c3" if "narrower c1 c2" "narrower c2 c3" for c1 c2 c3
    using that by (rule narrower_trans)
  show "narrower c c'"
    if "may_visit u c node child" "same_frame c c'" "touched (nd c child) t"
      "nodes c' = (nodes c)[child := t]" for u c node child c' t
  proof -
    have "x = t \<or> x \<in> set (nodes c)" if "x \<in> set (nodes c')" for x
      using that set_update_subset_insert[of "nodes c" child t] \<open>nodes c' = _\<close> by auto
    moreover have "covered (safekv_mode c) (nd c child) t" "nd c child \<in> set (nodes c)"
      using touched_covered[OF that(3)] may_visitD(1)[OF that(1)] by auto
    ultimately show ?thesis
      using that(2) covered_refl unfolding narrower_def same_frame_def by metis
  qed
  show "narrower c c'" if "may_visit u c node child" "same_frame c c'" "touched (nd c child) t"
    "nodes c' = split_arena (page_size c) node child n ((nodes c)[child := t])" for u c node child c' t n
    using that by (rule narrower_split)
  show "narrower c c'" if "adds_root c c'" for c c'
  proof -
    from that obtain t where t: "nodes c' = nodes c @ [t]" "n_value t = []"
      and m: "safekv_mode c' = safekv_mode c"
      by (auto simp: adds_root_def tree_node_init_def)
    then have "n_value x = [] \<or> x \<in> set (nodes c)" if "x \<in> set (nodes c')" for x
      using that by auto
    then show ?thesis using m covered_refl unfolding narrower_def by blast
  qed
qed

section \<open>What a lookup returns\<close>

lemma match_loop_values:
  "match_loop env u node key vals c = (Inr (vs, last_node), c') \<Longrightarrow> cache_ok c \<Longrightarrow>
     node < length (nodes c) \<Longrightarrow> set (concat vs) \<subseteq> set (concat vals) \<union> readable u c"
proof (induction "length key" arbitrary: node key vals c rule: less_induct)
  case less
  have own: "set (n_value (nd c child)) \<subseteq> readable u c" if "may_visit u c node child" for child
    using that nth_mem[OF may_visitD(1)[OF that]] unfolding readable_def may_visit_def visible_to_node
    by blast
  from less.prems show ?case
  proof (cases rule: match_turn)
    case stop
    then show ?thesis by auto
  next
    case (refused child t)
    then show ?thesis by auto
  next
    case (split child t n)
    then show ?thesis using own[of child] by (auto dest: in_set_takeD)
  next
    case (descend child t n c2)
    have "0 < n" using descend(8) may_visitD(5)[OF descend(1), THEN tree_ok_pos] by simp
    then have "length (drop n key) < length key" using descend(5) by simp
    from less.hyps[OF this descend(10)] cache_ok_touch[OF descend(1-4)] may_visitD(1)[OF descend(1)]
    have "set (concat vs) \<subseteq> set (concat (vals @ [n_value (nd c child)])) \<union> readable u c2"
      using descend(4) by simp
    moreover have "readable u c2 \<subseteq> readable u c"
      by (rule narrower_readable[OF narrow.visit_step[OF descend(1-4)]])
    ultimately show ?thesis using own[OF descend(1)] by auto
  qed
qed

lemma helper_values:
  "match_prefix_helper env node key u c = (Inr (vs, last_node), c') \<Longrightarrow> cache_ok c \<Longrightarrow>
     node < length (nodes c) \<Longrightarrow> set (concat vs) \<subseteq> readable u c"
  using match_loop_values[of env u node key "[]"] by (simp add: match_prefix_helper_def)

lemma keeps_readable: "narrow.keeps u c c' \<Longrightarrow> readable w c' \<subseteq> readable w c"
  by (auto simp: narrow.keeps_def dest: narrower_readable)

lemma match_others_values:
  "match_others env roots key uid c = (Inr (Some (slots, last_node)), c') \<Longrightarrow> cache_ok c \<Longrightarrow>
     \<forall>(o', i) \<in> set roots. i < length (nodes c) \<Longrightarrow> set slots \<subseteq> readable (Some uid) c"
proof (induction env roots key uid c rule: match_others.induct)
  case (2 env owner i rest key uid c)
  obtain rh c1 where h: "match_prefix_helper env i key (Some uid) c = (rh, c1)" by fastforce
  have k: "narrow.keeps (Some uid) c c1" using narrow.helper_keeps[OF h 2(3)] 2(4) by auto
  obtain vals ln where rh: "rh = Inr (vals, ln)" using 2(2) h by (cases rh) auto
  show ?case
  proof (cases "vals = []")
    case False
    then show ?thesis using 2(2,3,4) h rh helper_values[of env i key "Some uid" c vals ln c1] by auto
  next
    case True
    have "\<forall>(o', i) \<in> set rest. i < length (nodes c1)"
      using 2(4) k by (auto simp: narrow.keeps_def dest!: bspec)
    then have "set slots \<subseteq> readable (Some uid) c1"
      using 2(1)[of "(vals, ln)" c1] 2(2) h rh True k by (simp add: narrow.keeps_def)
    then show ?thesis using keeps_readable[OF k] by blast
  qed
qed simp

lemma match_private_values:
  assumes "match_private env key uid c = (Inr (Some (slots, last_node)), c')" "cache_ok c"
  shows "set slots \<subseteq> readable (Some uid) c"
proof -
  obtain i where i: "map_of (private_roots c) uid = Some i"
    using assms by (auto simp: match_private_def split: option.splits)
  have less: "i < length (nodes c)" using cache_ok_private[OF assms(2) map_of_SomeD[OF i]] .
  obtain rh c1 where h: "match_prefix_helper env i key (Some uid) c = (rh, c1)" by fastforce
  show ?thesis
    using assms(1) i h helper_values[OF _ assms(2) less, of env key "Some uid"]
    by (cases rh) (auto simp: match_private_def simp del: set_concat split: if_splits)
qed

lemma match_public_values:
  assumes run: "match_public env key uid auth c = (Inr (Some (slots, last_node)), c')" and ok: "cache_ok c"
  shows "set slots \<subseteq> readable (Some uid) c"
proof -
  obtain inst why c1 where i: "install_authorization env auth key c = (Inr (inst, why), c1)"
    using run by (auto simp: match_public_def andThen_Inr)
  have k1: "narrow.keeps (Some uid) c c1" by (rule narrow.install_keeps[OF i ok])
  then have ok1: "cache_ok c1" by (simp add: narrow.keeps_def)
  obtain j oid vals ln c3 where h: "match_prefix_helper env j key (Some uid) c1 = (Inr (vals, ln), c3)"
    and j: "j < length (nodes c1)" and s: "slots = concat vals"
  proof (cases inst)
    case None
    then show thesis
      using run i that ok1
      by (fastforce simp: match_public_def andThen_Inr split: option.splits if_splits
          dest: narrow.matching_public_root_less)
  next
    case (Some a)
    then show thesis
      using run i that ok1
      by (fastforce simp: match_public_def andThen_Inr split: option.splits if_splits
          dest: map_of_SomeD cache_ok_public)
  qed
  show ?thesis using helper_values[OF h ok1 j] keeps_readable[OF k1] s by blast
qed

lemma match_prefix_values:
  assumes run: "match_prefix env key u auth c = (Inr (slots, last_node), c')" and ok: "cache_ok c"
  shows "set slots \<subseteq> readable u c"
proof -
  consider (off) "disable c \<or> length key = 0" | (none) "\<not> (disable c \<or> length key = 0)" "safekv_mode c = ''none''"
    | (anon) "\<not> (disable c \<or> length key = 0)" "safekv_mode c \<noteq> ''none''" "u = None \<or> u = Some []"
    | (user) uid where "\<not> (disable c \<or> length key = 0)" "safekv_mode c \<noteq> ''none''" "u = Some uid" "uid \<noteq> []"
    by (metis option.exhaust)
  then show ?thesis
  proof cases
    case none
    then show ?thesis
      using run helper_values[OF _ ok cache_ok_root[OF ok], of env "aligned_key (page_size c) key" u]
      by (auto simp: match_prefix_def andThen_Inr simp del: set_concat split: if_splits)
  next
    case user
    let ?key = "aligned_key (page_size c) key"
    obtain pub c1 where p: "match_public env ?key uid auth c = (Inr pub, c1)"
      using run user by (auto simp: match_prefix_def Let_def andThen_Inr)
    have k1: "narrow.keeps u c c1" using narrow.match_public_keeps[OF p ok] user by simp
    show ?thesis
    proof (cases pub)
      case (Some r)
      then have "r = (slots, last_node)" using run user p by (auto simp: match_prefix_def Let_def)
      then show ?thesis
        using match_public_values[of env ?key uid auth c slots last_node c1] p Some ok user by auto
    next
      case None
      obtain priv c2 where v: "match_private env ?key uid c1 = (Inr priv, c2)"
        using run user p None by (auto simp: match_prefix_def Let_def andThen_Inr)
      have ok1: "cache_ok c1" using k1 by (simp add: narrow.keeps_def)
      have k2: "narrow.keeps u c1 c2" using narrow.match_private_keeps[OF v ok1] user by simp
      show ?thesis
      proof (cases priv)
        case (Some r)
        then have "r = (slots, last_node)" using run user p None v by (auto simp: match_prefix_def Let_def)
        then show ?thesis
          using match_private_values[of env ?key uid c1 slots last_node c2] v Some ok1 user
            keeps_readable[OF k1, of u] by auto
      next
        case none2: None
        have ok2: "cache_ok c2" using k2 by (simp add: narrow.keeps_def)
        have rs: "\<forall>(o', i) \<in> set (filter (\<lambda>(w, _). w \<noteq> uid) (private_roots c2)). i < length (nodes c2)"
          using cache_ok_private[OF ok2] by auto
        have "slots = [] \<or> set slots \<subseteq> readable (Some uid) c2"
          using run user p None v none2 match_others_values[OF _ ok2 rs, of env ?key uid slots last_node c']
          by (auto simp: match_prefix_def Let_def andThen_Inr split: if_splits option.splits)
        then show ?thesis
          using keeps_readable[OF k1, of u] keeps_readable[OF k2, of u] user by auto
      qed
    qed
  qed (use run in \<open>auto simp: match_prefix_def\<close>)
qed

section \<open>Nodes a requester may not see\<close>

text \<open>
  Two nodes are the same up to where the entries of the child dictionary point: a visible child that
  is split is reached through its new upper half.
\<close>

definition same_but_links :: "TreeNode \<Rightarrow> TreeNode \<Rightarrow> bool" where
  "same_but_links t t' \<longleftrightarrow>
     t' = t\<lparr>n_children := n_children t'\<rparr> \<and> map fst (n_children t') = map fst (n_children t)"

definition spares_hidden :: "string option \<Rightarrow> RadixCache \<Rightarrow> RadixCache \<Rightarrow> bool" where
  "spares_hidden u c c' \<longleftrightarrow>
     safekv_mode c' = safekv_mode c \<and> length (nodes c) \<le> length (nodes c') \<and>
     (\<forall>i < length (nodes c). \<not> visible_to c i u \<longrightarrow> same_but_links (nd c i) (nd c' i))"

lemma same_but_links_visible: "same_but_links t t' \<Longrightarrow> node_visible mode t' u = node_visible mode t u"
  unfolding same_but_links_def node_visible_def
  by (metis TreeNode.ext_inject TreeNode.surjective TreeNode.update_convs(1))

lemma same_but_links_refl [simp]: "same_but_links t t"
  by (simp add: same_but_links_def)

lemma same_but_links_trans: "same_but_links a b \<Longrightarrow> same_but_links b d \<Longrightarrow> same_but_links a d"
  by (cases a; cases b; cases d) (simp add: same_but_links_def)

lemma spares_hidden_trans:
  assumes "spares_hidden u a b" "spares_hidden u b d"
  shows "spares_hidden u a d"
proof -
  have "same_but_links (nd a i) (nd d i)" if i: "i < length (nodes a)" "\<not> visible_to a i u" for i
  proof -
    have ab: "same_but_links (nd a i) (nd b i)" using assms(1) i by (simp add: spares_hidden_def)
    then have "\<not> visible_to b i u"
      using i(2) assms(1) by (simp add: visible_to_node same_but_links_visible spares_hidden_def)
    then have "same_but_links (nd b i) (nd d i)"
      using assms i(1) unfolding spares_hidden_def by (meson less_le_trans)
    then show ?thesis using ab by (rule same_but_links_trans[rotated])
  qed
  then show ?thesis using assms by (simp add: spares_hidden_def)
qed

lemma spares_hidden_split:
  assumes v: "may_visit u c node child" and f: "same_frame c c'" and t: "touched (nd c child) t"
    and eq: "nodes c' = split_arena (page_size c) node child n ((nodes c)[child := t])"
  shows "spares_hidden u c c'"
proof -
  note vd = may_visitD[OF v]
  let ?ns = "(nodes c)[child := t]"
  obtain k where m: "map_of (n_children (nd c node)) k = Some child"
    using v by (auto simp: may_visit_def)
  have k: "k = get_child_key (page_size c) (n_key (nd c child))"
    using child_of_map[OF vd(5,4) m] by (simp add: child_ok_def)
  have key: "n_key t = n_key (nd c child)" using t by (simp add: touched_def same_shape_def)
  have nth: "split_arena (page_size c) node child n ?ns ! node =
        (nd c node)\<lparr>n_children := dict_set k (length (nodes c)) (n_children (nd c node))\<rparr>"
    "\<And>i. i < length (nodes c) \<Longrightarrow> i \<noteq> node \<Longrightarrow> i \<noteq> child \<Longrightarrow>
        split_arena (page_size c) node child n ?ns ! i = nd c i"
    using nth_split_arena(3)[of child ?ns node "page_size c" n]
      nth_split_arena(4)[of child ?ns node _ "page_size c" n] vd k key by auto
  have "k \<in> fst ` set (n_children (nd c node))" using m by (force dest: map_of_SomeD)
  then have "same_but_links (nd c node) (split_arena (page_size c) node child n ?ns ! node)"
    by (simp add: nth same_but_links_def dict_set_keys_mem)
  then have "same_but_links (nd c i) (split_arena (page_size c) node child n ?ns ! i)"
    if "i < length (nodes c)" "\<not> visible_to c i u" for i
    using that v nth(2)[of i] by (cases "i = node"; cases "i = child") (auto simp: may_visit_def)
  then show ?thesis using f by (simp add: spares_hidden_def eq same_frame_def)
qed

interpretation spare: lookup_law spares_hidden
proof
  show "spares_hidden u c c'" if "same_nodes c c'" for u c c'
    using that by (simp add: spares_hidden_def same_nodes_def same_frame_def)
  show "spares_hidden u c1 c3" if "spares_hidden u c1 c2" "spares_hidden u c2 c3" for u c1 c2 c3
    using that by (rule spares_hidden_trans)
  show "spares_hidden u c c'"
    if "may_visit u c node child" "same_frame c c'" "nodes c' = (nodes c)[child := t]" for u c node child c' t
  proof -
    have "same_but_links (nd c i) ((nodes c)[child := t] ! i)" if "\<not> visible_to c i u" for i
      using that \<open>may_visit u c node child\<close> by (cases "i = child") (auto simp: may_visit_def)
    then show ?thesis using that by (simp add: spares_hidden_def same_frame_def)
  qed
  show "spares_hidden u c c'" if "may_visit u c node child" "same_frame c c'" "touched (nd c child) t"
    "nodes c' = split_arena (page_size c) node child n ((nodes c)[child := t])" for u c node child c' t n
    using that by (rule spares_hidden_split)
  show "spares_hidden u c c'" if "adds_root c c'" for u c c'
    using that by (auto simp: spares_hidden_def adds_root_def nth_append)
qed

section \<open>Properties\<close>

text \<open>
  C1: tenant isolation of lookups.  On any well-formed cache, in every mode and with any
  authorization, the KV slots a lookup returns are slots of nodes that were visible to the requester
  before the call (its own nodes, verified public nodes, or in balanced mode nodes shared under a
  budget), and the call makes no slot readable to anyone that was not readable before.
\<close>

theorem lookup_isolated:
  assumes "cache_ok c" and "match_prefix env key u auth c = (Inr (slots, last_node), c')"
  shows "set slots \<subseteq> readable u c \<and> readable w c' \<subseteq> readable w c"
  using assms match_prefix_values narrower_readable[OF narrow.match_prefix_related] by blast

theorem lookup_isolated_witness:
  "let c = demo_insert [1, 2, 3] ''al'' (demo_cache ''strict'' False);
       run = match_prefix demo_env [1, 2, 5] (Some ''al'') None c
   in fst run = Inr ([11, 12], 3) \<and> set [11, 12] \<subseteq> readable (Some ''al'') c \<and>
      readable (Some ''bo'') (snd run) \<subseteq> readable (Some ''bo'') c"
proof -
  let ?c = "demo_insert [1, 2, 3] ''al'' (demo_cache ''strict'' False)"
  let ?run = "match_prefix demo_env [1, 2, 5] (Some ''al'') None ?c"
  have ps: "page_size (demo_cache ''strict'' False) \<le> chunk_size" by (simp add: cache_eval)
  have r: "fst ?run = Inr ([11, 12], 3)" by (simp add: cache_eval)
  then have "?run = (Inr ([11, 12], 3), snd ?run)" by (metis prod.collapse)
  from lookup_isolated[OF demo_insert_ok[OF demo_cache_ok ps] this, of "Some ''bo''"] r
  show ?thesis by (simp add: Let_def)
qed

text \<open>
  C2: a denied probe has no side effect.  Whatever a requester looks up, every node it may not see
  keeps its key, slots, hit count, budget, visibility, locks, owner and parent; only the target of a
  child entry can change, when a visible child below it was split.
\<close>

theorem denied_nodes_untouched:
  assumes "cache_ok c" and "i < length (nodes c)" and "\<not> visible_to c i u"
  shows "same_but_links (nd c i) (nd (snd (match_prefix env key u auth c)) i)"
  using spare.match_prefix_related[of env key u auth c] assms
  by (cases "match_prefix env key u auth c") (auto simp: spares_hidden_def)

theorem denied_nodes_untouched_witness:
  "same_but_links (nd (demo_insert [1, 2, 3] ''al'' (demo_cache ''strict'' False)) 2)
     (nd (snd (match_prefix demo_env [1, 2] (Some ''bo'') None
                 (demo_insert [1, 2, 3] ''al'' (demo_cache ''strict'' False)))) 2)"
proof (rule denied_nodes_untouched)
  show "cache_ok (demo_insert [1, 2, 3] ''al'' (demo_cache ''strict'' False))"
    by (intro demo_insert_ok demo_cache_ok) (simp add: cache_eval)
qed (simp_all add: cache_eval)



end
