(* ===== verification/Radix_Lock.thy ===== *)
theory Radix_Lock
  imports Radix_Insert
begin

text \<open>
  Lock counts: \<open>inc_lock_ref\<close> and \<open>dec_lock_ref\<close> walk from a node to the global root.  On a chain of
  parents that reaches the root both end, move the right amount between the evictable and the
  protected size, and undo each other.
\<close>

section \<open>Chains of parents\<close>

fun chain :: "TreeNode list \<Rightarrow> nat \<Rightarrow> nat \<Rightarrow> nat list \<Rightarrow> bool" where
  "chain ns rt i [] \<longleftrightarrow> i = rt"
| "chain ns rt i (x # xs) \<longleftrightarrow>
     i = x \<and> x \<noteq> rt \<and> x < length ns \<and>
     (case n_parent (ns ! x) of None \<Rightarrow> False | Some p \<Rightarrow> chain ns rt p xs)"

lemma chain_cong:
  assumes "length ns' = length ns" "\<And>j. n_parent (ns' ! j) = n_parent (ns ! j)"
  shows "chain ns' rt i xs = chain ns rt i xs"
  by (induction xs arbitrary: i) (auto simp: assms split: option.splits)

lemma chain_ranks:
  "chain ns rt i xs \<Longrightarrow> ranked ns d \<Longrightarrow> \<forall>x \<in> set xs. d x \<le> d i"
proof (induction xs arbitrary: i)
  case (Cons x xs)
  then obtain p where p: "n_parent (ns ! x) = Some p" "chain ns rt p xs" "i = x" "x < length ns"
    by (auto split: option.splits)
  then have "d p < d x" using Cons.prems(2) by (auto simp: ranked_def)
  then show ?case using Cons.IH[OF p(2) Cons.prems(2)] p(3) by fastforce
qed simp

lemma chain_distinct: "chain ns rt i xs \<Longrightarrow> ranked ns d \<Longrightarrow> distinct xs"
proof (induction xs arbitrary: i)
  case (Cons x xs)
  then obtain p where p: "n_parent (ns ! x) = Some p" "chain ns rt p xs" "x < length ns"
    by (auto split: option.splits)
  then have "d p < d x" using Cons.prems(2) by (auto simp: ranked_def)
  then have "x \<notin> set xs" using chain_ranks[OF p(2) Cons.prems(2)] by fastforce
  then show ?case using Cons.IH[OF p(2) Cons.prems(2)] by simp
qed simp

section \<open>The effect of the two loops\<close>

definition shift_locks :: "int \<Rightarrow> nat list \<Rightarrow> TreeNode list \<Rightarrow> TreeNode list" where
  "shift_locks k xs ns =
     map (\<lambda>j. if j \<in> set xs then (ns ! j)\<lparr>n_lock_ref := n_lock_ref (ns ! j) + k\<rparr> else ns ! j)
       [0..<length ns]"

definition tokens_at :: "int \<Rightarrow> nat list \<Rightarrow> TreeNode list \<Rightarrow> int" where
  "tokens_at l xs ns =
     sum_list (map (\<lambda>j. if n_lock_ref (ns ! j) = l then int (length (n_value (ns ! j))) else 0) xs)"

definition move_size :: "int \<Rightarrow> RadixCache \<Rightarrow> RadixCache" where
  "move_size n c = c\<lparr>evictable_sz := evictable_sz c + n, protected_sz := protected_sz c - n\<rparr>"

lemma nth_update_other: "j \<in> set xs \<Longrightarrow> x \<notin> set xs \<Longrightarrow> ns[x := t] ! j = ns ! j"
  by (metis nth_list_update_neq)

lemma parent_update_lock: "n_parent (ns[x := (ns ! x)\<lparr>n_lock_ref := l\<rparr>] ! j) = n_parent (ns ! j)"
  by (cases "j = x"; cases "x < length ns") (auto simp: list_update_beyond)

lemma shift_locks_Nil [simp]: "shift_locks k [] ns = ns"
  by (simp add: shift_locks_def map_nth)

lemma length_shift_locks [simp]: "length (shift_locks k xs ns) = length ns"
  by (simp add: shift_locks_def)

lemma nth_shift_locks:
  "j < length ns \<Longrightarrow> shift_locks k xs ns ! j =
     (if j \<in> set xs then (ns ! j)\<lparr>n_lock_ref := n_lock_ref (ns ! j) + k\<rparr> else ns ! j)"
  by (simp add: shift_locks_def)

lemma shift_locks_Cons:
  assumes "x \<notin> set xs"
  shows "shift_locks k xs (ns[x := (ns ! x)\<lparr>n_lock_ref := n_lock_ref (ns ! x) + k\<rparr>])
       = shift_locks k (x # xs) ns"
  using assms
  by (intro nth_equalityI) (auto simp: nth_shift_locks nth_list_update nth_update_other[of _ xs])

lemma shift_locks_inverse: "shift_locks (- k) xs (shift_locks k xs ns) = ns"
  by (intro nth_equalityI) (auto simp: nth_shift_locks)

lemma tokens_at_update:
  "x \<notin> set xs \<Longrightarrow> tokens_at l xs (ns[x := t]) = tokens_at l xs ns"
  unfolding tokens_at_def
  by (intro arg_cong[of _ _ sum_list] map_cong) (simp_all add: nth_update_other)

lemma tokens_at_shift:
  "set xs \<subseteq> {..<length ns} \<Longrightarrow> tokens_at (l + k) xs (shift_locks k xs ns) = tokens_at l xs ns"
  unfolding tokens_at_def by (intro arg_cong[of _ _ sum_list] map_cong) (auto simp: nth_shift_locks)

lemma inc_lock_chain:
  "chain (nodes c) (root_node c) i xs \<Longrightarrow> distinct xs \<Longrightarrow>
     inc_lock_loop (Some i) delta c =
       Some (Inr (delta - tokens_at 0 xs (nodes c)),
             (move_size (- tokens_at 0 xs (nodes c)) c)\<lparr>nodes := shift_locks 1 xs (nodes c)\<rparr>)"
proof (induction xs arbitrary: i delta c)
  case Nil
  then show ?case by (subst inc_lock_loop.simps) (simp add: tokens_at_def move_size_def)
next
  case (Cons x xs)
  then obtain p where p: "n_parent (nd c x) = Some p" "chain (nodes c) (root_node c) p xs" "i = x"
    "x \<noteq> root_node c" "x < length (nodes c)" "x \<notin> set xs" "distinct xs" by (auto split: option.splits)
  let ?n = "int (length (n_value (nd c x)))" and ?free = "n_lock_ref (nd c x) = 0"
  define c1 where "c1 = upd x (\<lambda>t. t\<lparr>n_lock_ref := n_lock_ref t + 1\<rparr>)
     (if ?free then move_size (- ?n) c else c)"
  have c1: "nodes c1 = (nodes c)[x := (nd c x)\<lparr>n_lock_ref := n_lock_ref (nd c x) + 1\<rparr>]"
    "root_node c1 = root_node c" by (simp_all add: c1_def move_size_def upd_def)
  have step: "inc_lock_loop (Some i) delta c
      = inc_lock_loop (Some p) (if ?free then delta - ?n else delta) c1"
    using p(1,3,4) by (subst inc_lock_loop.simps) (simp add: Let_def c1_def move_size_def)
  have ch: "chain (nodes c1) (root_node c1) p xs"
    using p(2) c1 chain_cong[of "nodes c1" "nodes c"] by (simp add: parent_update_lock)
  have tok: "tokens_at 0 xs (nodes c1) = tokens_at 0 xs (nodes c)"
    using p(6) c1 by (simp add: tokens_at_update)
  show ?case
    unfolding step Cons.IH[OF ch p(7)] tok using p(6) c1(1) shift_locks_Cons[of x xs 1 "nodes c"]
    by (simp add: c1_def move_size_def upd_def tokens_at_def)
qed

lemma dec_lock_chain:
  "chain (nodes c) (root_node c) i xs \<Longrightarrow> distinct xs \<Longrightarrow>
     dec_lock_loop (Some i) delta c =
       Some (Inr (delta + tokens_at 1 xs (nodes c)),
             (move_size (tokens_at 1 xs (nodes c)) c)\<lparr>nodes := shift_locks (-1) xs (nodes c)\<rparr>)"
proof (induction xs arbitrary: i delta c)
  case Nil
  then show ?case by (subst dec_lock_loop.simps) (simp add: tokens_at_def move_size_def)
next
  case (Cons x xs)
  then obtain p where p: "n_parent (nd c x) = Some p" "chain (nodes c) (root_node c) p xs" "i = x"
    "x \<noteq> root_node c" "x < length (nodes c)" "x \<notin> set xs" "distinct xs" by (auto split: option.splits)
  let ?n = "int (length (n_value (nd c x)))" and ?last = "n_lock_ref (nd c x) = 1"
  define c1 where "c1 = upd x (\<lambda>t. t\<lparr>n_lock_ref := n_lock_ref t + -1\<rparr>)
     (if ?last then move_size ?n c else c)"
  have c1: "nodes c1 = (nodes c)[x := (nd c x)\<lparr>n_lock_ref := n_lock_ref (nd c x) + -1\<rparr>]"
    "root_node c1 = root_node c" by (simp_all add: c1_def move_size_def upd_def)
  have step: "dec_lock_loop (Some i) delta c
      = dec_lock_loop (Some p) (if ?last then delta + ?n else delta) c1"
    using p(1,3,4) by (subst dec_lock_loop.simps) (simp add: Let_def c1_def move_size_def)
  have ch: "chain (nodes c1) (root_node c1) p xs"
    using p(2) c1 chain_cong[of "nodes c1" "nodes c"] by (simp add: parent_update_lock)
  have tok: "tokens_at 1 xs (nodes c1) = tokens_at 1 xs (nodes c)"
    using p(6) c1 by (simp add: tokens_at_update)
  show ?case
    unfolding step Cons.IH[OF ch p(7)] tok using p(6) c1(1) shift_locks_Cons[of x xs "-1" "nodes c"]
    by (simp add: c1_def move_size_def upd_def tokens_at_def)
qed

section \<open>The locked cache\<close>

definition lock_path :: "nat list \<Rightarrow> RadixCache \<Rightarrow> RadixCache" where
  "lock_path xs c = (move_size (- tokens_at 0 xs (nodes c)) c)\<lparr>nodes := shift_locks 1 xs (nodes c)\<rparr>"

lemma lock_path_simps [simp]:
  "root_node (lock_path xs c) = root_node c" "page_size (lock_path xs c) = page_size c"
  "disable (lock_path xs c) = disable c" "nodes (lock_path xs c) = shift_locks 1 xs (nodes c)"
  "token_to_kv_pool_allocator (lock_path xs c) = token_to_kv_pool_allocator c"
  by (simp_all add: lock_path_def move_size_def)

lemma cache_ok_lock_path: "cache_ok c \<Longrightarrow> cache_ok (lock_path xs c)"
proof -
  assume ok: "cache_ok c"
  have "tree_ok (page_size c) (shift_locks 1 xs (nodes c))"
    by (rule tree_ok_same_shape[of _ "nodes c"]) (use ok in \<open>auto simp: cache_ok_def nth_shift_locks same_shape_def\<close>)
  then show ?thesis using ok by (simp add: cache_ok_def namespace_roots_def lock_path_def move_size_def)
qed

lemma chain_shift_locks: "chain (shift_locks k xs ns) rt j ys = chain ns rt j ys"
proof (induction ys arbitrary: j)
  case (Cons y ys)
  then show ?case by (cases "y < length ns") (simp_all add: nth_shift_locks cong: option.case_cong)
qed simp

lemma path_distinct: "cache_ok c \<Longrightarrow> chain (nodes c) rt i xs \<Longrightarrow> distinct xs"
  by (auto simp: cache_ok_def tree_ok_def dest: chain_distinct)

lemma inc_lock_path:
  assumes "cache_ok c" "\<not> disable c" "chain (nodes c) (root_node c) i xs"
  shows "inc_lock_ref i c = Some (Inr (- tokens_at 0 xs (nodes c)), lock_path xs c)"
  using assms inc_lock_chain[OF assms(3) path_distinct[OF assms(1,3)]]
  by (simp add: inc_lock_ref_def lock_path_def)

lemma dec_lock_path:
  assumes ok: "cache_ok c" and on: "\<not> disable c" and path: "chain (nodes c) (root_node c) i xs"
  shows "dec_lock_ref i (lock_path xs c) = Some (Inr (tokens_at 0 xs (nodes c)), c)"
proof -
  let ?t = "tokens_at 0 xs (nodes c)" and ?c1 = "lock_path xs c"
  have sub: "set xs \<subseteq> {..<length (nodes c)}"
    using path by (induction xs arbitrary: i) (auto split: option.splits)
  have path1: "chain (nodes ?c1) (root_node ?c1) i xs" using path by (simp add: chain_shift_locks)
  have tok: "tokens_at 1 xs (nodes ?c1) = ?t" using tokens_at_shift[OF sub, of 0 1] by simp
  have "dec_lock_ref i ?c1 = Some (Inr ?t, (move_size ?t ?c1)\<lparr>nodes := shift_locks (-1) xs (nodes ?c1)\<rparr>)"
    using on dec_lock_chain[OF path1 path_distinct[OF ok path], of 0] tok by (simp add: dec_lock_ref_def)
  also have "(move_size ?t ?c1)\<lparr>nodes := shift_locks (-1) xs (nodes ?c1)\<rparr> = c"
    using shift_locks_inverse[of 1 xs "nodes c"] by (simp add: move_size_def lock_path_def)
  finally show ?thesis .
qed

section \<open>Property\<close>

text \<open>
  C8: locking a node and unlocking it again is neutral.  On a well-formed cache, from a node whose
  parents lead to the root, both walks end without an exception; locking raises by one the count of
  exactly the nodes on the path, moves the tokens of the nodes that were unlocked from the evictable
  to the protected size and returns that amount negated; unlocking returns the opposite amount and
  restores the cache.
\<close>

theorem lock_unlock_neutral:
  assumes ok: "cache_ok c" and on: "\<not> disable c" and path: "chain (nodes c) (root_node c) i xs"
  shows "\<exists>d c1. inc_lock_ref i c = Some (Inr d, c1) \<and> dec_lock_ref i c1 = Some (Inr (- d), c) \<and>
     evictable_sz c1 = evictable_sz c + d \<and> protected_sz c1 = protected_sz c - d \<and>
     d = - tokens_at 0 xs (nodes c) \<and> nodes c1 = shift_locks 1 xs (nodes c)"
  using inc_lock_path[OF assms] dec_lock_path[OF assms] by (simp add: lock_path_def move_size_def)

theorem lock_unlock_neutral_witness:
  "\<exists>d c1. inc_lock_ref 2 (demo_insert [1, 2, 3] ''al'' (demo_cache ''strict'' False)) = Some (Inr d, c1) \<and>
     dec_lock_ref 2 c1
       = Some (Inr (- d), demo_insert [1, 2, 3] ''al'' (demo_cache ''strict'' False)) \<and>
     evictable_sz c1 = evictable_sz (demo_insert [1, 2, 3] ''al'' (demo_cache ''strict'' False)) + d \<and>
     protected_sz c1 = protected_sz (demo_insert [1, 2, 3] ''al'' (demo_cache ''strict'' False)) - d \<and>
     d = - tokens_at 0 [2, 1] (nodes (demo_insert [1, 2, 3] ''al'' (demo_cache ''strict'' False))) \<and>
     nodes c1 = shift_locks 1 [2, 1] (nodes (demo_insert [1, 2, 3] ''al'' (demo_cache ''strict'' False)))"
proof (rule lock_unlock_neutral)
  show "cache_ok (demo_insert [1, 2, 3] ''al'' (demo_cache ''strict'' False))"
    by (intro demo_insert_ok demo_cache_ok) (simp add: cache_eval)
qed (simp_all add: cache_eval)

end
