(* ===== verification/Radix_Walk.thy ===== *)
theory Radix_Walk
  imports Radix_Insert "HOL-Library.Multiset"
begin

text \<open>
  The stack walks over the trees: on a well-formed arena they end and visit every node below the
  start exactly once.
\<close>

section \<open>The child relation is a forest\<close>

definition child_rel :: "TreeNode list \<Rightarrow> (nat \<times> nat) set" where
  "child_rel ns = {(i, j). i < length ns \<and> j \<in> set (child_ids ns i)}"

lemma child_relD:
  assumes "tree_ok ps ns" "(i, j) \<in> child_rel ns"
  shows "i < length ns" "j < length ns" "n_parent (ns ! j) = Some i"
proof -
  obtain k where "i < length ns" "(k, j) \<in> set (n_children (ns ! i))"
    using assms(2) by (auto simp: child_rel_def child_ids_def)
  with child_okI[OF assms(1) this] show "i < length ns" "j < length ns" "n_parent (ns ! j) = Some i"
    by (auto simp: child_ok_def)
qed

lemma child_rel_unique: "tree_ok ps ns \<Longrightarrow> single_valued ((child_rel ns)\<inverse>)"
  by (rule single_valuedI) (metis child_relD(3) converseD option.inject)

lemma child_rel_ranked: "tree_ok ps ns \<Longrightarrow> ranked ns d \<Longrightarrow> (i, j) \<in> child_rel ns \<Longrightarrow> d i < d j"
  using child_relD[of ps ns i j] by (auto simp: ranked_def)

lemma child_star_ranked:
  assumes "tree_ok ps ns" "ranked ns d" "(i, j) \<in> (child_rel ns)\<^sup>*"
  shows "d i \<le> d j"
  using assms(3) by induction (auto dest: child_rel_ranked[OF assms(1,2)])

lemma child_star_linear:
  assumes "tree_ok ps ns" "(x, z) \<in> (child_rel ns)\<^sup>*" "(y, z) \<in> (child_rel ns)\<^sup>*"
  shows "(x, y) \<in> (child_rel ns)\<^sup>* \<or> (y, x) \<in> (child_rel ns)\<^sup>*"
proof -
  have "(z, x) \<in> ((child_rel ns)\<inverse>)\<^sup>*" "(z, y) \<in> ((child_rel ns)\<inverse>)\<^sup>*"
    using assms(2,3) by (simp_all add: rtrancl_converse)
  from single_valued_confluent[OF child_rel_unique[OF assms(1)] this]
  show ?thesis by (auto simp: rtrancl_converse)
qed

text \<open>Start nodes none of which lies below another.\<close>

definition apart :: "TreeNode list \<Rightarrow> nat list \<Rightarrow> bool" where
  "apart ns xs \<longleftrightarrow>
     distinct xs \<and> set xs \<subseteq> {..<length ns} \<and>
     (\<forall>x \<in> set xs. \<forall>y \<in> set xs. (x, y) \<in> (child_rel ns)\<^sup>* \<longrightarrow> x = y)"

lemma distinct_child_ids: "tree_ok ps ns \<Longrightarrow> i < length ns \<Longrightarrow> distinct (child_ids ns i)"
proof -
  assume ok: "tree_ok ps ns" and i: "i < length ns"
  have "inj_on snd (set (n_children (ns ! i)))"
  proof (rule inj_onI)
    fix x y
    assume m: "x \<in> set (n_children (ns ! i))" "y \<in> set (n_children (ns ! i))" and "snd x = snd y"
    have "child_ok ps ns i (fst x) (snd x)" "child_ok ps ns i (fst y) (snd y)"
      using m by (auto intro!: child_okI[OF ok i])
    then show "x = y" using \<open>snd x = snd y\<close> by (simp add: child_ok_def prod_eq_iff)
  qed
  moreover have "distinct (n_children (ns ! i))"
    using tree_okD(1)[OF ok i] by (simp add: children_ok_def distinct_map)
  ultimately show ?thesis by (simp add: child_ids_def distinct_map)
qed

lemma star_into_child:
  assumes "tree_ok ps ns" "(y, j) \<in> (child_rel ns)\<^sup>*" "(i, j) \<in> child_rel ns" "y \<noteq> j"
  shows "(y, i) \<in> (child_rel ns)\<^sup>*"
  using assms(2,4)
proof (cases rule: rtrancl.cases)
  case (rtrancl_into_rtrancl b)
  then have "b = i"
    using assms(1,3) child_relD(3) by (metis option.inject)
  then show ?thesis using rtrancl_into_rtrancl by simp
qed simp

lemma apart_expand:
  assumes ok: "tree_ok ps ns" and ap: "apart ns (x # rest)"
  shows "apart ns (rev (child_ids ns x) @ rest)"
proof -
  have x: "x < length ns" and out: "\<And>y. y \<in> set rest \<Longrightarrow> y \<noteq> x \<and> (x, y) \<notin> (child_rel ns)\<^sup>* \<and> (y, x) \<notin> (child_rel ns)\<^sup>*"
    using ap by (auto simp: apart_def)
  have kid: "(x, j) \<in> child_rel ns" if "j \<in> set (child_ids ns x)" for j
    using that x by (simp add: child_rel_def)
  obtain d where d: "ranked ns d" using ok by (auto simp: tree_ok_def)
  have disj: "j \<notin> set rest" if "j \<in> set (child_ids ns x)" for j
    using out[of j] kid[OF that] by blast
  have sib: "a = b" if "a \<in> set (child_ids ns x)" "b \<in> set (child_ids ns x)" "(a, b) \<in> (child_rel ns)\<^sup>*" for a b
  proof (rule ccontr)
    assume "a \<noteq> b"
    then have "(a, x) \<in> (child_rel ns)\<^sup>*" using star_into_child[OF ok that(3) kid[OF that(2)]] by simp
    then show False
      using child_star_ranked[OF ok d] child_rel_ranked[OF ok d kid[OF that(1)]] by fastforce
  qed
  have down: "(j, y) \<notin> (child_rel ns)\<^sup>*" if "j \<in> set (child_ids ns x)" "y \<in> set rest" for j y
    using kid[OF that(1)] out[OF that(2)] by (meson converse_rtrancl_into_rtrancl)
  have up: "(y, j) \<notin> (child_rel ns)\<^sup>*" if "j \<in> set (child_ids ns x)" "y \<in> set rest" for j y
    using star_into_child[OF ok _ kid[OF that(1)], of y] out[OF that(2)] disj[OF that(1)] that(2) by blast
  show ?thesis
    using ap distinct_child_ids[OF ok x] disj sib down up child_relD(2)[OF ok kid]
    unfolding apart_def by auto
qed

section \<open>The walk ends and is exact\<close>

lemma dfs_total:
  assumes ok: "tree_ok ps ns"
  shows "apart ns stack \<Longrightarrow>
     \<exists>xs. dfs_order ns stack = Some xs \<and> distinct xs \<and> set xs = (child_rel ns)\<^sup>* `` set stack"
proof -
  obtain d where d: "ranked ns d" using ok by (auto simp: tree_ok_def)
  define M where "M = Max (insert 0 (d ` {..<length ns}))"
  have le: "d i \<le> M" if "i < length ns" for i using that by (simp add: M_def)
  have wf: "wf (inv_image (mult less_than) (\<lambda>stack. image_mset (\<lambda>i. M - d i) (mset stack)))"
    by (simp add: wf_mult)
  show "apart ns stack \<Longrightarrow>
     \<exists>xs. dfs_order ns stack = Some xs \<and> distinct xs \<and> set xs = (child_rel ns)\<^sup>* `` set stack"
  proof (induction stack rule: wf_induct_rule[OF wf])
    case (1 stack)
    show ?case
    proof (cases stack)
      case Nil
      then show ?thesis by (subst dfs_order.simps) simp
    next
      case (Cons x rest)
      let ?next = "rev (child_ids ns x) @ rest"
      have ap: "apart ns (x # rest)" using 1(2) Cons by simp
      then have x: "x < length ns" by (simp add: apart_def)
      have kid: "(x, j) \<in> child_rel ns" if "j \<in> set (child_ids ns x)" for j
        using that x by (simp add: child_rel_def)
      have less: "M - d j < M - d x" if "j \<in> set (child_ids ns x)" for j
        using child_rel_ranked[OF ok d kid[OF that]] le[OF child_relD(2)[OF ok kid[OF that]]] by linarith
      let ?R = "image_mset (\<lambda>i. M - d i) (mset rest)"
      let ?K = "image_mset (\<lambda>i. M - d i) (mset (child_ids ns x))"
      have "(?R + ?K, ?R + {#M - d x#}) \<in> mult less_than"
        using less by (intro one_step_implies_mult) auto
      then have smaller: "(?next, stack) \<in> inv_image (mult less_than) (\<lambda>stack. image_mset (\<lambda>i. M - d i) (mset stack))"
        using Cons by (simp add: add.commute)
      obtain xs where xs: "dfs_order ns ?next = Some xs" "distinct xs" "set xs = (child_rel ns)\<^sup>* `` set ?next"
        using 1(1)[OF smaller apart_expand[OF ok ap]] by blast
      have split: "(child_rel ns)\<^sup>* `` {x} = insert x ((child_rel ns)\<^sup>* `` set (child_ids ns x))"
        using x by (auto simp: child_rel_def elim: converse_rtranclE intro: converse_rtrancl_into_rtrancl)
      have "x \<notin> (child_rel ns)\<^sup>* `` set ?next"
      proof
        assume "x \<in> (child_rel ns)\<^sup>* `` set ?next"
        then obtain j where j: "j \<in> set ?next" "(j, x) \<in> (child_rel ns)\<^sup>*" by blast
        then have "j \<in> set (child_ids ns x)" using ap by (auto simp: apart_def)
        then show False
          using child_star_ranked[OF ok d j(2)] child_rel_ranked[OF ok d kid] by fastforce
      qed
      then have "distinct (x # xs)" using xs by simp
      moreover have "dfs_order ns stack = Some (x # xs)"
        using Cons xs(1) by (subst dfs_order.simps) simp
      moreover have "set (x # xs) = (child_rel ns)\<^sup>* `` set stack"
        using xs(3) split Cons by auto
      ultimately show ?thesis by blast
    qed
  qed
qed

end
