(* ===== verification/Radix_Evict.thy ===== *)
theory Radix_Evict
  imports Radix_Walk
begin

text \<open>
  Eviction: the leaves that are collected, the effect of evicting one leaf, and the effect of the whole
  loop, whose queue is the \<open>heapq\<close> worklist.
\<close>

section \<open>Collecting leaves\<close>

definition roots_ok :: "RadixCache \<Rightarrow> bool" where
  "roots_ok c \<longleftrightarrow>
     n_parent (nd c (root_node c)) = None \<and> root_node c \<notin> set (namespace_roots c) \<and>
     distinct (namespace_roots c) \<and>
     (\<forall>r \<in> set (namespace_roots c). 0 < n_lock_ref (nd c r) \<and> (\<forall>i. (i, r) \<notin> child_rel (nodes c)))"

definition below_roots :: "RadixCache \<Rightarrow> nat set" where
  "below_roots c = (child_rel (nodes c))\<^sup>* `` set (namespace_roots c)"

definition is_leaf :: "RadixCache \<Rightarrow> nat \<Rightarrow> bool" where
  "is_leaf c i \<longleftrightarrow> n_children (nd c i) = []"

lemma apart_perm: "mset xs = mset ys \<Longrightarrow> apart ns xs = apart ns ys"
  unfolding apart_def by (metis mset_eq_imp_distinct_iff set_mset_mset)

lemma apart_children:
  "tree_ok ps ns \<Longrightarrow> apart ns (xs @ acc) \<Longrightarrow> apart ns (concat (map (child_ids ns) xs) @ acc)"
proof (induction xs arbitrary: acc)
  case (Cons x xs)
  have "apart ns (rev (child_ids ns x) @ xs @ acc)"
    using apart_expand[OF Cons.prems(1)] Cons.prems(2) by simp
  then have "apart ns (xs @ child_ids ns x @ acc)"
    by (subst apart_perm[where ys = "rev (child_ids ns x) @ xs @ acc"]) (simp_all add: ac_simps)
  from Cons.IH[OF Cons.prems(1) this] show ?case
    by (subst apart_perm[where ys = "concat (map (child_ids ns) xs) @ child_ids ns x @ acc"])
       (simp_all add: ac_simps)
qed simp

lemma apart_roots: "cache_ok c \<Longrightarrow> roots_ok c \<Longrightarrow> apart (nodes c) (namespace_roots c)"
  unfolding apart_def roots_ok_def cache_ok_def by (metis lessThan_iff rtrancl.cases subsetI)

lemma collect_leaves_eq:
  assumes ok: "cache_ok c" and rk: "roots_ok c"
  shows "\<exists>leaves. collect_leaves c = Some leaves \<and> distinct leaves \<and>
     set leaves = {i \<in> (child_rel (nodes c))\<^sup>+ `` set (namespace_roots c). is_leaf c i}"
proof -
  have tok: "tree_ok (page_size c) (nodes c)" using ok by (simp add: cache_ok_def)
  let ?kids = "concat (map (child_ids (nodes c)) (namespace_roots c))"
  have "apart (nodes c) ?kids"
    using apart_children[OF tok, of "namespace_roots c" "[]"] apart_roots[OF ok rk] by simp
  then have "apart (nodes c) (rev ?kids)" by (subst apart_perm[where ys = ?kids]) simp_all
  from dfs_total[OF tok this] obtain xs where
    xs: "dfs_order (nodes c) (rev ?kids) = Some xs" "distinct xs" "set xs = (child_rel (nodes c))\<^sup>* `` set ?kids"
    by auto
  have "set ?kids = child_rel (nodes c) `` set (namespace_roots c)"
    using ok by (auto simp: child_rel_def cache_ok_def)
  then have "set xs = (child_rel (nodes c))\<^sup>+ `` set (namespace_roots c)"
    using xs(3) by (auto simp: trancl_unfold_left dest: tranclD intro: rtrancl_into_trancl2)
  then show ?thesis using xs by (simp add: collect_leaves_def is_leaf_def set_filter)
qed

section \<open>Evicting one leaf\<close>

definition quiet_alloc :: "kv_allocator \<Rightarrow> bool" where
  "quiet_alloc a = (case a of Slots _ \<Rightarrow> True | Pages p \<Rightarrow> \<not> pg_debug_mode p)"

lemma kv_free_quiet:
  assumes "quiet_alloc a"
  shows "\<exists>a'. kv_free idx a = (Inr (), a') \<and> quiet_alloc a'"
  using assms by (cases a) (auto simp: quiet_alloc_def paged_free_def Let_def)

definition unlink :: "nat set \<Rightarrow> TreeNode \<Rightarrow> TreeNode" where
  "unlink gone t = t\<lparr>n_children := filter (\<lambda>(k, j). j \<notin> gone) (n_children t)\<rparr>"

definition freed :: "kv_allocator \<Rightarrow> int list list \<Rightarrow> kv_allocator" where
  "freed a vs = fold (\<lambda>v a. snd (kv_free v a)) vs a"

text \<open>
  The cache after a list of nodes has been evicted: their slots are freed in that order, they are
  unlinked everywhere, the evictable size shrinks by their keys; only the event queue is left open.
\<close>

definition evicted :: "nat list \<Rightarrow> RadixCache \<Rightarrow> RadixCache \<Rightarrow> bool" where
  "evicted gone c c' \<longleftrightarrow>
     (\<exists>q. c' = c\<lparr>token_to_kv_pool_allocator :=
                    freed (token_to_kv_pool_allocator c) (map (\<lambda>x. n_value (nd c x)) gone),
                 nodes := map (unlink (set gone)) (nodes c),
                 evictable_sz := evictable_sz c - sum_list (map (\<lambda>x. int (length (n_key (nd c x)))) gone),
                 kv_event_queue := q\<rparr>)"

lemma unlink_id: "\<forall>(k, j) \<in> set (n_children t). j \<notin> gone \<Longrightarrow> unlink gone t = t"
  by (simp add: unlink_def case_prod_beta cong: filter_cong)

lemma evicted_Nil: "evicted [] c c"
  unfolding evicted_def
  by (rule exI[of _ "kv_event_queue c"]) (simp add: freed_def unlink_id map_idI)

lemma evict_one_eq:
  assumes ok: "cache_ok c" and q: "quiet_alloc (token_to_kv_pool_allocator c)"
    and p: "(p, x) \<in> child_rel (nodes c)"
  shows "\<exists>c'. evict_one env x c = (Inr (if n_children (nd c' p) = [] then Some p else None), c') \<and>
     evicted [x] c c' \<and> quiet_alloc (token_to_kv_pool_allocator c')"
proof -
  let ?ns = "nodes c"
  have tok: "tree_ok (page_size c) ?ns" using ok by (simp add: cache_ok_def)
  note cr = child_relD[OF tok p]
  obtain k where k: "(k, x) \<in> set (n_children (?ns ! p))" using p by (auto simp: child_rel_def child_ids_def)
  have px: "p \<noteq> x" using parent_neq[OF tok cr(2,3)] by simp
  obtain a' where a: "kv_free (n_value (nd c x)) (token_to_kv_pool_allocator c) = (Inr (), a')" "quiet_alloc a'"
    using kv_free_quiet[OF q] by blast
  have key: "j = x \<longleftrightarrow> k' = k" if "(k', j) \<in> set (n_children (?ns ! p))" for k' j
    using child_okI[OF tok cr(1) that] child_okI[OF tok cr(1) k] map_of_child[OF tok cr(1) that]
      map_of_child[OF tok cr(1) k] unfolding child_ok_def by (metis option.inject)
  have fnd: "find (\<lambda>(k, v). v = x) (n_children (?ns ! p)) = Some (k, x)"
  proof -
    have "find (\<lambda>(k, v). v = x) (n_children (?ns ! p)) \<noteq> None"
      using k by (auto simp: find_None_iff)
    then obtain kr xr where r: "find (\<lambda>(k, v). v = x) (n_children (?ns ! p)) = Some (kr, xr)" by auto
    then have "(kr, xr) \<in> set (n_children (?ns ! p))" "xr = x"
      by (auto simp: find_Some_iff) (metis nth_mem)
    then show ?thesis using key[of kr xr] r by simp
  qed
  have pop: "(?ns ! p)\<lparr>n_children := dict_pop k (n_children (?ns ! p))\<rparr> = unlink {x} (?ns ! p)"
  proof -
    have "dict_pop k (n_children (?ns ! p)) = filter (\<lambda>(k, j). j \<notin> {x}) (n_children (?ns ! p))"
      unfolding AList.delete_eq using key by (intro filter_cong) auto
    then show ?thesis by (simp add: unlink_def)
  qed
  have other: "unlink {x} (?ns ! i) = ?ns ! i" if "i < length ?ns" "i \<noteq> p" for i
    using that child_okI[OF tok that(1)] cr(3) by (intro unlink_id) (auto simp: child_ok_def)
  have ns: "?ns[p := (?ns ! p)\<lparr>n_children := dict_pop k (n_children (?ns ! p))\<rparr>] = map (unlink {x}) ?ns"
    unfolding pop using other cr(1) by (intro nth_equalityI) (auto simp: nth_list_update)
  have ne: "n_children (?ns ! p) \<noteq> []" using k by auto
  have ux: "n_key (unlink {x} (?ns ! x)) = n_key (?ns ! x)" "n_parent (unlink {x} (?ns ! x)) = Some p"
    using cr(3) by (simp_all add: unlink_def)
  define c2 where "c2 = c\<lparr>token_to_kv_pool_allocator := a', nodes := map (unlink {x}) ?ns,
      evictable_sz := evictable_sz c - int (length (n_key (nd c x)))\<rparr>"
  have del: "delete_leaf x (c\<lparr>token_to_kv_pool_allocator := a'\<rparr>) = (Inr (), c2)"
    using cr fnd ne ns ux by (simp add: delete_leaf_def Let_def upd_def c2_def)
  have run: "evict_one env x c = (Inr (if n_children (nd c2 p) = [] then Some p else None), record_remove_event env x c2)"
    using a cr ux del by (simp add: evict_one_def free_kv_def) (simp add: c2_def)
  have "evicted [x] c (record_remove_event env x c2)"
    using a unfolding evicted_def
    by (auto simp: record_remove_event_def c2_def freed_def intro: exI[of _ "kv_event_queue c"])
  then show ?thesis
    using run a(2) by (auto simp: record_remove_event_def c2_def)
qed

section \<open>Unlinked trees\<close>

lemma unlink_simps [simp]:
  "n_parent (unlink S t) = n_parent t" "n_key (unlink S t) = n_key t" "n_value (unlink S t) = n_value t"
  "n_lock_ref (unlink S t) = n_lock_ref t"
  by (simp_all add: unlink_def)

lemma unlink_unlink: "unlink S (unlink T t) = unlink (S \<union> T) t"
  by (simp add: unlink_def case_prod_beta' conj_commute)

lemma tree_ok_unlink:
  assumes "tree_ok ps ns"
  shows "tree_ok ps (map (unlink S) ns)"
proof -
  have co: "child_ok ps (map (unlink S) ns) i k j" if "child_ok ps ns i k j" for i k j
    using that by (auto simp: child_ok_def)
  obtain d where "ranked ns d" using assms by (auto simp: tree_ok_def)
  then have "ranked (map (unlink S) ns) d" by (auto simp: ranked_def)
  moreover have "children_ok ps (map (unlink S) ns) i" if "i < length ns" for i
    using tree_okD(1)[OF assms that] that co
    by (fastforce simp: children_ok_def unlink_def intro: distinct_map_filter)
  ultimately show ?thesis using assms by (auto simp: tree_ok_def)
qed

lemma child_rel_unlink: "child_rel (map (unlink S) ns) = {(i, j) \<in> child_rel ns. j \<notin> S}"
  by (auto simp: child_rel_def child_ids_def unlink_def)

lemma evicted_nodes:
  assumes "evicted gone c c'"
  shows "nodes c' = map (unlink (set gone)) (nodes c)" "same_frame c c'"
  using assms by (auto simp: evicted_def same_frame_def)

lemma evicted_ok:
  assumes "evicted gone c c'" "cache_ok c" "roots_ok c"
  shows "cache_ok c'" "roots_ok c'"
proof -
  note en = evicted_nodes[OF assms(1)]
  show "cache_ok c'"
    using assms(2) en tree_ok_unlink by (auto simp: cache_ok_def same_frame_def namespace_roots_def)
  have less: "root_node c < length (nodes c)" "\<forall>r \<in> set (namespace_roots c). r < length (nodes c)"
    using assms(2) by (auto simp: cache_ok_def)
  show "roots_ok c'"
    using assms(3) en less
    by (auto simp: roots_ok_def same_frame_def namespace_roots_def child_rel_unlink)
qed

lemma evicted_append:
  assumes "evicted fst_gone c c1" "evicted gone c1 c2" "set gone \<subseteq> {..<length (nodes c)}"
  shows "evicted (fst_gone @ gone) c c2"
proof -
  have nd1: "nd c1 y = unlink (set fst_gone) (nd c y)" if "y \<in> set gone" for y
    using evicted_nodes(1)[OF assms(1)] assms(3) that by auto
  have v: "map (\<lambda>y. n_value (nd c1 y)) gone = map (\<lambda>y. n_value (nd c y)) gone"
    "map (\<lambda>y. int (length (n_key (nd c1 y)))) gone = map (\<lambda>y. int (length (n_key (nd c y)))) gone"
    by (simp_all add: nd1)
  obtain q where c1: "c1 = c\<lparr>token_to_kv_pool_allocator :=
        freed (token_to_kv_pool_allocator c) (map (\<lambda>y. n_value (nd c y)) fst_gone),
      nodes := map (unlink (set fst_gone)) (nodes c),
      evictable_sz := evictable_sz c - sum_list (map (\<lambda>y. int (length (n_key (nd c y)))) fst_gone),
      kv_event_queue := q\<rparr>" using assms(1) by (auto simp: evicted_def)
  obtain q2 where "c2 = c1\<lparr>token_to_kv_pool_allocator := freed (token_to_kv_pool_allocator c1)
        (map (\<lambda>y. n_value (nd c y)) gone), nodes := map (unlink (set gone)) (nodes c1),
      evictable_sz := evictable_sz c1 - sum_list (map (\<lambda>y. int (length (n_key (nd c y)))) gone),
      kv_event_queue := q2\<rparr>" using assms(2) unfolding evicted_def v by blast
  then show ?thesis
    unfolding evicted_def
    by (intro exI[of _ q2]) (simp add: c1 freed_def comp_def unlink_unlink Un_commute algebra_simps)
qed

lemmas evicted_Cons = evicted_append[of "[x]" for x, simplified append_Cons append_Nil]

lemma star_without_leaf:
  assumes "(r, y) \<in> E\<^sup>*" "y \<noteq> x" "\<And>z. (x, z) \<notin> E"
  shows "(r, y) \<in> {(i, j) \<in> E. j \<noteq> x}\<^sup>*"
  using assms(1,2)
proof (induction rule: rtrancl_induct)
  case (step y z)
  then have "y \<noteq> x" using assms(3) by auto
  with step have "(r, y) \<in> {(i, j) \<in> E. j \<noteq> x}\<^sup>*" "(y, z) \<in> {(i, j) \<in> E. j \<noteq> x}" by auto
  then show ?case by (rule rtrancl_into_rtrancl)
qed simp

definition candidates :: "RadixCache \<Rightarrow> nat set" where
  "candidates c = {i \<in> below_roots c. is_leaf c i \<and> n_lock_ref (nd c i) \<le> 0}"

lemma below_roots_less: "cache_ok c \<Longrightarrow> i \<in> below_roots c \<Longrightarrow> i < length (nodes c)"
  unfolding below_roots_def cache_ok_def by (metis ImageE child_relD(2) rtrancl.cases)

lemma leaf_no_child: "is_leaf c x \<Longrightarrow> (x, z) \<notin> child_rel (nodes c)"
  by (simp add: is_leaf_def child_rel_def child_ids_def)

lemma evict_leaf_below:
  assumes ev: "evicted [x] c c'" and ok: "cache_ok c" and rk: "roots_ok c"
    and x: "is_leaf c x" "x \<notin> set (namespace_roots c)"
  shows "below_roots c' = below_roots c - {x}"
proof -
  have E: "child_rel (nodes c') = {(i, j) \<in> child_rel (nodes c). j \<noteq> x}"
    using evicted_nodes(1)[OF ev] by (auto simp: child_rel_unlink)
  have r: "namespace_roots c' = namespace_roots c"
    using evicted_nodes(2)[OF ev] by (simp add: same_frame_def namespace_roots_def)
  have "(child_rel (nodes c'))\<^sup>* \<subseteq> (child_rel (nodes c))\<^sup>*" unfolding E by (rule rtrancl_mono) auto
  moreover have "x \<notin> below_roots c'"
    using x(2) unfolding below_roots_def r E by (auto elim: rtranclE)
  moreover have "(q, y) \<in> (child_rel (nodes c'))\<^sup>*" if "(q, y) \<in> (child_rel (nodes c))\<^sup>*" "y \<noteq> x" for q y
    unfolding E using that leaf_no_child[OF x(1)] by (rule star_without_leaf)
  ultimately show ?thesis unfolding below_roots_def r by blast
qed

section \<open>The loop\<close>

lemma finite_child_rel: "tree_ok ps ns \<Longrightarrow> finite (child_rel ns)"
  by (rule finite_subset[of _ "{..<length ns} \<times> {..<length ns}"]) (auto dest: child_relD)

definition queue_ok :: "nat list \<Rightarrow> RadixCache \<Rightarrow> bool" where
  "queue_ok leaves c \<longleftrightarrow>
     cache_ok c \<and> roots_ok c \<and> quiet_alloc (token_to_kv_pool_allocator c) \<and> distinct leaves \<and>
     set leaves \<subseteq> {i \<in> below_roots c. is_leaf c i} \<and> candidates c \<subseteq> set leaves"

lemma queue_step:
  assumes inv: "queue_ok leaves c" and pop: "mset leaves = add_mset x (mset rest)"
    and free: "n_lock_ref (nd c x) \<le> 0"
  obtains p c1 where "evict_one env x c = (Inr (if n_children (nd c1 p) = [] then Some p else None), c1)"
    "evicted [x] c c1" "(p, x) \<in> child_rel (nodes c)"
    "\<And>queue. mset queue = (if n_children (nd c1 p) = [] then add_mset p (mset rest) else mset rest) \<Longrightarrow>
       queue_ok queue c1"
proof -
  have ok: "cache_ok c" and rk: "roots_ok c" and q: "quiet_alloc (token_to_kv_pool_allocator c)"
    and dist: "distinct leaves" using inv by (auto simp: queue_ok_def)
  have st: "set leaves = insert x (set rest)" using pop by (metis set_mset_add_mset_insert set_mset_mset)
  have dr: "distinct (x # rest)" using dist pop by (metis mset.simps(2) mset_eq_imp_distinct_iff)
  have x: "x \<in> below_roots c" "is_leaf c x" using inv st by (auto simp: queue_ok_def)
  have nr: "x \<notin> set (namespace_roots c)" using rk free by (auto simp: roots_ok_def)
  obtain p where p: "(p, x) \<in> child_rel (nodes c)" "p \<in> below_roots c"
    using x(1) nr unfolding below_roots_def by (auto elim: rtranclE)
  obtain c1 where c1: "evict_one env x c = (Inr (if n_children (nd c1 p) = [] then Some p else None), c1)"
    "evicted [x] c c1" "quiet_alloc (token_to_kv_pool_allocator c1)"
    using evict_one_eq[OF ok q p(1)] by blast
  note ok1 = evicted_ok[OF c1(2) ok rk] and bel = evict_leaf_below[OF c1(2) ok rk x(2) nr]
  have nd1: "nd c1 i = unlink {x} (nd c i)" if "i < length (nodes c)" for i
    using evicted_nodes(1)[OF c1(2)] that by simp
  have leaf1: "is_leaf c1 i" if "is_leaf c i" "i < length (nodes c)" for i
    using that nd1 by (simp add: is_leaf_def unlink_def)
  have leafd: "is_leaf c i \<or> i = p" if "is_leaf c1 i" "i < length (nodes c)" for i
  proof (rule disjCI)
    assume "i \<noteq> p"
    have tok: "tree_ok (page_size c) (nodes c)" using ok by (simp add: cache_ok_def)
    have "\<forall>(k, j) \<in> set (n_children (nd c i)). j \<notin> {x}"
      using child_okI[OF tok that(2)] child_relD(3)[OF tok p(1)] \<open>i \<noteq> p\<close> by (auto simp: child_ok_def)
    then show "is_leaf c i" using that nd1 unlink_id by (simp add: is_leaf_def)
  qed
  have pl: "\<not> is_leaf c p" using p(1) leaf_no_child by blast
  have px: "p \<noteq> x" using pl x(2) by auto
  have "queue_ok queue c1"
    if m: "mset queue = (if n_children (nd c1 p) = [] then add_mset p (mset rest) else mset rest)" for queue
  proof -
    have sq: "set queue = (if is_leaf c1 p then insert p (set rest) else set rest)"
      using m unfolding is_leaf_def by (metis set_mset_add_mset_insert set_mset_mset)
    have "p \<notin> set rest" using inv st pl by (auto simp: queue_ok_def)
    then have "distinct queue"
      using m dr by (metis distinct.simps(2) mset.simps(2) mset_eq_imp_distinct_iff)
    moreover have "set queue \<subseteq> {i \<in> below_roots c1. is_leaf c1 i}"
    proof
      fix i
      assume i: "i \<in> set queue"
      show "i \<in> {i \<in> below_roots c1. is_leaf c1 i}"
      proof (cases "i \<in> set rest")
        case True
        then have "i \<in> below_roots c" "is_leaf c i" "i \<noteq> x" using inv st dr by (auto simp: queue_ok_def)
        then show ?thesis using bel leaf1 below_roots_less[OF ok] by auto
      next
        case False
        then show ?thesis using i sq bel p(2) px by (auto split: if_splits)
      qed
    qed
    moreover have "candidates c1 \<subseteq> set queue"
    proof
      fix i
      assume "i \<in> candidates c1"
      then have i: "i \<in> below_roots c" "i \<noteq> x" "is_leaf c1 i" "n_lock_ref (nd c1 i) \<le> 0"
        using bel by (auto simp: candidates_def)
      note less = below_roots_less[OF ok i(1)]
      show "i \<in> set queue"
      proof (cases "i = p")
        case True
        then show ?thesis using i sq by simp
      next
        case False
        then have "i \<in> candidates c" using i leafd[OF i(3) less] nd1[OF less] by (simp add: candidates_def)
        then show ?thesis using inv st i(2) sq by (auto simp: queue_ok_def)
      qed
    qed
    ultimately show ?thesis using ok1 c1(3) by (simp add: queue_ok_def)
  qed
  then show thesis using that c1 p(1) by blast
qed

lemma heappop_some: "leaves \<noteq> [] \<Longrightarrow> \<exists>x rest. heappop lt leaves = Inr (x, rest)"
  by (auto simp: heappop_def Let_def)

lemma evict_loop_spec:
  "queue_ok leaves c \<Longrightarrow>
     \<exists>gone c'. evict_loop env n leaves k c = Some (Inr (), c') \<and> evicted gone c c' \<and> distinct gone \<and>
       set gone \<subseteq> {x \<in> below_roots c. n_lock_ref (nd c x) \<le> 0} \<and>
       (n \<le> k + sum_list (map (\<lambda>x. int (length (n_value (nd c x)))) gone) \<or> candidates c' = {})"
proof (induction "card (child_rel (nodes c)) + length leaves" arbitrary: leaves k c rule: less_induct)
  case less
  note inv = less.prems
  have ok: "cache_ok c" and rk: "roots_ok c" using inv by (auto simp: queue_ok_def)
  have tok: "tree_ok (page_size c) (nodes c)" using ok by (simp add: cache_ok_def)
  show ?case
  proof (cases "k < n \<and> leaves \<noteq> []")
    case False
    then have "evict_loop env n leaves k c = Some (Inr (), c)" by (subst evict_loop.simps) auto
    moreover have "n \<le> k \<or> candidates c = {}" using False inv by (auto simp: queue_ok_def)
    ultimately show ?thesis using evicted_Nil by (intro exI[of _ "[]"] exI[of _ c]) auto
  next
    case True
    obtain x rest where hp: "heappop (node_lt (nodes c)) leaves = Inr (x, rest)"
      using heappop_some True by blast
    have ms: "mset leaves = add_mset x (mset rest)" by (rule hq.pop_items[OF hp])
    then have len: "length leaves = Suc (length rest)" by (metis size_add_mset size_mset)
    have xl: "x \<in> set leaves" using ms by (metis set_mset_mset union_single_eq_member)
    have "(i, root_node c) \<notin> child_rel (nodes c)" for i
      using rk child_relD(3)[OF tok, of i "root_node c"] by (auto simp: roots_ok_def)
    then have "root_node c \<notin> below_roots c"
      using rk by (auto simp: below_roots_def roots_ok_def elim: rtranclE)
    then have nroot: "x \<noteq> root_node c" using xl inv by (auto simp: queue_ok_def)
    show ?thesis
    proof (cases "0 < n_lock_ref (nd c x)")
      case locked: True
      have st: "set leaves = insert x (set rest)" using ms by (metis set_mset_add_mset_insert set_mset_mset)
      have "distinct rest"
        using ms inv unfolding queue_ok_def by (metis distinct.simps(2) mset.simps(2) mset_eq_imp_distinct_iff)
      moreover have "candidates c \<subseteq> set rest"
        using inv st locked by (auto simp: queue_ok_def candidates_def)
      moreover have "set rest \<subseteq> set leaves" using st by auto
      ultimately have "queue_ok rest c" using inv by (auto simp: queue_ok_def)
      then have "\<exists>gone c'. evict_loop env n rest k c = Some (Inr (), c') \<and> evicted gone c c' \<and> distinct gone \<and>
         set gone \<subseteq> {x \<in> below_roots c. n_lock_ref (nd c x) \<le> 0} \<and>
         (n \<le> k + sum_list (map (\<lambda>x. int (length (n_value (nd c x)))) gone) \<or> candidates c' = {})"
        using len by (intro less.hyps) simp
      moreover have "evict_loop env n leaves k c = evict_loop env n rest k c"
        using True hp locked nroot by (subst evict_loop.simps) simp
      ultimately show ?thesis by simp
    next
      case False
      then have free: "n_lock_ref (nd c x) \<le> 0" by simp
      obtain p c1 where c1: "evict_one env x c = (Inr (if n_children (nd c1 p) = [] then Some p else None), c1)"
        "evicted [x] c c1" "(p, x) \<in> child_rel (nodes c)"
        and inv1: "\<And>queue. mset queue = (if n_children (nd c1 p) = [] then add_mset p (mset rest) else mset rest) \<Longrightarrow>
           queue_ok queue c1" using queue_step[OF inv ms free, of env] by metis
      define queue where "queue = (if n_children (nd c1 p) = [] then heappush (node_lt (nodes c1)) rest p else rest)"
      have mq: "mset queue = (if n_children (nd c1 p) = [] then add_mset p (mset rest) else mset rest)"
        by (simp add: queue_def hq.push_items)
      have lq: "length queue \<le> Suc (length rest)"
        using arg_cong[OF mq, of size] by (simp split: if_splits)
      have E: "child_rel (nodes c1) = {(i, j) \<in> child_rel (nodes c). j \<noteq> x}"
        using evicted_nodes(1)[OF c1(2)] by (auto simp: child_rel_unlink)
      have "card (child_rel (nodes c1)) < card (child_rel (nodes c))"
        using c1(3) finite_child_rel[OF tok] by (intro psubset_card_mono) (auto simp: E)
      then have small: "card (child_rel (nodes c1)) + length queue < card (child_rel (nodes c)) + length leaves"
        using lq len by simp
      let ?n = "int (length (n_value (nd c x)))"
      obtain gone c2 where g: "evict_loop env n queue (k + ?n) c1 = Some (Inr (), c2)" "evicted gone c1 c2"
        "distinct gone" "set gone \<subseteq> {x \<in> below_roots c1. n_lock_ref (nd c1 x) \<le> 0}"
        "n \<le> k + ?n + sum_list (map (\<lambda>x. int (length (n_value (nd c1 x)))) gone) \<or> candidates c2 = {}"
        using less.hyps[OF small inv1[OF mq], of "k + ?n"] by blast
      have step: "evict_loop env n leaves k c = evict_loop env n queue (k + ?n) c1"
        using True hp False nroot c1(1) by (subst evict_loop.simps) (simp add: queue_def)
      have xb: "x \<in> below_roots c" "is_leaf c x" using inv xl by (auto simp: queue_ok_def)
      have nr: "x \<notin> set (namespace_roots c)" using rk free by (auto simp: roots_ok_def)
      have bel: "below_roots c1 = below_roots c - {x}" by (rule evict_leaf_below[OF c1(2) ok rk xb(2) nr])
      have sub: "set gone \<subseteq> {..<length (nodes c)}" using g(4) bel below_roots_less[OF ok] by auto
      have nd1: "nd c1 y = unlink {x} (nd c y)" if "y \<in> set gone" for y
        using evicted_nodes(1)[OF c1(2)] sub that by auto
      have vs: "map (\<lambda>x. int (length (n_value (nd c1 x)))) gone = map (\<lambda>x. int (length (n_value (nd c x)))) gone"
        by (simp add: nd1)
      have "evicted (x # gone) c c2" by (rule evicted_Cons[OF c1(2) g(2) sub])
      moreover have "distinct (x # gone)" using g(3,4) bel by auto
      moreover have "set (x # gone) \<subseteq> {x \<in> below_roots c. n_lock_ref (nd c x) \<le> 0}"
        using g(4) bel xb(1) free nd1 by auto
      moreover have "n \<le> k + sum_list (map (\<lambda>x. int (length (n_value (nd c x)))) (x # gone)) \<or> candidates c2 = {}"
        using g(5) unfolding vs by auto
      ultimately show ?thesis using step g(1) by (intro exI[of _ "x # gone"] exI[of _ c2]) auto
    qed
  qed
qed

lemma evict_spec:
  assumes "cache_ok c" and "roots_ok c" and "\<not> disable c" and "quiet_alloc (token_to_kv_pool_allocator c)"
  shows "\<exists>gone c'. evict env n c = Some (Inr (), c') \<and> evicted gone c c' \<and> distinct gone \<and>
     set gone \<subseteq> {x \<in> below_roots c. n_lock_ref (nd c x) \<le> 0} \<and>
     (n \<le> sum_list (map (\<lambda>x. int (length (n_value (nd c x)))) gone) \<or> candidates c' = {})"
proof -
  obtain leaves where l: "collect_leaves c = Some leaves" "distinct leaves"
    "set leaves = {i \<in> (child_rel (nodes c))\<^sup>+ `` set (namespace_roots c). is_leaf c i}"
    using collect_leaves_eq[OF assms(1,2)] by blast
  let ?q = "heapify (node_lt (nodes c)) leaves"
  have mq: "mset ?q = mset leaves" by (rule hq.build_items)
  have sq: "set ?q = set leaves" "distinct ?q"
    using mq l(2) by (metis mset_eq_setD, metis mset_eq_imp_distinct_iff)
  have "candidates c \<subseteq> set leaves"
    using assms(2) unfolding l(3) candidates_def below_roots_def roots_ok_def
    by (auto simp: Image_iff) (metis not_less rtranclD)
  moreover have "set leaves \<subseteq> {i \<in> below_roots c. is_leaf c i}"
    unfolding l(3) below_roots_def by (auto intro: trancl_into_rtrancl)
  ultimately have "queue_ok ?q c" using assms sq by (simp add: queue_ok_def)
  from evict_loop_spec[OF this, of env n 0] show ?thesis
    using assms(3) l(1) by (simp add: evict_def)
qed

section \<open>Properties\<close>


lemma demo_roots_ok: "roots_ok (demo_insert [1, 2, 3] ''al'' (demo_cache ''strict'' False))"
proof -
  let ?c = "demo_insert [1, 2, 3] ''al'' (demo_cache ''strict'' False)"
  have ids: "length (nodes ?c) = 3" "child_ids (nodes ?c) 0 = []" "child_ids (nodes ?c) 1 = [2]"
    "child_ids (nodes ?c) 2 = []" by (simp_all add: cache_eval child_ids_def)
  have "(i, 1) \<notin> child_rel (nodes ?c)" for i
  proof
    assume "(i, 1) \<in> child_rel (nodes ?c)"
    then have "i < 3" "1 \<in> set (child_ids (nodes ?c) i)" using ids(1) by (auto simp: child_rel_def)
    moreover from this have "i = 0 \<or> i = 1 \<or> i = 2" by auto
    ultimately show False using ids by auto
  qed
  moreover have "namespace_roots ?c = [1]" "0 < n_lock_ref (nd ?c 1)" "root_node ?c = 0" "n_parent (nd ?c 0) = None"
    by (simp_all add: cache_eval namespace_roots_def)
  ultimately show ?thesis by (simp add: roots_ok_def)
qed


text \<open>
  In the mode without namespaces nothing is ever evicted.  The collection of leaves starts from the
  namespace roots only; as long as there are none (in mode \<open>none\<close> insertion uses the global root), an
  eviction of any size returns at once and leaves the cache as it was.
\<close>

theorem evict_without_namespaces:
  assumes "namespace_roots c = []"
  shows "evict env n c = Some (Inr (), c)"
proof -
  have "dfs_order (nodes c) [] = Some []" by (subst dfs_order.simps) simp
  then have "collect_leaves c = Some []" using assms by (simp add: collect_leaves_def)
  moreover have "evict_loop env n [] 0 c = Some (Inr (), c)" by (subst evict_loop.simps) simp
  ultimately show ?thesis by (simp add: evict_def heapify_def)
qed

theorem evict_without_namespaces_witness:
  "evictable_sz (demo_insert [1, 2, 3] ''al'' (demo_cache ''none'' False)) = 3 \<and>
   evict demo_env 2 (demo_insert [1, 2, 3] ''al'' (demo_cache ''none'' False))
     = Some (Inr (), demo_insert [1, 2, 3] ''al'' (demo_cache ''none'' False))"
proof
  show "evictable_sz (demo_insert [1, 2, 3] ''al'' (demo_cache ''none'' False)) = 3"
    by (simp add: cache_eval update_privacy_def)
  show "evict demo_env 2 (demo_insert [1, 2, 3] ''al'' (demo_cache ''none'' False))
     = Some (Inr (), demo_insert [1, 2, 3] ''al'' (demo_cache ''none'' False))"
    by (rule evict_without_namespaces) (simp add: cache_eval update_privacy_def namespace_roots_def)
qed

end
