(* ===== verification/Radix_Reach.thy ===== *)
theory Radix_Reach
  imports Radix_Isolation
begin

text \<open>
  The radix cache as a state machine: one rule per public operation, the states reachable from a new
  cache, and the shape invariant of all of them, also after operations that raised.
\<close>

section \<open>Operations that keep the shape of every node\<close>

definition same_shapes :: "RadixCache \<Rightarrow> RadixCache \<Rightarrow> bool" where
  "same_shapes c c' \<longleftrightarrow>
     same_frame c c' \<and> length (nodes c') = length (nodes c) \<and>
     (\<forall>i < length (nodes c). same_shape (nd c i) (nd c' i))"

lemma same_shapes_refl [simp]: "same_shapes c c"
  by (simp add: same_shapes_def)

lemma same_shapes_trans: "same_shapes a b \<Longrightarrow> same_shapes b c \<Longrightarrow> same_shapes a c"
  by (auto simp: same_shapes_def same_frame_def same_shape_def)

lemma same_shapes_ok: "same_shapes c c' \<Longrightarrow> cache_ok c \<Longrightarrow> cache_ok c'"
  using tree_ok_same_shape[of "page_size c" "nodes c" "nodes c'"]
  by (auto simp: same_shapes_def cache_ok_def same_frame_def namespace_roots_def)

lemma same_shapes_upd: "(\<And>t. same_shape t (f t)) \<Longrightarrow> same_shapes c (upd i f c)"
proof -
  assume f: "\<And>t. same_shape t (f t)"
  have "same_shape (nd c j) ((nodes c)[i := f (nd c i)] ! j)" if "j < length (nodes c)" for j
    using f that by (cases "j = i") auto
  then show ?thesis by (simp add: same_shapes_def same_frame_def)
qed

lemma inc_lock_shapes:
  assumes "inc_lock_loop node delta c = Some rc"
  shows "same_shapes c (snd rc)"
proof (rule inc_lock_loop.raw_induct[where P = "\<lambda>node delta c rc. same_shapes c (snd rc)", OF _ assms])
  fix loop node delta c rc
  assume IH: "\<And>node delta c rc. loop node delta c = Some rc \<Longrightarrow> same_shapes c (snd rc)"
    and body: "(case node of
        None \<Rightarrow> Some (Inl AttributeError, c)
      | Some i \<Rightarrow>
          if i = root_node c then Some (Inr delta, c)
          else
            (let n = int (length (n_value (nd c i)));
                 c1 = (if n_lock_ref (nd c i) = 0
                       then c\<lparr>evictable_sz := evictable_sz c - n,
                              protected_sz := protected_sz c + n\<rparr>
                       else c);
                 delta1 = (if n_lock_ref (nd c i) = 0 then delta - n else delta)
             in loop (n_parent (nd c i)) delta1
                  (upd i (\<lambda>t. t\<lparr>n_lock_ref := n_lock_ref t + 1\<rparr>) c1))) = Some rc"
  show "same_shapes c (snd rc)"
  proof (cases node)
    case None
    then show ?thesis using body by auto
  next
    case (Some i)
    show ?thesis
    proof (cases "i = root_node c")
      case True
      then show ?thesis using body Some by auto
    next
      case False
      let ?n = "int (length (n_value (nd c i)))"
      define c1 where "c1 = (if n_lock_ref (nd c i) = 0
          then c\<lparr>evictable_sz := evictable_sz c - ?n, protected_sz := protected_sz c + ?n\<rparr> else c)"
      have "same_shapes (upd i (\<lambda>t. t\<lparr>n_lock_ref := n_lock_ref t + 1\<rparr>) c1) (snd rc)"
        using body Some False by (intro IH) (auto simp: Let_def c1_def split: if_splits)
      moreover have "same_shapes c (upd i (\<lambda>t. t\<lparr>n_lock_ref := n_lock_ref t + 1\<rparr>) c1)"
        using same_shapes_upd[of "\<lambda>t. t\<lparr>n_lock_ref := n_lock_ref t + 1\<rparr>" c1 i]
        by (rule same_shapes_trans[rotated]) (simp_all add: same_shape_def c1_def same_shapes_def same_frame_def)
      ultimately show ?thesis by (blast intro: same_shapes_trans)
    qed
  qed
qed

lemma dec_lock_shapes:
  assumes "dec_lock_loop node delta c = Some rc"
  shows "same_shapes c (snd rc)"
proof (rule dec_lock_loop.raw_induct[where P = "\<lambda>node delta c rc. same_shapes c (snd rc)", OF _ assms])
  fix loop node delta c rc
  assume IH: "\<And>node delta c rc. loop node delta c = Some rc \<Longrightarrow> same_shapes c (snd rc)"
    and body: "(case node of
        None \<Rightarrow> Some (Inl AttributeError, c)
      | Some i \<Rightarrow>
          if i = root_node c then Some (Inr delta, c)
          else
            (let n = int (length (n_value (nd c i)));
                 c1 = (if n_lock_ref (nd c i) = 1
                       then c\<lparr>evictable_sz := evictable_sz c + n,
                              protected_sz := protected_sz c - n\<rparr>
                       else c);
                 delta1 = (if n_lock_ref (nd c i) = 1 then delta + n else delta)
             in loop (n_parent (nd c i)) delta1
                  (upd i (\<lambda>t. t\<lparr>n_lock_ref := n_lock_ref t - 1\<rparr>) c1))) = Some rc"
  show "same_shapes c (snd rc)"
  proof (cases node)
    case None
    then show ?thesis using body by auto
  next
    case (Some i)
    show ?thesis
    proof (cases "i = root_node c")
      case True
      then show ?thesis using body Some by auto
    next
      case False
      let ?n = "int (length (n_value (nd c i)))"
      define c1 where "c1 = (if n_lock_ref (nd c i) = 1
          then c\<lparr>evictable_sz := evictable_sz c + ?n, protected_sz := protected_sz c - ?n\<rparr> else c)"
      have "same_shapes (upd i (\<lambda>t. t\<lparr>n_lock_ref := n_lock_ref t - 1\<rparr>) c1) (snd rc)"
        using body Some False by (intro IH) (auto simp: Let_def c1_def split: if_splits)
      moreover have "same_shapes c (upd i (\<lambda>t. t\<lparr>n_lock_ref := n_lock_ref t - 1\<rparr>) c1)"
        using same_shapes_upd[of "\<lambda>t. t\<lparr>n_lock_ref := n_lock_ref t - 1\<rparr>" c1 i]
        by (rule same_shapes_trans[rotated]) (simp_all add: same_shape_def c1_def same_shapes_def same_frame_def)
      ultimately show ?thesis by (blast intro: same_shapes_trans)
    qed
  qed
qed

lemma promote_node_shapes: "promote_node env i c = (r, c') \<Longrightarrow> same_shapes c c'"
proof -
  assume run: "promote_node env i c = (r, c')"
  have l: "same_shapes c (c\<lparr>ledger := x, ticks := y\<rparr>)" for x y
    by (simp add: same_shapes_def same_frame_def)
  have u: "same_shapes c (upd i exhaust d)" "same_shapes c (upd i (n_access_budget_update g) d)"
    "same_shapes c (upd i (n_visibility_update h) d)" if "same_shapes c d" for d g h
    using that same_shapes_upd same_shapes_trans by (simp_all add: same_shape_def exhaust_def)
  show ?thesis
    using run l u by (auto simp: promote_node_def Let_def split: if_splits prod.splits sum.splits)
qed

lemma promote_list_shapes: "promote_list env fp is n c = (r, c') \<Longrightarrow> same_shapes c c'"
proof (induction env fp "is" n c rule: promote_list.induct)
  case (2 env fp i rest n c)
  show ?case
  proof (cases "promotable fp (nd c i)")
    case True
    obtain rp c1 where p: "promote_node env i c = (rp, c1)" by fastforce
    show ?thesis
      using 2(1)[OF True, of "()" c1] 2(3) True p promote_node_shapes[OF p] same_shapes_trans
      by (cases rp) auto
  next
    case False
    then show ?thesis using 2 by simp
  qed
qed simp

section \<open>Sound caches\<close>

definition sound_cache :: "RadixCache \<Rightarrow> bool" where
  "sound_cache c \<longleftrightarrow> cache_ok c \<and> rooted c"

lemma same_shapes_sound: "same_shapes c c' \<Longrightarrow> sound_cache c \<Longrightarrow> sound_cache c'"
  using same_shapes_ok rooted_keeps[of c c'] keeps_orphans_shape[of "nodes c'" "nodes c"]
  by (auto simp: sound_cache_def same_shapes_def)

lemma cache_reset_rooted: "rooted (cache_reset c)"
  by (simp add: rooted_def cache_reset_def record_all_cleared_event_def Let_def add_node_def
      namespace_roots_def tree_node_init_def)

lemma cache_init_sound:
  assumes "cache_init pool al ps dis ev B K mode key epoch model tok path auto disk = Inr c" "0 < ps"
  shows "sound_cache c"
  using assms cache_init_ok[OF assms] by (auto simp: sound_cache_def cache_init_def intro: cache_reset_rooted)

lemma sound_cache_ok: "sound_cache c \<Longrightarrow> cache_ok c"
  by (simp add: sound_cache_def)

section \<open>Eviction\<close>

lemma rooted_pop: "rooted c \<Longrightarrow> rooted (upd p (\<lambda>t. t\<lparr>n_children := dict_pop k (n_children t)\<rparr>) c)"
proof -
  let ?c = "upd p (\<lambda>t. t\<lparr>n_children := dict_pop k (n_children t)\<rparr>) c"
  have par: "n_parent (nd ?c j) = n_parent (nd c j)" for j
    by (cases "j = p"; cases "p < length (nodes c)") (auto simp: upd_def list_update_beyond)
  have len: "length (nodes ?c) = length (nodes c)" by (simp add: upd_def)
  have sub: "set (n_children (nd ?c j)) \<subseteq> set (n_children (nd c j))" if "j < length (nodes c)" for j
    using that by (cases "j = p") (auto simp: upd_def dict_pop_member)
  have "orphan (nodes c) r \<Longrightarrow> orphan (nodes ?c) r" for r
    unfolding orphan_def len using sub by (meson image_mono subsetD)
  then show "rooted c \<Longrightarrow> rooted ?c"
    unfolding rooted_def par by (simp add: namespace_roots_def upd_def)
qed

lemma delete_leaf_ok: "delete_leaf x c = (r, c') \<Longrightarrow> sound_cache c \<Longrightarrow> sound_cache c'"
proof -
  assume run: "delete_leaf x c = (r, c')" and ok: "sound_cache c"
  have del: "tree_ok (page_size c) ((nodes c)[p := (nd c p)\<lparr>n_children := dict_pop k (n_children (nd c p))\<rparr>])" for p k
    using ok tree_ok_delete[of "page_size c" "nodes c" p k]
    by (cases "p < length (nodes c)") (simp_all add: sound_cache_def cache_ok_def list_update_beyond)
  have "cache_ok ((upd p (\<lambda>t. t\<lparr>n_children := dict_pop k (n_children t)\<rparr>) c)\<lparr>evictable_sz := e\<rparr>)" for p k e
    using ok del by (simp add: sound_cache_def cache_ok_def namespace_roots_def)
  moreover have "rooted ((upd p (\<lambda>t. t\<lparr>n_children := dict_pop k (n_children t)\<rparr>) c)\<lparr>evictable_sz := e\<rparr>)" for p k e
    using rooted_pop[of c p k] ok by (simp add: sound_cache_def rooted_def namespace_roots_def)
  ultimately show ?thesis
    using run ok
    by (auto simp: sound_cache_def delete_leaf_def Let_def split: option.splits if_splits prod.splits)
qed

lemma free_kv_ok: "free_kv idx c = (r, c') \<Longrightarrow> sound_cache c \<Longrightarrow> sound_cache c'"
proof -
  have "sound_cache (c\<lparr>token_to_kv_pool_allocator := a\<rparr>) = sound_cache c" for a
    by (simp add: sound_cache_def cache_ok_def rooted_def namespace_roots_def)
  then show "free_kv idx c = (r, c') \<Longrightarrow> sound_cache c \<Longrightarrow> sound_cache c'"
    by (auto simp: free_kv_def split: prod.splits)
qed

lemma record_remove_ok: "sound_cache c \<Longrightarrow> sound_cache (record_remove_event env x c)"
  by (simp add: sound_cache_def cache_ok_def rooted_def namespace_roots_def)

lemma evict_one_ok: "evict_one env x c = (r, c') \<Longrightarrow> sound_cache c \<Longrightarrow> sound_cache c'"
  unfolding evict_one_def
  by (auto elim!: andThen_cases dest: free_kv_ok delete_leaf_ok split: option.splits)
     (blast dest: free_kv_ok delete_leaf_ok intro: record_remove_ok)+

text \<open>Whatever the removal of one leaf keeps, the loop keeps.\<close>

lemma evict_loop_keeps:
  assumes "evict_loop env n leaves k c = Some rc" and "P c"
    and one: "\<And>env x c r c'. evict_one env x c = (r, c') \<Longrightarrow> P c \<Longrightarrow> P c'"
  shows "P (snd rc)"
proof -
  have "P c \<longrightarrow> P (snd rc)"
  proof (rule evict_loop.raw_induct[where P = "\<lambda>env n leaves k c rc. P c \<longrightarrow> P (snd rc)",
        OF _ assms(1)], rule impI)
    fix loop env n leaves k c rc
    assume IH: "\<And>env n leaves k c rc. loop env n leaves k c = Some rc \<Longrightarrow> P c \<longrightarrow> P (snd rc)"
      and body: "(if k < n \<and> leaves \<noteq> []
      then (case heappop (node_lt (nodes c)) leaves of
              Inl e \<Rightarrow> Some (Inl e, c)
            | Inr (x, leaves1) \<Rightarrow>
                if x = root_node c then Some (Inr (), c)
                else if n_lock_ref (nd c x) > 0 then loop env n leaves1 k c
                else case evict_one env x c of
                  (Inl e, c1) \<Rightarrow> Some (Inl e, c1)
                | (Inr new_leaf, c1) \<Rightarrow>
                    loop env n
                      (case new_leaf of None \<Rightarrow> leaves1 | Some p \<Rightarrow> heappush (node_lt (nodes c1)) leaves1 p)
                      (k + int (length (n_value (nd c x)))) c1)
      else Some (Inr (), c)) = Some rc"
      and ok: "P c"
    show "P (snd rc)"
    proof (cases "\<exists>x leaves1. k < n \<and> leaves \<noteq> [] \<and> heappop (node_lt (nodes c)) leaves = Inr (x, leaves1) \<and>
        x \<noteq> root_node c")
      case False
      then show ?thesis using body ok by (auto split: if_splits sum.splits prod.splits)
    next
      case True
      then obtain x leaves1 where hp: "k < n" "leaves \<noteq> []"
        "heappop (node_lt (nodes c)) leaves = Inr (x, leaves1)" "x \<noteq> root_node c" by blast
      obtain re c1 where ev: "evict_one env x c = (re, c1)" by fastforce
      have "P c1" by (rule one[OF ev ok])
      then show ?thesis using body hp ok ev IH by (auto split: if_splits sum.splits)
    qed
  qed
  then show ?thesis using assms(2) by blast
qed

section \<open>The state machine\<close>

inductive cache_step :: "cache_env \<Rightarrow> RadixCache \<Rightarrow> RadixCache \<Rightarrow> bool" for env where
  lookup: "match_prefix env key u auth c = (r, c') \<Longrightarrow> cache_step env c c'"
| insert: "(\<And>v. value_arg = Some v \<Longrightarrow> length v = length key) \<Longrightarrow> page_size c \<le> chunk_size \<Longrightarrow>
    cache_insert env key value_arg prompt u auth c = Some (r, c') \<Longrightarrow> cache_step env c c'"
| lock: "inc_lock_ref i c = Some (r', c') \<Longrightarrow> cache_step env c c'"
| unlock: "dec_lock_ref i c = Some (r', c') \<Longrightarrow> cache_step env c c'"
| evict: "evict env n c = Some (r'', c') \<Longrightarrow> cache_step env c c'"
| promote: "promote_to_budgeted env u' fp c = Some (r3, c') \<Longrightarrow> cache_step env c c'"
| reset: "cache_step env c (cache_reset c)"

inductive cache_reachable :: "cache_env \<Rightarrow> RadixCache \<Rightarrow> bool" for env where
  start: "cache_init pool al ps dis ev B K mode key epoch model tok path autoshare disk = Inr c \<Longrightarrow> 0 < ps \<Longrightarrow>
    cache_reachable env c"
| step: "cache_reachable env c \<Longrightarrow> cache_step env c c' \<Longrightarrow> cache_reachable env c'"

inductive_cases cache_stepE: "cache_step env c c'"

lemma cache_step_ok: "cache_step env c c' \<Longrightarrow> sound_cache c \<Longrightarrow> sound_cache c'"
proof (induction rule: cache_step.induct)
  case (lookup key u auth c r c')
  then show ?case by (auto simp: sound_cache_def intro: match_prefix_cache_ok match_prefix_rooted)
next
  case (insert value_arg key c prompt u auth r c')
  then show ?case using cache_insert_ok[of c value_arg key env prompt u auth] by (auto simp: sound_cache_def)
next
  case (lock i c r c')
  then show ?case
    using inc_lock_shapes[of "Some i" 0 c "(r, c')"] same_shapes_sound
    by (auto simp: inc_lock_ref_def split: if_splits)
next
  case (unlock i c r c')
  then show ?case
    using dec_lock_shapes[of "Some i" 0 c "(r, c')"] same_shapes_sound
    by (auto simp: dec_lock_ref_def split: if_splits)
next
  case (evict n c r c')
  then show ?case
    using evict_loop_keeps[of env n _ 0 c "(r, c')" sound_cache] evict_one_ok by (auto simp: evict_def split: if_splits option.splits)
next
  case (promote u fp c r c')
  then show ?case
    using promote_list_shapes same_shapes_sound
    by (fastforce simp: promote_to_budgeted_def split: if_splits option.splits)
next
  case (reset c)
  then show ?case
    using cache_reset_ok[of c] cache_reset_rooted[of c] by (simp add: sound_cache_def cache_ok_def)
qed

lemma reachable_sound: "cache_reachable env c \<Longrightarrow> sound_cache c"
  by (induction rule: cache_reachable.induct) (auto intro: cache_init_sound cache_step_ok)

section \<open>Properties\<close>

text \<open>
  C6: the radix trees stay well formed.  In every cache reachable from a new one by lookups, insertions,
  locks, unlocks, evictions, promotions and resets in any order, also when some of them raised, every
  child entry has the first page of the child's key and a child that points back, keys are not empty and
  as long as the slots they stand for, no two entries share a key, and the parent pointers are acyclic; the root of every
  namespace is in no child dictionary and hangs below the global root, which has no parent.
\<close>

theorem reachable_cache_ok:
  assumes "cache_reachable env c"
  shows "cache_ok c \<and> rooted c"
  using reachable_sound[OF assms] by (simp add: sound_cache_def)

theorem reachable_cache_ok_witness:
  "cache_ok (snd (match_prefix demo_env [1, 2, 5] (Some ''al'') None (cache_reset (demo_cache ''strict'' False)))) \<and>
   rooted (snd (match_prefix demo_env [1, 2, 5] (Some ''al'') None (cache_reset (demo_cache ''strict'' False))))"
proof (rule reachable_cache_ok[of demo_env])
  have "cache_reachable demo_env (demo_cache ''strict'' False)"
    by (rule cache_reachable.start[of "req_pool_init 2 8" "Slots (allocator_init 8)" 1 False False 2 2
          "''strict''" None 1 None None None False NoFile])
       (auto simp: demo_cache_def cache_init_def registry_init_def utf8_def)
  then have "cache_reachable demo_env (cache_reset (demo_cache ''strict'' False))"
    by (rule cache_reachable.step) (rule cache_step.reset)
  then show "cache_reachable demo_env (snd (match_prefix demo_env [1, 2, 5] (Some ''al'') None
      (cache_reset (demo_cache ''strict'' False))))"
    by (rule cache_reachable.step) (rule cache_step.lookup, rule prod.collapse[symmetric])
qed

text \<open>
  Insertion always returns.  On every reachable cache, whatever the key, the authorization and the
  prompt, the descent through the tree and the loop that adds chunks end, provided the values are as
  many as the tokens and a page fits a chunk.
\<close>

theorem insert_returns:
  assumes "cache_reachable env c" and "length v = length key" and "page_size c \<le> chunk_size"
  shows "\<exists>r c'. cache_insert env key (Some v) prompt u auth c = Some (r, c')"
proof -
  have "cache_ok c" by (rule sound_cache_ok[OF reachable_sound[OF assms(1)]])
  then show ?thesis using cache_insert_ok[of c "Some v" key env prompt u auth] assms(2,3) by auto
qed

theorem insert_returns_witness:
  "\<exists>r c'. cache_insert demo_env [1, 2] (Some [8, 9]) None (Some ''al'') None (demo_cache ''strict'' False)
     = Some (r, c')"
proof (rule insert_returns)
  show "cache_reachable demo_env (demo_cache ''strict'' False)"
    by (rule cache_reachable.start[of "req_pool_init 2 8" "Slots (allocator_init 8)" 1 False False 2 2
          "''strict''" None 1 None None None False NoFile])
       (auto simp: demo_cache_def cache_init_def registry_init_def utf8_def)
qed (simp_all add: cache_eval)

end
