(* ===== verification/Radix_Path.thy ===== *)
theory Radix_Path
  imports Radix_Walk
begin

text \<open>
  What a lookup finds: the slots it returns are those of one path of the tree, from a root down to the
  node it returns, and the tokens on that path are a prefix of the request.
\<close>

section \<open>Paths of a tree\<close>

inductive reads :: "TreeNode list \<Rightarrow> nat \<Rightarrow> nat \<Rightarrow> int list \<Rightarrow> int list \<Rightarrow> bool" for ns r where
  start: "reads ns r r [] []"
| down: "reads ns r p ks vs \<Longrightarrow> (p, i) \<in> child_rel ns \<Longrightarrow>
    reads ns r i (ks @ n_key (ns ! i)) (vs @ n_value (ns ! i))"

lemma reads_rank: "reads ns r i ks vs \<Longrightarrow> tree_ok ps ns \<Longrightarrow> ranked ns d \<Longrightarrow> d r \<le> d i"
  by (induction rule: reads.induct) (auto dest: child_rel_ranked)

lemma reads_length: "reads ns r i ks vs \<Longrightarrow> tree_ok ps ns \<Longrightarrow> length ks = length vs"
proof (induction rule: reads.induct)
  case (down p ks vs i)
  then show ?case using child_relD(2)[OF down.prems down.hyps(2)] by (simp add: tree_okD(2))
qed simp

lemma reads_same_shape:
  assumes "reads ns r i ks vs" "length ns' = length ns" "\<And>j. j < length ns \<Longrightarrow> same_shape (ns ! j) (ns' ! j)"
    and "tree_ok ps ns"
  shows "reads ns' r i ks vs"
  using assms(1)
proof (induction rule: reads.induct)
  case (down p ks vs i)
  have i: "i < length ns" "p < length ns" using child_relD(2,1)[OF assms(4) down(2)] .
  then have "(p, i) \<in> child_rel ns'" "n_key (ns' ! i) = n_key (ns ! i)" "n_value (ns' ! i) = n_value (ns ! i)"
    using down(2) assms(2) assms(3)[OF i(1)] assms(3)[OF i(2)]
    by (auto simp: child_rel_def child_ids_def same_shape_def)
  then show ?case using reads.down[OF down.IH, of i] by simp
qed (rule reads.start)

lemma reads_split:
  assumes "reads ns r i ks vs" "tree_ok ps ns" "ranked ns d"
    and ch: "child < length ns" "p < length ns" "p \<noteq> child" and "d i \<le> d p" "d p < d child"
  shows "reads (split_arena ps p child n ns) r i ks vs"
  using assms(1,7)
proof (induction rule: reads.induct)
  case (down q ks vs i)
  have i: "i < length ns" "q < length ns" using child_relD(2,1)[OF assms(2) down(2)] .
  have "d q < d i" using child_rel_ranked[OF assms(2,3) down(2)] .
  then have ne: "q \<noteq> p" "q \<noteq> child" "i \<noteq> child" "d q \<le> d p" using down.prems assms(8) by auto
  have "(q, i) \<in> child_rel (split_arena ps p child n ns)"
    using down(2) i ne nth_split_arena(4)[OF ch i(2)] by (simp add: child_rel_def child_ids_def split_arena_def Let_def)
  moreover have "n_key (split_arena ps p child n ns ! i) = n_key (ns ! i)"
    "n_value (split_arena ps p child n ns ! i) = n_value (ns ! i)"
    using nth_split_arena(3,4)[OF ch] i ne by (cases "i = p"; simp)+
  ultimately show ?case using reads.down[OF down.IH[OF ne(4)], of i] by simp
qed (rule reads.start)

lemma dict_set_self: "(k, v) \<in> set (dict_set k v d)"
  by (induction d) auto

lemma reads_new_half:
  assumes "reads ns r p ks vs" "tree_ok ps ns" "(p, child) \<in> child_rel ns"
  shows "reads (split_arena ps p child n ns) r (length ns)
     (ks @ take n (n_key (ns ! child))) (vs @ take n (n_value (ns ! child)))"
proof -
  obtain d where d: "ranked ns d" using assms(2) by (auto simp: tree_ok_def)
  note cr = child_relD[OF assms(2,3)]
  have less: "d p < d child" using child_rel_ranked[OF assms(2) d assms(3)] .
  then have ne: "p \<noteq> child" by auto
  note nth = nth_split_arena[OF cr(2,1) ne]
  have "reads (split_arena ps p child n ns) r p ks vs"
    using reads_split[OF assms(1,2) d cr(2,1) ne _ less] by simp
  moreover have "(p, length ns) \<in> child_rel (split_arena ps p child n ns)"
    using nth(3)[of ps n] cr(1) dict_set_self[of _ "length ns"]
    by (force simp: child_rel_def child_ids_def)
  ultimately show ?thesis
    using reads.down[of "split_arena ps p child n ns" r p ks vs "length ns"] nth(1)[of ps n]
    by (simp add: upper_half_def)
qed

section \<open>The match loop reads a path\<close>

lemma full_key_matched:
  assumes "length k \<le> key_match ps k key"
  shows "key = k @ drop (key_match ps k key) key"
proof -
  let ?n = "key_match ps k key"
  have k: "k = take ?n key" using key_match_take[of ps k key] assms by simp
  show ?thesis using append_take_drop_id[of ?n key] unfolding k[symmetric] by simp
qed

lemma match_loop_reads:
  "match_loop env u node key vals c = (Inr (vs, last_node), c') \<Longrightarrow> cache_ok c \<Longrightarrow>
     node < length (nodes c) \<Longrightarrow> reads (nodes c) r node ks (concat vals) \<Longrightarrow>
     \<exists>ms rest. key = ms @ rest \<and> reads (nodes c') r last_node (ks @ ms) (concat vs)"
proof (induction "length key" arbitrary: node key vals c ks rule: less_induct)
  case less
  have ok: "tree_ok (page_size c) (nodes c)" using less.prems(2) by (simp add: cache_ok_def)
  have touch: "reads ns' r i ks' vs'"
    if "reads (nodes c) r i ks' vs'" "may_visit u c node child" "touched (nd c child) t"
      "ns' = (nodes c)[child := t]" for i ks' vs' ns' child t
    unfolding that(4)
  proof (rule reads_same_shape[OF that(1) _ _ ok])
    show "same_shape (nd c j) ((nodes c)[child := t] ! j)" if "j < length (nodes c)" for j
      using that \<open>touched (nd c child) t\<close>
      by (cases "j = child") (simp_all add: touched_def same_shape_def)
  qed simp
  from less.prems(1-3) show ?case
  proof (cases rule: match_turn)
    case stop
    then have "key = [] @ key \<and> reads (nodes c') r last_node (ks @ []) (concat vs)"
      using less.prems(4) by simp
    then show ?thesis by blast
  next
    case (refused child t)
    then have "key = [] @ key \<and> reads (nodes c') r last_node (ks @ []) (concat vs)"
      using touch[OF less.prems(4) refused(1,3,4)] by simp
    then show ?thesis by blast
  next
    case (split child t n)
    let ?ns = "(nodes c)[child := t]"
    note vd = may_visitD[OF split(1)]
    have t: "?ns ! child = t" "n_key t = n_key (nd c child)" "n_value t = n_value (nd c child)"
      using split(3) vd(1) by (simp_all add: touched_def same_shape_def)
    have ok': "tree_ok (page_size c) ?ns" by (rule tree_ok_touch[OF vd(5) split(3)])
    have "(node, child) \<in> child_rel ?ns"
      using split(4) vd by (force simp: child_rel_def child_ids_def dest: map_of_SomeD)
    from reads_new_half[OF touch[OF less.prems(4) split(1,3) refl] ok' this, of n]
    have "reads (nodes c') r last_node (ks @ take n (n_key (nd c child))) (concat vs)"
      using split(8,9) t by simp
    moreover have "key = take n (n_key (nd c child)) @ drop n key"
      using key_match_take[of "page_size c" "n_key (nd c child)" key] split(5) by simp
    ultimately show ?thesis by blast
  next
    case (descend child t n c2)
    note vd = may_visitD[OF descend(1)]
    have t: "nd c2 child = t" "n_key t = n_key (nd c child)" "n_value t = n_value (nd c child)"
      using descend(3,4) vd(1) by (simp_all add: touched_def same_shape_def)
    have "0 < n" using descend(8) vd(5) tree_ok_pos by fastforce
    then have shorter: "length (drop n key) < length key" using descend(5) by simp
    have ok2: "cache_ok c2" by (rule cache_ok_touch[OF descend(1-4)])
    have "(node, child) \<in> child_rel (nodes c2)"
      using descend(4,6) vd by (force simp: child_rel_def child_ids_def dest: map_of_SomeD)
    from reads.down[OF touch[OF less.prems(4) descend(1,3,4)] this] t
    have "reads (nodes c2) r child (ks @ n_key (nd c child)) (concat (vals @ [n_value (nd c child)]))"
      by simp
    from less.hyps[OF shorter descend(10) ok2 _ this] vd(1) descend(4)
    obtain ms rest where "drop n key = ms @ rest"
      "reads (nodes c') r last_node (ks @ n_key (nd c child) @ ms) (concat vs)" by auto
    moreover have "key = n_key (nd c child) @ drop n key"
      using full_key_matched[of "n_key (nd c child)" "page_size c" key] descend(7,9) by simp
    ultimately show ?thesis by (metis append.assoc)
  qed
qed

section \<open>Whole lookups\<close>

text \<open>A node to start from, and an answer: the slots of a path whose tokens are a prefix of the key.\<close>

definition starts :: "RadixCache \<Rightarrow> nat set" where
  "starts c = insert (root_node c) (set (namespace_roots c))"

definition answers :: "RadixCache \<Rightarrow> int list \<Rightarrow> int list \<Rightarrow> nat \<Rightarrow> bool" where
  "answers c key slots last_node \<longleftrightarrow>
     (\<exists>r \<in> starts c. \<exists>ms rest. key = ms @ rest \<and> reads (nodes c) r last_node ms slots)"

lemma starts_same_frame: "same_frame c c' \<Longrightarrow> starts c' = starts c"
  by (simp add: starts_def same_frame_def namespace_roots_def)

lemma starts_less: "cache_ok c \<Longrightarrow> r \<in> starts c \<Longrightarrow> r < length (nodes c)"
  by (auto simp: cache_ok_def starts_def)

lemma starts_roots:
  "map_of (private_roots c) u = Some i \<Longrightarrow> i \<in> starts c"
  "map_of (public_roots c) u = Some i \<Longrightarrow> i \<in> starts c"
  "(u, i) \<in> set (private_roots c) \<Longrightarrow> i \<in> starts c"
  by (force simp: starts_def namespace_roots_def dest: map_of_SomeD)+

lemma answers_log [simp]: "answers (log_event env n a c) key slots i = answers c key slots i"
  by (simp add: answers_def starts_def namespace_roots_def log_event_def)

lemma answers_root: "answers c key [] (root_node c)"
  by (auto simp: answers_def starts_def intro: reads.start)

lemma answers_prefix: "answers c (take n key) slots i \<Longrightarrow> answers c key slots i"
  unfolding answers_def by (metis append.assoc append_take_drop_id)

lemma helper_answers:
  assumes "match_prefix_helper env node key u c = (Inr (vs, last_node), c')" "cache_ok c" "node \<in> starts c"
  shows "answers c' key (concat vs) last_node"
proof -
  note less = starts_less[OF assms(2,3)]
  have "same_frame c c'" using shape.helper_keeps[OF assms(1,2) less] by blast
  moreover obtain ms rest where "key = ms @ rest" "reads (nodes c') node last_node ms (concat vs)"
    using match_loop_reads[of env u node key "[]" c vs last_node c' node "[]"] assms less
    by (auto simp: match_prefix_helper_def intro: reads.start)
  ultimately show ?thesis using assms(3) unfolding answers_def by (metis starts_same_frame)
qed

lemma match_others_answers:
  "match_others env roots key uid c = (Inr (Some (slots, last_node)), c') \<Longrightarrow> cache_ok c \<Longrightarrow>
     snd ` set roots \<subseteq> starts c \<Longrightarrow> answers c' key slots last_node"
proof (induction env roots key uid c rule: match_others.induct)
  case (2 env owner i rest key uid c)
  obtain vals ln c1 where h: "match_prefix_helper env i key (Some uid) c = (Inr (vals, ln), c1)"
    using 2(2) by (auto simp: andThen_Inr)
  have i: "i \<in> starts c" using 2(4) by simp
  note k = shape.helper_keeps[OF h 2(3) starts_less[OF 2(3) i]]
  show ?case
  proof (cases "vals = []")
    case False
    then show ?thesis using 2(2) h helper_answers[OF h 2(3) i] by auto
  next
    case True
    have "snd ` set rest \<subseteq> starts c1" using 2(4) k by (auto simp: starts_same_frame)
    then show ?thesis using 2(1)[of "(vals, ln)" c1] 2(2) h True k by (simp add: shape.keeps_def)
  qed
qed simp

lemma match_private_answers:
  assumes "match_private env key uid c = (Inr (Some (slots, last_node)), c')" "cache_ok c"
  shows "answers c' key slots last_node"
proof -
  obtain i vals ln c1 where i: "map_of (private_roots c) uid = Some i"
    and h: "match_prefix_helper env i key (Some uid) c = (Inr (vals, ln), c1)"
    using assms by (fastforce simp: match_private_def andThen_Inr split: option.splits)
  show ?thesis
    using helper_answers[OF h assms(2) starts_roots(1)[OF i]] assms(1) i h
    by (auto simp: match_private_def split: if_splits)
qed

lemma match_public_answers:
  assumes run: "match_public env key uid auth c = (Inr (Some (slots, last_node)), c')" and ok: "cache_ok c"
  shows "answers c' key slots last_node"
proof -
  obtain inst why c1 where i: "install_authorization env auth key c = (Inr (inst, why), c1)"
    using run by (auto simp: match_public_def andThen_Inr)
  have ok1: "cache_ok c1" using shape.install_keeps[OF i ok] by (simp add: shape.keeps_def)
  have root: "j \<in> starts c1" if "matching_public_root key c1 = Inr (Some (j, oid))" for j oid
    using that by (auto simp: matching_public_root_def Let_def split: if_splits option.splits intro: starts_roots(2))
  obtain j vals c3 ev where h: "match_prefix_helper env j key (Some uid) c1 = (Inr (vals, last_node), c3)"
    and j: "j \<in> starts c1" and s: "slots = concat vals" "c' = log_event env ''lookup'' ev c3"
    using run i
    by (fastforce simp: match_public_def andThen_Inr split: option.splits if_splits
        dest: root starts_roots(2))
  show ?thesis using helper_answers[OF h ok1 j] s by simp
qed

lemma match_prefix_answers:
  assumes run: "match_prefix env key u auth c = (Inr (slots, last_node), c')" and ok: "cache_ok c"
  shows "answers c' key slots last_node"
proof -
  let ?key = "aligned_key (page_size c) key"
  have al: "answers c' ?key slots i \<Longrightarrow> answers c' key slots i" for i
    by (auto simp: aligned_key_def intro: answers_prefix split: if_splits)
  consider (off) "disable c \<or> length key = 0" | (none) "\<not> (disable c \<or> length key = 0)" "safekv_mode c = ''none''"
    | (anon) "\<not> (disable c \<or> length key = 0)" "safekv_mode c \<noteq> ''none''" "u = None \<or> u = Some []"
    | (user) uid where "\<not> (disable c \<or> length key = 0)" "safekv_mode c \<noteq> ''none''" "u = Some uid" "uid \<noteq> []"
    by (metis option.exhaust)
  then show ?thesis
  proof cases
    case off
    then show ?thesis using run by (auto simp: match_prefix_def answers_root)
  next
    case none
    obtain vals ln where h: "match_prefix_helper env (root_node c) ?key u c = (Inr (vals, ln), c')"
      using run none by (auto simp: match_prefix_def andThen_Inr)
    have "answers c' ?key (concat vals) ln"
      by (rule helper_answers[OF h ok]) (simp add: starts_def)
    then show ?thesis using run none h al answers_root by (auto simp: match_prefix_def split: if_splits)
  next
    case anon
    then show ?thesis
      using run answers_root[of c' key] by (auto simp: match_prefix_def log_event_def)
  next
    case user
    obtain pub c1 where p: "match_public env ?key uid auth c = (Inr pub, c1)"
      using run user by (auto simp: match_prefix_def Let_def andThen_Inr)
    have ok1: "cache_ok c1" using shape.match_public_keeps[OF p ok] by (simp add: shape.keeps_def)
    show ?thesis
    proof (cases pub)
      case (Some r)
      then have "r = (slots, last_node)" "c' = c1" using run user p by (auto simp: match_prefix_def Let_def)
      then show ?thesis using match_public_answers[of env ?key uid auth c slots last_node c1] p Some ok al by auto
    next
      case None
      obtain priv c2 where v: "match_private env ?key uid c1 = (Inr priv, c2)"
        using run user p None by (auto simp: match_prefix_def Let_def andThen_Inr)
      have ok2: "cache_ok c2" using shape.match_private_keeps[OF v ok1] by (simp add: shape.keeps_def)
      show ?thesis
      proof (cases priv)
        case (Some r)
        then have "r = (slots, last_node)" "c' = c2" using run user p None v by (auto simp: match_prefix_def Let_def)
        then show ?thesis using match_private_answers[of env ?key uid c1 slots last_node c2] v Some ok1 al by auto
      next
        case none2: None
        have rs: "snd ` set (filter (\<lambda>(w, _). w \<noteq> uid) (private_roots c2)) \<subseteq> starts c2"
          using starts_roots(3) by fastforce
        show ?thesis
          using run user p None v none2 al answers_root[of c' key]
            match_others_answers[OF _ ok2 rs, of env ?key uid slots last_node c']
          by (auto simp: match_prefix_def Let_def andThen_Inr split: if_splits option.splits)
      qed
    qed
  qed
qed

lemma match_prefix_length:
  assumes "match_prefix env key u auth c = (Inr (slots, last_node), c')" and "cache_ok c"
  shows "length slots \<le> length key"
proof -
  obtain ms rest r where "key = ms @ rest" "reads (nodes c') r last_node ms slots"
    using match_prefix_answers[OF assms] by (auto simp: answers_def)
  then show ?thesis
    using reads_length match_prefix_cache_ok[OF assms] by (fastforce simp: cache_ok_def)
qed

section \<open>The interface of a prefix cache\<close>

text \<open>
  What the scheduler relies on when it looks up a prompt, whichever cache serves it
  (\<open>BasePrefixCache.match_prefix\<close>): never more slots than tokens, and an intact cache.
\<close>

locale prefix_cache =
  fixes lookup :: "int list \<Rightarrow> 's \<Rightarrow> (int list \<times> 'n) result \<times> 's" and inv :: "'s \<Rightarrow> bool"
  assumes lookup_length: "lookup key s = (Inr (slots, last_node), s') \<Longrightarrow> inv s \<Longrightarrow> length slots \<le> length key"
    and lookup_inv: "lookup key s = (res, s') \<Longrightarrow> inv s \<Longrightarrow> inv s'"
begin

lemma strict_prefix_left:
  assumes "lookup (take n ids) s = (Inr (slots, last_node), s')" "inv s" "n < length ids"
  shows "length slots \<le> n" "length slots < length ids" "inv s'"
  using lookup_length[OF assms(1,2)] lookup_inv[OF assms(1,2)] assms(3) by simp_all

end

interpretation radix: prefix_cache "\<lambda>key. match_prefix env key u auth" cache_ok for env u auth
  using match_prefix_length match_prefix_cache_ok by unfold_locales auto

section \<open>Properties\<close>

text \<open>
  C4: a lookup is sound.  The slots it returns are, in order, the slots of the nodes on one path of
  the tree that starts at the global root or at a namespace root and ends at the node it returns, and
  the tokens on this path are exactly the first tokens of the request, as many as there are slots:
  no tenant is ever handed the KV slots of other tokens than its own prompt's.
\<close>

theorem lookup_reads_prefix:
  assumes "cache_ok c" and "match_prefix env key u auth c = (Inr (slots, last_node), c')"
  shows "length slots \<le> length key \<and>
     (\<exists>r \<in> starts c'. reads (nodes c') r last_node (take (length slots) key) slots)"
proof -
  obtain r ms rest where r: "r \<in> starts c'" "key = ms @ rest" "reads (nodes c') r last_node ms slots"
    using match_prefix_answers[OF assms(2,1)] by (auto simp: answers_def)
  have "length ms = length slots"
    using reads_length[OF r(3)] match_prefix_cache_ok[OF assms(2,1)] by (auto simp: cache_ok_def)
  then show ?thesis using r by auto
qed

theorem lookup_reads_prefix_witness:
  "let c = demo_insert [1, 2, 3] ''al'' (demo_cache ''strict'' False);
       run = match_prefix demo_env [1, 2, 5] (Some ''al'') None c
   in \<exists>r \<in> starts (snd run). reads (nodes (snd run)) r 3 [1, 2] [11, 12]"
proof -
  let ?c = "demo_insert [1, 2, 3] ''al'' (demo_cache ''strict'' False)"
  let ?run = "match_prefix demo_env [1, 2, 5] (Some ''al'') None ?c"
  have ps: "page_size (demo_cache ''strict'' False) \<le> chunk_size" by (simp add: cache_eval)
  have "fst ?run = Inr ([11, 12], 3)" by (simp add: cache_eval)
  then have "?run = (Inr ([11, 12], 3), snd ?run)" by (metis prod.collapse)
  from lookup_reads_prefix[OF demo_insert_ok[OF demo_cache_ok ps] this]
  show ?thesis by (simp add: Let_def numeral_2_eq_2)
qed

end
