(* ===== verification/Sampling_Params.thy ===== *)
theory Sampling_Params
  imports Prelude
begin

text \<open>
  \<open>sampling/sampling_params.py\<close>: the parameters of one generation request, their construction with
  the greedy and whole-vocabulary special cases, their validation and the normalisation of stop
  strings.  The arguments of the constructor are given as the record they fill.  A tokenizer is the
  function that encodes a text without special tokens.
\<close>

section \<open>Parameters\<close>

datatype stop_arg = StopNone | StopStr string | StopList "string list"

record SamplingParams =
  sp_max_new_tokens :: "int option"
  sp_stop_strs :: stop_arg
  sp_stop_token_ids :: "int list option"
  sp_temperature :: pyfloat
  sp_top_p :: pyfloat
  sp_top_k :: int
  sp_min_p :: pyfloat
  sp_frequency_penalty :: pyfloat
  sp_presence_penalty :: pyfloat
  sp_repetition_penalty :: pyfloat
  sp_min_new_tokens :: int
  sp_n :: int
  sp_json_schema :: "string option"
  sp_regex :: "string option"
  sp_ebnf :: "string option"
  sp_structural_tag :: "string option"
  sp_ignore_eos :: bool
  sp_skip_special_tokens :: bool
  sp_spaces_between_special_tokens :: bool
  sp_no_stop_trim :: bool
  sp_custom_params :: "(string \<times> pyval) list option"
  sp_stream_interval :: "int option"
  sp_user_id :: "string option"
  sp_public_authorization :: "(string \<times> pyval) list option"
  sp_stop_str_max_len :: "nat option"

text \<open>The double nearest to \<open>1e-6\<close>.\<close>

definition SAMPLING_EPS :: rat where
  "SAMPLING_EPS = 4722366482869645 / 4722366482869645213696"

definition float_lt :: "pyfloat \<Rightarrow> pyfloat \<Rightarrow> bool" where
  "float_lt x y \<longleftrightarrow> float_le x y \<and> \<not> float_le y x"

definition default_params :: SamplingParams where
  "default_params =
     \<lparr> sp_max_new_tokens = Some 128, sp_stop_strs = StopNone, sp_stop_token_ids = None,
       sp_temperature = Fin 1, sp_top_p = Fin 1, sp_top_k = -1, sp_min_p = Fin 0,
       sp_frequency_penalty = Fin 0, sp_presence_penalty = Fin 0, sp_repetition_penalty = Fin 1,
       sp_min_new_tokens = 0, sp_n = 1, sp_json_schema = None, sp_regex = None, sp_ebnf = None,
       sp_structural_tag = None, sp_ignore_eos = False, sp_skip_special_tokens = True,
       sp_spaces_between_special_tokens = True, sp_no_stop_trim = False, sp_custom_params = None,
       sp_stream_interval = None, sp_user_id = None, sp_public_authorization = None,
       sp_stop_str_max_len = None \<rparr>"

definition sampling_params_init :: "SamplingParams \<Rightarrow> SamplingParams" where
  "sampling_params_init args =
     (let s0 = args\<lparr>sp_stop_token_ids :=
                      (case sp_stop_token_ids args of
                         None \<Rightarrow> None | Some ids \<Rightarrow> if ids = [] then None else Some (remdups ids)),
                    sp_stop_str_max_len := None\<rparr>;
          s1 = (if float_le (Fin 0) (sp_temperature s0) \<and> float_lt (sp_temperature s0) (Fin SAMPLING_EPS)
                then s0\<lparr>sp_temperature := Fin 1, sp_top_k := 1\<rparr> else s0)
      in if sp_top_k s1 = -1 then s1\<lparr>sp_top_k := 2 ^ 30\<rparr> else s1)"

section \<open>Validation\<close>

definition require :: "bool \<Rightarrow> string \<Rightarrow> unit result \<Rightarrow> unit result" where
  "require b msg rest = (if b then rest else Inl (ValueError msg))"

definition grammars_set :: "SamplingParams \<Rightarrow> nat" where
  "grammars_set s = length (filter (\<lambda>x. x \<noteq> None) [sp_json_schema s, sp_regex s, sp_ebnf s])"

definition verify_params :: "stdlib \<Rightarrow> SamplingParams \<Rightarrow> unit result" where
  "verify_params lib s =
     (let fl = (\<lambda>x. str_of lib (VFloat x)); nt = show_int in
      require (\<not> float_lt (sp_temperature s) (Fin 0))
        (''temperature must be non-negative, got '' @ fl (sp_temperature s) @ ''.'')
      (require (float_lt (Fin 0) (sp_top_p s) \<and> float_le (sp_top_p s) (Fin 1))
        (''top_p must be in (0, 1], got '' @ fl (sp_top_p s) @ ''.'')
      (require (float_le (Fin 0) (sp_min_p s) \<and> float_le (sp_min_p s) (Fin 1))
        (''min_p must be in [0, 1], got '' @ fl (sp_min_p s) @ ''.'')
      (require (\<not> (sp_top_k s < 1 \<or> sp_top_k s = -1))
        (''top_k must be -1 (disable) or at least 1, got '' @ nt (sp_top_k s) @ ''.'')
      (require (float_le (Fin (-2)) (sp_frequency_penalty s) \<and> float_le (sp_frequency_penalty s) (Fin 2))
        (''frequency_penalty must be in [-2, 2], got '' @ fl (sp_frequency_penalty s) @ ''.'')
      (require (float_le (Fin (-2)) (sp_presence_penalty s) \<and> float_le (sp_presence_penalty s) (Fin 2))
        (''presence_penalty must be in [-2, 2], got '' @ fl (sp_presence_penalty s) @ ''.'')
      (require (float_le (Fin 0) (sp_repetition_penalty s) \<and> float_le (sp_repetition_penalty s) (Fin 2))
        (''repetition_penalty must be in [0, 2], got '' @ fl (sp_repetition_penalty s) @ ''.'')
      (require (0 \<le> sp_min_new_tokens s)
        (''min_new_tokens must be in [0, max_new_tokens], got '' @ nt (sp_min_new_tokens s) @ ''.'')
      ((case sp_max_new_tokens s of
          None \<Rightarrow> (\<lambda>rest. rest)
        | Some m \<Rightarrow> (\<lambda>rest.
            require (0 \<le> m) (''max_new_tokens must be at least 0, got '' @ nt m @ ''.'')
            (require (sp_min_new_tokens s \<le> m)
              (''min_new_tokens must be in [0, max_new_tokens('' @ nt m @ '')], got '' @
                 nt (sp_min_new_tokens s) @ ''.'') rest)))
      (require (grammars_set s \<le> 1) ''Only one of regex, json_schema, or ebnf can be set.''
        (Inr ())))))))))))"

section \<open>Stop strings\<close>

definition stop_list :: "SamplingParams \<Rightarrow> string list" where
  "stop_list s = (case sp_stop_strs s of StopNone \<Rightarrow> [] | StopStr x \<Rightarrow> [x] | StopList xs \<Rightarrow> xs)"

definition normalize :: "(string \<Rightarrow> int list) option \<Rightarrow> SamplingParams \<Rightarrow> SamplingParams" where
  "normalize tokenizer s =
     (case sp_stop_strs s of
        StopNone \<Rightarrow> s\<lparr>sp_stop_strs := StopList [], sp_stop_str_max_len := Some 0\<rparr>
      | _ \<Rightarrow>
          s\<lparr>sp_stop_strs := StopList (stop_list s),
            sp_stop_str_max_len := Some (fold (\<lambda>x acc. max acc
              (case tokenizer of Some encode \<Rightarrow> length (encode x) | None \<Rightarrow> length x)) (stop_list s) 0)\<rparr>)"

section \<open>What a validated request guarantees\<close>

lemma float_lt_simps [simp]:
  "float_lt (Fin x) (Fin y) = (x < y)" "float_lt NaN a = False" "float_lt a NaN = False"
  by (auto simp: float_lt_def) (cases a; simp)

lemma require_Inr [simp]: "require b msg rest = Inr () \<longleftrightarrow> b \<and> rest = Inr ()"
  by (simp add: require_def)

lemma init_temperature_eq:
  "sp_temperature (sampling_params_init a) =
     (if float_le (Fin 0) (sp_temperature a) \<and> float_lt (sp_temperature a) (Fin SAMPLING_EPS) then Fin 1
      else sp_temperature a)"
  by (simp add: sampling_params_init_def Let_def)

lemma SAMPLING_EPS_less: "0 < SAMPLING_EPS" "SAMPLING_EPS < 1"
  by (simp_all add: SAMPLING_EPS_def)

lemma init_temperature:
  assumes "float_le (Fin 0) (sp_temperature (sampling_params_init a))"
  shows "float_le (Fin SAMPLING_EPS) (sp_temperature (sampling_params_init a))"
  using assms SAMPLING_EPS_less
  by (cases "sp_temperature a") (auto simp: init_temperature_eq float_lt_def split: if_splits)

lemma not_below_zero: "\<not> float_lt t (Fin 0) \<Longrightarrow> t \<noteq> NaN \<Longrightarrow> float_le (Fin 0) t"
  by (cases t) (auto simp: float_lt_def)

text \<open>
  Parameters that are built by the constructor and pass validation are safe to sample with: the
  temperature is NaN or at least the smallest positive temperature (a request for temperature 0, or
  anything below the threshold, became greedy), \<open>top_k\<close> is positive and \<open>top_p\<close> lies in (0, 1], the
  penalties and \<open>min_p\<close> are finite and in their ranges, \<open>min_new_tokens\<close> does not exceed
  \<open>max_new_tokens\<close>, and at most one grammar is set.  Only the temperature may be NaN.
\<close>

theorem accepted_params_bounds:
  assumes "verify_params lib (sampling_params_init a) = Inr ()"
  defines "s \<equiv> sampling_params_init a"
  shows "(sp_temperature s = NaN \<or> float_le (Fin SAMPLING_EPS) (sp_temperature s)) \<and>
     1 \<le> sp_top_k s \<and>
     (\<exists>p. sp_top_p s = Fin p \<and> 0 < p \<and> p \<le> 1) \<and>
     (\<forall>x \<in> {sp_min_p s, sp_frequency_penalty s, sp_presence_penalty s, sp_repetition_penalty s}.
        x = NegZero \<or> (\<exists>r. x = Fin r \<and> -2 \<le> r \<and> r \<le> 2)) \<and>
     0 \<le> sp_min_new_tokens s \<and>
     (\<forall>m. sp_max_new_tokens s = Some m \<longrightarrow> sp_min_new_tokens s \<le> m) \<and>
     grammars_set s \<le> 1"
proof -
  note v = assms(1)[folded s_def, unfolded verify_params_def Let_def]
  have t: "sp_temperature s = NaN \<or> float_le (Fin SAMPLING_EPS) (sp_temperature s)"
    using v init_temperature[of a] not_below_zero[of "sp_temperature s"] by (auto simp: s_def)
  have p: "\<exists>p. sp_top_p s = Fin p \<and> 0 < p \<and> p \<le> 1"
    using v by (cases "sp_top_p s") (auto simp: float_lt_def)
  have r: "x = NegZero \<or> (\<exists>r. x = Fin r \<and> -2 \<le> r \<and> r \<le> 2)"
    if "x \<in> {sp_min_p s, sp_frequency_penalty s, sp_presence_penalty s, sp_repetition_penalty s}" for x
  proof -
    have "(float_le (Fin 0) x \<or> float_le (Fin (-2)) x) \<and> (float_le x (Fin 1) \<or> float_le x (Fin 2))"
      using v that by auto
    then show ?thesis by (cases x) auto
  qed
  show ?thesis using v t p r by (auto split: option.splits)
qed

theorem accepted_params_bounds_witness:
  "\<forall>lib. verify_params lib (sampling_params_init (default_params\<lparr>sp_temperature := Fin 0\<rparr>)) = Inr () \<and>
   sp_top_k (sampling_params_init (default_params\<lparr>sp_temperature := Fin 0\<rparr>)) = 1 \<and>
   verify_params lib (sampling_params_init (default_params\<lparr>sp_temperature := NaN\<rparr>)) = Inr ()"
proof -
  have ok: "verify_params lib (sampling_params_init (default_params\<lparr>sp_temperature := t\<rparr>)) = Inr ()"
    if "t = Fin 0 \<or> t = NaN" for t lib
    using that
    by (auto simp: verify_params_def Let_def sampling_params_init_def default_params_def grammars_set_def
        SAMPLING_EPS_def)
  show ?thesis
    using accepted_params_bounds[OF ok[of "Fin 0"]] ok[of "Fin 0"] ok[of NaN]
    by (simp add: sampling_params_init_def default_params_def SAMPLING_EPS_def Let_def)
qed

end
