(* ===== verification/Py_Strings.thy ===== *)
theory Py_Strings
  imports Prelude "HOL-Library.Sublist"
begin

text \<open>
  The string methods of Python that the request and output components use: \<open>in\<close>, \<open>find\<close>,
  \<open>replace\<close>, \<open>split\<close> with \<open>maxsplit=1\<close> and \<open>rstrip\<close>, with their laws.
\<close>

text \<open>The text before and after the first occurrence of a pattern.\<close>

fun cut_at :: "'a list \<Rightarrow> 'a list \<Rightarrow> ('a list \<times> 'a list) option" where
  "cut_at pat s =
     (if prefix pat s then Some ([], drop (length pat) s)
      else case s of [] \<Rightarrow> None
           | c # cs \<Rightarrow> (case cut_at pat cs of None \<Rightarrow> None | Some (a, b) \<Rightarrow> Some (c # a, b)))"

declare cut_at.simps [simp del]

definition str_in :: "string \<Rightarrow> string \<Rightarrow> bool" where
  "str_in pat s \<longleftrightarrow> cut_at pat s \<noteq> None"

lemma cut_Some: "cut_at pat s = Some (a, b) \<Longrightarrow> s = a @ pat @ b"
proof (induction pat s arbitrary: a b rule: cut_at.induct)
  case (1 pat s)
  show ?case
  proof (cases "prefix pat s")
    case True
    then show ?thesis using 1(2) by (subst (asm) cut_at.simps) (auto simp: prefix_def)
  next
    case False
    then show ?thesis
      using 1 by (subst (asm) (2) cut_at.simps) (auto split: list.splits option.splits)
  qed
qed

lemma cut_leftmost: "cut_at pat s = Some (a, b) \<Longrightarrow> s = a' @ pat @ b' \<Longrightarrow> length a \<le> length a'"
proof (induction pat s arbitrary: a a' rule: cut_at.induct)
  case (1 pat s)
  show ?case
  proof (cases "prefix pat s")
    case True
    then show ?thesis using 1(2) by (subst (asm) cut_at.simps) auto
  next
    case False
    then obtain c cs a1 where s: "s = c # cs" "a = c # a1" "cut_at pat cs = Some (a1, b)"
      using 1(2) by (subst (asm) cut_at.simps) (auto split: list.splits option.splits)
    from False 1(3) obtain d a2 where "a' = d # a2" by (cases a') auto
    then show ?thesis using 1(1)[OF False s(1) s(3), of a2] 1(3) s by simp
  qed
qed

lemma str_in_iff: "str_in pat s \<longleftrightarrow> (\<exists>a b. s = a @ pat @ b)"
proof
  assume "str_in pat s"
  then show "\<exists>a b. s = a @ pat @ b" by (force simp: str_in_def dest: cut_Some)
next
  assume "\<exists>a b. s = a @ pat @ b"
  then obtain a b where "s = a @ pat @ b" by blast
  then show "str_in pat s" unfolding str_in_def
  proof (induction a arbitrary: s)
    case Nil
    then show ?case by (subst cut_at.simps) simp
  next
    case (Cons c a)
    then show ?case by (subst cut_at.simps) (auto split: option.splits)
  qed
qed

text \<open>\<open>replace\<close> removes every non-overlapping occurrence, left to right; the pattern is not empty.\<close>

function remove_all :: "string \<Rightarrow> string \<Rightarrow> string" where
  "remove_all pat s =
     (if pat = [] then s
      else case cut_at pat s of None \<Rightarrow> s | Some (a, b) \<Rightarrow> a @ remove_all pat b)"
  by pat_completeness auto
termination
  by (relation "measure (\<lambda>(pat, s). length s)") (auto dest!: cut_Some)

declare remove_all.simps [simp del]

definition rstrip :: "string \<Rightarrow> string" where
  "rstrip s = rev (dropWhile is_space (rev s))"

lemma cut_None: "cut_at pat s = None \<longleftrightarrow> \<not> str_in pat s"
  by (cases "cut_at pat s") (auto simp: str_in_def)

end
