(* ===== verification/Sched_Req.thy ===== *)
theory Sched_Req
  imports Radix_Path Sampling_Params Py_Strings
begin

text \<open>
  \<open>managers/schedule_batch.py\<close>, class \<open>Req\<close>, and the admission of a request by the scheduler: the
  request's state, the tokens a lookup may use, the input of the next forward pass, the stop
  conditions, retraction, and the length checks of \<open>managers/utils.py\<close> and \<open>scheduler.py\<close>.

  A tokenizer and a grammar are objects of other packages; the model keeps what the code reads of
  them: the tokenizer's special tokens and its decoder, and whether the grammar has terminated.
  Fields that only carry log probabilities, timing or disaggregation data to the output are left out.
\<close>

section \<open>Finish reasons\<close>

datatype FinishReason =
    FINISH_MATCHED_TOKEN int
  | FINISH_MATCHED_STR string
  | FINISH_LENGTH int
  | FINISH_ABORT string "nat option" "string option"

definition finish_abort :: "string option \<Rightarrow> FinishReason" where
  "finish_abort message =
     FINISH_ABORT (case message of Some m \<Rightarrow> if m = [] then ''Aborted'' else m | None \<Rightarrow> ''Aborted'') None None"

fun finish_is_error :: "FinishReason \<Rightarrow> bool" where
  "finish_is_error (FINISH_ABORT m s e) = True"
| "finish_is_error _ = False"

fun finish_to_json :: "FinishReason \<Rightarrow> (string \<times> pyval) list" where
  "finish_to_json (FINISH_MATCHED_TOKEN t) = [(''type'', VStr ''stop''), (''matched'', VInt t)]"
| "finish_to_json (FINISH_MATCHED_STR s) = [(''type'', VStr ''stop''), (''matched'', VStr s)]"
| "finish_to_json (FINISH_LENGTH n) = [(''type'', VStr ''length''), (''length'', VInt n)]"
| "finish_to_json (FINISH_ABORT m s e) =
     [(''type'', VStr ''abort''), (''message'', VStr m),
      (''status_code'', case s of None \<Rightarrow> VNone | Some n \<Rightarrow> VInt (int n)),
      (''err_type'', case e of None \<Rightarrow> VNone | Some x \<Rightarrow> VStr x)]"

section \<open>The request\<close>

record tokenizer =
  tk_eos :: "int option"
  tk_bos :: "int option"
  tk_additional_stops :: "int list option"
  tk_decode :: "int list \<Rightarrow> string"

record sched_req =
  q_rid :: string
  q_origin_input_text :: "string option"
  q_origin_input_ids_unpadded :: "int list"
  q_origin_input_ids :: "int list"
  q_output_ids :: "int list"
  q_fill_ids :: "int list"
  q_session_id :: "string option"
  q_sampling_params :: SamplingParams
  q_req_pool_idx :: "nat option"
  q_tokenizer :: "tokenizer option"
  q_finished_reason :: "FinishReason option"
  q_to_abort :: bool
  q_to_abort_message :: "string option"
  q_stream :: bool
  q_eos_token_ids :: "int list option"
  q_surr_offset :: "nat option"
  q_read_offset :: "nat option"
  q_decoded_text :: string
  q_prefix_indices :: "int list"
  q_extend_input_len :: int
  q_extend_logprob_start_len :: int
  q_last_node :: "nat option"
  q_last_node_global :: "nat option"
  q_is_chunked :: int
  q_is_retracted :: bool
  q_return_logprob :: bool
  q_logprob_start_len :: int
  q_grammar :: "bool option"
  q_already_computed :: nat
  q_user_id :: "string option"
  q_public_authorization :: "(string \<times> pyval) list option"

definition req_init ::
  "string \<Rightarrow> string option \<Rightarrow> int list \<Rightarrow> SamplingParams \<Rightarrow> bool \<Rightarrow> bool \<Rightarrow> int list option
     \<Rightarrow> string option \<Rightarrow> int list option \<Rightarrow> sched_req" where
  "req_init rid text ids sp return_logprob stream unpadded session eos =
     \<lparr> q_rid = rid, q_origin_input_text = text,
       q_origin_input_ids_unpadded =
         (case unpadded of None \<Rightarrow> ids | Some u \<Rightarrow> if u = [] then ids else u),
       q_origin_input_ids = ids, q_output_ids = [], q_fill_ids = [], q_session_id = session,
       q_sampling_params = sp, q_req_pool_idx = None, q_tokenizer = None, q_finished_reason = None,
       q_to_abort = False, q_to_abort_message = None, q_stream = stream, q_eos_token_ids = eos,
       q_surr_offset = None, q_read_offset = None, q_decoded_text = [], q_prefix_indices = [],
       q_extend_input_len = 0, q_extend_logprob_start_len = 0, q_last_node = None,
       q_last_node_global = None, q_is_chunked = 0, q_is_retracted = False,
       q_return_logprob = return_logprob, q_logprob_start_len = 0, q_grammar = None,
       q_already_computed = 0, q_user_id = sp_user_id sp,
       q_public_authorization = sp_public_authorization sp \<rparr>"

abbreviation q_max_new_tokens :: "sched_req \<Rightarrow> int option" where
  "q_max_new_tokens r \<equiv> sp_max_new_tokens (q_sampling_params r)"

definition seqlen :: "sched_req \<Rightarrow> nat" where
  "seqlen r = length (q_origin_input_ids r) + length (q_output_ids r)"

definition req_finished :: "sched_req \<Rightarrow> bool" where
  "req_finished r \<longleftrightarrow> q_finished_reason r \<noteq> None"

section \<open>The input of the next round\<close>

text \<open>A missing token limit cannot be compared and raises, after \<open>fill_ids\<close> was set.\<close>

definition max_prefix_len :: "sched_req \<Rightarrow> int" where
  "max_prefix_len r =
     (let n = int (length (q_fill_ids r)) - 1
      in max (if q_return_logprob r then min n (q_logprob_start_len r) else n) 0)"

definition adjust_max_prefix_ids :: "sched_req \<Rightarrow> int list result \<times> sched_req" where
  "adjust_max_prefix_ids r =
     (let r1 = r\<lparr>q_fill_ids := q_origin_input_ids r @ q_output_ids r\<rparr>
      in case q_max_new_tokens r of
           None \<Rightarrow> (Inl TypeError, r1)
         | Some _ \<Rightarrow> (Inr (take (nat (max_prefix_len r1)) (q_fill_ids r1)), r1))"

definition match_request ::
  "cache_env \<Rightarrow> sched_req \<Rightarrow> RadixCache \<Rightarrow> int list result \<times> sched_req \<times> RadixCache" where
  "match_request env r c =
     (case adjust_max_prefix_ids r of
        (Inl e, r1) \<Rightarrow> (Inl e, (r1, c))
      | (Inr key, r1) \<Rightarrow>
          (case match_prefix env key (q_user_id r1) (q_public_authorization r1) c of
             (Inl e, c1) \<Rightarrow> (Inl e, (r1, c1))
           | (Inr (slots, last_node), c1) \<Rightarrow>
               (Inr key, (r1\<lparr>q_prefix_indices := slots, q_last_node := Some last_node\<rparr>, c1))))"

definition init_next_round_input ::
  "cache_env \<Rightarrow> bool \<Rightarrow> sched_req \<Rightarrow> RadixCache \<Rightarrow> unit result \<times> sched_req \<times> RadixCache" where
  "init_next_round_input env use_tree r c =
     (let r0 = r\<lparr>q_fill_ids := q_origin_input_ids r @ q_output_ids r\<rparr>
      in andThen (if use_tree then match_request env r0 c else (Inr [], (r0, c)))
           (\<lambda>_ (r1, c1).
              (Inr (), (r1\<lparr>q_extend_input_len :=
                          int (length (q_fill_ids r1)) - int (length (q_prefix_indices r1))\<rparr>, c1))))"

section \<open>Detokenisation window, stop conditions, retraction\<close>

definition INIT_INCREMENTAL_DETOKENIZATION_OFFSET :: nat where
  "INIT_INCREMENTAL_DETOKENIZATION_OFFSET = 5"

definition init_incremental_detokenize :: "sched_req \<Rightarrow> (int list \<times> int) \<times> sched_req" where
  "init_incremental_detokenize r =
     (let n = length (q_origin_input_ids_unpadded r);
          r1 = (if q_surr_offset r = None \<or> q_read_offset r = None
                then r\<lparr>q_read_offset := Some n,
                       q_surr_offset := Some (n - INIT_INCREMENTAL_DETOKENIZATION_OFFSET)\<rparr>
                else r);
          surr = the (q_surr_offset r1); rd = the (q_read_offset r1)
      in ((drop surr (q_origin_input_ids_unpadded r1 @ q_output_ids r1), int rd - int surr), r1))"

definition in_some :: "int \<Rightarrow> int list option \<Rightarrow> bool" where
  "in_some x ids \<longleftrightarrow> (case ids of None \<Rightarrow> False | Some xs \<Rightarrow> x \<in> set xs)"

definition matched_eos :: "sched_req \<Rightarrow> int \<Rightarrow> bool" where
  "matched_eos r t \<longleftrightarrow>
     in_some t (sp_stop_token_ids (q_sampling_params r)) \<or> in_some t (q_eos_token_ids r) \<or>
     (case q_tokenizer r of
        None \<Rightarrow> False
      | Some tk \<Rightarrow> tk_eos tk = Some t \<or> in_some t (tk_additional_stops tk))"

definition last_tokens :: "nat \<Rightarrow> int list \<Rightarrow> int list" where
  "last_tokens n xs = drop (length xs - n) xs"

definition check_stop_strs :: "sched_req \<Rightarrow> sched_req result" where
  "check_stop_strs r =
     (case sp_stop_strs (q_sampling_params r) of
        StopNone \<Rightarrow> Inl TypeError
      | StopStr s \<Rightarrow> if s = [] then Inr r else Inl AttributeError
      | StopList strs \<Rightarrow>
          if strs = [] then Inr r
          else case (q_tokenizer r, sp_stop_str_max_len (q_sampling_params r)) of
            (Some tk, Some n) \<Rightarrow>
              (let tail_str = tk_decode tk (last_tokens (Suc n) (q_output_ids r))
               in case find (\<lambda>s. str_in s tail_str \<or> str_in s (q_decoded_text r)) strs of
                    None \<Rightarrow> Inr r
                  | Some s \<Rightarrow> Inr (r\<lparr>q_finished_reason := Some (FINISH_MATCHED_STR s)\<rparr>))
          | _ \<Rightarrow> Inl AttributeError)"

definition check_finished :: "sched_req \<Rightarrow> sched_req result" where
  "check_finished r =
     (if req_finished r then Inr r
      else if q_to_abort r
      then Inr (r\<lparr>q_finished_reason := Some (finish_abort (q_to_abort_message r))\<rparr>)
      else case q_max_new_tokens r of
        None \<Rightarrow> Inl TypeError
      | Some m \<Rightarrow>
          if m \<le> int (length (q_output_ids r))
          then Inr (r\<lparr>q_finished_reason := Some (FINISH_LENGTH m)\<rparr>)
          else if q_output_ids r = [] then Inl IndexError
          else (let t = last (q_output_ids r)
                in if q_grammar r = Some True
                   then Inr (r\<lparr>q_finished_reason := Some (FINISH_MATCHED_TOKEN t)\<rparr>)
                   else if \<not> sp_ignore_eos (q_sampling_params r) \<and> matched_eos r t
                   then Inr (r\<lparr>q_finished_reason := Some (FINISH_MATCHED_TOKEN t)\<rparr>)
                   else check_stop_strs r))"

definition reset_for_retract :: "sched_req \<Rightarrow> sched_req" where
  "reset_for_retract r =
     r\<lparr>q_prefix_indices := [], q_last_node := None, q_extend_input_len := 0, q_is_retracted := True,
       q_extend_logprob_start_len := 0, q_is_chunked := 0, q_req_pool_idx := None,
       q_already_computed := 0\<rparr>"

section \<open>Admission\<close>

record req_limits =
  max_req_len :: int
  max_req_input_len :: int
  allow_auto_truncate :: bool

text \<open>\<open>TpModelWorker.__init__\<close>: the limits from the context length and the pool size.\<close>

definition make_limits :: "int \<Rightarrow> int \<Rightarrow> bool \<Rightarrow> req_limits result" where
  "make_limits context_len max_total_num_tokens auto_trunc =
     (let n = min (context_len - 1) (max_total_num_tokens - 1)
      in if 0 < n \<and> 0 < n - 5
         then Inr \<lparr> max_req_len = n, max_req_input_len = n - 5, allow_auto_truncate = auto_trunc \<rparr>
         else Inl AssertionError)"

definition too_long_msg :: "int \<Rightarrow> int \<Rightarrow> string" where
  "too_long_msg n limit =
     ''Input length ('' @ show_int n @ '' tokens) exceeds the maximum allowed length ('' @
     show_int limit @ '' tokens). Use a shorter input or enable --allow-auto-truncate.''"

definition validate_input_length :: "int \<Rightarrow> bool \<Rightarrow> sched_req \<Rightarrow> string option \<times> sched_req" where
  "validate_input_length limit auto_trunc r =
     (let n = int (length (q_origin_input_ids r))
      in if n < limit then (None, r)
         else if auto_trunc
         then (None, r\<lparr>q_origin_input_ids := py_take limit (q_origin_input_ids r)\<rparr>)
         else (Some (too_long_msg n limit),
               r\<lparr>q_finished_reason :=
                   Some (FINISH_ABORT (too_long_msg n limit) (Some 400) (Some ''BadRequestError''))\<rparr>))"

definition set_max_new :: "int \<Rightarrow> sched_req \<Rightarrow> sched_req" where
  "set_max_new m r = r\<lparr>q_sampling_params := (q_sampling_params r)\<lparr>sp_max_new_tokens := Some m\<rparr>\<rparr>"

definition logprob_msg :: "int \<Rightarrow> int \<Rightarrow> string" where
  "logprob_msg start n =
     ''logprob_start_len, ('' @ show_int start @ '') is higher than the number of input tokens ('' @
     show_int n @ ''). Request with a lower logprob_start_len.''"

text \<open>
  \<open>Scheduler.handle_generate_request\<close> from the length check on, for a request without multimodal
  inputs: what the request looks like when it is queued.
\<close>

definition admit_request :: "req_limits \<Rightarrow> int \<Rightarrow> sched_req \<Rightarrow> sched_req" where
  "admit_request lims logprob_start r =
     (case validate_input_length (max_req_input_len lims) (allow_auto_truncate lims) r of
        (Some _, r1) \<Rightarrow> set_max_new 0 (r1\<lparr>q_origin_input_ids := [0]\<rparr>)
      | (None, r1) \<Rightarrow>
          (let n = int (length (q_origin_input_ids r1));
               start = (if logprob_start = -1 \<or> \<not> q_return_logprob r1 then n - 1 else logprob_start)
           in if n \<le> start
              then r1\<lparr>q_finished_reason :=
                        Some (FINISH_ABORT (logprob_msg start n) (Some 400) (Some ''BadRequestError'')),
                      q_logprob_start_len := n - 1\<rparr>
              else set_max_new
                     (min (case q_max_new_tokens r1 of Some m \<Rightarrow> m | None \<Rightarrow> 2 ^ 30)
                        (max_req_len lims - n - 1))
                     (r1\<lparr>q_logprob_start_len := start\<rparr>)))"

section \<open>Lemmas\<close>

lemma adjust_max_prefix_ids_Inr:
  assumes "adjust_max_prefix_ids r = (Inr key, r')"
  shows "r' = r\<lparr>q_fill_ids := q_origin_input_ids r @ q_output_ids r\<rparr>"
    and "key = take (nat (max_prefix_len r')) (q_origin_input_ids r @ q_output_ids r)"
  using assms by (auto simp: adjust_max_prefix_ids_def Let_def split: option.splits)

lemma max_prefix_len_less: "q_fill_ids r \<noteq> [] \<Longrightarrow> nat (max_prefix_len r) < length (q_fill_ids r)"
  by (cases "q_fill_ids r") (auto simp: max_prefix_len_def Let_def)

lemma match_request_Inr:
  assumes "match_request env r c = (Inr key, (r', c'))" "cache_ok c"
  shows "cache_ok c'" "q_fill_ids r' = q_origin_input_ids r @ q_output_ids r"
    "q_fill_ids r' \<noteq> [] \<Longrightarrow> length (q_prefix_indices r') \<le> nat (max_prefix_len r')"
proof -
  obtain r1 slots last_node where a: "adjust_max_prefix_ids r = (Inr key, r1)"
    and m: "match_prefix env key (q_user_id r1) (q_public_authorization r1) c = (Inr (slots, last_node), c')"
    and r': "r' = r1\<lparr>q_prefix_indices := slots, q_last_node := Some last_node\<rparr>"
    using assms(1) by (auto simp: match_request_def split: prod.splits sum.splits)
  note adj = adjust_max_prefix_ids_Inr[OF a]
  have len: "max_prefix_len r' = max_prefix_len r1" by (simp add: r' max_prefix_len_def Let_def)
  show fill: "q_fill_ids r' = q_origin_input_ids r @ q_output_ids r" using adj(1) by (simp add: r')
  show "cache_ok c'" by (rule radix.lookup_inv[OF m assms(2)])
  have m': "match_prefix env (take (nat (max_prefix_len r')) (q_fill_ids r')) (q_user_id r1)
      (q_public_authorization r1) c = (Inr (slots, last_node), c')"
    using m adj(2) fill len by simp
  show "length (q_prefix_indices r') \<le> nat (max_prefix_len r')" if "q_fill_ids r' \<noteq> []"
    using radix.strict_prefix_left(1)[OF m' assms(2) max_prefix_len_less[OF that]] by (simp add: r')
qed

lemma check_stop_strs_list:
  assumes "sp_stop_strs (q_sampling_params r) = StopList strs" "sp_stop_str_max_len (q_sampling_params r) = Some k"
    "q_tokenizer r = Some tk"
  shows "\<exists>fin. check_stop_strs r = Inr (r\<lparr>q_finished_reason := fin\<rparr>) \<and>
     (q_finished_reason r = None \<longrightarrow> (fin = None \<longleftrightarrow>
        (\<forall>s \<in> set strs. \<not> str_in s (tk_decode tk (last_tokens (Suc k) (q_output_ids r))) \<and>
                          \<not> str_in s (q_decoded_text r))))"
proof (cases "find (\<lambda>s. str_in s (tk_decode tk (last_tokens (Suc k) (q_output_ids r))) \<or>
      str_in s (q_decoded_text r)) strs")
  case None
  then show ?thesis
    using assms iffD1[OF find_None_iff None]
    by (intro exI[of _ "q_finished_reason r"]) (auto simp: check_stop_strs_def)
next
  case (Some s)
  then show ?thesis
    using assms iffD1[OF find_Some_iff Some]
    by (intro exI[of _ "Some (FINISH_MATCHED_STR s)"]) (auto simp: check_stop_strs_def dest: nth_mem)
qed

section \<open>Properties\<close>

text \<open>
  C28: the prefix lookup of a request always leaves work to do.  When the scheduler prepares a
  non-empty request against the radix cache and the lookup does not raise, the slots taken over from
  the cache cover a strict prefix of its tokens, so at least one token is computed in the next
  forward pass; a request that wants log probabilities from a given position reuses no slot from that
  position on.
\<close>

theorem next_round_computes_a_token:
  assumes "cache_ok c" and "init_next_round_input env True r c = (Inr (), (r', c'))"
    and "q_origin_input_ids r @ q_output_ids r \<noteq> []"
  shows "1 \<le> q_extend_input_len r' \<and>
     q_extend_input_len r' + int (length (q_prefix_indices r')) = int (seqlen r) \<and>
     q_fill_ids r' = q_origin_input_ids r @ q_output_ids r \<and>
     (q_return_logprob r' \<and> 0 \<le> q_logprob_start_len r' \<longrightarrow>
        int (length (q_prefix_indices r')) \<le> q_logprob_start_len r')"
proof -
  obtain key r1 where m: "match_request env (r\<lparr>q_fill_ids := q_origin_input_ids r @ q_output_ids r\<rparr>) c
      = (Inr key, (r1, c'))"
    and r': "r' = r1\<lparr>q_extend_input_len := int (length (q_fill_ids r1)) - int (length (q_prefix_indices r1))\<rparr>"
    using assms(2) by (auto simp: init_next_round_input_def Let_def andThen_Inr)
  note mr = match_request_Inr[OF m assms(1)]
  have fill: "q_fill_ids r1 = q_origin_input_ids r @ q_output_ids r" using mr(2) by simp
  have less: "nat (max_prefix_len r1) < length (q_fill_ids r1)"
    by (rule max_prefix_len_less) (use fill assms(3) in simp)
  have "length (q_prefix_indices r1) \<le> nat (max_prefix_len r1)" using mr(3) fill assms(3) by simp
  then show ?thesis using less fill by (auto simp: r' seqlen_def max_prefix_len_def Let_def)
qed

theorem next_round_computes_a_token_witness:
  "let c = demo_insert [1, 2, 3] ''al'' (demo_cache ''strict'' False);
       r = req_init ''r'' None [1, 2, 3] (default_params\<lparr>sp_user_id := Some ''al''\<rparr>) False False None None None;
       run = init_next_round_input demo_env True r c
   in fst run = Inr () \<and> q_prefix_indices (fst (snd run)) = [11, 12] \<and>
      q_extend_input_len (fst (snd run)) = 1"
proof -
  let ?c = "demo_insert [1, 2, 3] ''al'' (demo_cache ''strict'' False)"
  let ?r = "req_init ''r'' None [1, 2, 3] (default_params\<lparr>sp_user_id := Some ''al''\<rparr>) False False None None None"
  let ?run = "init_next_round_input demo_env True ?r ?c"
  have ps: "page_size (demo_cache ''strict'' False) \<le> chunk_size" by (simp add: cache_eval)
  have run: "fst ?run = Inr ()" "q_prefix_indices (fst (snd ?run)) = [11, 12]"
    by (simp_all add: init_next_round_input_def match_request_def adjust_max_prefix_ids_def
        max_prefix_len_def req_init_def default_params_def numeral_2_eq_2 cache_eval)
  then have "?run = (Inr (), (fst (snd ?run), snd (snd ?run)))" by (metis prod.collapse)
  from next_round_computes_a_token[OF demo_insert_ok[OF demo_cache_ok ps] this] run
  show ?thesis by (simp add: req_init_def seqlen_def Let_def)
qed

text \<open>
  C29: no request outgrows the context or the pool.  The limits are those the worker derives from the
  context length and the number of KV slots.  If a request is queued without an error and, after any
  tokens it has generated, \<open>check_finished\<close> lets it go on, then its tokens together with the next one
  still fit strictly below both.
\<close>

theorem running_request_fits:
  assumes "make_limits context_len total_tokens auto_trunc = Inr lims"
    and "q_finished_reason (admit_request lims logprob_start r) = None"
    and "check_finished ((admit_request lims logprob_start r)\<lparr>q_output_ids := outs\<rparr>) = Inr r'"
    and "q_finished_reason r' = None"
  shows "int (seqlen r') + 1 < context_len - 1 \<and> int (seqlen r') + 1 < total_tokens - 1"
proof -
  let ?a = "admit_request lims logprob_start r"
  have lims: "max_req_len lims = min (context_len - 1) (total_tokens - 1)"
    using assms(1) by (auto simp: make_limits_def Let_def split: if_splits)
  obtain m where m: "q_max_new_tokens ?a = Some m" "m \<le> max_req_len lims - int (length (q_origin_input_ids ?a)) - 1"
    using assms(2)
    by (auto simp: admit_request_def validate_input_length_def set_max_new_def Let_def split: if_splits)
  have "int (length outs) < m" "seqlen r' = length (q_origin_input_ids ?a) + length outs"
    using assms(2-4) m(1)
    by (auto simp: check_finished_def req_finished_def check_stop_strs_def Let_def seqlen_def
        split: if_splits stop_arg.splits option.splits)
  then show ?thesis using m(2) lims by auto
qed

theorem running_request_fits_witness:
  "let lims = \<lparr> max_req_len = 14, max_req_input_len = 9, allow_auto_truncate = True \<rparr>;
       r = req_init ''r'' None [1, 2, 3] (normalize None default_params) False False None None None;
       a = admit_request lims (-1) r
   in make_limits 15 20 True = Inr lims \<and> q_max_new_tokens a = Some 10 \<and>
      check_finished (a\<lparr>q_output_ids := [7, 8]\<rparr>) = Inr (a\<lparr>q_output_ids := [7, 8]\<rparr>) \<and>
      int (seqlen (a\<lparr>q_output_ids := [7, 8]\<rparr>)) + 1 < 15 - 1"
proof -
  let ?lims = "\<lparr> max_req_len = 14, max_req_input_len = 9, allow_auto_truncate = True \<rparr>"
  let ?r = "req_init ''r'' None [1, 2, 3] (normalize None default_params) False False None None None"
  let ?a = "admit_request ?lims (-1) ?r"
  have l: "make_limits 15 20 True = Inr ?lims" by (simp add: make_limits_def)
  have a: "q_finished_reason ?a = None" "q_max_new_tokens ?a = Some 10"
    "check_finished (?a\<lparr>q_output_ids := [7, 8]\<rparr>) = Inr (?a\<lparr>q_output_ids := [7, 8]\<rparr>)"
    by (simp_all add: admit_request_def validate_input_length_def set_max_new_def req_init_def
        normalize_def default_params_def check_finished_def req_finished_def check_stop_strs_def
        matched_eos_def in_some_def)
  from running_request_fits[OF l a(1,3)] l a show ?thesis by (simp add: Let_def)
qed

text \<open>
  The stop conditions.  For a request that has generated a token, whose stop strings were
  normalised and that has a tokenizer, \<open>check_finished\<close> returns, changes nothing but the finish reason,
  and leaves the request running exactly when it is not being aborted, is below its token limit, its
  grammar has not terminated, its last token is no stop token (unless end-of-sequence tokens are
  ignored) and no stop string occurs in the decoded tail or in the text decoded so far.
\<close>

theorem check_finished_exact:
  assumes "q_finished_reason r = None" and "q_output_ids r \<noteq> []" and "q_max_new_tokens r = Some m"
    and "sp_stop_strs (q_sampling_params r) = StopList strs"
    and "sp_stop_str_max_len (q_sampling_params r) = Some k" and "q_tokenizer r = Some tk"
  shows "\<exists>fin. check_finished r = Inr (r\<lparr>q_finished_reason := fin\<rparr>) \<and>
     (fin = None \<longleftrightarrow>
        \<not> q_to_abort r \<and> int (length (q_output_ids r)) < m \<and> q_grammar r \<noteq> Some True \<and>
        (sp_ignore_eos (q_sampling_params r) \<or> \<not> matched_eos r (last (q_output_ids r))) \<and>
        (\<forall>s \<in> set strs. \<forall>a b. tk_decode tk (last_tokens (Suc k) (q_output_ids r)) \<noteq> a @ s @ b \<and>
                                q_decoded_text r \<noteq> a @ s @ b))"
proof -
  obtain fin where "check_stop_strs r = Inr (r\<lparr>q_finished_reason := fin\<rparr>)"
    "fin = None \<longleftrightarrow>
        (\<forall>s \<in> set strs. \<not> str_in s (tk_decode tk (last_tokens (Suc k) (q_output_ids r))) \<and>
                          \<not> str_in s (q_decoded_text r))"
    using check_stop_strs_list[OF assms(4-6)] assms(1) by blast
  note stop = this
  have eq: "(\<forall>s \<in> set strs. \<forall>a b. x \<noteq> a @ s @ b \<and> y \<noteq> a @ s @ b) \<longleftrightarrow>
      (\<forall>s \<in> set strs. \<not> str_in s x \<and> \<not> str_in s y)" for x y
    by (simp add: str_in_iff) blast
  let ?t = "last (q_output_ids r)"
  let ?fin = "if q_to_abort r then Some (finish_abort (q_to_abort_message r))
    else if m \<le> int (length (q_output_ids r)) then Some (FINISH_LENGTH m)
    else if q_grammar r = Some True \<or> \<not> sp_ignore_eos (q_sampling_params r) \<and> matched_eos r ?t
    then Some (FINISH_MATCHED_TOKEN ?t) else fin"
  have "check_finished r = Inr (r\<lparr>q_finished_reason := ?fin\<rparr>)"
    using assms(1-3) stop(1) by (simp add: check_finished_def req_finished_def Let_def)
  then show ?thesis unfolding eq stop(2)[symmetric] by (intro exI[of _ ?fin] conjI) auto
qed

theorem check_finished_exact_witness:
  "let tk = \<lparr> tk_eos = Some 2, tk_bos = None, tk_additional_stops = None,
              tk_decode = (\<lambda>ids. if ids = [97, 98] then ''ab'' else []) \<rparr>;
       sp = normalize None (default_params\<lparr>sp_stop_strs := StopStr ''ab''\<rparr>);
       r = (req_init ''r'' None [1] sp False False None None None)\<lparr>q_tokenizer := Some tk, q_output_ids := [97, 98]\<rparr>
   in \<exists>fin. check_finished r = Inr (r\<lparr>q_finished_reason := fin\<rparr>) \<and> fin \<noteq> None"
proof -
  let ?tk = "\<lparr> tk_eos = Some 2, tk_bos = None, tk_additional_stops = None,
              tk_decode = (\<lambda>ids. if ids = [97, 98] then ''ab'' else []) \<rparr>"
  let ?sp = "normalize None (default_params\<lparr>sp_stop_strs := StopStr ''ab''\<rparr>)"
  let ?r = "(req_init ''r'' None [1] ?sp False False None None None)\<lparr>q_tokenizer := Some ?tk, q_output_ids := [97, 98]\<rparr>"
  have h: "q_finished_reason ?r = None" "q_output_ids ?r \<noteq> []" "q_max_new_tokens ?r = Some 128"
    "sp_stop_strs (q_sampling_params ?r) = StopList [''ab'']"
    "sp_stop_str_max_len (q_sampling_params ?r) = Some 2" "q_tokenizer ?r = Some ?tk"
    by (simp_all add: req_init_def normalize_def default_params_def stop_list_def)
  have "tk_decode ?tk (last_tokens (Suc 2) (q_output_ids ?r)) = [] @ ''ab'' @ []"
    by (simp add: last_tokens_def)
  then show ?thesis using check_finished_exact[OF h] unfolding Let_def
    by (metis list.set_intros(1))
qed

end
