(* ===== verification/Schedule_Policy.thy ===== *)
theory Schedule_Policy
  imports Sched_Req
begin

text \<open>
  \<open>managers/schedule_policy.py\<close>, class \<open>SchedulePolicy\<close>: the order in which waiting requests are
  served.  The policy owns a second radix cache that is emptied and filled on every call to find
  requests of one batch with a common prefix.  The two caches read different clocks, so each has its
  own environment.  The hierarchical cache is not modelled; shuffling is a parameter.
\<close>

section \<open>Policies\<close>

datatype CacheAwarePolicy = LPM | DFS_WEIGHT

datatype CacheAgnosticPolicy = FCFS | LOF | RANDOM

datatype sched_policy = CacheAware CacheAwarePolicy | CacheAgnostic CacheAgnosticPolicy

definition IN_BATCH_PREFIX_CACHING_CHECK_THRESHOLD :: nat where
  "IN_BATCH_PREFIX_CACHING_CHECK_THRESHOLD = 32"

definition IN_BATCH_PREFIX_CACHING_DEPRIORITIZE_THRESHOLD :: nat where
  "IN_BATCH_PREFIX_CACHING_DEPRIORITIZE_THRESHOLD = 32"

fun cache_aware_of :: "string \<Rightarrow> CacheAwarePolicy option" where
  "cache_aware_of s =
     (if s = ''lpm'' then Some LPM else if s = ''dfs-weight'' then Some DFS_WEIGHT else None)"

fun cache_agnostic_of :: "string \<Rightarrow> CacheAgnosticPolicy option" where
  "cache_agnostic_of s =
     (if s = ''fcfs'' then Some FCFS else if s = ''lof'' then Some LOF
      else if s = ''random'' then Some RANDOM else None)"

definition validate_and_adjust_policy :: "string \<Rightarrow> RadixCache \<Rightarrow> sched_policy result" where
  "validate_and_adjust_policy s c =
     (case cache_aware_of s of
        Some p \<Rightarrow> Inr (if disable c then CacheAgnostic FCFS else CacheAware p)
      | None \<Rightarrow>
          (case cache_agnostic_of s of
             Some p \<Rightarrow> Inr (CacheAgnostic p)
           | None \<Rightarrow> Inl (ValueError (''Unknown schedule_policy: policy='' @ s))))"

record SchedulePolicy =
  po_policy :: sched_policy
  po_tree :: RadixCache
  po_queue_tree :: RadixCache

text \<open>
  The constructor.  The tree of the queue gets no pools; it never evicts and never finishes a
  request, so the empty pools of the model are not read.
\<close>

definition schedule_policy_init :: "string \<Rightarrow> RadixCache \<Rightarrow> int \<Rightarrow> int \<Rightarrow> SchedulePolicy result" where
  "schedule_policy_init s c B K =
     bindE (validate_and_adjust_policy s c) (\<lambda>p.
     bindE (cache_init (req_pool_init 0 0) (Slots (allocator_init 0)) 1 False False B K (safekv_mode c)
              None 1 None None None False NoFile)
       (\<lambda>w. Inr \<lparr> po_policy = p, po_tree = c, po_queue_tree = w \<rparr>))"

definition determine_active_policy :: "SchedulePolicy \<Rightarrow> sched_req list \<Rightarrow> sched_policy" where
  "determine_active_policy S queue =
     (if po_policy S = CacheAware LPM \<and> 128 < length queue then CacheAgnostic FCFS else po_policy S)"

section \<open>Prefix matches\<close>

text \<open>The check within the batch: whether the request waits for an earlier one with its prefix.\<close>

definition in_batch_check ::
  "cache_env \<Rightarrow> int list \<Rightarrow> sched_req \<Rightarrow> RadixCache \<Rightarrow> (bool result \<times> RadixCache) option" where
  "in_batch_check env key r w =
     (if length (q_prefix_indices r) \<le> IN_BATCH_PREFIX_CACHING_CHECK_THRESHOLD
      then thenO (Some (match_prefix env key (q_user_id r) None w)) (\<lambda>(slots, _) w1.
             if IN_BATCH_PREFIX_CACHING_DEPRIORITIZE_THRESHOLD \<le> length slots
             then Some (Inr True, w1)
             else thenO (cache_insert env key (Some (replicate (length key) 0)) None (q_user_id r) None w1)
                    (\<lambda>_ w2. Some (Inr False, w2)))
      else Some (Inr False, w))"

fun compute_matches ::
  "cache_env \<Rightarrow> cache_env \<Rightarrow> sched_req list \<Rightarrow> string list \<Rightarrow> SchedulePolicy
     \<Rightarrow> (string list result \<times> sched_req list \<times> SchedulePolicy) option" where
  "compute_matches env wenv [] dep S = Some (Inr dep, [], S)"
| "compute_matches env wenv (r # rs) dep S =
     (case match_request env r (po_tree S) of
        (Inl e, (r1, t1)) \<Rightarrow> Some (Inl e, r1 # rs, S\<lparr>po_tree := t1\<rparr>)
      | (Inr key, (r1, t1)) \<Rightarrow>
          (case in_batch_check wenv key r1 (po_queue_tree S) of
             None \<Rightarrow> None
           | Some (Inl e, w1) \<Rightarrow> Some (Inl e, r1 # rs, S\<lparr>po_tree := t1, po_queue_tree := w1\<rparr>)
           | Some (Inr late, w1) \<Rightarrow>
               map_option (\<lambda>(res, rs', S'). (res, r1 # rs', S'))
                 (compute_matches env wenv rs (if late then q_rid r1 # dep else dep)
                    (S\<lparr>po_tree := t1, po_queue_tree := w1\<rparr>))))"

definition compute_prefix_matches ::
  "cache_env \<Rightarrow> cache_env \<Rightarrow> sched_req list \<Rightarrow> SchedulePolicy
     \<Rightarrow> (string list result \<times> sched_req list \<times> SchedulePolicy) option" where
  "compute_prefix_matches env wenv queue S =
     compute_matches env wenv queue [] (S\<lparr>po_queue_tree := cache_reset (po_queue_tree S)\<rparr>)"

section \<open>Orders\<close>

text \<open>The sort key: \<open>-len(prefix)\<close>, or infinity for a request that waits.\<close>

definition prefix_key :: "string list \<Rightarrow> sched_req \<Rightarrow> bool \<times> int" where
  "prefix_key dep r =
     (if q_rid r \<notin> set dep then (False, - int (length (q_prefix_indices r))) else (True, 0))"

definition sort_by_longest_prefix :: "string list \<Rightarrow> sched_req list \<Rightarrow> sched_req list" where
  "sort_by_longest_prefix dep queue = sort_key (prefix_key dep) queue"

definition sort_by_longest_output :: "sched_req list \<Rightarrow> sched_req list result" where
  "sort_by_longest_output queue =
     (if \<exists>r \<in> set queue. q_max_new_tokens r = None then Inl TypeError
      else Inr (sort_key (\<lambda>r. - the (q_max_new_tokens r)) queue))"

text \<open>
  The two recursions over the tree.  Each carries the children of the current node that are still to
  be visited; weights are a dictionary that answers 0 for an unknown node.
\<close>

partial_function (option) calc_weight ::
  "TreeNode list \<Rightarrow> nat \<Rightarrow> nat list \<Rightarrow> (nat \<Rightarrow> int) \<Rightarrow> (nat \<Rightarrow> int) option" where
  "calc_weight ns cur todo w =
     (case todo of
        [] \<Rightarrow> Some w
      | child # rest \<Rightarrow>
          Option.bind (calc_weight ns child (child_ids ns child) w)
            (\<lambda>w1. calc_weight ns cur rest (w1(cur := w1 cur + w1 child))))"

definition by_weight :: "(nat \<Rightarrow> int) \<Rightarrow> nat list \<Rightarrow> nat list" where
  "by_weight w childs = sort_key (\<lambda>x. - w x) childs"

partial_function (option) get_dfs_priority ::
  "TreeNode list \<Rightarrow> (nat \<Rightarrow> int) \<Rightarrow> (nat \<Rightarrow> 'r list) \<Rightarrow> nat \<Rightarrow> nat list \<Rightarrow> 'r list \<Rightarrow> 'r list option" where
  "get_dfs_priority ns w reqs cur todo q =
     (case todo of
        [] \<Rightarrow> Some (q @ reqs cur)
      | child # rest \<Rightarrow>
          Option.bind (get_dfs_priority ns w reqs child (by_weight w (child_ids ns child)) q)
            (\<lambda>q1. get_dfs_priority ns w reqs cur rest q1))"

definition reqs_at :: "sched_req list \<Rightarrow> nat \<Rightarrow> sched_req list" where
  "reqs_at queue i = filter (\<lambda>r. q_last_node r = Some i) queue"

definition sort_by_dfs_weight :: "sched_req list \<Rightarrow> RadixCache \<Rightarrow> sched_req list option" where
  "sort_by_dfs_weight queue c =
     (let ns = nodes c; root = root_node c in
      Option.bind (calc_weight ns root (child_ids ns root) (\<lambda>i. int (length (reqs_at queue i))))
        (\<lambda>w. get_dfs_priority ns w (reqs_at queue) root (by_weight w (child_ids ns root)) []))"

definition calc_priority ::
  "cache_env \<Rightarrow> cache_env \<Rightarrow> (sched_req list \<Rightarrow> sched_req list) \<Rightarrow> sched_req list \<Rightarrow> SchedulePolicy
     \<Rightarrow> (bool option result \<times> sched_req list \<times> SchedulePolicy) option" where
  "calc_priority env wenv shuffle queue S =
     (if po_policy S = CacheAgnostic FCFS then Some (Inr None, queue, S)
      else case determine_active_policy S queue of
        CacheAware p \<Rightarrow>
          Option.bind (compute_prefix_matches env wenv queue S) (\<lambda>(res, q1, S1).
            case res of
              Inl e \<Rightarrow> Some (Inl e, q1, S1)
            | Inr dep \<Rightarrow>
                (case p of
                   LPM \<Rightarrow> Some (Inr (Some True), sort_by_longest_prefix dep q1, S1)
                 | DFS_WEIGHT \<Rightarrow>
                     map_option (\<lambda>q2. (Inr (Some True), q2, S1)) (sort_by_dfs_weight q1 (po_tree S1))))
      | CacheAgnostic p \<Rightarrow>
          (case p of
             FCFS \<Rightarrow> Some (Inr (Some False), queue, S)
           | LOF \<Rightarrow>
               (case sort_by_longest_output queue of
                  Inl e \<Rightarrow> Some (Inl e, queue, S)
                | Inr q1 \<Rightarrow> Some (Inr (Some False), q1, S))
           | RANDOM \<Rightarrow> Some (Inr (Some False), shuffle queue, S)))"

declare calc_weight.simps [code] get_dfs_priority.simps [code]

section \<open>Matching keeps the queue and the caches\<close>

interpretation sized: lookup_law "\<lambda>u c c'. page_size c' = page_size c"
  by unfold_locales (auto simp: same_nodes_def same_frame_def adds_root_def)

lemma match_prefix_page_size:
  "match_prefix env key u auth c = (r, c') \<Longrightarrow> cache_ok c \<Longrightarrow> page_size c' = page_size c"
  using sized.match_prefix_keeps by (simp add: sized.keeps_def)

lemma match_request_keeps:
  assumes "match_request env r c = (res, (r', c'))" "cache_ok c"
  shows "cache_ok c'" "page_size c' = page_size c" "q_rid r' = q_rid r"
  using assms match_prefix_cache_ok match_prefix_page_size
  by (auto simp: match_request_def adjust_max_prefix_ids_def Let_def
      split: prod.splits sum.splits option.splits)

lemma in_batch_check_returns:
  assumes "cache_ok w" "page_size w = 1"
  shows "\<exists>res w'. in_batch_check env key r w = Some (res, w') \<and> cache_ok w' \<and> page_size w' = 1"
proof -
  obtain m w1 where m: "match_prefix env key (q_user_id r) None w = (m, w1)" by fastforce
  note ok = match_prefix_cache_ok[OF m assms(1)] match_prefix_page_size[OF m assms(1)]
  obtain ri w2 where "cache_insert env key (Some (replicate (length key) 0)) None (q_user_id r) None w1 = Some (ri, w2)"
    "cache_ok w2" "page_size w2 = page_size w1"
    using cache_insert_ok[OF ok(1), of "Some (replicate (length key) 0)" key env None "q_user_id r" None]
      ok(2) assms(2) by (auto simp: chunk_size_def)
  then show ?thesis
    using m ok assms by (cases m; cases ri) (auto simp: in_batch_check_def thenO_def)
qed

definition policy_ok :: "SchedulePolicy \<Rightarrow> bool" where
  "policy_ok S \<longleftrightarrow> cache_ok (po_tree S) \<and> cache_ok (po_queue_tree S) \<and> page_size (po_queue_tree S) = 1"

lemma compute_matches_keeps:
  "policy_ok S \<Longrightarrow>
     \<exists>res q S'. compute_matches env wenv queue dep S = Some (res, q, S') \<and> policy_ok S' \<and>
       map q_rid q = map q_rid queue \<and> po_policy S' = po_policy S"
proof (induction queue arbitrary: dep S)
  case (Cons r rs)
  obtain res r1 t1 where m: "match_request env r (po_tree S) = (res, (r1, t1))" by (metis prod.exhaust)
  have t: "cache_ok t1" "q_rid r1 = q_rid r"
    using match_request_keeps[OF m] Cons.prems by (auto simp: policy_ok_def)
  show ?case
  proof (cases res)
    case (Inl e)
    then show ?thesis using m t Cons.prems by (simp add: policy_ok_def)
  next
    case (Inr key)
    obtain b w1 where b: "in_batch_check wenv key r1 (po_queue_tree S) = Some (b, w1)"
      "cache_ok w1" "page_size w1 = 1"
      using in_batch_check_returns Cons.prems by (metis policy_ok_def)
    let ?S = "S\<lparr>po_tree := t1, po_queue_tree := w1\<rparr>"
    have ok: "policy_ok ?S" using t b by (simp add: policy_ok_def)
    show ?thesis
    proof (cases b)
      case (Inl e)
      then show ?thesis using m b t Inr ok by simp
    next
      case late: (Inr late)
      show ?thesis
        using Cons.IH[OF ok, of "if late then q_rid r1 # dep else dep"] m b t Inr late by fastforce
    qed
  qed
qed simp

lemma compute_prefix_matches_keeps:
  assumes "policy_ok S"
  shows "\<exists>res q S'. compute_prefix_matches env wenv queue S = Some (res, q, S') \<and> policy_ok S' \<and>
       map q_rid q = map q_rid queue \<and> po_policy S' = po_policy S"
proof -
  have "policy_ok (S\<lparr>po_queue_tree := cache_reset (po_queue_tree S)\<rparr>)"
    using assms cache_reset_ok[of "po_queue_tree S"]
    by (auto simp: policy_ok_def cache_ok_def cache_reset_def record_all_cleared_event_def Let_def add_node_def)
  then show ?thesis
    using compute_matches_keeps[of "S\<lparr>po_queue_tree := cache_reset (po_queue_tree S)\<rparr>" env wenv queue "[]"]
    by (simp add: compute_prefix_matches_def)
qed

lemma schedule_policy_init_ok:
  assumes "schedule_policy_init s c B K = Inr S" "cache_ok c"
  shows "policy_ok S"
proof -
  obtain w where w: "cache_init (req_pool_init 0 0) (Slots (allocator_init 0)) 1 False False B K (safekv_mode c)
              None 1 None None None False NoFile = Inr w" and S: "po_tree S = c" "po_queue_tree S = w"
    using assms(1) by (auto simp: schedule_policy_init_def)
  have "page_size w = 1"
    using w by (auto simp: cache_init_def cache_reset_def record_all_cleared_event_def Let_def add_node_def)
  then show ?thesis using S assms(2) cache_init_ok[OF w] by (simp add: policy_ok_def)
qed

section \<open>The weight order visits the tree of the global root only\<close>

text \<open>Induction for a recursion that walks the children of a node in some order.\<close>

lemma children_induct [consumes 3, case_names leaf step]:
  assumes ok: "tree_ok ps ns" and cur: "cur < length ns" and todo: "set todo \<subseteq> set (child_ids ns cur)"
    and base: "\<And>cur. cur < length ns \<Longrightarrow> P cur []"
    and step: "\<And>cur ch rest. cur < length ns \<Longrightarrow> set (ch # rest) \<subseteq> set (child_ids ns cur) \<Longrightarrow> ch < length ns \<Longrightarrow>
      (\<And>kids. set kids \<subseteq> set (child_ids ns ch) \<Longrightarrow> P ch kids) \<Longrightarrow> P cur rest \<Longrightarrow> P cur (ch # rest)"
  shows "P cur todo"
proof -
  obtain d where d: "ranked ns d" using ok by (auto simp: tree_ok_def)
  define M where "M = Max (insert 0 (d ` {..<length ns}))"
  have le: "d i \<le> M" if "i < length ns" for i using that by (simp add: M_def)
  show ?thesis
    using cur todo
  proof (induction "M - d cur" arbitrary: cur todo rule: less_induct)
    case less
    from less.prems(2) show ?case
    proof (induction todo)
      case Nil
      then show ?case using base less.prems(1) by blast
    next
      case (Cons ch rest)
      have rel: "(cur, ch) \<in> child_rel ns" using less.prems(1) Cons.prems by (simp add: child_rel_def)
      note ch = child_relD(2)[OF ok rel]
      have "d cur < d ch" by (rule child_rel_ranked[OF ok d rel])
      then have "M - d ch < M - d cur" using le[OF ch] by linarith
      from step[OF less.prems(1) Cons.prems ch less.hyps[OF this ch] Cons.IH] Cons.prems show ?case by simp
    qed
  qed
qed

lemma calc_weight_total:
  assumes "tree_ok ps ns" "cur < length ns" "set todo \<subseteq> set (child_ids ns cur)"
  shows "\<exists>w'. calc_weight ns cur todo w = Some w'"
  using assms
proof (induction arbitrary: w rule: children_induct)
  case (leaf cur)
  show ?case by (subst calc_weight.simps) simp
next
  case (step cur ch rest)
  obtain w1 where w1: "calc_weight ns ch (child_ids ns ch) w = Some w1" using step(4) by blast
  obtain w2 where "calc_weight ns cur rest (w1(cur := w1 cur + w1 ch)) = Some w2" using step(5) by blast
  then show ?case using w1 by (subst calc_weight.simps) simp
qed

text \<open>Every node below \<open>cur\<close> reached through \<open>todo\<close>, and \<open>cur\<close> itself, hands over its requests once.\<close>

definition below :: "TreeNode list \<Rightarrow> nat list \<Rightarrow> nat set" where
  "below ns todo = (child_rel ns)\<^sup>* `` set todo"

lemma set_by_weight [simp]: "set (by_weight w xs) = set xs"
  by (simp add: by_weight_def)

lemma below_Cons: "below ns (ch # rest) = below ns [ch] \<union> below ns rest"
  by (auto simp: below_def)

lemma below_self: "cur < length ns \<Longrightarrow> below ns [cur] = insert cur (below ns (child_ids ns cur))"
  by (auto simp: below_def child_rel_def elim: converse_rtranclE intro: converse_rtrancl_into_rtrancl)

lemma below_less: "tree_ok ps ns \<Longrightarrow> set todo \<subseteq> {..<length ns} \<Longrightarrow> below ns todo \<subseteq> {..<length ns}"
proof -
  assume ok: "tree_ok ps ns" and t: "set todo \<subseteq> {..<length ns}"
  have "(i, j) \<in> (child_rel ns)\<^sup>* \<Longrightarrow> i < length ns \<Longrightarrow> j < length ns" for i j
    by (induction rule: rtrancl_induct) (auto dest: child_relD(2)[OF ok])
  then show "below ns todo \<subseteq> {..<length ns}" using t by (auto simp: below_def)
qed

lemma children_apart:
  assumes ok: "tree_ok ps ns" and "cur < length ns" "distinct todo" "set todo \<subseteq> set (child_ids ns cur)"
  shows "apart ns todo" "cur \<notin> below ns todo"
proof -
  have "apart ns [cur]" using assms(2) by (simp add: apart_def)
  from apart_expand[OF ok this] have ap: "apart ns (rev (child_ids ns cur))" by simp
  then show "apart ns todo" using assms(3,4) by (auto simp: apart_def)
  obtain d where d: "ranked ns d" using ok by (auto simp: tree_ok_def)
  show "cur \<notin> below ns todo"
  proof
    assume "cur \<in> below ns todo"
    then obtain j where "j \<in> set todo" "(j, cur) \<in> (child_rel ns)\<^sup>*" by (auto simp: below_def)
    moreover then have "(cur, j) \<in> child_rel ns" using assms(2,4) by (auto simp: child_rel_def)
    ultimately show False using child_star_ranked[OF ok d] child_rel_ranked[OF ok d] by fastforce
  qed
qed

lemma below_disjoint:
  assumes "tree_ok ps ns" "apart ns (ch # rest)"
  shows "below ns [ch] \<inter> below ns rest = {}"
proof (rule ccontr)
  assume "below ns [ch] \<inter> below ns rest \<noteq> {}"
  then obtain y z where y: "y \<in> set rest" "(ch, z) \<in> (child_rel ns)\<^sup>*" "(y, z) \<in> (child_rel ns)\<^sup>*"
    by (auto simp: below_def)
  from child_star_linear[OF assms(1) y(2,3)] y(1) assms(2) have "y = ch" by (auto simp: apart_def)
  then show False using y(1) assms(2) by (simp add: apart_def)
qed

lemma get_dfs_priority_total:
  assumes "tree_ok ps ns" "cur < length ns" "set todo \<subseteq> set (child_ids ns cur)"
  shows "distinct todo \<Longrightarrow> \<exists>q'. get_dfs_priority ns w reqs cur todo q = Some q' \<and>
     mset q' = mset q + (\<Sum>i \<in> insert cur (below ns todo). mset (reqs i))"
  using assms
proof (induction arbitrary: q rule: children_induct)
  case (leaf cur)
  show ?case by (subst get_dfs_priority.simps) (simp add: below_def)
next
  case (step cur ch rest)
  let ?kids = "by_weight w (child_ids ns ch)"
  have "distinct ?kids" using distinct_child_ids[OF assms(1) step(3)] by (simp add: by_weight_def)
  then obtain q1 where q1: "get_dfs_priority ns w reqs ch ?kids q = Some q1"
    "mset q1 = mset q + (\<Sum>i \<in> below ns [ch]. mset (reqs i))"
    using step(4)[of ?kids q] below_self[OF step(3)] by (auto simp: below_def)
  obtain q2 where q2: "get_dfs_priority ns w reqs cur rest q1 = Some q2"
    "mset q2 = mset q1 + (\<Sum>i \<in> insert cur (below ns rest). mset (reqs i))"
    using step(5)[of q1] step.prems by auto
  note ap = children_apart[OF assms(1) step(1) step.prems step(2)]
  have fin: "finite (below ns [ch])" "finite (below ns rest)"
    using finite_subset[OF below_less[OF assms(1), of "[ch]"]] finite_subset[OF below_less[OF assms(1), of rest]] ap(1)
    by (simp_all add: apart_def)
  have eq: "insert cur (below ns (ch # rest)) = below ns [ch] \<union> insert cur (below ns rest)"
    by (auto simp: below_Cons[of ns ch rest])
  have dis: "below ns [ch] \<inter> insert cur (below ns rest) = {}"
    using below_disjoint[OF assms(1) ap(1)] ap(2) below_Cons[of ns ch rest] by blast
  have "(\<Sum>i \<in> insert cur (below ns (ch # rest)). mset (reqs i)) =
      (\<Sum>i \<in> below ns [ch]. mset (reqs i)) + (\<Sum>i \<in> insert cur (below ns rest). mset (reqs i))"
    unfolding eq by (rule sum.union_disjoint) (use fin dis in auto)
  then show ?case using q1 q2 by (subst get_dfs_priority.simps) (simp add: add.assoc)
qed

lemma mset_reqs_at:
  "finite A \<Longrightarrow> (\<Sum>i \<in> A. mset (reqs_at queue i)) = filter_mset (\<lambda>r. \<exists>i \<in> A. q_last_node r = Some i) (mset queue)"
proof (induction A rule: finite_induct)
  case (insert x A)
  then show ?case by (auto intro!: multiset_eqI simp: reqs_at_def)
qed simp

lemma prefix_key_mono:
  assumes "i < j" "j < length q" "q = sort_by_longest_prefix dep queue"
  shows "prefix_key dep (q ! i) \<le> prefix_key dep (q ! j)"
proof -
  have "sorted (map (prefix_key dep) q)" using assms(3) by (simp add: sort_by_longest_prefix_def)
  from sorted_nth_mono[OF this, of i j] assms(1,2) show ?thesis by simp
qed

section \<open>Properties\<close>

text \<open>
  C32: scheduling neither loses nor repeats a request.  For every policy but the weight order, and for
  any shuffle that permutes, \<open>calc_priority\<close> returns, also when a lookup raises, with the same
  requests in the queue, and keeps both radix caches well formed.
\<close>

theorem calc_priority_keeps_requests:
  assumes "policy_ok S" and "po_policy S \<noteq> CacheAware DFS_WEIGHT" and "\<And>q. mset (shuffle q) = mset q"
  shows "\<exists>res q S'. calc_priority env wenv shuffle queue S = Some (res, q, S') \<and> policy_ok S' \<and>
     mset (map q_rid q) = mset (map q_rid queue)"
proof -
  obtain res q S' where c: "compute_prefix_matches env wenv queue S = Some (res, q, S')" "policy_ok S'"
    "map q_rid q = map q_rid queue" using compute_prefix_matches_keeps[OF assms(1)] by blast
  have srt: "mset (map q_rid (sort_by_longest_prefix dep q)) = mset (map q_rid queue)" for dep
    using c(3) by (metis mset_map mset_sort sort_by_longest_prefix_def)
  have same: "mset (map q_rid q) = mset (map q_rid queue)" using c(3) by simp
  have out: "mset (map q_rid q1) = mset (map q_rid queue)" if "sort_by_longest_output queue = Inr q1" for q1
    using that by (auto simp: sort_by_longest_output_def split: if_splits)
  have shf: "mset (map q_rid (shuffle queue)) = mset (map q_rid queue)" using assms(3) by simp
  show ?thesis
  proof (cases "determine_active_policy S queue")
    case (CacheAware p)
    then have "p = LPM" using assms(2) by (cases p) (auto simp: determine_active_policy_def split: if_splits)
    then show ?thesis
      using CacheAware c(1,2) same srt assms(1) by (cases res) (auto simp: calc_priority_def)
  next
    case (CacheAgnostic p)
    then show ?thesis
      using out shf assms(1)
      by (cases p; cases "sort_by_longest_output queue") (auto simp: calc_priority_def)
  qed
qed

theorem calc_priority_keeps_requests_witness:
  "\<exists>res q S'. calc_priority demo_env demo_env rev
       [req_init ''r'' None [1, 2, 3] default_params False False None None None]
       \<lparr> po_policy = CacheAware LPM, po_tree = demo_cache ''strict'' False,
         po_queue_tree = demo_cache ''strict'' False \<rparr> = Some (res, q, S') \<and>
     mset (map q_rid q) = {# ''r'' #}"
proof -
  let ?S = "\<lparr> po_policy = CacheAware LPM, po_tree = demo_cache ''strict'' False,
         po_queue_tree = demo_cache ''strict'' False \<rparr>"
  have "policy_ok ?S" by (simp add: policy_ok_def demo_cache_ok) (simp add: cache_eval)
  from calc_priority_keeps_requests[OF this, of rev demo_env demo_env
      "[req_init ''r'' None [1, 2, 3] default_params False False None None None]"]
  show ?thesis by (auto simp: req_init_def)
qed

text \<open>
  The longest-prefix order.  The sorted queue is a permutation; requests with a longer cached
  prefix come first, requests that wait for another request of the batch come after all others, and
  requests with equal keys keep their order of arrival.
\<close>

theorem longest_prefix_order:
  fixes dep :: "string list" and queue :: "sched_req list"
  defines "q \<equiv> sort_by_longest_prefix dep queue"
  shows "mset q = mset queue \<and>
     (\<forall>i j. i < j \<and> j < length q \<longrightarrow>
        (q_rid (q ! i) \<in> set dep \<longrightarrow> q_rid (q ! j) \<in> set dep) \<and>
        (q_rid (q ! j) \<notin> set dep \<longrightarrow>
           length (q_prefix_indices (q ! j)) \<le> length (q_prefix_indices (q ! i)))) \<and>
     (\<forall>k. filter (\<lambda>r. prefix_key dep r = k) q = filter (\<lambda>r. prefix_key dep r = k) queue)"
proof (intro conjI allI impI)
  show "mset q = mset queue" by (simp add: q_def sort_by_longest_prefix_def)
  show "filter (\<lambda>r. prefix_key dep r = k) q = filter (\<lambda>r. prefix_key dep r = k) queue" for k
    by (simp add: q_def sort_by_longest_prefix_def sort_key_stable)
  fix i j
  assume ij: "i < j \<and> j < length q"
  then have key: "prefix_key dep (q ! i) \<le> prefix_key dep (q ! j)" using prefix_key_mono q_def by blast
  then show "q_rid (q ! j) \<in> set dep" if "q_rid (q ! i) \<in> set dep"
    using that by (auto simp: prefix_key_def split: if_splits)
  show "length (q_prefix_indices (q ! j)) \<le> length (q_prefix_indices (q ! i))" if "q_rid (q ! j) \<notin> set dep"
    using that key by (auto simp: prefix_key_def split: if_splits)
qed

theorem longest_prefix_order_witness:
  "let r = req_init ''a'' None [1] default_params False False None None None;
       s = r\<lparr>q_rid := ''b'', q_prefix_indices := [4, 5]\<rparr>
   in mset (sort_by_longest_prefix [] [r, s]) = mset [r, s] \<and>
      map q_rid (sort_by_longest_prefix [] [r, s]) = [''b'', ''a'']"
  using longest_prefix_order[of "[]" "[req_init ''a'' None [1] default_params False False None None None,
      (req_init ''a'' None [1] default_params False False None None None)\<lparr>q_rid := ''b'', q_prefix_indices := [4, 5]\<rparr>]"]
  by (simp add: Let_def sort_by_longest_prefix_def prefix_key_def req_init_def)

text \<open>
  The weight order returns but is incomplete.  On a well-formed cache the two recursions end, and
  the new queue consists of exactly those waiting requests whose last matched node lies in the tree of
  the global root, each once: a request that matched in the tree of a namespace, private or public,
  is dropped from the queue.
\<close>

theorem dfs_weight_drops_namespaces:
  assumes "cache_ok c"
  shows "\<exists>q. sort_by_dfs_weight queue c = Some q \<and>
     mset q = filter_mset (\<lambda>r. \<exists>i \<in> below (nodes c) [root_node c]. q_last_node r = Some i) (mset queue)"
proof -
  let ?ns = "nodes c" and ?r = "root_node c"
  have ok: "tree_ok (page_size c) ?ns" and r: "?r < length ?ns" using assms by (auto simp: cache_ok_def)
  obtain w where w: "calc_weight ?ns ?r (child_ids ?ns ?r) (\<lambda>i. int (length (reqs_at queue i))) = Some w"
    using calc_weight_total[OF ok r order_refl] by blast
  have "distinct (by_weight w (child_ids ?ns ?r))" using distinct_child_ids[OF ok r] by (simp add: by_weight_def)
  from get_dfs_priority_total[OF ok r _ this, of w "reqs_at queue" "[]"]
  obtain q where q: "get_dfs_priority ?ns w (reqs_at queue) ?r (by_weight w (child_ids ?ns ?r)) [] = Some q"
    "mset q = (\<Sum>i \<in> below ?ns [?r]. mset (reqs_at queue i))"
    using below_self[OF r] by (auto simp: below_def)
  have "finite (below ?ns [?r])"
    using finite_subset[OF below_less[OF ok, of "[?r]"]] r by simp
  then show ?thesis using w q mset_reqs_at by (simp add: sort_by_dfs_weight_def Let_def)
qed

theorem dfs_weight_drops_namespaces_witness:
  "let c = demo_insert [1, 2, 3] ''al'' (demo_cache ''strict'' False);
       r = (req_init ''r'' None [1, 2, 3] default_params False False None None None)\<lparr>q_last_node := Some 2\<rparr>
   in fst (match_prefix demo_env [1, 2, 3] (Some ''al'') None c) = Inr ([11, 12, 13], 2) \<and>
      sort_by_dfs_weight [r] c = Some []"
proof -
  let ?c = "demo_insert [1, 2, 3] ''al'' (demo_cache ''strict'' False)"
  let ?r = "(req_init ''r'' None [1, 2, 3] default_params False False None None None)\<lparr>q_last_node := Some 2\<rparr>"
  have ok: "cache_ok ?c" by (intro demo_insert_ok demo_cache_ok) (simp add: cache_eval)
  have m: "fst (match_prefix demo_env [1, 2, 3] (Some ''al'') None ?c) = Inr ([11, 12, 13], 2)"
    by (simp add: cache_eval)
  have kids: "root_node ?c = 0" "child_ids (nodes ?c) 0 = []" "length (nodes ?c) = 3"
    by (simp_all add: child_ids_def cache_eval)
  have "below (nodes ?c) [root_node ?c] = {0}"
    using below_self[of 0 "nodes ?c"] kids by (simp add: below_def)
  with dfs_weight_drops_namespaces[OF ok, of "[?r]"] m show ?thesis by (auto simp: Let_def)
qed

end
