(* ===== verification/Prefill_Adder.thy ===== *)
theory Prefill_Adder
  imports Schedule_Policy Radix_Lock
begin

text \<open>
  \<open>managers/schedule_policy.py\<close>, class \<open>PrefillAdder\<close>: the token budgets of one prefill batch.  The
  KV allocator is the one of the tree cache.  The ratio of new tokens is a float; the budgets it
  enters are computed exactly, as rationals.  The hierarchical cache is not modelled.
\<close>

section \<open>State\<close>

definition CLIP_MAX_NEW_TOKENS_ESTIMATION :: int where
  "CLIP_MAX_NEW_TOKENS_ESTIMATION = 4096"

datatype AddReqResult = CONTINUE | NO_TOKEN | OTHER

record PrefillAdder =
  pa_tree :: RadixCache
  pa_running :: "sched_req list option"
  pa_new_token_ratio :: rat
  pa_rem_input_tokens :: int
  pa_rem_chunk_tokens :: "int option"
  pa_rem_total_token_offset :: rat
  pa_cur_rem_token_offset :: int
  pa_req_states :: "(rat \<times> int) list option"
  pa_can_run_list :: "sched_req list"
  pa_new_chunked_req :: "sched_req option"
  pa_log_hit_tokens :: int
  pa_log_input_tokens :: int

fun kv_available :: "kv_allocator \<Rightarrow> int" where
  "kv_available (Slots a) = int (available_size a)"
| "kv_available (Pages a) = int (paged_available_size a)"

definition running_estimate :: "rat \<Rightarrow> sched_req \<Rightarrow> rat result" where
  "running_estimate ratio r =
     (case q_max_new_tokens r of
        None \<Rightarrow> Inl TypeError
      | Some m \<Rightarrow>
          Inr (of_int (min (m - int (length (q_output_ids r))) CLIP_MAX_NEW_TOKENS_ESTIMATION) * ratio))"

fun sum_results :: "rat result list \<Rightarrow> rat result" where
  "sum_results [] = Inr 0"
| "sum_results (x # xs) = bindE x (\<lambda>a. bindE (sum_results xs) (\<lambda>b. Inr (a + b)))"

definition prefill_adder_init ::
  "RadixCache \<Rightarrow> sched_req list option \<Rightarrow> rat \<Rightarrow> int \<Rightarrow> int option \<Rightarrow> int \<Rightarrow> PrefillAdder result" where
  "prefill_adder_init tree running ratio rem_input rem_chunk mixed =
     bindE (case running of None \<Rightarrow> Inr 0 | Some rs \<Rightarrow> sum_results (map (running_estimate ratio) rs))
       (\<lambda>est. Inr
         \<lparr> pa_tree = tree, pa_running = running, pa_new_token_ratio = ratio,
           pa_rem_input_tokens = rem_input - mixed,
           pa_rem_chunk_tokens = map_option (\<lambda>n. n - mixed) rem_chunk,
           pa_rem_total_token_offset = of_int mixed + est, pa_cur_rem_token_offset = mixed,
           pa_req_states = None, pa_can_run_list = [], pa_new_chunked_req = None,
           pa_log_hit_tokens = 0, pa_log_input_tokens = 0 \<rparr>)"

definition pool_tokens :: "PrefillAdder \<Rightarrow> int" where
  "pool_tokens A = kv_available (token_to_kv_pool_allocator (pa_tree A)) + evictable_size (pa_tree A)"

definition rem_total_tokens :: "PrefillAdder \<Rightarrow> rat" where
  "rem_total_tokens A = of_int (pool_tokens A) - pa_rem_total_token_offset A"

definition cur_rem_tokens :: "PrefillAdder \<Rightarrow> int" where
  "cur_rem_tokens A = pool_tokens A - pa_cur_rem_token_offset A"

definition budget_state :: "PrefillAdder \<Rightarrow> AddReqResult" where
  "budget_state A =
     (if rem_total_tokens A \<le> 0 \<or> cur_rem_tokens A \<le> 0 then NO_TOKEN
      else if pa_rem_input_tokens A \<le> 0 \<or>
              (case pa_rem_chunk_tokens A of None \<Rightarrow> False | Some n \<Rightarrow> n \<le> 0) then OTHER
      else CONTINUE)"

section \<open>Adding requests\<close>

definition prefill_one_req :: "int \<Rightarrow> int \<Rightarrow> int \<Rightarrow> PrefillAdder \<Rightarrow> PrefillAdder" where
  "prefill_one_req prefix_len ext max_new A =
     A\<lparr>pa_rem_total_token_offset := pa_rem_total_token_offset A + of_int (ext + max_new),
       pa_cur_rem_token_offset := pa_cur_rem_token_offset A + ext,
       pa_rem_input_tokens := pa_rem_input_tokens A - ext,
       pa_rem_chunk_tokens := map_option (\<lambda>n. n - ext) (pa_rem_chunk_tokens A),
       pa_log_hit_tokens := pa_log_hit_tokens A + prefix_len,
       pa_log_input_tokens := pa_log_input_tokens A + ext\<rparr>"

definition run_also :: "sched_req \<Rightarrow> PrefillAdder \<Rightarrow> PrefillAdder" where
  "run_also r A = A\<lparr>pa_can_run_list := pa_can_run_list A @ [r]\<rparr>"

definition clip :: "int \<Rightarrow> int" where
  "clip m = min m CLIP_MAX_NEW_TOKENS_ESTIMATION"

text \<open>\<open>add_chunked_req\<close> returns the request again when its prefill is not finished.\<close>

definition add_chunked_req :: "sched_req \<Rightarrow> PrefillAdder \<Rightarrow> sched_req option result \<times> PrefillAdder" where
  "add_chunked_req r A =
     (case pa_rem_chunk_tokens A of
        None \<Rightarrow> (Inl TypeError, A)
      | Some n \<Rightarrow>
          (let truncated = n < q_extend_input_len r;
               ext = min (q_extend_input_len r) n;
               r1 = r\<lparr>q_extend_input_len := ext,
                      q_fill_ids := py_take (int (length (q_prefix_indices r)) + ext) (q_fill_ids r)\<rparr>;
               A1 = run_also r1 A
           in if truncated then (Inr (Some r1), prefill_one_req 0 ext 0 A1)
              else case q_max_new_tokens r of
                     None \<Rightarrow> (Inl TypeError, A1)
                   | Some m \<Rightarrow> (Inr None, prefill_one_req 0 ext (clip m) A1)))"

text \<open>
  The list of \<open>(tokens_left, tokens_occupied)\<close>.  The sorted insertion looks for the first entry that
  is not smaller; the loop variable keeps its last value when there is none.
\<close>

definition req_state :: "rat \<Rightarrow> sched_req \<Rightarrow> (rat \<times> int) option result" where
  "req_state ratio r =
     (case q_max_new_tokens r of
        None \<Rightarrow> Inl TypeError
      | Some m \<Rightarrow>
          (let left = of_int m * (if sp_ignore_eos (q_sampling_params r) then 1 else ratio)
                        - of_nat (length (q_output_ids r));
               occupied = int (length (q_origin_input_ids r)) + int (length (q_output_ids r))
           in Inr (if 0 < left then Some (left, occupied) else None)))"

fun insert_position :: "rat \<Rightarrow> (rat \<times> int) list \<Rightarrow> nat" where
  "insert_position left [] = 0"
| "insert_position left [x] = 0"
| "insert_position left (x # y # xs) =
     (if left \<le> fst x then 0 else Suc (insert_position left (y # xs)))"

definition insert_state :: "rat \<times> int \<Rightarrow> (rat \<times> int) list \<Rightarrow> (rat \<times> int) list" where
  "insert_state s xs =
     (let i = insert_position (fst s) xs in take i xs @ s # drop i xs)"

fun all_states :: "rat \<Rightarrow> sched_req list \<Rightarrow> (rat \<times> int) list \<Rightarrow> unit result \<times> (rat \<times> int) list" where
  "all_states ratio [] acc = (Inr (), acc)"
| "all_states ratio (r # rs) acc =
     (case req_state ratio r of
        Inl e \<Rightarrow> (Inl e, acc)
      | Inr None \<Rightarrow> all_states ratio rs acc
      | Inr (Some x) \<Rightarrow> all_states ratio rs (acc @ [x]))"

definition update_states :: "sched_req \<Rightarrow> PrefillAdder \<Rightarrow> (rat \<times> int) list result \<times> PrefillAdder" where
  "update_states r A =
     (case pa_req_states A of
        None \<Rightarrow>
          (case all_states (pa_new_token_ratio A)
                  (r # (case pa_running A of None \<Rightarrow> [] | Some rs \<Rightarrow> rs) @ pa_can_run_list A) [] of
             (Inl e, ss) \<Rightarrow> (Inl e, A\<lparr>pa_req_states := Some ss\<rparr>)
           | (Inr _, ss) \<Rightarrow> (Inr (sort_key fst ss), A\<lparr>pa_req_states := Some (sort_key fst ss)\<rparr>))
      | Some ss \<Rightarrow>
          (case req_state (pa_new_token_ratio A) r of
             Inl e \<Rightarrow> (Inl e, A)
           | Inr None \<Rightarrow> (Inr ss, A)
           | Inr (Some x) \<Rightarrow> (Inr (insert_state x ss), A\<lparr>pa_req_states := Some (insert_state x ss)\<rparr>)))"

text \<open>Whether decoding all listed requests to their end would run out of tokens.\<close>

fun runs_out :: "rat \<Rightarrow> rat \<Rightarrow> (rat \<times> int) list \<Rightarrow> bool" where
  "runs_out cur freed [] \<longleftrightarrow> False"
| "runs_out cur freed ((left, occupied) # rest) \<longleftrightarrow>
     (let steps = (case rest of [] \<Rightarrow> left | s # _ \<Rightarrow> fst s); bs = of_nat (Suc (length rest))
      in cur + freed - steps * bs \<le> 0 \<or> runs_out cur (freed + of_int occupied) rest)"

definition add_one_req_ignore_eos :: "sched_req \<Rightarrow> PrefillAdder \<Rightarrow> AddReqResult result \<times> PrefillAdder" where
  "add_one_req_ignore_eos r A =
     andThen (update_states r A) (\<lambda>ss A1.
       if runs_out (of_int (cur_rem_tokens A1 - int (length (q_origin_input_ids r)))) 0 ss
       then (Inr NO_TOKEN, A1)
       else if (case pa_rem_chunk_tokens A1 of None \<Rightarrow> True | Some n \<Rightarrow> q_extend_input_len r \<le> n)
       then (case q_max_new_tokens r of
               None \<Rightarrow> (Inl TypeError, run_also r A1)
             | Some m \<Rightarrow>
                 (let A2 = prefill_one_req 0 (q_extend_input_len r) (clip m) (run_also r A1)
                  in (Inr (budget_state A2), A2)))
       else
         (let n = the (pa_rem_chunk_tokens A1)
          in if n = 0 then (Inr OTHER, A1)
             else
               (let r1 = r\<lparr>q_extend_input_len := n, q_fill_ids := py_take n (q_fill_ids r)\<rparr>;
                    A2 = prefill_one_req 0 n 0 ((run_also r1 A1)\<lparr>pa_new_chunked_req := Some r1\<rparr>)
                in (Inr (budget_state A2), A2))))"

definition on_tree ::
  "(RadixCache \<Rightarrow> ('a result \<times> RadixCache) option) \<Rightarrow> PrefillAdder \<Rightarrow> ('a result \<times> PrefillAdder) option" where
  "on_tree f A = map_option (\<lambda>(res, c). (res, A\<lparr>pa_tree := c\<rparr>)) (f (pa_tree A))"

text \<open>Locks on the last node of a request; a request without one raises unless the cache is off.\<close>

definition lock_req :: "sched_req \<Rightarrow> RadixCache \<Rightarrow> (int result \<times> RadixCache) option" where
  "lock_req r c =
     (case q_last_node r of
        Some i \<Rightarrow> inc_lock_ref i c
      | None \<Rightarrow> Some (if disable c then Inr 0 else Inl AttributeError, c))"

definition unlock_req :: "sched_req \<Rightarrow> RadixCache \<Rightarrow> (int result \<times> RadixCache) option" where
  "unlock_req r c =
     (case q_last_node r of
        Some i \<Rightarrow> dec_lock_ref i c
      | None \<Rightarrow> Some (if disable c then Inr 0 else Inl AttributeError, c))"

text \<open>\<open>with self._lock_node(...)\<close>: the unlock runs on every way out; its own exception wins.\<close>

definition with_lock ::
  "sched_req \<Rightarrow> (PrefillAdder \<Rightarrow> ('a result \<times> PrefillAdder) option) \<Rightarrow> PrefillAdder
     \<Rightarrow> ('a result \<times> PrefillAdder) option" where
  "with_lock r body A =
     Option.bind (thenO (on_tree (lock_req r) A) (\<lambda>_ A1. body A1)) (\<lambda>(res, A2).
       thenO (on_tree (unlock_req r) A2) (\<lambda>_ A3. Some (res, A3)))"

definition ceil_tokens :: "nat \<Rightarrow> int \<Rightarrow> int" where
  "ceil_tokens ps n = - ((- n) div int ps) * int ps"

definition admit_body ::
  "sched_req \<Rightarrow> int \<Rightarrow> PrefillAdder \<Rightarrow> (AddReqResult option result \<times> PrefillAdder) option" where
  "admit_body r m A =
     (let ps = page_size (pa_tree A);
          total = q_extend_input_len r + clip m;
          input = ceil_tokens ps (q_extend_input_len r);
          prefix_len = int (length (q_prefix_indices r))
      in if rem_total_tokens A < of_int total then Some (Inr (Some NO_TOKEN), A)
         else if (case pa_rem_chunk_tokens A of None \<Rightarrow> True | Some n \<Rightarrow> input \<le> n)
         then thenO (on_tree (lock_req r) (run_also r A))
                (\<lambda>_ A1. Some (Inr None, prefill_one_req prefix_len input (clip m) A1))
         else
           (let trunc_len = the (pa_rem_chunk_tokens A) - int ps + 1
            in if trunc_len \<le> 0 then Some (Inr (Some OTHER), A)
               else
                 (let r1 = r\<lparr>q_extend_input_len := trunc_len,
                             q_fill_ids := py_take (prefix_len + trunc_len) (q_fill_ids r)\<rparr>
                  in thenO (on_tree (lock_req r1) ((run_also r1 A)\<lparr>pa_new_chunked_req := Some r1\<rparr>))
                       (\<lambda>_ A1. Some (Inr None, prefill_one_req prefix_len trunc_len 0 A1)))))"

definition add_one_req :: "sched_req \<Rightarrow> PrefillAdder \<Rightarrow> (AddReqResult result \<times> PrefillAdder) option" where
  "add_one_req r A =
     (if sp_ignore_eos (q_sampling_params r) \<and> disable (pa_tree A)
      then Some (add_one_req_ignore_eos r A)
      else case q_max_new_tokens r of
        None \<Rightarrow> Some (Inl TypeError, A)
      | Some m \<Rightarrow>
          if rem_total_tokens A \<le> of_int (q_extend_input_len r + clip m) then Some (Inr NO_TOKEN, A)
          else if pa_rem_input_tokens A < ceil_tokens (page_size (pa_tree A)) (q_extend_input_len r) \<and>
                  pa_can_run_list A \<noteq> [] then Some (Inr OTHER, A)
          else thenO (with_lock r (admit_body r m) A) (\<lambda>early A1.
                 Some (Inr (case early of Some res \<Rightarrow> res | None \<Rightarrow> budget_state A1), A1)))"

section \<open>Locks and budgets of one added request\<close>

lemma ceil_tokens_bounds:
  assumes "0 < ps"
  shows "n \<le> ceil_tokens ps n" "ceil_tokens ps n < n + int ps"
proof -
  have "(- n) mod int ps = - n - (- n) div int ps * int ps" by (simp add: minus_div_mult_eq_mod)
  moreover have "0 \<le> (- n) mod int ps" "(- n) mod int ps < int ps" using assms by simp_all
  ultimately show "n \<le> ceil_tokens ps n" "ceil_tokens ps n < n + int ps"
    by (simp_all add: ceil_tokens_def)
qed

text \<open>What a request that is taken looks like in the batch: whole, or its first chunk.\<close>

definition batch_part :: "sched_req \<Rightarrow> int \<Rightarrow> sched_req" where
  "batch_part r n =
     r\<lparr>q_extend_input_len := n,
       q_fill_ids := py_take (int (length (q_prefix_indices r)) + n) (q_fill_ids r)\<rparr>"

definition taken ::
  "sched_req \<Rightarrow> int \<Rightarrow> nat list \<Rightarrow> PrefillAdder \<Rightarrow> PrefillAdder \<Rightarrow> bool" where
  "taken r m xs A A' \<longleftrightarrow>
     (let A1 = A\<lparr>pa_tree := lock_path xs (pa_tree A)\<rparr>; p = int (length (q_prefix_indices r));
          ps = page_size (pa_tree A); input = ceil_tokens ps (q_extend_input_len r)
      in of_int (q_extend_input_len r + clip m) \<le> rem_total_tokens A1 \<and>
         ((\<forall>n. pa_rem_chunk_tokens A = Some n \<longrightarrow> input \<le> n) \<and>
            A' = prefill_one_req p input (clip m) (run_also r A1) \<or>
          (\<exists>n. pa_rem_chunk_tokens A = Some n \<and> n < input \<and> int ps \<le> n \<and>
            A' = prefill_one_req p (n - int ps + 1) 0
                   ((run_also (batch_part r (n - int ps + 1)) A1)
                      \<lparr>pa_new_chunked_req := Some (batch_part r (n - int ps + 1))\<rparr>))))"

text \<open>A request whose last node hangs below the root of a working cache.\<close>

definition lockable :: "sched_req \<Rightarrow> nat list \<Rightarrow> RadixCache \<Rightarrow> bool" where
  "lockable r xs c \<longleftrightarrow>
     cache_ok c \<and> \<not> disable c \<and> (\<exists>i. q_last_node r = Some i \<and> chain (nodes c) (root_node c) i xs)"

lemma lockable_again: "lockable r xs c \<Longrightarrow> lockable r xs (lock_path xs c)"
  by (auto simp: lockable_def cache_ok_lock_path chain_shift_locks)

lemma lock_req_path:
  assumes "lockable r xs c"
  shows "\<exists>d. lock_req r c = Some (Inr d, lock_path xs c)" "\<exists>d. unlock_req r (lock_path xs c) = Some (Inr d, c)"
  using assms inc_lock_path[of c _ xs] dec_lock_path[of c _ xs]
  by (auto simp: lockable_def lock_req_def unlock_req_def)

lemma with_lock_refused:
  assumes "lockable r xs (pa_tree A)"
    and "body (A\<lparr>pa_tree := lock_path xs (pa_tree A)\<rparr>) = Some (Inr (Some res), A\<lparr>pa_tree := lock_path xs (pa_tree A)\<rparr>)"
  shows "with_lock r body A = Some (Inr (Some res), A)"
  using lock_req_path[OF assms(1)] assms(2) by (auto simp: with_lock_def on_tree_def thenO_def)

lemma with_lock_taken:
  assumes "lockable r xs (pa_tree A)" "pa_tree B = lock_path xs (pa_tree A)"
    and "body (A\<lparr>pa_tree := lock_path xs (pa_tree A)\<rparr>)
           = Some (Inr None, B\<lparr>pa_tree := lock_path xs (lock_path xs (pa_tree A))\<rparr>)"
  shows "with_lock r body A = Some (Inr None, B)"
  using lock_req_path[OF assms(1)] lock_req_path[OF lockable_again[OF assms(1)]] assms(2,3)
  by (auto simp: with_lock_def on_tree_def thenO_def)

lemma batch_part_lock: "lock_req (batch_part r n) = lock_req r"
  by (simp add: lock_req_def batch_part_def fun_eq_iff)

lemma pa_tree_simps [simp]:
  "pa_tree (prefill_one_req p e m A) = pa_tree A" "pa_tree (run_also r A) = pa_tree A"
  "prefill_one_req p e m (A\<lparr>pa_tree := c\<rparr>) = (prefill_one_req p e m A)\<lparr>pa_tree := c\<rparr>"
  by (simp_all add: prefill_one_req_def run_also_def)

lemma add_one_req_cases:
  assumes lk: "lockable r xs (pa_tree A)" and m: "q_max_new_tokens r = Some m"
  obtains (refused) res where "add_one_req r A = Some (Inr res, A)" "res \<noteq> CONTINUE"
    | (taken) A' where "add_one_req r A = Some (Inr (budget_state A'), A')" "taken r m xs A A'"
proof -
  let ?c1 = "lock_path xs (pa_tree A)"
  let ?A1 = "A\<lparr>pa_tree := ?c1\<rparr>" and ?ps = "page_size (pa_tree A)"
  let ?in = "ceil_tokens ?ps (q_extend_input_len r)" and ?p = "int (length (q_prefix_indices r))"
  have on: "\<not> disable (pa_tree A)" using lk by (simp add: lockable_def)
  obtain d where d: "lock_req r ?c1 = Some (Inr d, lock_path xs ?c1)"
    using lock_req_path(1)[OF lockable_again[OF lk]] by blast
  have early: "(\<exists>res. add_one_req r A = Some (Inr res, A) \<and> res \<noteq> CONTINUE) \<or>
      add_one_req r A = thenO (with_lock r (admit_body r m) A) (\<lambda>early A1.
        Some (Inr (case early of Some res \<Rightarrow> res | None \<Rightarrow> budget_state A1), A1))"
    using m on by (simp add: add_one_req_def)
  have refuse: thesis if "admit_body r m ?A1 = Some (Inr (Some res), ?A1)" "res \<noteq> CONTINUE" for res
    using early with_lock_refused[OF lk, of "admit_body r m", OF that(1)] that(2) refused
    by (auto simp: thenO_def)
  have take_it: thesis if "admit_body r m ?A1 = Some (Inr None, B\<lparr>pa_tree := lock_path xs ?c1\<rparr>)"
    "pa_tree B = ?c1" "taken r m xs A B" for B
    using early with_lock_taken[OF lk that(2), of "admit_body r m", OF that(1)] taken refused that(3)
    by (auto simp: thenO_def)
  consider (short) "rem_total_tokens ?A1 < of_int (q_extend_input_len r + clip m)"
    | (whole) "\<not> rem_total_tokens ?A1 < of_int (q_extend_input_len r + clip m)"
        "\<forall>n. pa_rem_chunk_tokens A = Some n \<longrightarrow> ?in \<le> n"
    | (page) n where "\<not> rem_total_tokens ?A1 < of_int (q_extend_input_len r + clip m)"
        "pa_rem_chunk_tokens A = Some n" "n < ?in" "n < int ?ps"
    | (chunk) n where "\<not> rem_total_tokens ?A1 < of_int (q_extend_input_len r + clip m)"
        "pa_rem_chunk_tokens A = Some n" "n < ?in" "int ?ps \<le> n" by fastforce
  then show thesis
  proof cases
    case short
    then show thesis using refuse[of NO_TOKEN] by (simp add: admit_body_def Let_def)
  next
    case whole
    then show thesis
      using take_it[of "prefill_one_req ?p ?in (clip m) (run_also r ?A1)"] d
      by (auto simp: admit_body_def taken_def Let_def on_tree_def thenO_def split: option.splits)
  next
    case page
    then show thesis using refuse[of OTHER] by (simp add: admit_body_def Let_def)
  next
    case chunk
    let ?n = "n - int ?ps + 1"
    show thesis
      using take_it[of "prefill_one_req ?p ?n 0
          ((run_also (batch_part r ?n) ?A1)\<lparr>pa_new_chunked_req := Some (batch_part r ?n)\<rparr>)"] d chunk
      by (simp add: admit_body_def taken_def Let_def on_tree_def thenO_def batch_part_def[symmetric] batch_part_lock)
  qed
qed

lemma taken_facts:
  assumes "taken r m xs A A'" and "0 < page_size (pa_tree A)" and "0 \<le> m"
  shows "pa_tree A' = lock_path xs (pa_tree A)"
    and "\<exists>s. pa_can_run_list A' = pa_can_run_list A @ [s] \<and> q_rid s = q_rid r \<and> q_last_node s = q_last_node r"
    and "- of_nat (page_size (pa_tree A)) < rem_total_tokens A'"
    and "pa_rem_chunk_tokens A' = Some k \<Longrightarrow> 0 \<le> k"
proof -
  let ?ps = "int (page_size (pa_tree A))" and ?e = "q_extend_input_len r"
  let ?in = "ceil_tokens (page_size (pa_tree A)) ?e" and ?p = "int (length (q_prefix_indices r))"
  let ?A1 = "A\<lparr>pa_tree := lock_path xs (pa_tree A)\<rparr>"
  have le: "?e \<le> ?in" "?in < ?e + ?ps" using ceil_tokens_bounds[OF assms(2)] by simp_all
  have rem: "of_int (?e + clip m) \<le> rem_total_tokens ?A1" using assms(1) by (simp add: taken_def Let_def)
  have rem1: "rem_total_tokens (prefill_one_req p e k B) = rem_total_tokens B - of_int (e + k)" for p e k B
    by (simp add: rem_total_tokens_def pool_tokens_def prefill_one_req_def)
  have rem2: "rem_total_tokens (run_also s B) = rem_total_tokens B"
    "rem_total_tokens (B\<lparr>pa_new_chunked_req := x\<rparr>) = rem_total_tokens B" for s x B
    by (simp_all add: rem_total_tokens_def pool_tokens_def run_also_def)
  have of: "rat_of_int x \<le> rem_total_tokens ?A1 \<Longrightarrow> x - y > z \<Longrightarrow> rat_of_int z < rem_total_tokens ?A1 - of_int y"
    for x y z using of_int_less_iff[of z "x - y", where 'a = rat] by simp
  from assms(1) consider (whole) "\<forall>n. pa_rem_chunk_tokens A = Some n \<longrightarrow> ?in \<le> n"
      "A' = prefill_one_req ?p ?in (clip m) (run_also r ?A1)"
    | (chunk) n where "pa_rem_chunk_tokens A = Some n" "n < ?in" "?ps \<le> n"
        "A' = prefill_one_req ?p (n - ?ps + 1) 0 ((run_also (batch_part r (n - ?ps + 1)) ?A1)
                 \<lparr>pa_new_chunked_req := Some (batch_part r (n - ?ps + 1))\<rparr>)"
    by (auto simp: taken_def Let_def)
  note c = this
  show "pa_tree A' = lock_path xs (pa_tree A)" by (cases rule: c) simp_all
  show "\<exists>s. pa_can_run_list A' = pa_can_run_list A @ [s] \<and> q_rid s = q_rid r \<and> q_last_node s = q_last_node r"
    by (cases rule: c) (auto simp: prefill_one_req_def run_also_def batch_part_def)
  show "- of_nat (page_size (pa_tree A)) < rem_total_tokens A'"
  proof (cases rule: c)
    case whole
    then show ?thesis using of[OF rem, of "- ?ps" "?in + clip m"] le(2) by (simp add: rem1 rem2)
  next
    case chunk
    have "0 \<le> clip m" using assms(3) by (simp add: clip_def CLIP_MAX_NEW_TOKENS_ESTIMATION_def)
    then show ?thesis using of[OF rem, of "- ?ps" "n - ?ps + 1"] chunk le by (simp add: rem1 rem2)
  qed
  show "0 \<le> k" if "pa_rem_chunk_tokens A' = Some k"
    using that assms(2) by (cases rule: c) (auto simp: prefill_one_req_def run_also_def)
qed

section \<open>Properties\<close>

text \<open>A cache with one cached prompt, a request that reuses it, and an adder over both.\<close>

definition demo_tree :: RadixCache where
  "demo_tree = demo_insert [1, 2, 3] ''al'' (demo_cache ''strict'' False)"

definition demo_req :: sched_req where
  "demo_req = (req_init ''r'' None [1, 2, 3, 4, 5] (default_params\<lparr>sp_max_new_tokens := Some 2\<rparr>) False False None None None)
     \<lparr>q_last_node := Some 2, q_prefix_indices := [11, 12, 13], q_fill_ids := [1, 2, 3, 4, 5], q_extend_input_len := 2\<rparr>"

definition demo_adder :: PrefillAdder where
  "demo_adder = \<lparr> pa_tree = demo_tree, pa_running = None, pa_new_token_ratio = 1, pa_rem_input_tokens = 100,
     pa_rem_chunk_tokens = Some 8, pa_rem_total_token_offset = 0, pa_cur_rem_token_offset = 0,
     pa_req_states = None, pa_can_run_list = [], pa_new_chunked_req = None, pa_log_hit_tokens = 0,
     pa_log_input_tokens = 0 \<rparr>"

lemma demo_lockable: "lockable demo_req [2, 1] (pa_tree demo_adder)"
proof -
  have "cache_ok demo_tree" unfolding demo_tree_def
    by (intro demo_insert_ok demo_cache_ok) (simp add: cache_eval)
  moreover have "\<not> disable demo_tree \<and> chain (nodes demo_tree) (root_node demo_tree) 2 [2, 1]"
    by (simp add: demo_tree_def cache_eval)
  ultimately show ?thesis by (simp add: lockable_def demo_req_def demo_adder_def)
qed

lemma demo_adder_prefill: "prefill_adder_init demo_tree None 1 100 (Some 8) 0 = Inr demo_adder"
  by (simp add: prefill_adder_init_def demo_adder_def)

lemma demo_taken:
  "\<exists>res A'. add_one_req demo_req demo_adder = Some (Inr res, A') \<and> A' \<noteq> demo_adder"
proof -
  have "pa_can_run_list (snd (the (add_one_req demo_req demo_adder))) \<noteq> []"
    by (simp add: add_one_req_def demo_adder_def demo_req_def with_lock_def admit_body_def on_tree_def thenO_def
        lock_req_def unlock_req_def rem_total_tokens_def pool_tokens_def evictable_size_def clip_def
        CLIP_MAX_NEW_TOKENS_ESTIMATION_def ceil_tokens_def req_init_def default_params_def
        inc_lock_ref_def dec_lock_ref_def inc_lock_loop.simps dec_lock_loop.simps prefill_one_req_def
        run_also_def demo_tree_def allocator_init_def alloc_clear_def available_size_def cache_eval)
  moreover have "q_max_new_tokens demo_req = Some 2" by (simp add: demo_req_def req_init_def default_params_def)
  ultimately show ?thesis
    by (cases rule: add_one_req_cases[OF demo_lockable]) (auto simp: demo_adder_def)
qed

text \<open>
  Adding a request to a prefill batch ends without an exception and never leaks a lock.  A request
  that is refused leaves the adder, the batch and the whole radix cache exactly as they were; a
  request that is taken is appended to the batch once, whole or as a chunk, and the cache is the one
  that a single \<open>inc_lock_ref\<close> of its last node gives.
\<close>

theorem add_one_req_locks_once:
  assumes "lockable r xs (pa_tree A)" and "q_max_new_tokens r = Some m" and "0 \<le> m"
  shows "\<exists>res A'. add_one_req r A = Some (Inr res, A') \<and>
     (A' = A \<and> res \<noteq> CONTINUE \<or>
      (\<exists>s d. pa_can_run_list A' = pa_can_run_list A @ [s] \<and> q_rid s = q_rid r \<and>
         lock_req r (pa_tree A) = Some (Inr d, pa_tree A')))"
  using assms(1,2)
proof (cases rule: add_one_req_cases)
  case (refused res)
  then show ?thesis by blast
next
  case (taken A')
  have "0 < page_size (pa_tree A)" using assms(1) by (auto simp: lockable_def cache_ok_def tree_ok_def)
  note t = taken_facts[OF taken(2) this assms(3)]
  show ?thesis using taken(1) t(1,2) lock_req_path(1)[OF assms(1)] by metis
qed

theorem add_one_req_locks_once_witness:
  "\<exists>res A'. add_one_req demo_req demo_adder = Some (Inr res, A') \<and> A' \<noteq> demo_adder \<and>
     (\<exists>s d. pa_can_run_list A' = [s] \<and> q_rid s = ''r'' \<and>
        lock_req demo_req demo_tree = Some (Inr d, pa_tree A'))"
proof -
  have "q_max_new_tokens demo_req = Some 2" by (simp add: demo_req_def req_init_def default_params_def)
  from add_one_req_locks_once[OF demo_lockable this] demo_taken
  show ?thesis by (auto simp: demo_adder_def) (auto simp: demo_req_def req_init_def)
qed

text \<open>
  C27: the budgets of a prefill batch.  When a request is taken, the tokens that remain in the pool
  after all reservations are short by less than one page, so the batch never reserves a full page
  more than the pool and the evictable cache hold; and the chunk budget never becomes negative.
\<close>

theorem add_one_req_budget:
  assumes "lockable r xs (pa_tree A)" and "q_max_new_tokens r = Some m" and "0 \<le> m"
    and "add_one_req r A = Some (Inr res, A')" and "A' \<noteq> A"
  shows "- of_nat (page_size (pa_tree A)) < rem_total_tokens A' \<and>
     (\<forall>n. pa_rem_chunk_tokens A' = Some n \<longrightarrow> 0 \<le> n)"
  using assms(1,2)
proof (cases rule: add_one_req_cases)
  case (refused res')
  then show ?thesis using assms(4,5) by simp
next
  case (taken B)
  have ps: "0 < page_size (pa_tree A)" using assms(1) by (auto simp: lockable_def cache_ok_def tree_ok_def)
  have "B = A'" using taken(1) assms(4) by simp
  then show ?thesis using taken_facts(3,4)[OF taken(2) ps assms(3)] by blast
qed

theorem add_one_req_budget_witness:
  "\<exists>res A'. add_one_req demo_req demo_adder = Some (Inr res, A') \<and> A' \<noteq> demo_adder \<and>
     - of_nat (page_size demo_tree) < rem_total_tokens A'"
proof -
  have m: "q_max_new_tokens demo_req = Some 2" by (simp add: demo_req_def req_init_def default_params_def)
  obtain res A' where a: "add_one_req demo_req demo_adder = Some (Inr res, A')" "A' \<noteq> demo_adder"
    using demo_taken by blast
  from add_one_req_budget[OF demo_lockable m _ a] a show ?thesis by (auto simp: demo_adder_def)
qed

text \<open>
  The sorted insertion of \<open>add_one_req_ignore_eos\<close> is not sorted.  An entry that is larger than
  all of a non-empty list is inserted before the last one, so the list is out of order whenever a
  request with the most tokens left arrives.
\<close>

theorem insert_state_unsorted:
  assumes "ss \<noteq> []" and "\<forall>s \<in> set ss. fst s < left"
  shows "insert_state (left, occupied) ss = butlast ss @ [(left, occupied), last ss] \<and>
     \<not> sorted (map fst (insert_state (left, occupied) ss))"
proof -
  have "insert_position left ss = length ss - 1"
    using assms by (induction left ss rule: insert_position.induct) auto
  then have eq: "insert_state (left, occupied) ss = butlast ss @ [(left, occupied), last ss]"
    using assms(1) by (simp add: insert_state_def butlast_conv_take)
      (metis Cons_nth_drop_Suc One_nat_def Suc_pred diff_less drop_all last_conv_nth length_greater_0_conv
         lessI order_refl)
  have "fst (last ss) < left" using assms by simp
  then show ?thesis unfolding eq by (simp add: sorted_append)
qed

theorem insert_state_unsorted_witness:
  "insert_state (9, 1) [(2, 1), (5, 1)] = [(2, 1), (9, 1), (5, 1)] \<and>
   \<not> sorted (map fst (insert_state (9, 1) [(2, 1), (5, 1)]))"
  using insert_state_unsorted[of "[(2, 1), (5, 1)]" 9 1] by simp

end
