(* ===== verification/Reasoning.thy ===== *)
theory Reasoning
  imports Py_Strings Principal
begin

text \<open>
  \<open>reasoning_parser.py\<close>: the split of a model's output into reasoning and answer, in one piece and
  incrementally, and what the incremental parser guarantees for a sequence of chunks.
\<close>

section \<open>Detectors\<close>

record StreamingParseResult =
  normal_text :: string
  reasoning_text :: string

record detector =
  think_start_token :: string
  think_end_token :: string
  in_reasoning :: bool
  stream_reasoning :: bool
  dt_buffer :: string
  stripped_think_start :: bool

definition detector_init :: "string \<Rightarrow> string \<Rightarrow> bool \<Rightarrow> bool \<Rightarrow> detector" where
  "detector_init start_tok end_tok force stream =
     \<lparr> think_start_token = start_tok, think_end_token = end_tok, in_reasoning = force,
       stream_reasoning = stream, dt_buffer = [], stripped_think_start = False \<rparr>"

definition detect_and_parse :: "detector \<Rightarrow> string \<Rightarrow> StreamingParseResult" where
  "detect_and_parse d input =
     (let txt = strip (remove_all (think_start_token d) input)
      in case cut_at (think_end_token d) txt of
           None \<Rightarrow> \<lparr> normal_text = [], reasoning_text = txt \<rparr>
         | Some (before, after) \<Rightarrow> \<lparr> normal_text = strip after, reasoning_text = before \<rparr>)"

definition parse_streaming_increment :: "string \<Rightarrow> detector \<Rightarrow> StreamingParseResult \<times> detector" where
  "parse_streaming_increment new_text d =
     (let d0 = d\<lparr>dt_buffer := dt_buffer d @ new_text\<rparr>;
          strips = (\<not> stripped_think_start d0 \<and> str_in (think_start_token d0) (dt_buffer d0));
          cur = (if strips then remove_all (think_start_token d0) (dt_buffer d0) else dt_buffer d0);
          d1 = (if strips then d0\<lparr>stripped_think_start := True\<rparr> else d0)
      in if in_reasoning d1
         then (case cut_at (think_end_token d1) cur of
                 Some (before, after) \<Rightarrow>
                   (\<lparr> normal_text = after, reasoning_text = rstrip before \<rparr>,
                    d1\<lparr>dt_buffer := [], in_reasoning := False\<rparr>)
               | None \<Rightarrow>
                   if stream_reasoning d1
                   then (\<lparr> normal_text = [], reasoning_text = cur \<rparr>, d1\<lparr>dt_buffer := []\<rparr>)
                   else (\<lparr> normal_text = [], reasoning_text = [] \<rparr>, d1))
         else (\<lparr> normal_text = new_text, reasoning_text = [] \<rparr>, d1\<lparr>dt_buffer := []\<rparr>))"

definition deepseek_r1_detector :: "bool \<Rightarrow> detector" where
  "deepseek_r1_detector stream = detector_init ''<think>'' ''</think>'' True stream"

definition qwen3_detector :: "bool \<Rightarrow> detector" where
  "qwen3_detector stream = detector_init ''<think>'' ''</think>'' True stream"

definition reasoning_parser_init :: "string option \<Rightarrow> bool \<Rightarrow> detector result" where
  "reasoning_parser_init model_type stream =
     (case model_type of
        None \<Rightarrow> Inl (ValueError ''Model type must be specified'')
      | Some m \<Rightarrow>
          if m = [] then Inl (ValueError ''Model type must be specified'')
          else if str_lower m = ''deepseek-r1'' then Inr (deepseek_r1_detector stream)
          else if str_lower m = ''qwen3'' then Inr (qwen3_detector stream)
          else Inl (ValueError (''Unsupported model type: '' @ m)))"

definition parse_non_stream :: "detector \<Rightarrow> string \<Rightarrow> string \<times> string" where
  "parse_non_stream d full_text =
     (let ret = detect_and_parse d full_text in (reasoning_text ret, normal_text ret))"

definition parse_stream_chunk :: "string \<Rightarrow> detector \<Rightarrow> (string \<times> string) \<times> detector" where
  "parse_stream_chunk chunk d =
     (case parse_streaming_increment chunk d of
        (ret, d') \<Rightarrow> ((reasoning_text ret, normal_text ret), d'))"

text \<open>A whole stream.\<close>

fun parse_stream :: "string list \<Rightarrow> detector \<Rightarrow> (string \<times> string) list \<times> detector" where
  "parse_stream [] d = ([], d)"
| "parse_stream (c # cs) d =
     (let (out, d1) = parse_stream_chunk c d; (outs, d2) = parse_stream cs d1 in (out # outs, d2))"

section \<open>Lemmas\<close>

lemma parse_stream_append:
  "parse_stream (xs @ ys) d =
     (let (o1, d1) = parse_stream xs d; (o2, d2) = parse_stream ys d1 in (o1 @ o2, d2))"
  by (induction xs arbitrary: d) (auto simp: Let_def split: prod.splits)

lemma answer_chunk:
  assumes "\<not> in_reasoning d" "dt_buffer d = []"
  shows "\<exists>d'. parse_stream_chunk c d = (([], c), d') \<and> \<not> in_reasoning d' \<and> dt_buffer d' = []"
  using assms by (simp add: parse_stream_chunk_def parse_streaming_increment_def Let_def)

lemma answer_chunks:
  "\<not> in_reasoning d \<Longrightarrow> dt_buffer d = [] \<Longrightarrow> fst (parse_stream cs d) = map (\<lambda>c. ([], c)) cs"
proof (induction cs arbitrary: d)
  case (Cons c cs)
  obtain d' where "parse_stream_chunk c d = (([], c), d')" "\<not> in_reasoning d'" "dt_buffer d' = []"
    using answer_chunk Cons.prems by blast
  then show ?case using Cons.IH[of d'] by (simp add: Let_def split_beta)
qed simp

text \<open>A detector that is inside the reasoning block, streams and holds no text back.\<close>

definition streaming :: "detector \<Rightarrow> bool" where
  "streaming d \<longleftrightarrow> in_reasoning d \<and> stream_reasoning d \<and> dt_buffer d = []"

lemma reasoning_chunk:
  assumes "streaming d" "\<not> str_in (think_start_token d) c" "\<not> str_in (think_end_token d) c"
  shows "parse_stream_chunk c d = ((c, []), d)"
proof -
  have "cut_at (think_end_token d) c = None" using assms(3) cut_None by blast
  then show ?thesis
    using assms(1,2) by (simp add: streaming_def parse_stream_chunk_def parse_streaming_increment_def Let_def)
qed

lemma reasoning_chunks:
  "streaming d \<Longrightarrow> \<forall>c \<in> set cs. \<not> str_in (think_start_token d) c \<and> \<not> str_in (think_end_token d) c \<Longrightarrow>
     parse_stream cs d = (map (\<lambda>c. (c, [])) cs, d)"
  by (induction cs) (simp_all add: reasoning_chunk)

lemma closing_chunk:
  assumes "streaming d" "\<not> str_in (think_start_token d) c" "cut_at (think_end_token d) c = Some (a, b)"
  shows "\<exists>d'. parse_stream_chunk c d = ((rstrip a, b), d') \<and> \<not> in_reasoning d' \<and> dt_buffer d' = []"
  using assms
  by (simp add: streaming_def parse_stream_chunk_def parse_streaming_increment_def Let_def)

section \<open>Properties\<close>



text \<open>
  The parser does not join a tag that is split over two chunks when it streams: the text is passed on
  piecewise and the answer is reported as reasoning.
\<close>

lemma split_end_tag_missed:
  "fst (parse_stream [''x</th'', ''ink>y''] (deepseek_r1_detector True)) = [(''x</th'', []), (''ink>y'', [])]"
  by (simp add: deepseek_r1_detector_def detector_init_def parse_stream_chunk_def
      parse_streaming_increment_def str_in_def cut_at.simps)

text \<open>
  When reasoning is accumulated, the start tag is removed from the text at hand but not from the
  buffer; with the end tag in a later chunk the start tag is reported as reasoning.
\<close>

lemma start_tag_leaks:
  "fst (parse_stream [''<think>x'', ''y</think>z''] (deepseek_r1_detector False)) = [([], []), (''<think>xy'', ''z'')]"
  by (simp add: deepseek_r1_detector_def detector_init_def parse_stream_chunk_def
      parse_streaming_increment_def str_in_def cut_at.simps remove_all.simps rstrip_def is_space_def)

end
