(* ===== verification/Session_Controller.thy ===== *)
theory Session_Controller
  imports Sched_Req
begin

text \<open>
  \<open>managers/session_controller.py\<close>: sessions as trees of requests.  The nodes live in an arena; the
  dictionary \<open>req_nodes\<close> maps request ids to nodes.  A method that walks the tree may not end and
  is wrapped in \<open>option\<close>.
\<close>

section \<open>State\<close>

record SessionReqNode =
  sn_req :: sched_req
  sn_parent :: "nat option"
  sn_childs :: "nat list"

record Session =
  ss_session_id :: string
  ss_capacity_of_str_len :: int
  ss_req_nodes :: "(string \<times> nat) list"
  ss_arena :: "SessionReqNode list"

record SessionParams =
  par_rid :: "string option"
  par_offset :: "int option"
  par_replace :: bool

record TokenizedGenerateReqInput =
  in_rid :: string
  in_input_ids :: "int list"
  in_sampling_params :: SamplingParams
  in_return_logprob :: bool
  in_stream :: bool
  in_session_params :: "SessionParams option"

definition session_init :: "string \<Rightarrow> int \<Rightarrow> Session" where
  "session_init sid cap =
     \<lparr> ss_session_id = sid, ss_capacity_of_str_len = cap, ss_req_nodes = [], ss_arena = [] \<rparr>"

section \<open>Nodes\<close>

text \<open>\<open>SessionReqNode.__init__\<close>: a new node, appended to the children of its parent.\<close>

definition new_session_node :: "sched_req \<Rightarrow> nat option \<Rightarrow> Session \<Rightarrow> nat \<times> Session" where
  "new_session_node r parent S =
     (let i = length (ss_arena S);
          a = (case parent of
                 None \<Rightarrow> ss_arena S
               | Some p \<Rightarrow> (ss_arena S)[p := (ss_arena S ! p)\<lparr>sn_childs := sn_childs (ss_arena S ! p) @ [i]\<rparr>])
      in (i, S\<lparr>ss_arena := a @ [\<lparr> sn_req = r, sn_parent = parent, sn_childs = [] \<rparr>]\<rparr>))"

definition abort_node :: "nat \<Rightarrow> Session \<Rightarrow> Session" where
  "abort_node i S =
     (let t = ss_arena S ! i
      in if q_finished_reason (sn_req t) = None
         then S\<lparr>ss_arena := (ss_arena S)[i := t\<lparr>sn_req := (sn_req t)\<lparr>q_to_abort := True\<rparr>\<rparr>]\<rparr>
         else S)"

definition drop_node :: "nat \<Rightarrow> Session \<Rightarrow> unit result \<times> Session" where
  "drop_node i S =
     (let S1 = abort_node i S; rid = q_rid (sn_req (ss_arena S1 ! i))
      in if map_of (ss_req_nodes S1) rid = None then (Inl (KeyError rid), S1)
         else (Inr (), S1\<lparr>ss_req_nodes := dict_pop rid (ss_req_nodes S1)\<rparr>))"

text \<open>\<open>clear\<close> on every node of a list: the children first, then the node itself.\<close>

partial_function (option) clear_nodes :: "nat list \<Rightarrow> Session \<Rightarrow> (unit result \<times> Session) option" where
  "clear_nodes todo S =
     (case todo of
        [] \<Rightarrow> Some (Inr (), S)
      | i # rest \<Rightarrow>
          Option.bind (clear_nodes (sn_childs (ss_arena S ! i)) S) (\<lambda>(res, S1).
            case res of
              Inl e \<Rightarrow> Some (Inl e, S1)
            | Inr _ \<Rightarrow>
                (case drop_node i S1 of
                   (Inl e, S2) \<Rightarrow> Some (Inl e, S2)
                 | (Inr _, S2) \<Rightarrow> clear_nodes rest S2)))"

definition clear_childs :: "nat \<Rightarrow> Session \<Rightarrow> (unit result \<times> Session) option" where
  "clear_childs i S =
     thenO (clear_nodes (sn_childs (ss_arena S ! i)) S) (\<lambda>_ S1.
       Some (Inr (), S1\<lparr>ss_arena := (ss_arena S1)[i := (ss_arena S1 ! i)\<lparr>sn_childs := []\<rparr>]\<rparr>))"

section \<open>New requests of a session\<close>

text \<open>
  The node a request continues, and whether the request is to be aborted.  Clearing a whole session
  deletes from the dictionary that is being iterated: the iterator notices the changed size when it
  is asked for the next entry, also after the last one.
\<close>

definition find_last ::
  "SessionParams \<Rightarrow> Session \<Rightarrow> ((nat option \<times> bool) result \<times> Session) option" where
  "find_last p S =
     (case par_rid p of
        None \<Rightarrow>
          if \<not> par_replace p \<or> ss_req_nodes S = [] then Some (Inr (None, False), S)
          else thenO (clear_nodes [snd (hd (ss_req_nodes S))] S) (\<lambda>_ S1.
                 Some (Inl (RuntimeError ''dictionary changed size during iteration''), S1))
      | Some rid \<Rightarrow>
          (case map_of (ss_req_nodes S) rid of
             None \<Rightarrow> Some (Inr (None, True), S)
           | Some i \<Rightarrow>
               if par_replace p
               then thenO (clear_childs i (abort_node i S)) (\<lambda>_ S1. Some (Inr (Some i, False), S1))
               else Some (Inr (Some i, \<not> req_finished (sn_req (ss_arena S ! i))), S)))"

definition kept_output :: "sched_req \<Rightarrow> int list" where
  "kept_output r =
     (case q_max_new_tokens r of None \<Rightarrow> q_output_ids r | Some m \<Rightarrow> py_take m (q_output_ids r))"

definition continue_ids :: "int option \<Rightarrow> int list \<Rightarrow> int list \<Rightarrow> int list" where
  "continue_ids offset old new =
     (case offset of
        None \<Rightarrow> old @ new
      | Some n \<Rightarrow> if n = 0 then old @ new else py_take n old @ new)"

definition trimmed_input :: "tokenizer option \<Rightarrow> int list \<Rightarrow> int list result" where
  "trimmed_input tk ids =
     (case tk of
        None \<Rightarrow> Inr ids
      | Some t \<Rightarrow>
          if ids = [] then Inl IndexError
          else Inr (if tk_bos t = Some (hd ids) then tl ids else ids))"

definition session_ids ::
  "tokenizer option \<Rightarrow> SessionParams \<Rightarrow> sched_req option \<Rightarrow> int list \<Rightarrow> (int list \<times> int list) result" where
  "session_ids tk p last_req ids =
     (case last_req of
        None \<Rightarrow> Inr (ids, ids)
      | Some r \<Rightarrow>
          bindE (trimmed_input tk ids) (\<lambda>ids1.
            Inr (continue_ids (par_offset p) (q_origin_input_ids r @ kept_output r) ids1,
                 continue_ids (par_offset p) (q_origin_input_ids_unpadded r @ kept_output r) ids1)))"

text \<open>
  \<open>Session.create_req\<close>.  A request that continues another one reads \<open>last_req.mm_inputs\<close>, which no
  \<open>Req\<close> has: the attribute is called \<open>multimodal_inputs\<close>.
\<close>

definition create_req ::
  "tokenizer option \<Rightarrow> TokenizedGenerateReqInput \<Rightarrow> Session \<Rightarrow> (sched_req result \<times> Session) option" where
  "create_req tk req S =
     (case in_session_params req of
        None \<Rightarrow> Some (Inl AssertionError, S)
      | Some p \<Rightarrow>
          thenO (find_last p S) (\<lambda>(last_node, abort) S1.
            case session_ids tk p (map_option (\<lambda>i. sn_req (ss_arena S1 ! i)) last_node) (in_input_ids req) of
              Inl e \<Rightarrow> Some (Inl e, S1)
            | Inr (ids, unpadded) \<Rightarrow>
                (let r = req_init (in_rid req) None ids (in_sampling_params req) (in_return_logprob req)
                           (in_stream req) (Some unpadded) (Some (ss_session_id S1)) None
                 in if last_node \<noteq> None then Some (Inl AttributeError, S1)
                    else
                      (let r1 = r\<lparr>q_tokenizer := tk\<rparr>
                       in if abort then Some (Inr (r1\<lparr>q_to_abort := True\<rparr>), S1)
                          else case new_session_node r1 last_node S1 of
                                 (i, S2) \<Rightarrow>
                                   Some (Inr r1, S2\<lparr>ss_req_nodes :=
                                           dict_set (in_rid req) i (ss_req_nodes S2)\<rparr>)))))"

declare clear_nodes.simps [code]

lemma thenO_Inr:
  "thenO m f = Some (Inr y, t) \<longleftrightarrow> (\<exists>x s. m = Some (Inr x, s) \<and> f x s = Some (Inr y, t))"
  by (auto simp: thenO_def bind_eq_Some_conv split: sum.splits) (metis sum.exhaust)

lemma create_req_returns:
  assumes "create_req tk req S = Some (Inr r, S')" "in_session_params req = Some p"
  shows "\<exists>ab S1. find_last p S = Some (Inr (None, ab), S1)"
proof (cases "find_last p S")
  case None
  then show ?thesis using assms by (simp add: create_req_def thenO_def)
next
  case (Some x)
  obtain res S1 where x: "x = (res, S1)" by (cases x)
  show ?thesis
  proof (cases res)
    case (Inl e)
    then show ?thesis using assms Some x by (simp add: create_req_def thenO_def)
  next
    case (Inr q)
    obtain ln ab where q: "q = (ln, ab)" by (cases q)
    show ?thesis
      using assms Some x Inr q
      by (cases ln; cases "session_ids tk p (map_option (\<lambda>i. sn_req (ss_arena S1 ! i)) ln) (in_input_ids req)")
        (auto simp: create_req_def thenO_def Let_def)
  qed
qed

section \<open>Property\<close>

text \<open>
  A session starts requests but never continues one.  A request without a parent, on a session
  that it does not replace, is created with its own tokens, unfinished and not aborted, and is
  registered under its id.  A request that names an existing request of the session, and a request
  that replaces a non-empty session, never comes back as a request: each run raises.
\<close>

theorem session_never_continues:
  assumes "in_session_params req = Some p"
  shows "(par_rid p = None \<and> \<not> par_replace p \<longrightarrow>
       (\<exists>r S'. create_req tk req S = Some (Inr r, S') \<and> q_origin_input_ids r = in_input_ids req \<and>
          q_finished_reason r = None \<and> \<not> q_to_abort r \<and>
          (\<exists>i. map_of (ss_req_nodes S') (in_rid req) = Some i \<and> i < length (ss_arena S') \<and> sn_req (ss_arena S' ! i) = r))) \<and>
     ((\<exists>rid i. par_rid p = Some rid \<and> map_of (ss_req_nodes S) rid = Some i) \<or>
      par_rid p = None \<and> par_replace p \<and> ss_req_nodes S \<noteq> [] \<longrightarrow>
        (\<forall>r S'. create_req tk req S \<noteq> Some (Inr r, S')))"
proof (intro conjI impI allI)
  assume "par_rid p = None \<and> \<not> par_replace p"
  then show "\<exists>r S'. create_req tk req S = Some (Inr r, S') \<and> q_origin_input_ids r = in_input_ids req \<and>
          q_finished_reason r = None \<and> \<not> q_to_abort r \<and>
          (\<exists>i. map_of (ss_req_nodes S') (in_rid req) = Some i \<and> i < length (ss_arena S') \<and> sn_req (ss_arena S' ! i) = r)"
    using assms
    by (simp add: create_req_def find_last_def thenO_def session_ids_def new_session_node_def Let_def
        req_init_def map_of_dict_set)
next
  fix r S'
  assume bad: "(\<exists>rid i. par_rid p = Some rid \<and> map_of (ss_req_nodes S) rid = Some i) \<or>
      par_rid p = None \<and> par_replace p \<and> ss_req_nodes S \<noteq> []"
  have last: "ln \<noteq> None" if "find_last p S = Some (Inr (ln, ab), S1)" for ln ab S1
    using that bad by (auto simp: find_last_def thenO_Inr split: if_splits) (metis+)
  then show "create_req tk req S \<noteq> Some (Inr r, S')"
    using create_req_returns[OF _ assms, of tk S r S'] by blast
qed

theorem session_never_continues_witness:
  "let first = \<lparr> in_rid = ''a'', in_input_ids = [1, 2], in_sampling_params = default_params,
        in_return_logprob = False, in_stream = False,
        in_session_params = Some \<lparr> par_rid = None, par_offset = None, par_replace = False \<rparr> \<rparr>;
       second = first\<lparr>in_rid := ''b'', in_session_params := Some \<lparr> par_rid = Some ''a'', par_offset = None, par_replace = False \<rparr>\<rparr>;
       S = snd (the (create_req None first (session_init ''s'' 100)))
   in map fst (ss_req_nodes S) = [''a''] \<and> (\<forall>r S'. create_req None second S \<noteq> Some (Inr r, S'))"
proof -
  let ?first = "\<lparr> in_rid = ''a'', in_input_ids = [1, 2], in_sampling_params = default_params,
        in_return_logprob = False, in_stream = False,
        in_session_params = Some \<lparr> par_rid = None, par_offset = None, par_replace = False \<rparr> \<rparr>"
  let ?p = "\<lparr> par_rid = Some ''a'', par_offset = None, par_replace = False \<rparr>"
  let ?second = "?first\<lparr>in_rid := ''b'', in_session_params := Some ?p\<rparr>"
  let ?S = "snd (the (create_req None ?first (session_init ''s'' 100)))"
  have S: "ss_req_nodes ?S = [(''a'', 0)]"
    by (simp add: create_req_def find_last_def thenO_def session_ids_def new_session_node_def Let_def
        session_init_def)
  have "in_session_params ?second = Some ?p" by simp
  from session_never_continues[OF this, of None ?S] S show ?thesis by (simp add: Let_def)
qed

end
