(* ===== verification/Chunk_Cache.thy ===== *)
theory Chunk_Cache
  imports Radix_Path
begin

text \<open>
  \<open>mem_cache/chunk_cache.py\<close>: the cache used when the radix cache is off.  It shares nothing between
  requests: a lookup finds nothing, eviction and locks do nothing, and a finished request returns its
  row and its KV slots.
\<close>

record ChunkCache =
  cc_req_to_token_pool :: ReqToTokenPool
  cc_kv_pool_allocator :: kv_allocator
  cc_page_size :: nat

definition chunk_reset :: "ChunkCache \<Rightarrow> ChunkCache" where
  "chunk_reset c = c"

definition chunk_match_prefix :: "ChunkCache \<Rightarrow> int list \<times> nat option" where
  "chunk_match_prefix c = ([], None)"

definition chunk_row :: "nat \<Rightarrow> nat \<Rightarrow> ChunkCache \<Rightarrow> int list result" where
  "chunk_row row n c =
     (if row < length (req_to_token (cc_req_to_token_pool c))
      then Inr (take n (req_to_token (cc_req_to_token_pool c) ! row)) else Inl IndexError)"

definition chunk_finished_req :: "Req \<Rightarrow> ChunkCache \<Rightarrow> unit result \<times> ChunkCache" where
  "chunk_finished_req r c =
     (case chunk_row (r_req_pool_idx r) (length (r_origin_input_ids r) + (length (r_output_ids r) - 1)) c of
        Inl e \<Rightarrow> (Inl e, c)
      | Inr kv_indices \<Rightarrow>
          (let c1 = c\<lparr>cc_req_to_token_pool := req_pool_free [r_req_pool_idx r] (cc_req_to_token_pool c)\<rparr>
           in case kv_free kv_indices (cc_kv_pool_allocator c1) of
                (res, a) \<Rightarrow> (res, c1\<lparr>cc_kv_pool_allocator := a\<rparr>)))"

definition chunk_unfinished_req :: "Req \<Rightarrow> ChunkCache \<Rightarrow> Req result" where
  "chunk_unfinished_req r c =
     bindE (chunk_row (r_req_pool_idx r) (length (r_fill_ids r)) c)
       (\<lambda>kv_indices. Inr (r\<lparr>r_prefix_indices := kv_indices\<rparr>))"

definition chunk_insert :: "ChunkCache \<Rightarrow> nat result" where
  "chunk_insert c = Inl NotImplementedError"

definition chunk_evict :: "int \<Rightarrow> ChunkCache \<Rightarrow> ChunkCache" where
  "chunk_evict n c = c"

definition chunk_inc_lock_ref :: "nat option \<Rightarrow> ChunkCache \<Rightarrow> int" where
  "chunk_inc_lock_ref node c = 0"

definition chunk_dec_lock_ref :: "nat option \<Rightarrow> ChunkCache \<Rightarrow> int" where
  "chunk_dec_lock_ref node c = 0"

text \<open>It serves the same interface as the radix cache.\<close>

interpretation chunk: prefix_cache "\<lambda>key c. (Inr (chunk_match_prefix c), c)" "\<lambda>_. True"
  by unfold_locales (auto simp: chunk_match_prefix_def)

text \<open>
  A finished request gives back exactly the slots in its row, all of them when the row holds no more
  than its tokens without the last one.
\<close>

lemma chunk_finished_frees:
  assumes "cc_kv_pool_allocator c = Slots a" "is_not_in_free_group a"
    "r_req_pool_idx r < length (req_to_token (cc_req_to_token_pool c))"
  shows "\<exists>a'. chunk_finished_req r c =
      (Inr (), c\<lparr>cc_req_to_token_pool := req_pool_free [r_req_pool_idx r] (cc_req_to_token_pool c),
                 cc_kv_pool_allocator := Slots a'\<rparr>) \<and>
     mset (free_slots a') = mset (free_slots a) +
       mset (take (length (r_origin_input_ids r) + (length (r_output_ids r) - 1))
               (req_to_token (cc_req_to_token_pool c) ! r_req_pool_idx r))"
  using assms by (auto simp: chunk_finished_req_def chunk_row_def free_def Let_def)

end
