(* ===== verification/Host_Pool.thy ===== *)
theory Host_Pool
  imports Prelude "HOL-Library.Multiset"
begin

text \<open>
  \<open>mem_cache/memory_pool.py\<close>, class \<open>HostKVCache\<close>: the slots of the host memory that backs the
  hierarchical cache, and the state each slot goes through.  States are kept in debug mode only; the
  methods that are decorated \<open>synchronized(debug_only=True)\<close> answer \<open>True\<close> without looking
  otherwise.  The data buffers and their transfers are device memory and not modelled.  The lock of
  the decorator is never taken: the call returns before the \<open>with\<close> block.
\<close>

section \<open>State\<close>

datatype MemoryStateInt = IDLE | RESERVED | PROTECTED | SYNCED | BACKUP

record HostKVCache =
  hk_size :: nat
  hk_debug :: bool
  hk_mem_state :: "MemoryStateInt list"
  hk_free_slots :: "nat list"

definition host_clear :: "HostKVCache \<Rightarrow> HostKVCache" where
  "host_clear h = h\<lparr>hk_mem_state := replicate (hk_size h) IDLE, hk_free_slots := [0..<hk_size h]\<rparr>"

text \<open>
  The constructor: the size from a number of gigabytes or as a multiple of the device pool, rounded
  down to whole pages, larger than the device pool and within the free host memory less ten
  gigabytes.
\<close>

definition host_slots :: "int \<Rightarrow> nat \<Rightarrow> rat \<Rightarrow> nat \<Rightarrow> nat \<Rightarrow> nat" where
  "host_slots host_size device_size ratio per_token page =
     (let n = (if 0 < host_size then nat (host_size * 1000000000 div int per_token)
               else nat \<lfloor>of_nat device_size * ratio\<rfloor>)
      in n - n mod page)"

definition host_init ::
  "int \<Rightarrow> nat \<Rightarrow> rat \<Rightarrow> nat \<Rightarrow> nat \<Rightarrow> int \<Rightarrow> bool \<Rightarrow> HostKVCache result" where
  "host_init host_size device_size ratio per_token page free_memory debug =
     (let n = host_slots host_size device_size ratio per_token page
      in if \<not> device_size < n then Inl AssertionError
         else if free_memory - 10 * 1024 ^ 3 < int n * int per_token
         then Inl (ValueError ''Not enough host memory available.'')
         else Inr (host_clear \<lparr> hk_size = n, hk_debug = debug, hk_mem_state = [], hk_free_slots = [] \<rparr>))"

definition host_available_size :: "HostKVCache \<Rightarrow> nat" where
  "host_available_size h = length (hk_free_slots h)"

section \<open>Operations\<close>

definition set_states :: "nat list \<Rightarrow> MemoryStateInt \<Rightarrow> HostKVCache \<Rightarrow> HostKVCache" where
  "set_states idx s h = h\<lparr>hk_mem_state := fold (\<lambda>i m. m[i := s]) idx (hk_mem_state h)\<rparr>"

definition host_alloc :: "nat \<Rightarrow> HostKVCache \<Rightarrow> nat list option \<times> HostKVCache" where
  "host_alloc need h =
     (if host_available_size h < need then (None, h)
      else
        (let idx = take need (hk_free_slots h); h1 = h\<lparr>hk_free_slots := drop need (hk_free_slots h)\<rparr>
         in (Some idx, if hk_debug h1 then set_states idx RESERVED h1 else h1)))"

text \<open>An index beyond the pool is refused by the tensor assignment, after the list was extended.\<close>

definition in_range :: "nat list \<Rightarrow> HostKVCache \<Rightarrow> bool" where
  "in_range idx h \<longleftrightarrow> (\<forall>i \<in> set idx. i < length (hk_mem_state h))"

definition assign_states :: "nat list \<Rightarrow> MemoryStateInt \<Rightarrow> HostKVCache \<Rightarrow> unit result \<times> HostKVCache" where
  "assign_states idx s h = (if in_range idx h then (Inr (), set_states idx s h) else (Inl IndexError, h))"

definition host_free :: "nat list \<Rightarrow> HostKVCache \<Rightarrow> nat result \<times> HostKVCache" where
  "host_free idx h =
     (let h1 = h\<lparr>hk_free_slots := hk_free_slots h @ idx\<rparr>
      in andThen (if hk_debug h1 then assign_states idx IDLE h1 else (Inr (), h1))
           (\<lambda>_ h2. (Inr (length idx), h2)))"

definition get_state :: "nat list \<Rightarrow> HostKVCache \<Rightarrow> MemoryStateInt result" where
  "get_state idx h =
     (if idx = [] then Inl AssertionError
      else if \<not> in_range idx h then Inl IndexError
      else if \<forall>i \<in> set idx. hk_mem_state h ! i = hk_mem_state h ! hd idx then Inr (hk_mem_state h ! hd idx)
      else Inl AssertionError)"

definition is_state :: "MemoryStateInt \<Rightarrow> nat list \<Rightarrow> HostKVCache \<Rightarrow> bool result" where
  "is_state s idx h = (if hk_debug h then bindE (get_state idx h) (\<lambda>t. Inr (t = s)) else Inr True)"

definition move_state ::
  "MemoryStateInt \<Rightarrow> MemoryStateInt \<Rightarrow> string \<Rightarrow> nat list \<Rightarrow> HostKVCache \<Rightarrow> unit result \<times> HostKVCache" where
  "move_state from_state to_state msg idx h =
     (if \<not> hk_debug h then (Inr (), h)
      else case is_state from_state idx h of
             Inl e \<Rightarrow> (Inl e, h)
           | Inr False \<Rightarrow> (Inl (ValueError msg), h)
           | Inr True \<Rightarrow> assign_states idx to_state h)"

definition is_reserved :: "nat list \<Rightarrow> HostKVCache \<Rightarrow> bool result" where
  "is_reserved = is_state RESERVED"

definition is_protected :: "nat list \<Rightarrow> HostKVCache \<Rightarrow> bool result" where
  "is_protected = is_state PROTECTED"

definition is_synced :: "nat list \<Rightarrow> HostKVCache \<Rightarrow> bool result" where
  "is_synced = is_state SYNCED"

definition is_backup :: "nat list \<Rightarrow> HostKVCache \<Rightarrow> bool result" where
  "is_backup = is_state BACKUP"

definition update_backup :: "nat list \<Rightarrow> HostKVCache \<Rightarrow> unit result \<times> HostKVCache" where
  "update_backup = move_state SYNCED BACKUP
     ''The host memory slots should be in SYNCED state before turning into BACKUP. ''"

definition update_synced :: "nat list \<Rightarrow> HostKVCache \<Rightarrow> unit result \<times> HostKVCache" where
  "update_synced idx h = (if hk_debug h then assign_states idx SYNCED h else (Inr (), h))"

definition protect_write :: "nat list \<Rightarrow> HostKVCache \<Rightarrow> unit result \<times> HostKVCache" where
  "protect_write = move_state RESERVED PROTECTED
     ''The host memory slots should be RESERVED before write operations. ''"

definition protect_load :: "nat list \<Rightarrow> HostKVCache \<Rightarrow> unit result \<times> HostKVCache" where
  "protect_load = move_state BACKUP PROTECTED
     ''The host memory slots should be in BACKUP state before load operations. ''"

definition complete_io :: "nat list \<Rightarrow> HostKVCache \<Rightarrow> unit result \<times> HostKVCache" where
  "complete_io = move_state PROTECTED SYNCED
     ''The host memory slots should be PROTECTED during I/O operations. ''"

section \<open>The pool as a state machine\<close>

text \<open>
  A client frees and synchronises only slots it holds; the guarded operations may be tried on any
  slots.
\<close>

definition held :: "nat list \<Rightarrow> HostKVCache \<Rightarrow> bool" where
  "held idx h \<longleftrightarrow> distinct idx \<and> in_range idx h \<and> set idx \<inter> set (hk_free_slots h) = {}"

inductive host_step :: "HostKVCache \<Rightarrow> HostKVCache \<Rightarrow> bool" where
  step_alloc: "host_step h (snd (host_alloc n h))"
| step_free: "held idx h \<Longrightarrow> host_step h (snd (host_free idx h))"
| step_write: "host_step h (snd (protect_write idx h))"
| step_load: "host_step h (snd (protect_load idx h))"
| step_io: "host_step h (snd (complete_io idx h))"
| step_backup: "host_step h (snd (update_backup idx h))"
| step_synced: "held idx h \<Longrightarrow> host_step h (snd (update_synced idx h))"

inductive host_reachable :: "HostKVCache \<Rightarrow> bool" where
  host_start: "host_init host_size device_size ratio per_token page free_memory True = Inr h \<Longrightarrow> host_reachable h"
| host_next: "host_reachable h \<Longrightarrow> host_step h h' \<Longrightarrow> host_reachable h'"

definition host_inv :: "HostKVCache \<Rightarrow> bool" where
  "host_inv h \<longleftrightarrow>
     hk_debug h \<and> length (hk_mem_state h) = hk_size h \<and> distinct (hk_free_slots h) \<and>
     set (hk_free_slots h) \<subseteq> {..<hk_size h} \<and>
     (\<forall>i < hk_size h. hk_mem_state h ! i = IDLE \<longleftrightarrow> i \<in> set (hk_free_slots h))"

text \<open>The life of a slot: reserved, written or loaded under protection, synchronised, backed up.\<close>

fun may_become :: "MemoryStateInt \<Rightarrow> MemoryStateInt \<Rightarrow> bool" where
  "may_become IDLE s \<longleftrightarrow> s \<in> {IDLE, RESERVED}"
| "may_become RESERVED s \<longleftrightarrow> s \<in> {RESERVED, PROTECTED, SYNCED, IDLE}"
| "may_become PROTECTED s \<longleftrightarrow> s \<in> {PROTECTED, SYNCED, IDLE}"
| "may_become SYNCED s \<longleftrightarrow> s \<in> {SYNCED, BACKUP, IDLE}"
| "may_become BACKUP s \<longleftrightarrow> s \<in> {BACKUP, PROTECTED, SYNCED, IDLE}"

definition good_step :: "HostKVCache \<Rightarrow> HostKVCache \<Rightarrow> bool" where
  "good_step h h' \<longleftrightarrow>
     host_inv h' \<and> hk_size h' = hk_size h \<and>
     (\<forall>i < hk_size h. may_become (hk_mem_state h ! i) (hk_mem_state h' ! i))"

lemma may_become_refl [simp]: "may_become s s"
  by (cases s) simp_all

lemma good_step_refl: "host_inv h \<Longrightarrow> good_step h h"
  by (simp add: good_step_def)

lemma length_set_states [simp]: "length (hk_mem_state (set_states idx s h)) = length (hk_mem_state h)"
proof -
  have "length (fold (\<lambda>i m. m[i := s]) idx m) = length m" for m by (induction idx arbitrary: m) auto
  then show ?thesis by (simp add: set_states_def)
qed

lemma nth_set_states:
  "i < length (hk_mem_state h) \<Longrightarrow>
     hk_mem_state (set_states idx s h) ! i = (if i \<in> set idx then s else hk_mem_state h ! i)"
proof -
  have "i < length m \<Longrightarrow> fold (\<lambda>i m. m[i := s]) idx m ! i = (if i \<in> set idx then s else m ! i)" for m
    by (induction idx arbitrary: m) (auto simp: nth_list_update)
  then show "i < length (hk_mem_state h) \<Longrightarrow> ?thesis" by (simp add: set_states_def)
qed

lemma set_states_fields [simp]:
  "hk_free_slots (set_states idx s h) = hk_free_slots h" "hk_size (set_states idx s h) = hk_size h"
  "hk_debug (set_states idx s h) = hk_debug h"
  by (simp_all add: set_states_def)

lemma host_alloc_good: "host_inv h \<Longrightarrow> good_step h (snd (host_alloc n h))"
proof (cases "host_available_size h < n")
  case False
  assume inv: "host_inv h"
  let ?T = "take n (hk_free_slots h)" and ?D = "drop n (hk_free_slots h)"
  have un: "set (hk_free_slots h) = set ?T \<union> set ?D" by (metis append_take_drop_id set_append)
  have dis: "set ?T \<inter> set ?D = {}" "distinct ?D"
    using inv by (simp_all add: host_inv_def set_take_disj_set_drop_if_distinct)
  have eq: "snd (host_alloc n h) = set_states ?T RESERVED (h\<lparr>hk_free_slots := ?D\<rparr>)"
    using inv False by (simp add: host_alloc_def Let_def host_inv_def)
  show ?thesis
    unfolding eq using inv un dis by (auto simp: good_step_def host_inv_def nth_set_states)
qed (simp add: host_alloc_def good_step_refl)

lemma host_free_good: "host_inv h \<Longrightarrow> held idx h \<Longrightarrow> good_step h (snd (host_free idx h))"
proof -
  assume inv: "host_inv h" and hd: "held idx h"
  have to_idle: "may_become s IDLE" for s by (cases s) simp_all
  show ?thesis
    using inv hd to_idle
    by (auto simp: host_free_def assign_states_def in_range_def held_def good_step_def host_inv_def nth_set_states)
qed

lemma move_state_good:
  assumes "host_inv h" "s \<noteq> IDLE" "t \<noteq> IDLE" "may_become s t"
  shows "good_step h (snd (move_state s t msg idx h))"
proof (cases "is_state s idx h = Inr True \<and> in_range idx h")
  case True
  have g: "get_state idx h = Inr s" using True assms(1) by (auto simp: is_state_def host_inv_def)
  have st: "hk_mem_state h ! i = s" if "i \<in> set idx" for i
    using g that unfolding get_state_def by (metis Inl_Inr_False Inr_inject)
  have eq: "snd (move_state s t msg idx h) = set_states idx t h"
    using True assms(1) by (simp add: move_state_def assign_states_def host_inv_def)
  have r: "i < hk_size h" if "i \<in> set idx" for i
    using True assms(1) that by (simp add: in_range_def host_inv_def)
  show ?thesis
    unfolding eq using assms st r by (auto simp: good_step_def host_inv_def nth_set_states)
qed (use assms(1) in \<open>auto simp: move_state_def assign_states_def good_step_refl split: sum.splits bool.splits\<close>)

lemma update_synced_good: "host_inv h \<Longrightarrow> held idx h \<Longrightarrow> good_step h (snd (update_synced idx h))"
proof -
  assume inv: "host_inv h" and hd: "held idx h"
  have to_synced: "s \<noteq> IDLE \<Longrightarrow> may_become s SYNCED" for s by (cases s) simp_all
  have "hk_mem_state h ! i \<noteq> IDLE" if "i \<in> set idx" for i
    using inv hd that by (auto simp: host_inv_def held_def in_range_def)
  then show ?thesis
    using inv hd to_synced
    by (auto simp: update_synced_def assign_states_def in_range_def held_def good_step_def host_inv_def nth_set_states)
qed

lemma host_step_good: "host_step h h' \<Longrightarrow> host_inv h \<Longrightarrow> good_step h h'"
  by (induction rule: host_step.induct)
    (auto simp: protect_write_def protect_load_def complete_io_def update_backup_def
      intro: host_alloc_good host_free_good move_state_good update_synced_good)

lemma host_init_inv:
  "host_init host_size device_size ratio per_token page free_memory True = Inr h \<Longrightarrow> host_inv h"
  by (auto simp: host_init_def host_clear_def host_inv_def Let_def split: if_splits)

section \<open>Property\<close>



end
