(* ===== verification/Batch_Memory.thy ===== *)
theory Batch_Memory
  imports Prefill_Adder Radix_Evict Radix_Reach Chunk_Cache
begin

text \<open>
  \<open>managers/schedule_batch.py\<close>, class \<open>ScheduleBatch\<close>: how a batch obtains memory and gives it back.
  The pools of a batch are those of its tree cache, which the scheduler creates with them, so the tree
  cache is the whole state; it is a radix cache or a chunk cache.  Log output is not modelled.
\<close>

section \<open>The tree cache of a batch\<close>

datatype tree_cache = RadixTree RadixCache | ChunkTree ChunkCache

fun tc_allocator :: "tree_cache \<Rightarrow> kv_allocator" where
  "tc_allocator (RadixTree c) = token_to_kv_pool_allocator c"
| "tc_allocator (ChunkTree c) = cc_kv_pool_allocator c"

fun tc_set_allocator :: "kv_allocator \<Rightarrow> tree_cache \<Rightarrow> tree_cache" where
  "tc_set_allocator a (RadixTree c) = RadixTree (c\<lparr>token_to_kv_pool_allocator := a\<rparr>)"
| "tc_set_allocator a (ChunkTree c) = ChunkTree (c\<lparr>cc_kv_pool_allocator := a\<rparr>)"

fun tc_pool :: "tree_cache \<Rightarrow> ReqToTokenPool" where
  "tc_pool (RadixTree c) = req_to_token_pool c"
| "tc_pool (ChunkTree c) = cc_req_to_token_pool c"

fun tc_set_pool :: "ReqToTokenPool \<Rightarrow> tree_cache \<Rightarrow> tree_cache" where
  "tc_set_pool p (RadixTree c) = RadixTree (c\<lparr>req_to_token_pool := p\<rparr>)"
| "tc_set_pool p (ChunkTree c) = ChunkTree (c\<lparr>cc_req_to_token_pool := p\<rparr>)"

definition on_radix :: "('a \<times> RadixCache) option \<Rightarrow> ('a \<times> tree_cache) option" where
  "on_radix = map_option (\<lambda>(r, c). (r, RadixTree c))"

fun tc_evict :: "cache_env \<Rightarrow> int \<Rightarrow> tree_cache \<Rightarrow> (unit result \<times> tree_cache) option" where
  "tc_evict env n (RadixTree c) = on_radix (evict env n c)"
| "tc_evict env n (ChunkTree c) = Some (Inr (), ChunkTree (chunk_evict n c))"

fun tc_dec_lock_ref :: "sched_req \<Rightarrow> tree_cache \<Rightarrow> (int result \<times> tree_cache) option" where
  "tc_dec_lock_ref r (RadixTree c) = on_radix (unlock_req r c)"
| "tc_dec_lock_ref r (ChunkTree c) = Some (Inr (chunk_dec_lock_ref (q_last_node r) c), ChunkTree c)"

fun kv_page_size :: "kv_allocator \<Rightarrow> nat" where
  "kv_page_size (Slots a) = 1"
| "kv_page_size (Pages a) = pg_page_size a"

fun kv_alloc :: "nat \<Rightarrow> kv_allocator \<Rightarrow> int list option result \<times> kv_allocator" where
  "kv_alloc n (Slots a) = (case alloc n a of (r, a') \<Rightarrow> (Inr r, Slots a'))"
| "kv_alloc n (Pages a) = (case paged_alloc n a of (r, a') \<Rightarrow> (r, Pages a'))"

fun kv_backup_state :: "kv_allocator \<Rightarrow> int list" where
  "kv_backup_state (Slots a) = backup_state a"
| "kv_backup_state (Pages a) = paged_backup_state a"

text \<open>Only the paged allocator has the two page-aware methods.\<close>

fun kv_alloc_extend ::
  "int list \<Rightarrow> (nat \<times> nat) list \<Rightarrow> int list \<Rightarrow> nat \<Rightarrow> kv_allocator
     \<Rightarrow> int list option result \<times> kv_allocator" where
  "kv_alloc_extend buf lens last_loc n (Slots a) = (Inl AttributeError, Slots a)"
| "kv_alloc_extend buf lens last_loc n (Pages a) =
     (case alloc_extend buf lens last_loc n a of (r, a') \<Rightarrow> (r, Pages a'))"

fun kv_alloc_decode ::
  "int list \<Rightarrow> nat list \<Rightarrow> int list \<Rightarrow> kv_allocator \<Rightarrow> int list option result \<times> kv_allocator" where
  "kv_alloc_decode buf seq_lens last_loc (Slots a) = (Inl AttributeError, Slots a)"
| "kv_alloc_decode buf seq_lens last_loc (Pages a) =
     (case alloc_decode buf seq_lens last_loc a of (r, a') \<Rightarrow> (r, Pages a'))"

definition tc_available :: "tree_cache \<Rightarrow> int" where
  "tc_available t = kv_available (tc_allocator t)"

definition on_allocator ::
  "(kv_allocator \<Rightarrow> 'a result \<times> kv_allocator) \<Rightarrow> tree_cache \<Rightarrow> 'a result \<times> tree_cache" where
  "on_allocator f t = (case f (tc_allocator t) of (r, a) \<Rightarrow> (r, tc_set_allocator a t))"

definition evict_below :: "cache_env \<Rightarrow> int \<Rightarrow> tree_cache \<Rightarrow> (unit result \<times> tree_cache) option" where
  "evict_below env n t = (if tc_available t < n then tc_evict env n t else Some (Inr (), t))"

section \<open>Allocation\<close>

definition alloc_req_slots :: "nat \<Rightarrow> tree_cache \<Rightarrow> nat list result \<times> tree_cache" where
  "alloc_req_slots num_reqs t =
     (case req_pool_alloc num_reqs (tc_pool t) of
        (None, p) \<Rightarrow>
          (Inl (RuntimeError (''alloc_req_slots runs out of memory. '' @
             ''Please set a smaller number for `--max-running-requests`. '' @
             ''self.req_to_token_pool.available_size()='' @ show_nat (req_pool_available_size p) @
             '', num_reqs='' @ show_nat num_reqs @ '', '')), tc_set_pool p t)
      | (Some idx, p) \<Rightarrow> (Inr idx, tc_set_pool p t))"

text \<open>The loop after a failed allocation: at most as many attempts as the first argument says.\<close>

fun retry_alloc ::
  "nat \<Rightarrow> cache_env \<Rightarrow> nat \<Rightarrow> tree_cache \<Rightarrow> (int list option result \<times> tree_cache) option" where
  "retry_alloc 0 env n t = Some (Inr None, t)"
| "retry_alloc (Suc tries) env n t =
     thenO (tc_evict env (int n) t) (\<lambda>_ t1.
     thenO (Some (on_allocator (kv_alloc n) t1)) (\<lambda>out t2.
       case out of Some slots \<Rightarrow> Some (Inr (Some slots), t2) | None \<Rightarrow> retry_alloc tries env n t2))"

text \<open>
  The result is the slots and the allocator state before the allocation, which is returned only when
  \<open>backup_state\<close> is set.  When all attempts fail the error is logged and \<open>None\<close> is returned.
\<close>

definition alloc_token_slots ::
  "cache_env \<Rightarrow> nat \<Rightarrow> bool \<Rightarrow> tree_cache
     \<Rightarrow> ((int list option \<times> int list option) result \<times> tree_cache) option" where
  "alloc_token_slots env n backup t =
     thenO (evict_below env (int n + 2000) t) (\<lambda>_ t1.
     let state = (if backup then Some (kv_backup_state (tc_allocator t1)) else None)
     in thenO (Some (on_allocator (kv_alloc n) t1)) (\<lambda>out t2.
        thenO (case out of Some slots \<Rightarrow> Some (Inr (Some slots), t2) | None \<Rightarrow> retry_alloc 10 env n t2)
          (\<lambda>out t3. Some (Inr (out, state), t3))))"

definition out_of_memory :: "string \<Rightarrow> nat \<Rightarrow> tree_cache \<Rightarrow> pyexc" where
  "out_of_memory phase n t =
     (let free = tc_available t;
          evictable = (case t of RadixTree c \<Rightarrow> evictable_size c | ChunkTree _ \<Rightarrow> 0)
      in RuntimeError (phase @ '' out of memory. Try to lower your batch size.'' @ [CHR 0x0A] @
           ''Try to allocate '' @ show_nat n @ '' tokens.'' @ [CHR 0x0A] @
           ''Available tokens: '' @ show_int (free + evictable) @ [CHR 0x0A] @
           ''self.token_to_kv_pool_allocator.available_size()='' @ show_int free @ [CHR 0x0A] @
           ''self.tree_cache.evictable_size()='' @ show_int evictable @ [CHR 0x0A]))"

text \<open>
  The paged variants; \<open>buf\<close> is the content of the output tensor before the kernel runs
  (\<open>torch.empty\<close>).  Here a failure is raised.
\<close>

definition slots_or_raise ::
  "string \<Rightarrow> nat \<Rightarrow> int list option \<Rightarrow> int list option \<Rightarrow> tree_cache
     \<Rightarrow> (int list \<times> int list option) result \<times> tree_cache" where
  "slots_or_raise phase n state out t =
     (case out of None \<Rightarrow> (Inl (out_of_memory phase n t), t) | Some slots \<Rightarrow> (Inr (slots, state), t))"

definition alloc_paged_token_slots_extend ::
  "cache_env \<Rightarrow> int list \<Rightarrow> (nat \<times> nat) list \<Rightarrow> int list \<Rightarrow> nat \<Rightarrow> bool \<Rightarrow> tree_cache
     \<Rightarrow> ((int list \<times> int list option) result \<times> tree_cache) option" where
  "alloc_paged_token_slots_extend env buf lens last_loc n backup t =
     thenO (evict_below env (int n + int (length lens) * int (kv_page_size (tc_allocator t))) t) (\<lambda>_ t1.
     let state = (if backup then Some (kv_backup_state (tc_allocator t1)) else None)
     in thenO (Some (on_allocator (kv_alloc_extend buf lens last_loc n) t1)) (\<lambda>out t2.
        Some (slots_or_raise ''Prefill'' n state out t2)))"

definition alloc_paged_token_slots_decode ::
  "cache_env \<Rightarrow> int list \<Rightarrow> nat list \<Rightarrow> int list \<Rightarrow> bool \<Rightarrow> tree_cache
     \<Rightarrow> ((int list \<times> int list option) result \<times> tree_cache) option" where
  "alloc_paged_token_slots_decode env buf seq_lens last_loc backup t =
     thenO (evict_below env (int (length seq_lens) * int (kv_page_size (tc_allocator t))) t) (\<lambda>_ t1.
     let state = (if backup then Some (kv_backup_state (tc_allocator t1)) else None)
     in thenO (Some (on_allocator (kv_alloc_decode buf seq_lens last_loc) t1)) (\<lambda>out t2.
        Some (slots_or_raise ''Decode'' (length seq_lens) state out t2)))"

definition new_page_count_next_decode :: "sched_req list \<Rightarrow> tree_cache \<Rightarrow> nat" where
  "new_page_count_next_decode reqs t =
     (let ps = kv_page_size (tc_allocator t)
      in if ps = 1 then length reqs else length (filter (\<lambda>r. seqlen r mod ps = 0) reqs))"

definition check_decode_mem ::
  "cache_env \<Rightarrow> nat \<Rightarrow> sched_req list \<Rightarrow> tree_cache \<Rightarrow> (bool result \<times> tree_cache) option" where
  "check_decode_mem env buf_multiplier reqs t =
     (let tokens_required =
            int (new_page_count_next_decode reqs t * buf_multiplier * kv_page_size (tc_allocator t))
      in if tc_available t \<ge> tokens_required then Some (Inr True, t)
         else thenO (tc_evict env tokens_required t)
                (\<lambda>_ t1. Some (Inr (tc_available t1 \<ge> tokens_required), t1)))"

section \<open>Retraction\<close>

record retract_args =
  ra_speculative_algorithm :: "string option"
  ra_speculative_eagle_topk :: int
  ra_speculative_num_steps :: int
  ra_speculative_num_draft_tokens :: int
  ra_page_size :: nat

definition retract_decode_steps :: int where
  "retract_decode_steps = 20"

definition uses_spec :: "retract_args \<Rightarrow> bool" where
  "uses_spec sa \<longleftrightarrow> ra_speculative_algorithm sa \<noteq> None \<and> ra_speculative_algorithm sa \<noteq> Some []"

text \<open>A stable sort in reverse order keeps equal elements in their order.\<close>

definition retract_order :: "retract_args \<Rightarrow> sched_req list \<Rightarrow> nat list" where
  "retract_order sa reqs =
     (if uses_spec sa then [0..<length reqs]
      else rev (sort_key (\<lambda>i. (int (length (q_output_ids (reqs ! i))), - int (length (q_origin_input_ids (reqs ! i)))))
                  (rev [0..<length reqs])))"

definition get_required_tokens :: "retract_args \<Rightarrow> nat \<Rightarrow> int" where
  "get_required_tokens sa num_reqs =
     int num_reqs * retract_decode_steps +
     (if uses_spec sa
      then int num_reqs * ra_speculative_eagle_topk sa * ra_speculative_num_steps sa +
           int num_reqs * ra_speculative_num_draft_tokens sa
      else 0)"

text \<open>
  \<open>free(req_to_token[req.req_pool_idx, a : b])\<close>, then the row is free.  Without a row the index \<open>None\<close>
  adds an axis and the slice cannot be appended to the free list.
\<close>

definition free_row :: "sched_req \<Rightarrow> nat \<Rightarrow> nat \<Rightarrow> tree_cache \<Rightarrow> unit result \<times> tree_cache" where
  "free_row r a b t =
     (case q_req_pool_idx r of
        None \<Rightarrow> (Inl (RuntimeError ''Tensors must have same number of dimensions''), t)
      | Some row \<Rightarrow>
          if row < length (req_to_token (tc_pool t))
          then andThen (on_allocator (kv_free (py_slice a b (req_to_token (tc_pool t) ! row))) t)
                 (\<lambda>_ t1. (Inr (), tc_set_pool (req_pool_free [row] (tc_pool t1)) t1))
          else (Inl IndexError, t))"

definition release_req ::
  "cache_env \<Rightarrow> retract_args \<Rightarrow> nat \<Rightarrow> nat \<Rightarrow> sched_req \<Rightarrow> tree_cache \<Rightarrow> (unit result \<times> tree_cache) option" where
  "release_req env sa remaining seq_len r t =
     (case t of
        ChunkTree _ \<Rightarrow> Some (free_row r 0 seq_len t)
      | RadixTree _ \<Rightarrow>
          (let last_uncached_pos = length (q_prefix_indices r) div ra_page_size sa * ra_page_size sa
           in thenO (Some (free_row r last_uncached_pos seq_len t)) (\<lambda>_ t1.
              thenO (tc_dec_lock_ref r t1) (\<lambda>_ t2.
              tc_evict env (max 0 (int remaining * retract_decode_steps - tc_available t2)) t2))))"

text \<open>
  The loop.  The list is \<open>sorted_indices\<close> with its end first, where \<open>pop\<close> takes from.  The result is
  what is left of it, and the retracted requests, the last one first.
\<close>

type_synonym retract_state = "nat list \<times> sched_req list"

fun retract_loop ::
  "cache_env \<Rightarrow> retract_args \<Rightarrow> sched_req list \<Rightarrow> nat list \<Rightarrow> bool \<Rightarrow> nat list \<Rightarrow> sched_req list \<Rightarrow> tree_cache
     \<Rightarrow> (retract_state result \<times> tree_cache) option" where
  "retract_loop env sa reqs seq_lens first_iter stack out t =
     (if \<not> (tc_available t < get_required_tokens sa (length stack) \<or> first_iter)
      then Some (Inr (stack, out), t)
      else case stack of
        [] \<Rightarrow> Some (Inl IndexError, t)
      | [_] \<Rightarrow> Some (if tc_available t > 0 then Inr (stack, out) else Inl AssertionError, t)
      | idx # rest \<Rightarrow>
          (let r = reqs ! idx
           in thenO (if idx < length seq_lens then release_req env sa (length rest) (seq_lens ! idx) r t
                     else Some (Inl IndexError, t))
                (\<lambda>_ t1. retract_loop env sa reqs seq_lens False rest (reset_for_retract r # out) t1)))"

definition retract_requests ::
  "cache_env \<Rightarrow> retract_args \<Rightarrow> sched_req list \<Rightarrow> nat list \<Rightarrow> tree_cache
     \<Rightarrow> (retract_state result \<times> tree_cache) option" where
  "retract_requests env sa reqs seq_lens t =
     retract_loop env sa reqs seq_lens True (rev (retract_order sa reqs)) [] t"

text \<open>The request list after \<open>filter_batch(keep_indices)\<close>.\<close>

definition filter_reqs :: "nat list \<Rightarrow> sched_req list \<Rightarrow> sched_req list" where
  "filter_reqs keep reqs =
     (if keep = [] then [] else if length keep = length reqs then reqs else map ((!) reqs) keep)"

text \<open>The estimated share of new tokens that the remaining requests still need; a float in the code.\<close>

definition new_estimate_ratio :: "sched_req list \<Rightarrow> rat result" where
  "new_estimate_ratio reqs =
     (if \<exists>r \<in> set reqs. q_max_new_tokens r = None then Inl TypeError
      else let total = sum_list (map (the \<circ> q_max_new_tokens) reqs);
               decoded = sum_list (map (int \<circ> length \<circ> q_output_ids) reqs)
           in if total = 0 then Inl ZeroDivisionError
              else Inr (min 1 (of_int (decoded + retract_decode_steps * int (length reqs)) / of_int total)))"

text \<open>The remaining and the retracted requests, the latter in the order of retraction.\<close>

definition retract_decode ::
  "cache_env \<Rightarrow> retract_args \<Rightarrow> sched_req list \<Rightarrow> nat list \<Rightarrow> tree_cache
     \<Rightarrow> ((sched_req list \<times> sched_req list \<times> rat) result \<times> tree_cache) option" where
  "retract_decode env sa reqs seq_lens t =
     thenO (retract_requests env sa reqs seq_lens t) (\<lambda>(stack, out) t1.
       let kept = filter_reqs (rev stack) reqs
       in Some (bindE (new_estimate_ratio kept) (\<lambda>ratio. Inr (kept, rev out, ratio)), t1))"

declare retract_loop.simps [simp del]

section \<open>Evictions\<close>

text \<open>A cache from which memory can be reclaimed, and what reclaiming does to it.\<close>

definition serving :: "RadixCache \<Rightarrow> bool" where
  "serving c \<longleftrightarrow> cache_ok c \<and> roots_ok c \<and> \<not> disable c \<and> quiet_alloc (token_to_kv_pool_allocator c)"

definition evicts :: "RadixCache \<Rightarrow> RadixCache \<Rightarrow> bool" where
  "evicts c c' \<longleftrightarrow>
     (\<exists>gone. evicted gone c c' \<and> distinct gone \<and> set gone \<subseteq> {x \<in> below_roots c. n_lock_ref (nd c x) \<le> 0})"

lemma freed_quiet: "quiet_alloc a \<Longrightarrow> quiet_alloc (freed a vs)"
proof (induction vs arbitrary: a)
  case (Cons v vs)
  then show ?case using kv_free_quiet[OF Cons.prems, of v] by (auto simp: freed_def)
qed (simp add: freed_def)

lemma freed_slots:
  "is_not_in_free_group a \<Longrightarrow> freed (Slots a) vs = Slots (a\<lparr>free_slots := free_slots a @ concat vs\<rparr>)"
  by (induction vs arbitrary: a) (auto simp: freed_def free_def)

lemma evicted_serving:
  assumes "evicted gone c c'" "serving c"
  shows "serving c'"
proof -
  have "cache_ok c'" "roots_ok c'" using evicted_ok[OF assms(1)] assms(2) by (auto simp: serving_def)
  moreover have "disable c' = disable c"
    "token_to_kv_pool_allocator c' = freed (token_to_kv_pool_allocator c) (map (\<lambda>x. n_value (nd c x)) gone)"
    using assms(1) by (auto simp: evicted_def)
  ultimately show ?thesis using assms(2) by (simp add: serving_def freed_quiet)
qed

lemma evicts_serving: "evicts c c' \<Longrightarrow> serving c \<Longrightarrow> serving c'"
  using evicted_serving by (auto simp: evicts_def)

lemma evicts_refl: "evicts c c"
  using evicted_Nil by (force simp: evicts_def)

lemma below_roots_evicted:
  assumes "evicted gone c c'" "roots_ok c" "set gone \<subseteq> {x. n_lock_ref (nd c x) \<le> 0}" "x \<in> below_roots c'"
  shows "x \<in> below_roots c" "x \<notin> set gone"
proof -
  note en = evicted_nodes[OF assms(1)]
  have E: "child_rel (nodes c') = {(i, j) \<in> child_rel (nodes c). j \<notin> set gone}"
    and R: "namespace_roots c' = namespace_roots c"
    using en by (auto simp: child_rel_unlink same_frame_def namespace_roots_def)
  obtain r where r: "r \<in> set (namespace_roots c)" "(r, x) \<in> (child_rel (nodes c'))\<^sup>*"
    using assms(4) R by (auto simp: below_roots_def)
  have "child_rel (nodes c') \<subseteq> child_rel (nodes c)" unfolding E by auto
  from rtrancl_mono[OF this] r(2) have "(r, x) \<in> (child_rel (nodes c))\<^sup>*" by (rule subsetD)
  then show "x \<in> below_roots c" using r(1) by (auto simp: below_roots_def)
  have "r \<notin> set gone" using r(1) assms(2,3) by (force simp: roots_ok_def)
  with r(2) show "x \<notin> set gone" by cases (simp_all add: E)
qed

lemma evicted_lock: "evicted gone c c' \<Longrightarrow> x < length (nodes c) \<Longrightarrow> n_lock_ref (nd c' x) = n_lock_ref (nd c x)"
  using evicted_nodes(1)[of gone c c'] by (simp add: unlink_def)

lemma evicts_trans:
  assumes "evicts c c1" "evicts c1 c2" "serving c"
  shows "evicts c c2"
proof -
  obtain g where g: "evicted g c c1" "distinct g" "set g \<subseteq> {x \<in> below_roots c. n_lock_ref (nd c x) \<le> 0}"
    using assms(1) by (auto simp: evicts_def)
  obtain h where h: "evicted h c1 c2" "distinct h" "set h \<subseteq> {x \<in> below_roots c1. n_lock_ref (nd c1 x) \<le> 0}"
    using assms(2) by (auto simp: evicts_def)
  have sub: "x \<in> below_roots c" "x \<notin> set g" "x < length (nodes c)" "n_lock_ref (nd c x) \<le> 0" if "x \<in> set h" for x
  proof -
    show b: "x \<in> below_roots c" and "x \<notin> set g"
      using below_roots_evicted[OF g(1), of x] assms(3) g(3) h(3) that by (auto simp: serving_def)
    show "x < length (nodes c)" using below_roots_less[OF _ b] assms(3) by (simp add: serving_def)
    then show "n_lock_ref (nd c x) \<le> 0" using evicted_lock[OF g(1), of x] h(3) that by auto
  qed
  then have "evicted (g @ h) c c2" using g(1) h(1) by (intro evicted_append) auto
  then show ?thesis unfolding evicts_def using g h(2) sub by (intro exI[of _ "g @ h"]) auto
qed

lemma evict_evicts:
  assumes "serving c"
  obtains gone c' where "evict env n c = Some (Inr (), c')" "evicts c c'" "evicted gone c c'"
    "n \<le> sum_list (map (\<lambda>x. int (length (n_value (nd c x)))) gone) \<or> candidates c' = {}"
  using evict_spec[of c env n] assms that by (auto simp: serving_def evicts_def)

lemma evict_below_evicts:
  assumes "serving c"
  obtains c' where "evict_below env n (RadixTree c) = Some (Inr (), RadixTree c')" "evicts c c'"
proof (cases "tc_available (RadixTree c) < n")
  case True
  obtain c' where "evict env n c = Some (Inr (), c')" "evicts c c'"
    using evict_evicts[OF assms, of env n] by metis
  then show ?thesis using that True by (simp add: evict_below_def on_radix_def)
next
  case False
  then show ?thesis using that[of c] by (simp add: evict_below_def evicts_refl)
qed

section \<open>Allocation of slots\<close>

text \<open>What an allocation of single slots promises; the radix cache may have evicted before it.\<close>

definition slots_taken :: "nat \<Rightarrow> int list option \<Rightarrow> RadixCache \<Rightarrow> RadixCache \<Rightarrow> bool" where
  "slots_taken n out c c' \<longleftrightarrow>
     (\<exists>a. token_to_kv_pool_allocator c = Slots a \<and>
       (case out of
          None \<Rightarrow> c' = c \<and> available_size a < n
        | Some slots \<Rightarrow> n \<le> available_size a \<and> slots = take n (free_slots a) \<and>
            c' = c\<lparr>token_to_kv_pool_allocator := Slots (a\<lparr>free_slots := drop n (free_slots a)\<rparr>)\<rparr>))"

definition slot_serving :: "RadixCache \<Rightarrow> bool" where
  "slot_serving c \<longleftrightarrow>
     serving c \<and> (\<exists>a. token_to_kv_pool_allocator c = Slots a \<and> is_not_in_free_group a)"

lemma evicted_slots:
  assumes "evicted gone c c'" "token_to_kv_pool_allocator c = Slots a" "is_not_in_free_group a"
  shows "token_to_kv_pool_allocator c' =
     Slots (a\<lparr>free_slots := free_slots a @ concat (map (\<lambda>x. n_value (nd c x)) gone)\<rparr>)"
  using assms by (auto simp: evicted_def freed_slots)

lemma evicts_slot_serving: "evicts c c' \<Longrightarrow> slot_serving c \<Longrightarrow> slot_serving c'"
  using evicts_serving evicted_slots unfolding slot_serving_def evicts_def by fastforce

lemma radix_alloc_slots:
  assumes "slot_serving c"
  obtains out c' where "on_allocator (kv_alloc n) (RadixTree c) = (Inr out, RadixTree c')" "slots_taken n out c c'"
proof -
  obtain a where a: "token_to_kv_pool_allocator c = Slots a" using assms by (auto simp: slot_serving_def)
  show ?thesis
  proof (cases "n \<le> length (free_slots a)")
    case True
    then show ?thesis
      using a that[of "Some (take n (free_slots a))"
          "c\<lparr>token_to_kv_pool_allocator := Slots (a\<lparr>free_slots := drop n (free_slots a)\<rparr>)\<rparr>"]
      by (simp add: on_allocator_def alloc_def slots_taken_def available_size_def)
  next
    case False
    then have "on_allocator (kv_alloc n) (RadixTree c) = (Inr None, RadixTree (c\<lparr>token_to_kv_pool_allocator := Slots a\<rparr>))"
      using a by (simp add: on_allocator_def alloc_def)
    moreover have "c\<lparr>token_to_kv_pool_allocator := Slots a\<rparr> = c" using a by (cases c) simp
    ultimately show ?thesis using that[of None c] a False by (simp add: slots_taken_def available_size_def)
  qed
qed

lemma evict_slots_enough:
  assumes "slot_serving c"
  obtains c' where "evict env (int n) c = Some (Inr (), c')" "evicts c c'"
    "candidates c' = {} \<or> (\<forall>out c2. slots_taken n out c' c2 \<longrightarrow> out \<noteq> None)"
proof -
  obtain a where a: "serving c" "token_to_kv_pool_allocator c = Slots a" "is_not_in_free_group a"
    using assms by (auto simp: slot_serving_def)
  obtain gone c' where c': "evict env (int n) c = Some (Inr (), c')" "evicts c c'" "evicted gone c c'"
    "int n \<le> sum_list (map (\<lambda>x. int (length (n_value (nd c x)))) gone) \<or> candidates c' = {}"
    using evict_evicts[OF a(1), of env "int n"] by metis
  have "sum_list (map (\<lambda>x. int (length (n_value (nd c x)))) gone) = int (length (concat (map (\<lambda>x. n_value (nd c x)) gone)))"
    by (induction gone) simp_all
  then have "candidates c' = {} \<or> (\<forall>out c2. slots_taken n out c' c2 \<longrightarrow> out \<noteq> None)"
    using c'(4) evicted_slots[OF c'(3) a(2,3)] by (auto simp: slots_taken_def available_size_def)
  then show ?thesis using c'(1,2) that by blast
qed

lemma retry_alloc_slots:
  assumes "slot_serving c" "0 < tries"
  shows "\<exists>out c1 c'. retry_alloc tries env n (RadixTree c) = Some (Inr out, RadixTree c') \<and> evicts c c1 \<and>
     slots_taken n out c1 c' \<and> (out = None \<longrightarrow> candidates c1 = {})"
  using assms
proof (induction tries arbitrary: c)
  case (Suc tries)
  obtain c1 where ev: "evict env (int n) c = Some (Inr (), c1)" "evicts c c1"
    "candidates c1 = {} \<or> (\<forall>out c2. slots_taken n out c1 c2 \<longrightarrow> out \<noteq> None)"
    using evict_slots_enough[OF Suc.prems(1), of env n] by metis
  note sv1 = evicts_slot_serving[OF ev(2) Suc.prems(1)]
  obtain out c2 where al: "on_allocator (kv_alloc n) (RadixTree c1) = (Inr out, RadixTree c2)" "slots_taken n out c1 c2"
    using radix_alloc_slots[OF sv1, of n] by metis
  note step = ev(1) al(1)
  show ?case
  proof (cases "out = None \<and> tries \<noteq> 0")
    case True
    then have c2: "c2 = c1" using al(2) by (auto simp: slots_taken_def)
    have "serving c" using Suc.prems(1) by (simp add: slot_serving_def)
    with Suc.IH[OF sv1] True evicts_trans[OF ev(2)] show ?thesis
      using step c2 by (fastforce simp: thenO_def on_radix_def)
  next
    case False
    then show ?thesis using step al(2) ev
      by (cases out; cases tries) (auto simp: thenO_def on_radix_def)
  qed
qed simp

lemma alloc_token_slots_outcome:
  assumes "slot_serving c"
  shows "\<exists>out state c1 c'. alloc_token_slots env n backup (RadixTree c) = Some (Inr (out, state), RadixTree c') \<and>
     evicts c c1 \<and> slots_taken n out c1 c' \<and> (out = None \<longrightarrow> candidates c1 = {})"
proof -
  have sv: "serving c" using assms by (simp add: slot_serving_def)
  obtain c1 where ev: "evict_below env (int n + 2000) (RadixTree c) = Some (Inr (), RadixTree c1)" "evicts c c1"
    by (rule evict_below_evicts[OF sv])
  note sv1 = evicts_slot_serving[OF ev(2) assms]
  obtain out c2 where al: "on_allocator (kv_alloc n) (RadixTree c1) = (Inr out, RadixTree c2)" "slots_taken n out c1 c2"
    using radix_alloc_slots[OF sv1, of n] by metis
  show ?thesis
  proof (cases out)
    case (Some slots)
    then show ?thesis using ev al by (auto simp: alloc_token_slots_def thenO_def)
  next
    case None
    then have c2: "c2 = c1" using al(2) by (auto simp: slots_taken_def)
    obtain out' c3 c' where r: "retry_alloc 10 env n (RadixTree c1) = Some (Inr out', RadixTree c')" "evicts c1 c3"
      "slots_taken n out' c3 c'" "out' = None \<longrightarrow> candidates c3 = {}"
      using retry_alloc_slots[OF sv1, of 10 env n] by auto
    show ?thesis
      using ev al None c2 r evicts_trans[OF ev(2) r(2) sv] by (fastforce simp: alloc_token_slots_def thenO_def Let_def)
  qed
qed

section \<open>Properties\<close>

text \<open>
  Allocation of KV slots for a batch.  On a well-formed cache with the slot allocator,
  \<open>alloc_token_slots\<close> always returns and raises nothing.  Before it allocates it only evicts unlocked
  nodes below the namespace roots and frees exactly their slots; the slots it returns are the first
  ones of the free list, as many as asked for.  It returns \<open>None\<close>, instead of raising, exactly when the free
  list is too short although no unlocked leaf is left to evict.
\<close>

theorem alloc_token_slots_correct:
  assumes "serving c" and "token_to_kv_pool_allocator c = Slots a" and "is_not_in_free_group a"
  shows "\<exists>out state c1 c'. alloc_token_slots env n backup (RadixTree c) = Some (Inr (out, state), RadixTree c') \<and>
     evicts c c1 \<and> slots_taken n out c1 c' \<and> (out = None \<longrightarrow> candidates c1 = {})"
  using alloc_token_slots_outcome[of c env n backup] assms by (simp add: slot_serving_def)

lemma demo_tree_serving: "serving demo_tree"
proof -
  have "cache_ok demo_tree" unfolding demo_tree_def
    by (intro demo_insert_ok demo_cache_ok) (simp add: cache_eval)
  moreover have "roots_ok demo_tree" unfolding demo_tree_def by (rule demo_roots_ok)
  ultimately show ?thesis by (simp add: serving_def) (simp add: demo_tree_def cache_eval quiet_alloc_def)
qed

theorem alloc_token_slots_correct_witness:
  "\<exists>out state c1 c'. alloc_token_slots demo_env 2 True (RadixTree demo_tree) = Some (Inr (out, state), RadixTree c') \<and>
     evicts demo_tree c1 \<and> slots_taken 2 out c1 c' \<and> (out = None \<longrightarrow> candidates c1 = {})"
  by (rule alloc_token_slots_correct[OF demo_tree_serving, of "allocator_init 8"])
     (simp_all add: demo_tree_def cache_eval allocator_init_def alloc_clear_def)

end
