(* ===== verification/Batch_Retract.thy ===== *)
theory Batch_Retract
  imports Batch_Memory
begin

text \<open>
  Retraction of running requests: the loop of \<open>retract_decode\<close> ends, gives every retracted request's
  slots and lock back, and leaves the paths of the remaining requests locked and in the tree.
\<close>

section \<open>The locks of running requests\<close>

text \<open>
  \<open>path i\<close> are the nodes from the last node of request \<open>i\<close> up to the root.  Every node is locked at
  least once by each listed request whose path it is on; a namespace root once more.
\<close>

definition share :: "nat list \<Rightarrow> (nat \<Rightarrow> nat list) \<Rightarrow> nat \<Rightarrow> nat" where
  "share idx path x = length (filter (\<lambda>i. x \<in> set (path i)) idx)"

definition runs :: "sched_req list \<Rightarrow> (nat \<Rightarrow> nat list) \<Rightarrow> RadixCache \<Rightarrow> nat \<Rightarrow> bool" where
  "runs reqs path c i \<longleftrightarrow>
     i < length reqs \<and>
     (\<exists>j. q_last_node (reqs ! i) = Some j \<and> chain (nodes c) (root_node c) j (path i)) \<and>
     (\<exists>row. q_req_pool_idx (reqs ! i) = Some row \<and> row < length (req_to_token (req_to_token_pool c)))"

definition holds :: "sched_req list \<Rightarrow> (nat \<Rightarrow> nat list) \<Rightarrow> nat list \<Rightarrow> RadixCache \<Rightarrow> bool" where
  "holds reqs path idx c \<longleftrightarrow>
     (\<forall>i \<in> set idx. runs reqs path c i) \<and>
     (\<forall>x < length (nodes c). int (share idx path x) \<le> n_lock_ref (nd c x) \<and>
        (x \<in> set (namespace_roots c) \<longrightarrow> int (share idx path x) < n_lock_ref (nd c x)))"

lemma share_mset: "mset idx = mset idx' \<Longrightarrow> share idx path x = share idx' path x"
  unfolding share_def by (metis mset_filter size_mset)

lemma holds_mset: "mset idx = mset idx' \<Longrightarrow> holds reqs path idx c \<Longrightarrow> holds reqs path idx' c"
  unfolding holds_def using share_mset[of idx idx' path] mset_eq_setD[of idx idx'] by simp

text \<open>What may change without a request losing its path.\<close>

lemma runs_cong:
  assumes "runs reqs path c i" "length (nodes c') = length (nodes c)"
    "\<And>j. n_parent (nd c' j) = n_parent (nd c j)" "root_node c' = root_node c"
    "length (req_to_token (req_to_token_pool c')) = length (req_to_token (req_to_token_pool c))"
  shows "runs reqs path c' i"
  using assms chain_cong[of "nodes c'" "nodes c"] by (simp add: runs_def)

lemma nth_map_parent: "n_parent (map (unlink S) ns ! j) = n_parent (ns ! j)"
proof (cases "j < length ns")
  case False
  then have "map (unlink S) ns ! j = [] ! (j - length ns)" "ns ! j = [] ! (j - length ns)"
    by (metis append_Nil2 length_map not_less nth_append, metis append_Nil2 not_less nth_append)
  then show ?thesis by simp
qed (simp add: unlink_def)

lemma holds_evicted:
  assumes "evicted gone c c'" "holds reqs path idx c"
  shows "holds reqs path idx c'"
proof -
  note en = evicted_nodes[OF assms(1)]
  have pool: "req_to_token_pool c' = req_to_token_pool c" using assms(1) by (auto simp: evicted_def)
  have len: "length (nodes c') = length (nodes c)" by (simp add: en(1))
  have r: "runs reqs path c' i" if "runs reqs path c i" for i
    by (rule runs_cong[OF that len]) (use en pool in \<open>auto simp: nth_map_parent same_frame_def\<close>)
  have "namespace_roots c' = namespace_roots c" using en(2) by (simp add: same_frame_def namespace_roots_def)
  then show ?thesis
    using assms(2) r evicted_lock[OF assms(1)] unfolding holds_def len by simp
qed

lemma holds_same_tree:
  assumes "holds reqs path idx c" "nodes c' = nodes c" "root_node c' = root_node c"
    "namespace_roots c' = namespace_roots c"
    "length (req_to_token (req_to_token_pool c')) = length (req_to_token (req_to_token_pool c))"
  shows "holds reqs path idx c'"
  using assms runs_cong[of reqs path c _ c'] by (simp add: holds_def)

lemma shift_parent: "n_parent (shift_locks k xs ns ! j) = n_parent (ns ! j)"
proof (cases "j < length ns")
  case False
  then have "shift_locks k xs ns ! j = [] ! (j - length ns)" "ns ! j = [] ! (j - length ns)"
    by (metis append_Nil2 length_shift_locks not_less nth_append, metis append_Nil2 not_less nth_append)
  then show ?thesis by simp
qed (simp add: nth_shift_locks)

text \<open>Locking the path of one more request: what \<open>add_one_req\<close> does for every request it takes.\<close>

lemma lock_path_holds:
  assumes sv: "serving c" and h: "holds reqs path idx c" and r: "runs reqs path c i"
  shows "serving (lock_path (path i) c)" "holds reqs path (i # idx) (lock_path (path i) c)"
proof -
  let ?c = "lock_path (path i) c"
  have frame: "namespace_roots ?c = namespace_roots c" "req_to_token_pool ?c = req_to_token_pool c"
    by (simp_all add: lock_path_def move_size_def namespace_roots_def)
  have run: "runs reqs path ?c k" if "runs reqs path c k" for k
    by (rule runs_cong[OF that]) (simp_all add: frame shift_parent)
  have lock: "n_lock_ref (nd ?c x) = n_lock_ref (nd c x) + (if x \<in> set (path i) then 1 else 0)"
    if "x < length (nodes c)" for x using that by (simp add: nth_shift_locks)
  have less: "\<forall>x \<in> set (namespace_roots c). x < length (nodes c)"
    using sv by (auto simp: serving_def cache_ok_def)
  show "holds reqs path (i # idx) ?c"
    using h r run lock less unfolding holds_def frame by (auto simp: share_def)
  have kids: "n_children (shift_locks 1 (path i) (nodes c) ! a) = n_children (nd c a)" if "a < length (nodes c)" for a
    using that by (simp add: nth_shift_locks)
  then have "child_rel (nodes ?c) = child_rel (nodes c)" by (auto simp: child_rel_def child_ids_def)
  moreover have "0 < n_lock_ref (nd ?c x)" if "x \<in> set (namespace_roots c)" for x
    using sv lock[of x] less that unfolding serving_def roots_ok_def by fastforce
  ultimately have "roots_ok ?c" using sv unfolding serving_def roots_ok_def frame by (auto simp: shift_parent)
  then show "serving ?c" using sv by (simp add: serving_def cache_ok_lock_path)
qed

section \<open>Releasing one request\<close>

lemma unlock_holds:
  assumes sv: "serving c" and h: "holds reqs path (i # rest) c"
  obtains d c' where "unlock_req (reqs ! i) c = Some (Inr d, c')" "serving c'" "holds reqs path rest c'"
    "token_to_kv_pool_allocator c' = token_to_kv_pool_allocator c"
proof -
  obtain j where j: "q_last_node (reqs ! i) = Some j" "chain (nodes c) (root_node c) j (path i)"
    using h by (auto simp: holds_def runs_def)
  have ok: "cache_ok c" and on: "\<not> disable c" using sv by (auto simp: serving_def)
  let ?t = "tokens_at 1 (path i) (nodes c)"
  let ?c = "(move_size ?t c)\<lparr>nodes := shift_locks (-1) (path i) (nodes c)\<rparr>"
  have run: "unlock_req (reqs ! i) c = Some (Inr ?t, ?c)"
    using j on dec_lock_chain[OF j(2) path_distinct[OF ok j(2)], of 0] by (simp add: unlock_req_def dec_lock_ref_def)
  have frame: "root_node ?c = root_node c" "namespace_roots ?c = namespace_roots c" "page_size ?c = page_size c"
    "disable ?c = disable c" "req_to_token_pool ?c = req_to_token_pool c"
    "token_to_kv_pool_allocator ?c = token_to_kv_pool_allocator c" "nodes ?c = shift_locks (-1) (path i) (nodes c)"
    by (simp_all add: move_size_def namespace_roots_def)
  have r: "runs reqs path ?c k" if "runs reqs path c k" for k
    by (rule runs_cong[OF that]) (simp_all add: frame shift_parent)
  have lock: "n_lock_ref (nd ?c x) = n_lock_ref (nd c x) - (if x \<in> set (path i) then 1 else 0)"
    if "x < length (nodes c)" for x using that by (simp add: frame nth_shift_locks)
  have sh: "share (i # rest) path x = share rest path x + (if x \<in> set (path i) then 1 else 0)" for x
    by (simp add: share_def)
  have hold: "holds reqs path rest ?c"
    unfolding holds_def frame using h r lock by (auto simp: holds_def sh split: if_splits)
  have less: "\<forall>x \<in> set (namespace_roots c). x < length (nodes c)" using ok by (auto simp: cache_ok_def)
  have "0 < n_lock_ref (nd ?c x)" if "x \<in> set (namespace_roots c)" for x
    using hold that less unfolding holds_def frame by fastforce
  moreover have "n_children (shift_locks (-1) (path i) (nodes c) ! a) = n_children (nd c a)" if "a < length (nodes c)" for a
    using that by (simp add: nth_shift_locks)
  then have "child_rel (nodes ?c) = child_rel (nodes c)" by (auto simp: child_rel_def child_ids_def frame)
  ultimately have "roots_ok ?c"
    using sv unfolding serving_def roots_ok_def frame by (auto simp: shift_parent)
  moreover have "cache_ok ?c"
    using ok tree_ok_same_shape[of "page_size c" "nodes c" "shift_locks (-1) (path i) (nodes c)"]
    unfolding cache_ok_def frame by (auto simp: nth_shift_locks same_shape_def)
  ultimately have "serving ?c" using sv by (simp add: serving_def frame)
  then show ?thesis using that[OF run _ hold] frame(6) by blast
qed

lemma free_row_holds:
  assumes sv: "serving c" and h: "holds reqs path idx c" and i: "i \<in> set idx"
  obtains c' where "free_row (reqs ! i) a b (RadixTree c) = (Inr (), RadixTree c')" "serving c'" "holds reqs path idx c'"
proof -
  obtain row where row: "q_req_pool_idx (reqs ! i) = Some row" "row < length (req_to_token (req_to_token_pool c))"
    using h i by (auto simp: holds_def runs_def)
  obtain al where al: "kv_free (py_slice a b (req_to_token (req_to_token_pool c) ! row)) (token_to_kv_pool_allocator c)
      = (Inr (), al)" "quiet_alloc al"
    using kv_free_quiet sv by (auto simp: serving_def)
  let ?c = "c\<lparr>token_to_kv_pool_allocator := al, req_to_token_pool := req_pool_free [row] (req_to_token_pool c)\<rparr>"
  have "free_row (reqs ! i) a b (RadixTree c) = (Inr (), RadixTree ?c)"
    using row al(1) by (simp add: free_row_def on_allocator_def)
  moreover have "serving ?c"
    using sv al(2) by (simp add: serving_def cache_ok_def roots_ok_def namespace_roots_def)
  moreover have "holds reqs path idx ?c"
    by (rule holds_same_tree[OF h]) (simp_all add: namespace_roots_def req_pool_free_def)
  ultimately show ?thesis by (rule that)
qed

lemma release_holds:
  assumes sv: "serving c" and h: "holds reqs path (i # rest) c"
  obtains c' where "release_req env sa k seq_len (reqs ! i) (RadixTree c) = Some (Inr (), RadixTree c')"
    "serving c'" "holds reqs path rest c'"
proof -
  let ?pos = "length (q_prefix_indices (reqs ! i)) div ra_page_size sa * ra_page_size sa"
  obtain c1 where c1: "free_row (reqs ! i) ?pos seq_len (RadixTree c) = (Inr (), RadixTree c1)" "serving c1"
    "holds reqs path (i # rest) c1" using free_row_holds[OF sv h, of i ?pos seq_len] by auto
  obtain d c2 where c2: "unlock_req (reqs ! i) c1 = Some (Inr d, c2)" "serving c2" "holds reqs path rest c2"
    using unlock_holds[OF c1(2,3)] by metis
  let ?n = "max 0 (int k * retract_decode_steps - tc_available (RadixTree c2))"
  obtain gone c3 where c3: "evict env ?n c2 = Some (Inr (), c3)" "evicted gone c2 c3"
    using evict_evicts[OF c2(2), of env ?n] by metis
  have "release_req env sa k seq_len (reqs ! i) (RadixTree c) = Some (Inr (), RadixTree c3)"
    using c1(1) c2(1) c3(1) by (simp add: release_req_def Let_def thenO_def on_radix_def)
  then show ?thesis using that evicted_serving[OF c3(2) c2(2)] holds_evicted[OF c3(2) c2(3)] by blast
qed

section \<open>The loop\<close>

text \<open>Where the loop may stop: enough memory for the rest, or a single request.\<close>

definition retracted_to ::
  "retract_args \<Rightarrow> sched_req list \<Rightarrow> nat list \<Rightarrow> nat list \<Rightarrow> sched_req list \<Rightarrow> tree_cache \<Rightarrow> retract_state result \<Rightarrow> bool" where
  "retracted_to sa reqs gone keep out t res \<longleftrightarrow>
     res = Inr (keep, rev (map (\<lambda>i. reset_for_retract (reqs ! i)) gone) @ out) \<and>
       (get_required_tokens sa (length keep) \<le> tc_available t \<or> length keep = 1 \<and> 0 < tc_available t) \<or>
     res = Inl AssertionError \<and> length keep = 1 \<and> tc_available t \<le> 0"

lemma retract_loop_holds:
  assumes "serving c" "holds reqs path stack c" "length seq_lens = length reqs" "stack \<noteq> []"
  shows "\<exists>gone keep c' res. retract_loop env sa reqs seq_lens first_iter stack out (RadixTree c) = Some (res, RadixTree c') \<and>
     stack = gone @ keep \<and> keep \<noteq> [] \<and> serving c' \<and> holds reqs path keep c' \<and>
     retracted_to sa reqs gone keep out (RadixTree c') res \<and> (first_iter \<and> 1 < length stack \<longrightarrow> gone \<noteq> [])"
  using assms
proof (induction stack arbitrary: c first_iter out)
  case (Cons i rest)
  let ?t = "RadixTree c" and ?need = "get_required_tokens sa (length (i # rest))"
  consider (stop) "?need \<le> tc_available ?t" "\<not> first_iter" | (last) "tc_available ?t < ?need \<or> first_iter" "rest = []"
    | (more) "tc_available ?t < ?need \<or> first_iter" "rest \<noteq> []" by linarith
  then show ?case
  proof cases
    case stop
    then have "retract_loop env sa reqs seq_lens first_iter (i # rest) out ?t = Some (Inr (i # rest, out), ?t)"
      by (subst retract_loop.simps) simp
    then show ?thesis
      using Cons.prems stop
      by (intro exI[of _ "[]"] exI[of _ "i # rest"] exI[of _ c] exI[of _ "Inr (i # rest, out)"]) (simp add: retracted_to_def)
  next
    case last
    let ?res = "if 0 < tc_available ?t then Inr ([i], out) else Inl AssertionError"
    have "retract_loop env sa reqs seq_lens first_iter (i # rest) out ?t = Some (?res, ?t)"
      using last by (subst retract_loop.simps) simp
    then show ?thesis
      using Cons.prems last by (intro exI[of _ "[]"] exI[of _ "[i]"] exI[of _ c] exI[of _ ?res]) (simp add: retracted_to_def)
  next
    case more
    have i: "i < length seq_lens" using Cons.prems(2,3) by (simp add: holds_def runs_def)
    obtain c1 where c1: "release_req env sa (length rest) (seq_lens ! i) (reqs ! i) ?t = Some (Inr (), RadixTree c1)"
      "serving c1" "holds reqs path rest c1" using release_holds[OF Cons.prems(1,2)] by metis
    let ?out = "reset_for_retract (reqs ! i) # out"
    have step: "retract_loop env sa reqs seq_lens first_iter (i # rest) out ?t
        = retract_loop env sa reqs seq_lens False rest ?out (RadixTree c1)"
      using more i c1(1) by (subst retract_loop.simps) (cases rest; simp add: thenO_def)
    obtain gone keep c' res where "retract_loop env sa reqs seq_lens False rest ?out (RadixTree c1) = Some (res, RadixTree c')"
      "rest = gone @ keep" "keep \<noteq> []" "serving c'" "holds reqs path keep c'"
      "retracted_to sa reqs gone keep ?out (RadixTree c') res"
      using Cons.IH[OF c1(2,3) Cons.prems(3) more(2), of False ?out] by auto
    then show ?thesis unfolding step
      by (intro exI[of _ "i # gone"] exI[of _ keep] exI[of _ c'] exI[of _ res]) (auto simp: retracted_to_def)
  qed
qed simp

section \<open>Property\<close>

lemma retract_order_mset: "mset (retract_order sa reqs) = mset [0..<length reqs]"
  by (simp add: retract_order_def)

lemma retract_order_outputs:
  assumes "\<not> uses_spec sa" "rev (retract_order sa reqs) = gone @ keep" "g \<in> set gone" "k \<in> set keep"
  shows "length (q_output_ids (reqs ! g)) \<le> length (q_output_ids (reqs ! k))"
proof -
  let ?key = "\<lambda>i. (int (length (q_output_ids (reqs ! i))), - int (length (q_origin_input_ids (reqs ! i))))"
  have "sorted (map ?key (gone @ keep))"
    using assms(1) unfolding assms(2)[symmetric] retract_order_def by simp
  then have "?key g \<le> ?key k" using assms(3,4) by (auto simp: sorted_append)
  then show ?thesis by auto
qed


text \<open>Two requests that share the path of the cached prompt.\<close>

definition demo_running :: "sched_req list" where
  "demo_running = [demo_req\<lparr>q_req_pool_idx := Some 0\<rparr>, demo_req\<lparr>q_req_pool_idx := Some 1\<rparr>]"


end
