(* ===== verification/Privacy_Detector.thy ===== *)
theory Privacy_Detector
  imports Prelude
begin

text \<open>
  \<open>managers/private_service/privacy_detector_custom.py\<close>: the rule-based first tier of the privacy judge.
  A trie of keywords, regular expressions and custom handlers report what they find in a text.
  Lower-casing, \<open>isalnum\<close> and the regular-expression engine of the standard library are parameters
  (\<open>text_lib\<close>); confidences and times, floats in the code, are computed as rationals.  Reading and
  writing the configuration file is not modelled, its parsed content is an argument.
\<close>

section \<open>Patterns and results\<close>

type_synonym matcher = "string \<Rightarrow> (nat \<times> nat) list"
type_synonym handler = "string \<Rightarrow> pyval result"

record text_lib =
  tl_lower :: "string \<Rightarrow> string"
  tl_isalnum :: "char \<Rightarrow> bool"
  tl_compile :: "string \<Rightarrow> matcher option"

record PrivacyPattern =
  pp_name :: string
  pp_pattern :: string
  pp_pattern_type :: string
  pp_severity :: string
  pp_description :: string
  pp_custom_handler :: "handler option"

record DetectionResult =
  dr_is_private :: bool
  dr_detected_patterns :: "pyval list"
  dr_confidence :: rat
  dr_processing_time :: rat

record pattern_info =
  pi_name :: string
  pi_severity :: string
  pi_description :: string

definition info_of :: "PrivacyPattern \<Rightarrow> pattern_info" where
  "info_of p = \<lparr> pi_name = pp_name p, pi_severity = pp_severity p, pi_description = pp_description p \<rparr>"

text \<open>A trie node: the children by character, \<open>is_end\<close>, \<open>pattern_info\<close>.\<close>

datatype TrieNode = TrieNode (t_children: "(char \<times> TrieNode) list") (t_is_end: bool) (t_info: "pattern_info option")

definition trie_node_init :: TrieNode where
  "trie_node_init = TrieNode [] False None"

record PrivacyDetector =
  pd_trie_root :: TrieNode
  pd_regex_patterns :: "(PrivacyPattern \<times> matcher) list"
  pd_trie_patterns :: "PrivacyPattern list"
  pd_custom_handlers :: "(string \<times> handler) list"
  pd_total_checks :: nat
  pd_total_matches :: nat
  pd_avg_processing_time :: rat

definition detector_new :: PrivacyDetector where
  "detector_new =
     \<lparr> pd_trie_root = trie_node_init, pd_regex_patterns = [], pd_trie_patterns = [], pd_custom_handlers = [],
       pd_total_checks = 0, pd_total_matches = 0, pd_avg_processing_time = 0 \<rparr>"

section \<open>Adding patterns\<close>

fun insert_to_trie :: "string \<Rightarrow> pattern_info \<Rightarrow> TrieNode \<Rightarrow> TrieNode" where
  "insert_to_trie [] meta (TrieNode ch _ _) = TrieNode ch True (Some meta)"
| "insert_to_trie (c # w) meta (TrieNode ch e i) =
     TrieNode (dict_set c (insert_to_trie w meta (case map_of ch c of None \<Rightarrow> trie_node_init | Some n \<Rightarrow> n)) ch) e i"

definition pattern_words :: "text_lib \<Rightarrow> PrivacyPattern \<Rightarrow> string list" where
  "pattern_words lib p =
     map (tl_lower lib) (filter (\<lambda>w. w \<noteq> []) (map strip (split_on (CHR '','') (pp_pattern p))))"

definition add_trie_pattern :: "text_lib \<Rightarrow> PrivacyPattern \<Rightarrow> PrivacyDetector \<Rightarrow> PrivacyDetector" where
  "add_trie_pattern lib p d =
     d\<lparr>pd_trie_root := fold (\<lambda>w. insert_to_trie w (info_of p)) (pattern_words lib p) (pd_trie_root d),
       pd_trie_patterns := pd_trie_patterns d @ [p]\<rparr>"

text \<open>An expression that does not compile is logged and skipped.\<close>

definition add_regex_pattern :: "text_lib \<Rightarrow> PrivacyPattern \<Rightarrow> PrivacyDetector \<Rightarrow> PrivacyDetector" where
  "add_regex_pattern lib p d =
     (case tl_compile lib (pp_pattern p) of
        None \<Rightarrow> d
      | Some f \<Rightarrow> d\<lparr>pd_regex_patterns := pd_regex_patterns d @ [(p, f)]\<rparr>)"

definition add_custom_handler :: "string \<Rightarrow> handler \<Rightarrow> PrivacyDetector \<Rightarrow> PrivacyDetector" where
  "add_custom_handler name h d = d\<lparr>pd_custom_handlers := dict_set name h (pd_custom_handlers d)\<rparr>"

definition add_pattern :: "text_lib \<Rightarrow> PrivacyPattern \<Rightarrow> PrivacyDetector \<Rightarrow> unit result \<times> PrivacyDetector" where
  "add_pattern lib p d =
     andThen
       (if pp_pattern_type p = ''trie'' then (Inr (), add_trie_pattern lib p d)
        else if pp_pattern_type p = ''regex'' then (Inr (), add_regex_pattern lib p d)
        else (Inl (ValueError (''Unsupported pattern type: '' @ pp_pattern_type p)), d))
       (\<lambda>_ d1. (Inr (), case pp_custom_handler p of None \<Rightarrow> d1 | Some h \<Rightarrow> add_custom_handler (pp_name p) h d1))"

text \<open>
  The loop of \<open>load_config\<close> over the entries of one list of the file; an entry is the pattern that
  \<open>PrivacyPattern(**entry)\<close> makes of it, or the exception.
\<close>

fun load_entries :: "text_lib \<Rightarrow> PrivacyPattern result list \<Rightarrow> PrivacyDetector \<Rightarrow> unit result \<times> PrivacyDetector" where
  "load_entries lib [] d = (Inr (), d)"
| "load_entries lib (Inl e # es) d = (Inl e, d)"
| "load_entries lib (Inr p # es) d = andThen (add_pattern lib p d) (\<lambda>_ d1. load_entries lib es d1)"

text \<open>Every exception is caught and logged; what was added before it stays.\<close>

definition load_config ::
  "text_lib \<Rightarrow> (PrivacyPattern result list \<times> PrivacyPattern result list) result \<Rightarrow> PrivacyDetector \<Rightarrow> PrivacyDetector" where
  "load_config lib config d =
     (case config of
        Inl _ \<Rightarrow> d
      | Inr (tries, regexes) \<Rightarrow> snd (andThen (load_entries lib tries d) (\<lambda>_ d1. load_entries lib regexes d1)))"

definition detector_init ::
  "text_lib \<Rightarrow> (PrivacyPattern result list \<times> PrivacyPattern result list) result option \<Rightarrow> PrivacyDetector" where
  "detector_init lib config = (case config of None \<Rightarrow> detector_new | Some f \<Rightarrow> load_config lib f detector_new)"

section \<open>Detection\<close>

definition found ::
  "string \<Rightarrow> string \<Rightarrow> string \<Rightarrow> string \<Rightarrow> string \<Rightarrow> nat \<Rightarrow> nat \<Rightarrow> pyval" where
  "found kind name severity description matched i j =
     VDict [(''type'', VStr kind), (''pattern_name'', VStr name), (''severity'', VStr severity),
            (''description'', VStr description), (''matched_text'', VStr matched),
            (''start_pos'', VInt (int i)), (''end_pos'', VInt (int j))]"

definition found_word :: "string \<Rightarrow> nat \<Rightarrow> nat \<Rightarrow> pattern_info \<Rightarrow> pyval" where
  "found_word text i j meta =
     found ''trie'' (pi_name meta) (pi_severity meta) (pi_description meta) (py_slice i j text) i j"

definition bounded :: "text_lib \<Rightarrow> string \<Rightarrow> nat \<Rightarrow> nat \<Rightarrow> bool" where
  "bounded lib low i j \<longleftrightarrow>
     (i = 0 \<or> \<not> tl_isalnum lib (low ! (i - 1))) \<and> (j = length low \<or> \<not> tl_isalnum lib (low ! j))"

text \<open>The inner loop, from position \<open>j\<close> with the node reached so far.\<close>

function scan_trie :: "text_lib \<Rightarrow> string \<Rightarrow> string \<Rightarrow> nat \<Rightarrow> nat \<Rightarrow> TrieNode \<Rightarrow> pyval list" where
  "scan_trie lib text low i j node =
     (if j < length low
      then case map_of (t_children node) (low ! j) of
             None \<Rightarrow> []
           | Some next_node \<Rightarrow>
               (case t_info next_node of
                  Some meta \<Rightarrow> if t_is_end next_node \<and> bounded lib low i (Suc j)
                               then [found_word text i (Suc j) meta] else []
                | None \<Rightarrow> []) @ scan_trie lib text low i (Suc j) next_node
      else [])"
  by pat_completeness auto
termination
  by (relation "measure (\<lambda>(lib, text, low, i, j, node). length low - j)") auto

declare scan_trie.simps [simp del]

definition check_trie_patterns :: "text_lib \<Rightarrow> string \<Rightarrow> PrivacyDetector \<Rightarrow> pyval list" where
  "check_trie_patterns lib text d =
     (let low = tl_lower lib text
      in concat (map (\<lambda>i. scan_trie lib text low i i (pd_trie_root d)) [0..<length low]))"

text \<open>\<open>str.isdigit\<close> on single-byte characters also holds for the superscripts one, two and three.\<close>

definition py_isdigit :: "string \<Rightarrow> bool" where
  "py_isdigit s \<longleftrightarrow> s \<noteq> [] \<and> (\<forall>c \<in> set s. is_digit c \<or> (of_char c :: nat) \<in> {178, 179, 185})"

definition luhn_step :: "char \<Rightarrow> int \<times> bool \<Rightarrow> int \<times> bool" where
  "luhn_step ch st =
     (case st of (acc, alt) \<Rightarrow>
        let n = int (of_char ch) - 48;
            n1 = (if alt then (if n * 2 > 9 then n * 2 - 9 else n * 2) else n)
        in (acc + n1, \<not> alt))"

definition luhn_ok :: "string \<Rightarrow> bool" where
  "luhn_ok digits =
     (if \<not> py_isdigit digits \<or> \<not> (13 \<le> length digits \<and> length digits \<le> 19) then False
      else fst (fold luhn_step (rev digits) (0, False)) mod 10 = 0)"

definition looks_like_pan :: "string \<Rightarrow> bool" where
  "looks_like_pan digits \<longleftrightarrow> length digits = 16 \<and> digits ! 0 \<in> set ''3456''"

definition regex_accepts :: "PrivacyPattern \<Rightarrow> string \<Rightarrow> bool" where
  "regex_accepts p matched =
     (if pp_name p \<in> {''credit_card'', ''bank_card''}
      then let digits = filter is_digit matched in luhn_ok digits \<or> looks_like_pan digits
      else True)"

definition check_regex_patterns :: "string \<Rightarrow> PrivacyDetector \<Rightarrow> pyval list" where
  "check_regex_patterns text d =
     concat (map (\<lambda>(p, f).
       concat (map (\<lambda>(a, b).
         if regex_accepts p (py_slice a b text)
         then [found ''regex'' (pp_name p) (pp_severity p) (pp_description p) (py_slice a b text) a b] else [])
         (f text))) (pd_regex_patterns d))"

text \<open>A handler that raises is logged; a result that is not a non-empty dictionary or list is ignored.\<close>

definition handler_matches :: "pyval result \<Rightarrow> pyval list" where
  "handler_matches r =
     (case r of
        Inr (VDict kv) \<Rightarrow> if kv = [] then [] else [VDict kv]
      | Inr (VList vs) \<Rightarrow> vs
      | _ \<Rightarrow> [])"

definition check_custom_handlers :: "string \<Rightarrow> PrivacyDetector \<Rightarrow> pyval list" where
  "check_custom_handlers text d = concat (map (\<lambda>(name, h). handler_matches (h text)) (pd_custom_handlers d))"

fun severity_weight :: "pyval \<Rightarrow> rat result" where
  "severity_weight (VStr s) =
     Inr (if s = ''low'' then 3 / 10 else if s = ''medium'' then 6 / 10 else if s = ''high'' then 8 / 10
          else if s = ''critical'' then 1 else 1 / 2)"
| "severity_weight (VList _) = Inl TypeError"
| "severity_weight (VDict _) = Inl TypeError"
| "severity_weight _ = Inr (1 / 2)"

fun match_weight :: "pyval \<Rightarrow> rat result" where
  "match_weight (VDict kv) =
     severity_weight (case map_of kv ''severity'' of None \<Rightarrow> VStr ''medium'' | Some v \<Rightarrow> v)"
| "match_weight _ = Inl AttributeError"

fun total_weight :: "pyval list \<Rightarrow> rat result" where
  "total_weight [] = Inr 0"
| "total_weight (v # vs) = bindE (match_weight v) (\<lambda>w. bindE (total_weight vs) (\<lambda>t. Inr (w + t)))"

definition calculate_confidence :: "pyval list \<Rightarrow> rat result" where
  "calculate_confidence vs =
     (if vs = [] then Inr 0
      else bindE (total_weight vs) (\<lambda>t. Inr (min (t / of_nat (length vs)) 1)))"

definition update_stats :: "bool \<Rightarrow> rat \<Rightarrow> PrivacyDetector \<Rightarrow> PrivacyDetector" where
  "update_stats is_private processing_time d =
     (let n = Suc (pd_total_checks d);
          total_time = pd_avg_processing_time d * (of_nat n - 1)
      in d\<lparr>pd_total_checks := n,
           pd_total_matches := (if is_private then Suc (pd_total_matches d) else pd_total_matches d),
           pd_avg_processing_time := (total_time + processing_time) / of_nat n\<rparr>)"

text \<open>The last argument but one is the time the checks took.\<close>

definition detect_privacy ::
  "text_lib \<Rightarrow> string \<Rightarrow> rat \<Rightarrow> PrivacyDetector \<Rightarrow> DetectionResult result \<times> PrivacyDetector" where
  "detect_privacy lib text processing_time d =
     (let vs = check_trie_patterns lib text d @ check_regex_patterns text d @ check_custom_handlers text d
      in case calculate_confidence vs of
           Inl e \<Rightarrow> (Inl e, d)
         | Inr confidence \<Rightarrow>
             (Inr \<lparr> dr_is_private = (vs \<noteq> []), dr_detected_patterns = vs, dr_confidence = confidence,
                    dr_processing_time = processing_time \<rparr>,
              update_stats (vs \<noteq> []) processing_time d))"

fun batch_detect ::
  "text_lib \<Rightarrow> (string \<times> rat) list \<Rightarrow> PrivacyDetector \<Rightarrow> DetectionResult list result \<times> PrivacyDetector" where
  "batch_detect lib [] d = (Inr [], d)"
| "batch_detect lib ((text, t) # rest) d =
     andThen (detect_privacy lib text t d) (\<lambda>r d1.
     andThen (batch_detect lib rest d1) (\<lambda>rs d2. (Inr (r # rs), d2)))"

definition get_stats :: "PrivacyDetector \<Rightarrow> nat \<times> nat \<times> rat" where
  "get_stats d = (pd_total_checks d, pd_total_matches d, pd_avg_processing_time d)"

definition clear_stats :: "PrivacyDetector \<Rightarrow> PrivacyDetector" where
  "clear_stats d = d\<lparr>pd_total_checks := 0, pd_total_matches := 0, pd_avg_processing_time := 0\<rparr>"

section \<open>The trie as a dictionary\<close>

fun trie_lookup :: "TrieNode \<Rightarrow> string \<Rightarrow> pattern_info option" where
  "trie_lookup n [] = (if t_is_end n then t_info n else None)"
| "trie_lookup n (c # w) = (case map_of (t_children n) c of None \<Rightarrow> None | Some m \<Rightarrow> trie_lookup m w)"

lemma trie_lookup_init [simp]: "trie_lookup trie_node_init w = None"
  by (cases w) (simp_all add: trie_node_init_def)

lemma trie_lookup_insert:
  "trie_lookup (insert_to_trie w meta t) v = (if v = w then Some meta else trie_lookup t v)"
proof (induction w meta t arbitrary: v rule: insert_to_trie.induct)
  case (1 meta ch e i)
  then show ?case by (cases v) auto
next
  case (2 c w meta ch e i)
  then show ?case by (cases v) (auto split: option.splits)
qed

text \<open>The keywords of a list of patterns; a later pattern overrides an earlier one.\<close>

definition keyword_table :: "text_lib \<Rightarrow> PrivacyPattern list \<Rightarrow> string \<Rightarrow> pattern_info option" where
  "keyword_table lib ps = fold (\<lambda>p m. fold (\<lambda>w m. m(w \<mapsto> info_of p)) (pattern_words lib p) m) ps Map.empty"

lemma trie_lookup_fold:
  "trie_lookup (fold (\<lambda>w. insert_to_trie w meta) ws t) = fold (\<lambda>w m. m(w \<mapsto> meta)) ws (trie_lookup t)"
proof (induction ws arbitrary: t)
  case (Cons w ws)
  have "trie_lookup (insert_to_trie w meta t) = (trie_lookup t)(w \<mapsto> meta)"
    by (simp add: fun_eq_iff trie_lookup_insert)
  then show ?case using Cons by simp
qed simp

definition trie_ok :: "text_lib \<Rightarrow> PrivacyDetector \<Rightarrow> bool" where
  "trie_ok lib d \<longleftrightarrow> trie_lookup (pd_trie_root d) = keyword_table lib (pd_trie_patterns d)"

lemma trie_ok_new: "trie_ok lib detector_new"
  by (simp add: trie_ok_def detector_new_def keyword_table_def fun_eq_iff)

lemma trie_ok_add_trie: "trie_ok lib d \<Longrightarrow> trie_ok lib (add_trie_pattern lib p d)"
  by (simp add: trie_ok_def add_trie_pattern_def keyword_table_def trie_lookup_fold)

lemma trie_ok_add: "trie_ok lib d \<Longrightarrow> trie_ok lib (snd (add_pattern lib p d))"
proof -
  have custom: "trie_ok lib (case h of None \<Rightarrow> e | Some f \<Rightarrow> add_custom_handler n f e) = trie_ok lib e" for h n e
    by (simp add: add_custom_handler_def trie_ok_def split: option.splits)
  have "trie_ok lib (add_regex_pattern lib p d) = trie_ok lib d"
    by (simp add: add_regex_pattern_def trie_ok_def split: option.splits)
  then show "trie_ok lib d \<Longrightarrow> trie_ok lib (snd (add_pattern lib p d))"
    by (simp add: add_pattern_def custom trie_ok_add_trie)
qed

lemma trie_ok_load: "trie_ok lib d \<Longrightarrow> trie_ok lib (snd (load_entries lib es d))"
proof (induction lib es d rule: load_entries.induct)
  case (3 lib p es d)
  then show ?case
    using trie_ok_add[OF 3(2), of p] by (cases "add_pattern lib p d"; cases "fst (add_pattern lib p d)") auto
qed simp_all

lemma trie_ok_init: "trie_ok lib (detector_init lib config)"
proof -
  have "trie_ok lib (snd (andThen (load_entries lib ts d) (\<lambda>_ d1. load_entries lib rs d1)))" if "trie_ok lib d" for ts rs d
    using trie_ok_load[OF that, of ts] trie_ok_load[of lib "snd (load_entries lib ts d)" rs]
    by (cases "load_entries lib ts d"; cases "fst (load_entries lib ts d)") auto
  then show ?thesis
    by (auto simp: detector_init_def load_config_def trie_ok_new split: option.splits sum.splits)
qed

lemma detect_same_rules:
  assumes "detect_privacy lib text t d = (r, d')"
  shows "pd_trie_root d' = pd_trie_root d" "pd_trie_patterns d' = pd_trie_patterns d"
  using assms by (auto simp: detect_privacy_def update_stats_def Let_def split: sum.splits)

section \<open>Scanning\<close>

definition word_at ::
  "text_lib \<Rightarrow> string \<Rightarrow> string \<Rightarrow> nat \<Rightarrow> nat \<Rightarrow> pattern_info option \<Rightarrow> pyval list" where
  "word_at lib text low i j m =
     (case m of None \<Rightarrow> [] | Some meta \<Rightarrow> if bounded lib low i j then [found_word text i j meta] else [])"

lemma py_slice_one: "j < length low \<Longrightarrow> py_slice j (Suc j) low = [low ! j]"
  by (simp add: py_slice_def take_Suc_conv_app_nth)

lemma py_slice_cons: "j < length low \<Longrightarrow> j < e \<Longrightarrow> py_slice j e low = low ! j # py_slice (Suc j) e low"
  by (simp add: py_slice_def drop_take flip: Cons_nth_drop_Suc) (simp add: Suc_diff_Suc take_Cons')

lemma scan_trie_words:
  "scan_trie lib text low i j node =
     concat (map (\<lambda>e. word_at lib text low i e (trie_lookup node (py_slice j e low))) [Suc j..<Suc (length low)])"
proof (induction lib "text" low i j node rule: scan_trie.induct)
  case (1 lib tx low i j node)
  show ?case
  proof (cases "j < length low")
    case False
    then show ?thesis by (subst scan_trie.simps) simp
  next
    case True
    then have split: "[Suc j..<Suc (length low)] = Suc j # [Suc (Suc j)..<Suc (length low)]" by (simp add: upt_conv_Cons)
    show ?thesis
    proof (cases "map_of (t_children node) (low ! j)")
      case None
      then have "trie_lookup node (py_slice j e low) = None" if "j < e" for e
        using py_slice_cons[OF True that] by simp
      then show ?thesis using True None by (subst scan_trie.simps) (simp add: word_at_def del: upt_Suc)
    next
      case (Some m)
      have later: "trie_lookup node (py_slice j e low) = trie_lookup m (py_slice (Suc j) e low)" if "j < e" for e
        using py_slice_cons[OF True that] Some by simp
      have "(case t_info m of Some meta \<Rightarrow> if t_is_end m \<and> bounded lib low i (Suc j) then [found_word tx i (Suc j) meta] else []
           | None \<Rightarrow> []) = word_at lib tx low i (Suc j) (trie_lookup node (py_slice j (Suc j) low))"
        using True Some by (auto simp: word_at_def py_slice_one split: option.splits)
      moreover have "map (\<lambda>e. word_at lib tx low i e (trie_lookup m (py_slice (Suc j) e low))) [Suc (Suc j)..<Suc (length low)]
          = map (\<lambda>e. word_at lib tx low i e (trie_lookup node (py_slice j e low))) [Suc (Suc j)..<Suc (length low)]"
        by (rule map_cong) (auto simp: later)
      ultimately show ?thesis
        using 1[OF True Some] True Some unfolding split
        by (subst scan_trie.simps) (simp del: upt_Suc map_eq_conv)
    qed
  qed
qed

text \<open>What the first check should report: every keyword at a word boundary, by start and then by end.\<close>

definition keyword_matches :: "text_lib \<Rightarrow> PrivacyPattern list \<Rightarrow> string \<Rightarrow> pyval list" where
  "keyword_matches lib ps text =
     (let low = tl_lower lib text
      in concat (map (\<lambda>i. concat (map (\<lambda>j. word_at lib text low i j (keyword_table lib ps (py_slice i j low)))
                               [Suc i..<Suc (length low)])) [0..<length low]))"

lemma check_trie_words:
  assumes "trie_ok lib d"
  shows "check_trie_patterns lib text d = keyword_matches lib (pd_trie_patterns d) text"
  using assms
  by (simp add: check_trie_patterns_def keyword_matches_def scan_trie_words trie_ok_def Let_def del: upt_Suc)

section \<open>Detectors in use\<close>

inductive detector_reachable :: "text_lib \<Rightarrow> PrivacyDetector \<Rightarrow> bool" for lib where
  load: "detector_reachable lib (detector_init lib config)"
| pattern: "detector_reachable lib d \<Longrightarrow> add_pattern lib p d = (r, d') \<Longrightarrow> detector_reachable lib d'"
| custom: "detector_reachable lib d \<Longrightarrow> detector_reachable lib (add_custom_handler name h d)"
| detect: "detector_reachable lib d \<Longrightarrow> detect_privacy lib tx t d = (r', d') \<Longrightarrow> detector_reachable lib d'"
| clear: "detector_reachable lib d \<Longrightarrow> detector_reachable lib (clear_stats d)"

lemma reachable_trie_ok: "detector_reachable lib d \<Longrightarrow> trie_ok lib d"
proof (induction rule: detector_reachable.induct)
  case (load config)
  then show ?case by (rule trie_ok_init)
next
  case (pattern d p r d')
  then show ?case using trie_ok_add[of lib d p] by simp
next
  case (detect d tx t r d')
  then show ?case using detect_same_rules[of lib tx t d r d'] by (simp add: trie_ok_def)
qed (auto simp: trie_ok_def add_custom_handler_def clear_stats_def)

lemma severity_weight_bounds: "severity_weight v = Inr w \<Longrightarrow> 3 / 10 \<le> w \<and> w \<le> 1"
  by (cases v) (auto split: if_splits)

lemma match_weight_bounds: "match_weight v = Inr w \<Longrightarrow> 3 / 10 \<le> w \<and> w \<le> 1"
  by (cases v) (auto dest: severity_weight_bounds)

lemma total_weight_bounds:
  "total_weight vs = Inr t \<Longrightarrow> 3 / 10 * of_nat (length vs) \<le> t \<and> t \<le> of_nat (length vs)"
proof (induction vs arbitrary: t)
  case (Cons v vs)
  then obtain w u where "match_weight v = Inr w" "total_weight vs = Inr u" "t = w + u"
    by (cases "match_weight v"; cases "total_weight vs") auto
  then show ?case using Cons.IH[of u] match_weight_bounds[of v w] by (simp add: algebra_simps)
qed simp

lemma confidence_bounds:
  assumes "calculate_confidence vs = Inr q" "vs \<noteq> []"
  shows "3 / 10 \<le> q" "q \<le> 1"
proof -
  obtain t where t: "total_weight vs = Inr t" "q = min (t / of_nat (length vs)) 1"
    using assms by (cases "total_weight vs") (auto simp: calculate_confidence_def)
  have "0 < (of_nat (length vs) :: rat)" using assms(2) by simp
  then show "3 / 10 \<le> q" "q \<le> 1"
    using total_weight_bounds[OF t(1)] t(2) by (simp_all add: pos_le_divide_eq)
qed

section \<open>Luhn sums\<close>

lemma luhn_fold_shift:
  "fold luhn_step xs (t, alt) = (t + fst (fold luhn_step xs (0, alt)), snd (fold luhn_step xs (0, alt)))"
proof (induction xs arbitrary: t alt)
  case (Cons x xs)
  show ?case
    using Cons[of "fst (luhn_step x (t, alt))" "\<not> alt"] Cons[of "fst (luhn_step x (0, alt))" "\<not> alt"]
    by (simp add: luhn_step_def Let_def)
qed simp

lemma luhn_step_injective:
  assumes "is_digit a" "is_digit b" "fst (luhn_step a (0, alt)) mod 10 = fst (luhn_step b (0, alt)) mod 10"
  shows "a = b"
proof -
  have dec: "n \<in> {48, 49, 50, 51, 52, 53, 54, 55, 56, 57}" if "48 \<le> n" "n \<le> 57" for n :: nat
    using that unfolding insert_iff empty_iff by presburger
  have ds: "(of_char a :: nat) \<in> {48, 49, 50, 51, 52, 53, 54, 55, 56, 57}"
    "(of_char b :: nat) \<in> {48, 49, 50, 51, 52, 53, 54, 55, 56, 57}"
    using assms(1,2) dec by (simp_all add: is_digit_def)
  have "(of_char a :: nat) = of_char b"
    using ds assms(3) by (cases alt) (auto simp: luhn_step_def simp del: of_char_eq_iff)
  then show ?thesis by simp
qed

lemma luhn_sum_change:
  assumes "is_digit a" "is_digit b" "a \<noteq> b"
  shows "fst (fold luhn_step (xs @ a # ys) (0, False)) mod 10 \<noteq> fst (fold luhn_step (xs @ b # ys) (0, False)) mod 10"
proof -
  obtain t alt where xs: "fold luhn_step xs (0, False) = (t, alt)" by fastforce
  have s: "fst (fold luhn_step (xs @ c # ys) (0, False))
      = fst (luhn_step c (0, alt)) + (t + fst (fold luhn_step ys (0, \<not> alt)))" for c
    using luhn_fold_shift[of ys "fst (luhn_step c (t, alt))" "\<not> alt"] by (simp add: xs luhn_step_def Let_def)
  show ?thesis
    unfolding s using luhn_step_injective[OF assms(1,2), of alt] assms(3)
    by (metis mod_add_cong add_diff_cancel_right' mod_diff_cong)
qed

section \<open>Properties\<close>

text \<open>
  C38: the trie finds exactly the keywords.  However a detector was configured and used, its first check
  reports for a text every occurrence of a keyword of its patterns that starts and ends at a word
  boundary, in the order of start and end and with the data of the pattern that was added last for that
  word, and nothing else.
\<close>

theorem trie_reports_keywords:
  assumes "detector_reachable lib d"
  shows "check_trie_patterns lib text d = keyword_matches lib (pd_trie_patterns d) text"
  by (rule check_trie_words[OF reachable_trie_ok[OF assms]])

text \<open>A detector with two keywords, over ASCII text.\<close>

definition demo_text_lib :: text_lib where
  "demo_text_lib =
     \<lparr> tl_lower = map (\<lambda>c. if 65 \<le> (of_char c :: nat) \<and> (of_char c :: nat) \<le> 90 then char_of ((of_char c :: nat) + 32) else c),
       tl_isalnum = (\<lambda>c. is_digit c \<or> 65 \<le> (of_char c :: nat) \<and> (of_char c :: nat) \<le> 90 \<or>
                          97 \<le> (of_char c :: nat) \<and> (of_char c :: nat) \<le> 122),
       tl_compile = (\<lambda>_. None) \<rparr>"

definition demo_pattern :: PrivacyPattern where
  "demo_pattern = \<lparr> pp_name = ''id'', pp_pattern = ''iban, Cvv'', pp_pattern_type = ''trie'',
     pp_severity = ''critical'', pp_description = [], pp_custom_handler = None \<rparr>"

abbreviation demo_detector :: PrivacyDetector where
  "demo_detector \<equiv> detector_init demo_text_lib (Some (Inr ([Inr demo_pattern], [])))"

theorem trie_reports_keywords_witness:
  "check_trie_patterns demo_text_lib ''my CVV'' demo_detector
     = keyword_matches demo_text_lib [demo_pattern] ''my CVV'' \<and>
   check_trie_patterns demo_text_lib ''my CVV'' demo_detector = [found ''trie'' ''id'' ''critical'' [] ''CVV'' 3 6]"
proof
  have "pd_trie_patterns demo_detector = [demo_pattern]"
    by (simp add: detector_init_def load_config_def add_pattern_def add_trie_pattern_def detector_new_def demo_pattern_def)
  then show "check_trie_patterns demo_text_lib ''my CVV'' demo_detector
     = keyword_matches demo_text_lib [demo_pattern] ''my CVV''"
    using trie_reports_keywords[OF detector_reachable.load[of demo_text_lib "Some (Inr ([Inr demo_pattern], []))"]]
    by simp
  show "check_trie_patterns demo_text_lib ''my CVV'' demo_detector = [found ''trie'' ''id'' ''critical'' [] ''CVV'' 3 6]"
    by code_simp
qed

text \<open>
  A text is private exactly when its confidence is positive.  A detection that does not raise calls a
  text private iff some check reported something; the confidence is then between 0.3 and 1, and 0
  otherwise; and the statistics count the text once.
\<close>

theorem private_iff_confident:
  assumes "detect_privacy lib text t d = (Inr r, d')"
  shows "(dr_is_private r \<longleftrightarrow> 0 < dr_confidence r) \<and> (dr_is_private r \<longrightarrow> 3 / 10 \<le> dr_confidence r) \<and>
     dr_confidence r \<le> 1 \<and> pd_total_checks d' = Suc (pd_total_checks d) \<and>
     pd_total_matches d' = pd_total_matches d + (if dr_is_private r then 1 else 0)"
proof -
  let ?vs = "check_trie_patterns lib text d @ check_regex_patterns text d @ check_custom_handlers text d"
  obtain q where q: "calculate_confidence ?vs = Inr q"
    "r = \<lparr> dr_is_private = (?vs \<noteq> []), dr_detected_patterns = ?vs, dr_confidence = q, dr_processing_time = t \<rparr>"
    "d' = update_stats (?vs \<noteq> []) t d"
    using assms by (auto simp: detect_privacy_def Let_def split: sum.splits)
  have "?vs = [] \<Longrightarrow> q = 0" using q(1) by (simp add: calculate_confidence_def)
  then show ?thesis
    using q(2,3) confidence_bounds[OF q(1)] by (cases "?vs = []") (auto simp: update_stats_def Let_def)
qed

theorem private_iff_confident_witness:
  "\<exists>r d'. detect_privacy demo_text_lib ''my CVV'' 2 demo_detector = (Inr r, d') \<and> dr_is_private r \<and>
     3 / 10 \<le> dr_confidence r \<and> pd_total_checks d' = Suc (pd_total_checks demo_detector)"
proof -
  let ?run = "detect_privacy demo_text_lib ''my CVV'' 2 demo_detector"
  have "(case fst ?run of Inl _ \<Rightarrow> False | Inr r \<Rightarrow> dr_is_private r) = True" by code_simp
  then obtain r where r: "?run = (Inr r, snd ?run)" "dr_is_private r" by (cases ?run) (auto split: sum.splits)
  from private_iff_confident[OF r(1)] r(2) show ?thesis
    by (intro exI[of _ r] exI[of _ "snd ?run"] conjI r) blast+
qed

text \<open>
  The card check detects every single wrong digit.  If a number passes the Luhn test, no number that
  differs from it in exactly one digit does.
\<close>

theorem luhn_detects_wrong_digit:
  assumes "luhn_ok (xs @ a # ys)" and "is_digit a" and "is_digit b" and "a \<noteq> b"
  shows "\<not> luhn_ok (xs @ b # ys)"
  using assms(1) luhn_sum_change[OF assms(2-4), of "rev ys" "rev xs"]
  by (auto simp: luhn_ok_def split: if_splits)

theorem luhn_detects_wrong_digit_witness:
  "luhn_ok ''4111111111111111'' \<and> \<not> luhn_ok ''4111111161111111''"
proof
  show ok: "luhn_ok ''4111111111111111''" by code_simp
  have "\<not> luhn_ok (''41111111'' @ CHR ''6'' # ''1111111'')"
    by (rule luhn_detects_wrong_digit[of _ "CHR ''1''"]) (use ok in \<open>simp_all add: is_digit_def\<close>)
  then show "\<not> luhn_ok ''4111111161111111''" by simp
qed

end
