(* ===== verification/Pii_Detector.thy ===== *)
theory Pii_Detector
  imports Privacy_Detector Py_Strings
begin

text \<open>
  \<open>managers/private_service/privacy_detector_piiranha.py\<close>: the second tier of the privacy judge.  The two
  neural models are parameters: the token classifier gives every token of a text its most likely label
  with the probability, the language model gives the probability of the answer yes.  Both may raise.
  Probabilities, scores and times are rationals.  The name of the
  model that decided, which only labels a result, is left out.
\<close>

section \<open>Labels\<close>

definition HIGH_PRECISION_LABEL_MARKERS :: "string list" where
  "HIGH_PRECISION_LABEL_MARKERS =
     [''EMAIL'', ''PHONE'', ''TELEPHONE'', ''SOCIAL'', ''SSN'', ''CREDIT'', ''PASSWORD'',
      ''ACCOUNTNUM'', ''ACCOUNT_NUM'', ''ACCOUNTNUMBER'', ''IDCARD'', ''DRIVER'',
      ''TAXNUM'', ''IBAN'', ''IPV'', ''IPADDRESS'', ''MAC'', ''CVV'', ''BITCOIN'',
      ''ETHEREUM'', ''LITECOIN'', ''PASSPORT'', ''PIN'', ''IMEI'', ''USERNAME'']"

record pii_models =
  pm_upper :: "string \<Rightarrow> string"
  pm_label2id :: "(string \<times> int) list"
  pm_classify :: "string list \<Rightarrow> (int \<times> rat) list list result"
  pm_yes_prob :: "string list \<Rightarrow> rat list result"

definition label_ids :: "pii_models \<Rightarrow> string list \<Rightarrow> int list" where
  "label_ids ms markers =
     map snd (filter (\<lambda>(name, _). \<exists>mk \<in> set markers. str_in mk (pm_upper ms name)) (pm_label2id ms))"

text \<open>Per text: the tokens with a high-precision label, and whether a street occurs with a building or a zip code.\<close>

definition high_tokens :: "pii_models \<Rightarrow> (int \<times> rat) list \<Rightarrow> (int \<times> rat) list" where
  "high_tokens ms toks = filter (\<lambda>(l, _). l \<in> set (label_ids ms HIGH_PRECISION_LABEL_MARKERS)) toks"

definition address_combo :: "pii_models \<Rightarrow> (int \<times> rat) list \<Rightarrow> bool" where
  "address_combo ms toks \<longleftrightarrow>
     (\<exists>(l, _) \<in> set toks. l \<in> set (label_ids ms [''STREET''])) \<and>
     (\<exists>(l, _) \<in> set toks. l \<in> set (label_ids ms [''BUILDING'', ''ZIPCODE'', ''ZIP'']))"

section \<open>The detector\<close>

record PiiDetectionResult =
  pr_is_private :: bool
  pr_confidence :: rat
  pr_score :: rat

record PiiPrivacyDetector =
  pii_threshold :: rat
  pii_total_requests :: nat
  pii_total_private :: nat
  pii_avg_time :: rat

definition pii_init :: "rat \<Rightarrow> PiiPrivacyDetector" where
  "pii_init threshold =
     \<lparr> pii_threshold = threshold, pii_total_requests = 0, pii_total_private = 0, pii_avg_time = 0 \<rparr>"

definition tagged_result :: "pii_models \<Rightarrow> (int \<times> rat) list \<Rightarrow> PiiDetectionResult option" where
  "tagged_result ms toks =
     (let sel = high_tokens ms toks
      in if sel \<noteq> [] \<or> address_combo ms toks
         then let s = (if sel \<noteq> [] then sum_list (map snd sel) / of_nat (length sel) else 85 / 100)
              in Some \<lparr> pr_is_private = True, pr_confidence = s, pr_score = s \<rparr>
         else None)"

text \<open>The first loop: results by index, with \<open>None\<close> for the texts left to the language model, and their indices.\<close>

fun tag_loop ::
  "pii_models \<Rightarrow> nat \<Rightarrow> (int \<times> rat) list list \<Rightarrow> PiiDetectionResult option list \<times> nat list" where
  "tag_loop ms i [] = ([], [])"
| "tag_loop ms i (toks # rest) =
     (case tag_loop ms (Suc i) rest of (rs, idx) \<Rightarrow>
        (case tagged_result ms toks of
           Some r \<Rightarrow> (Some r # rs, idx)
         | None \<Rightarrow> (None # rs, i # idx)))"

definition score_result :: "rat \<Rightarrow> rat \<Rightarrow> PiiDetectionResult" where
  "score_result threshold s = \<lparr> pr_is_private = (s \<ge> threshold), pr_confidence = s, pr_score = s \<rparr>"

text \<open>The second loop fills the gaps.\<close>

fun fill_scores ::
  "rat \<Rightarrow> nat list \<Rightarrow> rat list \<Rightarrow> PiiDetectionResult option list \<Rightarrow> PiiDetectionResult option list result" where
  "fill_scores th idx [] rs = Inr rs"
| "fill_scores th [] (s # ss) rs = Inl IndexError"
| "fill_scores th (i # idx) (s # ss) rs = fill_scores th idx ss (rs[i := Some (score_result th s)])"

definition pii_update_stats :: "nat \<Rightarrow> rat \<Rightarrow> PiiPrivacyDetector \<Rightarrow> unit result \<times> PiiPrivacyDetector" where
  "pii_update_stats n t d =
     (let total = pii_total_requests d + n;
          d1 = d\<lparr>pii_total_requests := total\<rparr>
      in if total = 0 then (Inl ZeroDivisionError, d1)
         else (Inr (), d1\<lparr>pii_avg_time := (pii_avg_time d * (of_nat total - 1) + t) / of_nat total\<rparr>))"

definition pii_detect ::
  "pii_models \<Rightarrow> string list \<Rightarrow> rat \<Rightarrow> PiiPrivacyDetector
     \<Rightarrow> PiiDetectionResult option list result \<times> PiiPrivacyDetector" where
  "pii_detect ms texts t d =
     (case pm_classify ms texts of
        Inl e \<Rightarrow> (Inl e, d)
      | Inr toks \<Rightarrow>
          (case tag_loop ms 0 toks of (rs, idx) \<Rightarrow>
             let filled =
               (if idx = [] then Inr rs
                else bindE (pm_yes_prob ms (map ((!) texts) idx)) (\<lambda>ss. fill_scores (pii_threshold d) idx ss rs))
             in case filled of
                  Inl e \<Rightarrow> (Inl e, d)
                | Inr out \<Rightarrow> andThen (pii_update_stats (length texts) t d) (\<lambda>_ d1. (Inr out, d1))))"

definition set_confidence_threshold :: "rat \<Rightarrow> PiiPrivacyDetector \<Rightarrow> unit result \<times> PiiPrivacyDetector" where
  "set_confidence_threshold th d =
     (if 0 \<le> th \<and> th \<le> 1 then (Inr (), d\<lparr>pii_threshold := th\<rparr>)
      else (Inl (ValueError ''Confidence threshold must be between 0.0 and 1.0''), d))"

definition private_detection_rate :: "PiiPrivacyDetector \<Rightarrow> rat" where
  "private_detection_rate d =
     (if pii_total_requests d > 0 then of_nat (pii_total_private d) / of_nat (pii_total_requests d) else 0)"

text \<open>\<open>PiiPrivacyService._handle_requests\<close>: the ids of a batch with their results.\<close>

definition handle_requests ::
  "pii_models \<Rightarrow> (string \<times> string) list \<Rightarrow> rat \<Rightarrow> PiiPrivacyDetector
     \<Rightarrow> (string \<times> PiiDetectionResult option) list result \<times> PiiPrivacyDetector" where
  "handle_requests ms batch t d =
     andThen (pii_detect ms (map snd batch) t d) (\<lambda>rs d1. (Inr (zip (map fst batch) rs), d1))"

section \<open>One verdict per text\<close>

text \<open>Models that treat the texts of a batch one by one.\<close>

definition per_text :: "pii_models \<Rightarrow> (string \<Rightarrow> (int \<times> rat) list) \<Rightarrow> (string \<Rightarrow> rat) \<Rightarrow> bool" where
  "per_text ms tag yes \<longleftrightarrow>
     (\<forall>texts. pm_classify ms texts = Inr (map tag texts)) \<and> (\<forall>texts. pm_yes_prob ms texts = Inr (map yes texts))"

definition verdict :: "pii_models \<Rightarrow> (string \<Rightarrow> (int \<times> rat) list) \<Rightarrow> (string \<Rightarrow> rat) \<Rightarrow> rat \<Rightarrow> string \<Rightarrow> PiiDetectionResult" where
  "verdict ms tag yes th text =
     (case tagged_result ms (tag text) of Some r \<Rightarrow> r | None \<Rightarrow> score_result th (yes text))"

lemma tag_loop_map:
  "tag_loop ms i (map tag texts) =
     (map (tagged_result ms \<circ> tag) texts, filter (\<lambda>j. tagged_result ms (tag (texts ! (j - i))) = None) [i..<i + length texts])"
proof (induction texts arbitrary: i)
  case (Cons x texts)
  have "filter (\<lambda>j. tagged_result ms (tag ((x # texts) ! (j - i))) = None) [Suc i..<Suc i + length texts]
      = filter (\<lambda>j. tagged_result ms (tag (texts ! (j - Suc i))) = None) [Suc i..<Suc i + length texts]"
    by (rule filter_cong) (auto simp: nth_Cons')
  then show ?case using Cons[of "Suc i"] by (simp add: upt_rec[of i] split: option.splits del: upt_Suc)
qed simp

lemma fill_scores_map:
  "distinct idx \<Longrightarrow> \<forall>i \<in> set idx. i < length rs \<Longrightarrow>
     fill_scores th idx (map f idx) rs =
       Inr (map (\<lambda>i. if i \<in> set idx then Some (score_result th (f i)) else rs ! i) [0..<length rs])"
proof (induction idx arbitrary: rs)
  case Nil
  then show ?case by (simp add: map_nth)
next
  case (Cons i idx)
  then show ?case by (auto simp: nth_list_update intro!: map_cong)
qed

definition untagged :: "pii_models \<Rightarrow> (string \<Rightarrow> (int \<times> rat) list) \<Rightarrow> string list \<Rightarrow> nat list" where
  "untagged ms tag texts = filter (\<lambda>j. tagged_result ms (tag (texts ! j)) = None) [0..<length texts]"

lemma pii_detect_map:
  assumes cl: "pm_classify ms texts = Inr (map tag texts)" and ne: "texts \<noteq> []"
    and yes: "untagged ms tag texts \<noteq> [] \<Longrightarrow> pm_yes_prob ms (map ((!) texts) (untagged ms tag texts)) =
      Inr (map yes (map ((!) texts) (untagged ms tag texts)))"
  shows "fst (pii_detect ms texts t d) = Inr (map (Some \<circ> verdict ms tag yes (pii_threshold d)) texts)"
proof -
  let ?idx = "untagged ms tag texts"
  let ?rs = "map (tagged_result ms \<circ> tag) texts" and ?th = "pii_threshold d"
  have tags: "tag_loop ms 0 (map tag texts) = (?rs, ?idx)" using tag_loop_map[of ms 0 tag texts] by (simp add: untagged_def)
  have "fill_scores ?th ?idx (map (yes \<circ> (!) texts) ?idx) ?rs
      = Inr (map (\<lambda>i. if i \<in> set ?idx then Some (score_result ?th ((yes \<circ> (!) texts) i)) else ?rs ! i) [0..<length ?rs])"
    by (rule fill_scores_map) (auto simp: untagged_def)
  also have "map (\<lambda>i. if i \<in> set ?idx then Some (score_result ?th ((yes \<circ> (!) texts) i)) else ?rs ! i) [0..<length ?rs]
      = map (Some \<circ> verdict ms tag yes ?th) texts"
    by (rule nth_equalityI) (auto simp: verdict_def untagged_def split: option.splits)
  finally have fill: "fill_scores ?th ?idx (map (yes \<circ> (!) texts) ?idx) ?rs = Inr (map (Some \<circ> verdict ms tag yes ?th) texts)" .
  have stat: "pii_update_stats (length texts) t d = (Inr (), snd (pii_update_stats (length texts) t d))"
    using ne by (auto simp: pii_update_stats_def Let_def)
  show ?thesis
  proof (cases "?idx = []")
    case True
    then show ?thesis using fill cl tags by (subst pii_detect_def, subst stat) simp
  next
    case False
    then show ?thesis using fill cl tags yes[OF False] by (subst pii_detect_def, subst stat) simp
  qed
qed

text \<open>The same when the models may raise.\<close>

definition per_text_if :: "pii_models \<Rightarrow> (string \<Rightarrow> (int \<times> rat) list) \<Rightarrow> (string \<Rightarrow> rat) \<Rightarrow> bool" where
  "per_text_if ms tag yes \<longleftrightarrow>
     (\<forall>texts out. pm_classify ms texts = Inr out \<longrightarrow> out = map tag texts) \<and>
     (\<forall>texts out. pm_yes_prob ms texts = Inr out \<longrightarrow> out = map yes texts)"

lemma pii_detect_if:
  assumes "per_text_if ms tag yes" "texts \<noteq> []" "pii_detect ms texts t d = (Inr out, d')"
  shows "out = map (Some \<circ> verdict ms tag yes (pii_threshold d)) texts" "pii_threshold d' = pii_threshold d"
proof -
  obtain toks where toks: "pm_classify ms texts = Inr toks"
    using assms(3) by (auto simp: pii_detect_def split: sum.splits)
  then have cl: "pm_classify ms texts = Inr (map tag texts)" using assms(1) by (auto simp: per_text_if_def)
  have tags: "tag_loop ms 0 (map tag texts) = (map (tagged_result ms \<circ> tag) texts, untagged ms tag texts)"
    using tag_loop_map[of ms 0 tag texts] by (simp add: untagged_def)
  have "pm_yes_prob ms (map ((!) texts) (untagged ms tag texts)) = Inr (map yes (map ((!) texts) (untagged ms tag texts)))"
    if ne: "untagged ms tag texts \<noteq> []"
  proof -
    obtain ss where "pm_yes_prob ms (map ((!) texts) (untagged ms tag texts)) = Inr ss"
      using assms(3) cl tags ne
      by (cases "pm_yes_prob ms (map ((!) texts) (untagged ms tag texts))") (auto simp: pii_detect_def)
    then show ?thesis using assms(1) unfolding per_text_if_def by metis
  qed
  from pii_detect_map[OF cl assms(2) this, of t d] assms(3)
  show "out = map (Some \<circ> verdict ms tag yes (pii_threshold d)) texts" by simp
  show "pii_threshold d' = pii_threshold d"
    using assms(3) by (auto simp: pii_detect_def pii_update_stats_def Let_def andThen_Inr split: sum.splits prod.splits if_splits)
qed

section \<open>Properties\<close>

text \<open>
  The second tier judges every text on its own.  With models that treat the texts of a batch one by
  one, the two loops with their index lists give each text, at its position, the verdict of its own
  tags or, without any, of its own yes-probability; no text of a non-empty batch is left without one.
\<close>

theorem pii_detect_per_text:
  assumes "per_text ms tag yes" and "texts \<noteq> []"
  shows "fst (pii_detect ms texts t d) = Inr (map (\<lambda>x. Some (verdict ms tag yes (pii_threshold d) x)) texts)"
  using pii_detect_map[of ms texts tag yes t d] assms by (simp add: per_text_def comp_def)

theorem pii_detect_per_text_witness:
  "let ms = \<lparr> pm_upper = id, pm_label2id = [(''EMAIL'', 7)],
             pm_classify = (\<lambda>texts. Inr (map (\<lambda>x. if str_in ''@'' x then [(7, 9 / 10)] else []) texts)),
             pm_yes_prob = (\<lambda>texts. Inr (map (\<lambda>x. 1 / 10) texts)) \<rparr>
   in fst (pii_detect ms [''hi'', ''a@b'', ''x''] 0 (pii_init (55 / 100))) =
        Inr (map (\<lambda>x. Some (verdict ms (\<lambda>x. if str_in ''@'' x then [(7, 9 / 10)] else []) (\<lambda>_. 1 / 10) (55 / 100) x))
               [''hi'', ''a@b'', ''x''])"
  unfolding Let_def by (subst pii_detect_per_text) (auto simp: per_text_def pii_init_def)

end
