(* ===== verification/Judge_Pipeline.thy ===== *)
theory Judge_Pipeline
  imports Pii_Detector Radix_Isolation
begin

text \<open>
  \<open>managers/private_service/private_service.py\<close>, \<open>privacy_detector_piiranha_client.py\<close> and the response
  thread of \<open>private_client.py\<close>: the threads of the privacy judge and the queues between them.  One
  definition is one turn of a thread; a step of the system is a turn of any of them.  The thread of
  the second tier has three turns, because other threads run between its writes: it sends a request,
  it marks the request as pending, and it waits for the answer.  \<open>hash\<close> is a parameter.
  The score, the model name and the error text of a response are only passed on and left out.
\<close>

section \<open>State\<close>

record PiiBERTResponse =
  br_is_private :: bool
  br_confidence :: rat
  br_status :: string

datatype tier2_pc = Pop | Mark PrivateNodeTask | Wait PrivateNodeTask | Dead

record judge_state =
  j_tier1 :: "PrivateNodeTask list"
  j_first :: "PrivateNodeTask list"
  j_second :: "PrivateNodeTask list"
  j_results :: "(bool \<times> PrivateNodeTask) list"
  j_final :: "PrivateNodeTask list"
  j_rules :: PrivacyDetector
  j_available :: bool
  j_pc :: tier2_pc
  j_t2_tasks :: "(string \<times> string) list list"
  j_t2_results :: "(string \<times> PiiDetectionResult) list list"
  j_cache :: "(string \<times> PiiBERTResponse option) list"
  j_pii :: PiiPrivacyDetector
  j_service_up :: bool

definition judge_init :: "PrivacyDetector \<Rightarrow> bool \<Rightarrow> judge_state" where
  "judge_init rules available =
     \<lparr> j_tier1 = [], j_first = [], j_second = [], j_results = [], j_final = [], j_rules = rules,
       j_available = available, j_pc = Pop, j_t2_tasks = [], j_t2_results = [], j_cache = [],
       j_pii = pii_init (55 / 100), j_service_up = available \<rparr>"

section \<open>The threads\<close>

definition submit :: "PrivateNodeTask \<Rightarrow> judge_state \<Rightarrow> judge_state" where
  "submit t s = s\<lparr>j_tier1 := j_tier1 s @ [t]\<rparr>"

definition process_request :: "judge_state \<Rightarrow> judge_state" where
  "process_request s =
     (case j_tier1 s of
        [] \<Rightarrow> s
      | t # ts \<Rightarrow>
          (let s1 = s\<lparr>j_tier1 := ts\<rparr>
           in if t_task_type t = ''update_private'' then s1\<lparr>j_first := j_first s1 @ [t]\<rparr> else s1))"

text \<open>The task was taken from the queue before the detector runs; when it raises, the task is gone.\<close>

definition process_first_level :: "text_lib \<Rightarrow> rat \<Rightarrow> judge_state \<Rightarrow> judge_state" where
  "process_first_level lib time s =
     (case j_first s of
        [] \<Rightarrow> s
      | t # ts \<Rightarrow>
          (case detect_privacy lib (t_prompt t) time (j_rules s) of
             (Inl e, d) \<Rightarrow> s\<lparr>j_first := ts, j_rules := d\<rparr>
           | (Inr r, d) \<Rightarrow>
               if \<not> dr_is_private r then s\<lparr>j_first := ts, j_rules := d, j_second := j_second s @ [t]\<rparr>
               else s\<lparr>j_first := ts, j_rules := d, j_results := j_results s @ [(True, t)]\<rparr>))"

definition LOW_QUALITY_THRESHOLD :: rat where
  "LOW_QUALITY_THRESHOLD = 3 / 10"

definition HIGH_QUALITY_THRESHOLD :: rat where
  "HIGH_QUALITY_THRESHOLD = 7 / 10"

definition tier2_privacy :: "PiiBERTResponse \<Rightarrow> bool" where
  "tier2_privacy r =
     (if LOW_QUALITY_THRESHOLD < br_confidence r \<and> br_confidence r < HIGH_QUALITY_THRESHOLD then True
      else br_is_private r)"

text \<open>
  \<open>_process_second_level_tasks\<close> with \<open>PiiBERTClient.detect_privacy\<close>, \<open>detect_privacy_sync\<close> and
  \<open>free_cache\<close>.  While the answer is not there the thread sleeps; an id that is missing from the cache
  gets a failed response after five seconds, and its removal then raises outside every handler.
\<close>

definition process_second_level :: "(string \<Rightarrow> string) \<Rightarrow> judge_state \<Rightarrow> judge_state" where
  "process_second_level hash_str s =
     (case j_pc s of
        Pop \<Rightarrow>
          (case j_second s of
             [] \<Rightarrow> s
           | t # ts \<Rightarrow>
               if \<not> j_available s then s\<lparr>j_second := ts, j_results := j_results s @ [(True, t)]\<rparr>
               else
                 (let rid = hash_str (t_prompt t); t1 = t\<lparr>t_request_id := rid\<rparr>
                  in if map_of (j_cache s) rid \<noteq> None then s\<lparr>j_second := ts, j_pc := Wait t1\<rparr>
                     else s\<lparr>j_second := ts, j_t2_tasks := j_t2_tasks s @ [[(rid, t_prompt t)]], j_pc := Mark t1\<rparr>))
      | Mark t \<Rightarrow> s\<lparr>j_cache := dict_set (t_request_id t) None (j_cache s), j_pc := Wait t\<rparr>
      | Wait t \<Rightarrow>
          (case map_of (j_cache s) (t_request_id t) of
             None \<Rightarrow> s\<lparr>j_results := j_results s @ [(True, t)], j_pc := Dead\<rparr>
           | Some None \<Rightarrow> s
           | Some (Some r) \<Rightarrow>
               s\<lparr>j_results := j_results s @ [(tier2_privacy r, t)],
                 j_cache := dict_pop (t_request_id t) (j_cache s), j_pc := Pop\<rparr>)
      | Dead \<Rightarrow> s)"

text \<open>\<open>PiiPrivacyService._process_requests\<close>: an exception of the models ends the thread.\<close>

definition pii_service :: "pii_models \<Rightarrow> rat \<Rightarrow> judge_state \<Rightarrow> judge_state" where
  "pii_service ms time s =
     (if \<not> j_service_up s then s
      else case j_t2_tasks s of
        [] \<Rightarrow> s
      | b # bs \<Rightarrow>
          (case handle_requests ms b time (j_pii s) of
             (Inl e, d) \<Rightarrow> s\<lparr>j_t2_tasks := bs, j_pii := d, j_service_up := False\<rparr>
           | (Inr rs, d) \<Rightarrow>
               if None \<in> snd ` set rs then s\<lparr>j_t2_tasks := bs, j_pii := d, j_service_up := False\<rparr>
               else s\<lparr>j_t2_tasks := bs, j_pii := d,
                      j_t2_results := j_t2_results s @ [map (\<lambda>(rid, r). (rid, the r)) rs]\<rparr>))"

definition handle_single_response :: "string \<times> PiiDetectionResult \<Rightarrow> judge_state \<Rightarrow> judge_state" where
  "handle_single_response x s =
     (case x of (rid, r) \<Rightarrow>
        s\<lparr>j_cache := dict_set rid
             (Some \<lparr> br_is_private = pr_is_private r, br_confidence = pr_confidence r, br_status = ''success'' \<rparr>)
             (j_cache s)\<rparr>)"

definition process_responses :: "judge_state \<Rightarrow> judge_state" where
  "process_responses s =
     (case j_t2_results s of
        [] \<Rightarrow> s
      | b # bs \<Rightarrow> fold handle_single_response b (s\<lparr>j_t2_results := bs\<rparr>))"

definition process_result :: "judge_state \<Rightarrow> judge_state" where
  "process_result s =
     (case j_results s of
        [] \<Rightarrow> s
      | (privacy, t) # rs \<Rightarrow>
          s\<lparr>j_results := rs, j_final := j_final s @ [t\<lparr>t_privacy := privacy\<rparr>]\<rparr>)"

text \<open>\<open>PrivateJudgeClient._response_task\<close>: the verdict reaches the node.\<close>

definition apply_verdict :: "int \<Rightarrow> PrivateNodeTask \<Rightarrow> TreeNode \<Rightarrow> TreeNode" where
  "apply_verdict B t n =
     (let n1 = (if \<not> t_privacy t
                then if \<not> n_permanently_private n
                     then n\<lparr>n_private_tag := 0, n_access_budget := B,
                            n_visibility := (if n_visibility n = vis_value PRIVATE then vis_value BUDGETED_SHARED
                                             else n_visibility n)\<rparr>
                     else n
                else n\<lparr>n_private_tag := 1\<rparr>)
      in n1\<lparr>n_need_check_privacy := False\<rparr>)"

definition response_task :: "int \<Rightarrow> judge_state \<Rightarrow> RadixCache \<Rightarrow> judge_state \<times> RadixCache" where
  "response_task B s c =
     (case j_final s of
        [] \<Rightarrow> (s, c)
      | t # ts \<Rightarrow> (s\<lparr>j_final := ts\<rparr>, upd (t_node t) (apply_verdict B t) c))"

inductive judge_step :: "text_lib \<Rightarrow> pii_models \<Rightarrow> (string \<Rightarrow> string) \<Rightarrow> judge_state \<Rightarrow> judge_state \<Rightarrow> bool"
  for lib ms hash_str where
  "judge_step lib ms hash_str s (submit t s)"
| "judge_step lib ms hash_str s (process_request s)"
| "judge_step lib ms hash_str s (process_first_level lib time s)"
| "judge_step lib ms hash_str s (process_second_level hash_str s)"
| "judge_step lib ms hash_str s (pii_service ms time s)"
| "judge_step lib ms hash_str s (process_responses s)"
| "judge_step lib ms hash_str s (process_result s)"
| "judge_step lib ms hash_str s (fst (response_task B s c))"

inductive judge_reachable ::
  "text_lib \<Rightarrow> pii_models \<Rightarrow> (string \<Rightarrow> string) \<Rightarrow> PrivacyDetector \<Rightarrow> judge_state \<Rightarrow> bool"
  for lib ms hash_str rules where
  start: "judge_reachable lib ms hash_str rules (judge_init rules available)"
| step: "judge_reachable lib ms hash_str rules s \<Longrightarrow> judge_step lib ms hash_str s s' \<Longrightarrow>
    judge_reachable lib ms hash_str rules s'"

section \<open>What the judge has cleared\<close>

definition rules_clean :: "text_lib \<Rightarrow> PrivacyDetector \<Rightarrow> string \<Rightarrow> bool" where
  "rules_clean lib d x \<longleftrightarrow>
     check_trie_patterns lib x d = [] \<and> check_regex_patterns x d = [] \<and> check_custom_handlers x d = []"

definition model_public :: "pii_models \<Rightarrow> (string \<Rightarrow> (int \<times> rat) list) \<Rightarrow> (string \<Rightarrow> rat) \<Rightarrow> string \<Rightarrow> bool" where
  "model_public ms tag yes x \<longleftrightarrow> tagged_result ms (tag x) = None \<and> yes x \<le> LOW_QUALITY_THRESHOLD"

definition same_rules :: "PrivacyDetector \<Rightarrow> PrivacyDetector \<Rightarrow> bool" where
  "same_rules d d' \<longleftrightarrow>
     pd_trie_root d' = pd_trie_root d \<and> pd_regex_patterns d' = pd_regex_patterns d \<and>
     pd_custom_handlers d' = pd_custom_handlers d"

lemma same_rules_clean: "same_rules d d' \<Longrightarrow> rules_clean lib d' x = rules_clean lib d x"
  by (simp add: same_rules_def rules_clean_def check_trie_patterns_def check_regex_patterns_def
      check_custom_handlers_def)

lemma detect_rules:
  assumes "detect_privacy lib x t d = (r, d')"
  shows "same_rules d d'" "r = Inr q \<Longrightarrow> \<not> dr_is_private q \<Longrightarrow> rules_clean lib d x"
  using assms
  by (auto simp: detect_privacy_def same_rules_def rules_clean_def update_stats_def Let_def split: sum.splits)

lemma verdict_public:
  assumes "\<not> tier2_privacy \<lparr> br_is_private = pr_is_private r, br_confidence = pr_confidence r, br_status = st \<rparr>"
    "r = verdict ms tag yes (55 / 100) x"
  shows "model_public ms tag yes x"
proof (cases "tagged_result ms (tag x)")
  case None
  then have "r = score_result (55 / 100) (yes x)" using assms(2) by (simp add: verdict_def)
  then show ?thesis
    using assms(1) None
    by (auto simp: tier2_privacy_def score_result_def model_public_def LOW_QUALITY_THRESHOLD_def
        HIGH_QUALITY_THRESHOLD_def split: if_splits)
next
  case (Some q)
  then have "pr_is_private r" using assms(2) by (auto simp: verdict_def tagged_result_def Let_def split: if_splits)
  then show ?thesis using assms(1) by (simp add: tier2_privacy_def split: if_splits)
qed

section \<open>The request in flight\<close>

text \<open>At most one request of the second tier is in flight; where it can be, and that it may be lost.\<close>

definition answer :: "PiiDetectionResult \<Rightarrow> PiiBERTResponse" where
  "answer r = \<lparr> br_is_private = pr_is_private r, br_confidence = pr_confidence r, br_status = ''success'' \<rparr>"

definition in_flight ::
  "PrivateNodeTask \<Rightarrow> PiiDetectionResult \<Rightarrow> (string \<times> PiiBERTResponse option) list \<Rightarrow> judge_state \<Rightarrow> bool" where
  "in_flight t r idle s \<longleftrightarrow>
     (let rid = t_request_id t
      in j_t2_tasks s = [[(rid, t_prompt t)]] \<and> j_t2_results s = [] \<and> j_cache s = idle \<or>
         j_t2_tasks s = [] \<and> j_t2_results s = [[(rid, r)]] \<and> j_cache s = idle \<or>
         j_t2_tasks s = [] \<and> j_t2_results s = [] \<and> j_cache s = [(rid, Some (answer r))] \<or>
         j_t2_tasks s = [] \<and> j_t2_results s = [] \<and> j_cache s = idle)"

definition tier2_ok :: "(string \<Rightarrow> PiiDetectionResult) \<Rightarrow> (string \<Rightarrow> bool) \<Rightarrow> judge_state \<Rightarrow> bool" where
  "tier2_ok v clean s \<longleftrightarrow>
     (case j_pc s of
        Pop \<Rightarrow> j_t2_tasks s = [] \<and> j_t2_results s = [] \<and> j_cache s = []
      | Mark t \<Rightarrow> clean (t_prompt t) \<and> in_flight t (v (t_prompt t)) [] s
      | Wait t \<Rightarrow> clean (t_prompt t) \<and> in_flight t (v (t_prompt t)) [(t_request_id t, None)] s
      | Dead \<Rightarrow> False)"

definition judge_inv ::
  "text_lib \<Rightarrow> pii_models \<Rightarrow> (string \<Rightarrow> (int \<times> rat) list) \<Rightarrow> (string \<Rightarrow> rat) \<Rightarrow> PrivacyDetector \<Rightarrow> judge_state \<Rightarrow> bool" where
  "judge_inv lib ms tag yes rules s \<longleftrightarrow>
     same_rules rules (j_rules s) \<and> pii_threshold (j_pii s) = 55 / 100 \<and>
     (\<forall>t \<in> set (j_second s). rules_clean lib rules (t_prompt t)) \<and>
     (\<forall>(p, t) \<in> set (j_results s). \<not> p \<longrightarrow> rules_clean lib rules (t_prompt t) \<and> model_public ms tag yes (t_prompt t)) \<and>
     (\<forall>t \<in> set (j_final s). \<not> t_privacy t \<longrightarrow> rules_clean lib rules (t_prompt t) \<and> model_public ms tag yes (t_prompt t)) \<and>
     tier2_ok (verdict ms tag yes (55 / 100)) (rules_clean lib rules) s"

lemma tier2_ok_frame:
  assumes "j_pc s' = j_pc s" "j_t2_tasks s' = j_t2_tasks s" "j_t2_results s' = j_t2_results s" "j_cache s' = j_cache s"
  shows "tier2_ok v clean s' = tier2_ok v clean s"
  using assms by (simp add: tier2_ok_def in_flight_def split: tier2_pc.splits)

lemma judge_inv_first:
  assumes "judge_inv lib ms tag yes rules s"
  shows "judge_inv lib ms tag yes rules (process_first_level lib time s)"
proof (cases "j_first s")
  case Nil
  then show ?thesis using assms by (simp add: process_first_level_def)
next
  case (Cons t ts)
  obtain r d where run: "detect_privacy lib (t_prompt t) time (j_rules s) = (r, d)" by fastforce
  have sr: "same_rules rules (j_rules s)" using assms by (simp add: judge_inv_def)
  then have "same_rules rules d" using detect_rules(1)[OF run] by (simp add: same_rules_def)
  moreover have "rules_clean lib rules (t_prompt t)" if "r = Inr q" "\<not> dr_is_private q" for q
    using detect_rules(2)[OF run that] same_rules_clean[OF sr] by simp
  ultimately show ?thesis
    using assms Cons run
    by (auto simp: process_first_level_def judge_inv_def tier2_ok_def in_flight_def Let_def
        split: sum.splits tier2_pc.splits)
qed

lemma judge_inv_second:
  assumes "judge_inv lib ms tag yes rules s"
  shows "judge_inv lib ms tag yes rules (process_second_level hash_str s)"
proof (cases "j_pc s")
  case Pop
  then show ?thesis
    using assms
    by (auto simp: process_second_level_def judge_inv_def tier2_ok_def in_flight_def Let_def split: list.splits)
next
  case (Mark t)
  then show ?thesis
    using assms by (auto simp: process_second_level_def judge_inv_def tier2_ok_def in_flight_def Let_def)
next
  case (Wait t)
  have "model_public ms tag yes (t_prompt t)"
    if "\<not> tier2_privacy (answer (verdict ms tag yes (55 / 100) (t_prompt t)))"
    using verdict_public[OF _ refl] that by (simp add: answer_def)
  then show ?thesis
    using assms Wait
    by (auto simp: process_second_level_def judge_inv_def tier2_ok_def in_flight_def Let_def)
next
  case Dead
  then show ?thesis using assms by (simp add: judge_inv_def tier2_ok_def)
qed

lemma judge_inv_service:
  assumes inv: "judge_inv lib ms tag yes rules s" and pt: "per_text_if ms tag yes"
  shows "judge_inv lib ms tag yes rules (pii_service ms time s)"
proof (cases "j_service_up s \<and> j_t2_tasks s \<noteq> []")
  case False
  then show ?thesis using inv by (auto simp: pii_service_def split: list.splits)
next
  case True
  then obtain t where pc: "j_pc s = Mark t \<or> j_pc s = Wait t" and b: "j_t2_tasks s = [[(t_request_id t, t_prompt t)]]"
    using inv by (auto simp: judge_inv_def tier2_ok_def in_flight_def Let_def split: tier2_pc.splits)
  have th: "pii_threshold (j_pii s) = 55 / 100" using inv by (simp add: judge_inv_def)
  obtain r d where run: "pii_detect ms [t_prompt t] time (j_pii s) = (r, d)" by fastforce
  show ?thesis
  proof (cases r)
    case (Inl e)
    then have "pii_threshold d = 55 / 100"
      using run th by (auto simp: pii_detect_def pii_update_stats_def Let_def split: sum.splits prod.splits if_splits)
    then show ?thesis
      using inv True b run Inl pc
      by (auto simp: pii_service_def handle_requests_def judge_inv_def tier2_ok_def in_flight_def Let_def)
  next
    case (Inr out)
    have "out = [Some (verdict ms tag yes (55 / 100) (t_prompt t))]" "pii_threshold d = 55 / 100"
      using pii_detect_if[OF pt _ run[unfolded Inr]] th by simp_all
    then show ?thesis
      using inv True b run Inr pc
      by (auto simp: pii_service_def handle_requests_def judge_inv_def tier2_ok_def in_flight_def Let_def)
  qed
qed

lemma judge_inv_responses:
  assumes "judge_inv lib ms tag yes rules s"
  shows "judge_inv lib ms tag yes rules (process_responses s)"
proof (cases "j_t2_results s")
  case (Cons b bs)
  then obtain t where pc: "j_pc s = Mark t \<or> j_pc s = Wait t"
    and b: "b = [(t_request_id t, verdict ms tag yes (55 / 100) (t_prompt t))]" "bs = []" "j_t2_tasks s = []"
    using assms by (auto simp: judge_inv_def tier2_ok_def in_flight_def Let_def split: tier2_pc.splits)
  then show ?thesis
    using assms Cons
    by (auto simp: process_responses_def handle_single_response_def judge_inv_def tier2_ok_def in_flight_def
        answer_def Let_def)
qed (use assms in \<open>simp add: process_responses_def\<close>)

text \<open>The other turns move tasks without looking at the second tier.\<close>

lemma judge_inv_queues:
  assumes "judge_inv lib ms tag yes rules s"
  shows "judge_inv lib ms tag yes rules (submit t s)" "judge_inv lib ms tag yes rules (process_request s)"
    "judge_inv lib ms tag yes rules (process_result s)" "judge_inv lib ms tag yes rules (fst (response_task B s c))"
proof -
  note frame = tier2_ok_frame[of _ s]
  show "judge_inv lib ms tag yes rules (submit t s)"
    using assms frame[of "submit t s"] by (simp add: submit_def judge_inv_def)
  show "judge_inv lib ms tag yes rules (process_request s)"
    using assms frame[of "process_request s"]
    by (auto simp: process_request_def judge_inv_def Let_def split: list.splits)
  show "judge_inv lib ms tag yes rules (process_result s)"
    using assms frame[of "process_result s"] by (auto simp: process_result_def judge_inv_def split: list.splits)
  show "judge_inv lib ms tag yes rules (fst (response_task B s c))"
    using assms frame[of "fst (response_task B s c)"] by (auto simp: response_task_def judge_inv_def split: list.splits)
qed

lemma judge_inv_step:
  assumes "judge_step lib ms hash_str s s'" "judge_inv lib ms tag yes rules s" "per_text_if ms tag yes"
  shows "judge_inv lib ms tag yes rules s'"
  using assms(1)
  by cases (simp_all add: assms(2,3) judge_inv_queues judge_inv_first judge_inv_second judge_inv_service
      judge_inv_responses)

lemma judge_reachable_inv:
  assumes "judge_reachable lib ms hash_str rules s" "per_text_if ms tag yes"
  shows "judge_inv lib ms tag yes rules s"
  using assms(1)
proof (induction rule: judge_reachable.induct)
  case (start available)
  then show ?case by (simp add: judge_inv_def judge_init_def same_rules_def pii_init_def tier2_ok_def)
next
  case (step s s')
  then show ?case using judge_inv_step assms(2) by blast
qed

section \<open>A request that is lost\<close>

definition hung :: "PrivateNodeTask \<Rightarrow> judge_state \<Rightarrow> bool" where
  "hung t s \<longleftrightarrow>
     j_pc s = Wait t \<and> j_t2_tasks s = [] \<and> j_t2_results s = [] \<and> j_cache s = [(t_request_id t, None)]"

lemma hung_step: "judge_step lib ms hash_str s s' \<Longrightarrow> hung t s \<Longrightarrow> hung t s'"
proof (induction rule: judge_step.induct)
  case (3 s time)
  then show ?case by (auto simp: process_first_level_def hung_def split: list.splits prod.splits sum.splits)
qed (auto simp: hung_def submit_def process_request_def process_second_level_def pii_service_def
      process_responses_def process_result_def response_task_def Let_def split: list.splits)

lemma hung_forever: "(judge_step lib ms hash_str)\<^sup>*\<^sup>* s s' \<Longrightarrow> hung t s \<Longrightarrow> hung t s'"
  by (induction rule: rtranclp_induct) (auto intro: hung_step)

lemma clean_detected: "rules_clean lib d x \<Longrightarrow>
    detect_privacy lib x t d =
      (Inr \<lparr> dr_is_private = False, dr_detected_patterns = [], dr_confidence = 0, dr_processing_time = t \<rparr>,
       update_stats False t d)"
  by (simp add: rules_clean_def detect_privacy_def calculate_confidence_def)

section \<open>The line that is judged\<close>

lemma split_on_append: "split_on c (xs @ c # ys) = split_on c xs @ split_on c ys"
  by (induction xs) (auto split: list.splits)

lemma split_on_free: "c \<notin> set xs \<Longrightarrow> split_on c xs = [xs]"
  by (induction xs) auto

lemma strip_solid:
  assumes "xs \<noteq> []" "\<not> is_space (hd xs)" "\<not> is_space (last xs)"
  shows "strip xs = xs"
proof -
  have "lstrip xs = xs" using assms(1,2) by (cases xs) (simp_all add: lstrip_def)
  moreover have "dropWhile is_space (rev xs) = rev xs"
    using assms(1,3) by (cases xs rule: rev_cases) simp_all
  ultimately show ?thesis by (simp add: strip_def)
qed

lemma judged_line_middle:
  assumes "a \<noteq> []" "\<not> is_space (hd a)" "c \<noteq> []" "\<not> is_space (last c)"
    "char_of (10 :: nat) \<notin> set b" "char_of (10 :: nat) \<notin> set c"
  shows "judged_line (a @ char_of (10 :: nat) # b @ char_of (10 :: nat) # c) = b"
proof -
  let ?nl = "char_of (10 :: nat)"
  have "strip (a @ ?nl # b @ ?nl # c) = a @ ?nl # b @ ?nl # c"
    by (rule strip_solid) (use assms in auto)
  then show ?thesis
    using assms(5,6) by (simp add: judged_line_def split_on_append split_on_free nth_append)
qed

section \<open>Properties\<close>

text \<open>
  C9: only text that both tiers cleared is shared.  Whatever the interleaving of the threads, of new
  tasks and of model failures: if the response thread makes a node visible to a tenant that could not
  see it before, then it is the node of the task it handles, the cache is in balanced mode, the node
  was private and not permanently so, no rule matched the judged text, the token classifier found no
  identifier in it, and the language model's probability for private is at most 0.3.
\<close>

theorem only_cleared_text_shared:
  assumes "judge_reachable lib ms hash_str rules s" and "per_text_if ms tag yes"
    and "response_task B s c = (s', c')" and "visible_to c' i u" and "\<not> visible_to c i u"
  shows "\<exists>t ts. j_final s = t # ts \<and> t_node t = i \<and> safekv_mode c = ''balanced'' \<and>
     n_visibility (nd c i) = vis_value PRIVATE \<and> \<not> n_permanently_private (nd c i) \<and>
     rules_clean lib rules (t_prompt t) \<and> model_public ms tag yes (t_prompt t)"
proof -
  obtain t ts where t: "j_final s = t # ts" "c' = upd (t_node t) (apply_verdict B t) c"
    using assms(3-5) by (cases "j_final s") (auto simp: response_task_def)
  have mode: "safekv_mode c' = safekv_mode c" by (simp add: t(2) upd_def)
  have i: "t_node t = i" "i < length (nodes c)"
  proof -
    have "nd c' j = nd c j" if "j \<noteq> t_node t \<or> length (nodes c) \<le> j" for j
      using that by (cases "j = t_node t") (auto simp: t(2) upd_def list_update_beyond)
    moreover have "nd c' i \<noteq> nd c i" using assms(4,5) unfolding visible_to_def mode by metis
    ultimately show "t_node t = i" "i < length (nodes c)" by (metis, metis not_less)
  qed
  have nd: "nd c' i = apply_verdict B t (nd c i)" using i by (simp add: t(2) upd_def)
  have gain: "\<not> t_privacy t" "\<not> n_permanently_private (nd c i)" "n_visibility (nd c i) = vis_value PRIVATE"
    "safekv_mode c = ''balanced''"
    using assms(4,5) unfolding visible_to_def nd mode
    by (auto simp: apply_verdict_def Let_def split: if_splits)
  have "rules_clean lib rules (t_prompt t) \<and> model_public ms tag yes (t_prompt t)"
    using judge_reachable_inv[OF assms(1,2)] t(1) gain(1) by (simp add: judge_inv_def)
  then show ?thesis using t(1) i(1) gain by blast
qed

text \<open>A judge without rules, with models that call everything public, and one task for node 2.\<close>

definition demo_models :: pii_models where
  "demo_models = \<lparr> pm_upper = id, pm_label2id = [], pm_classify = (\<lambda>texts. Inr (map (\<lambda>_. []) texts)),
     pm_yes_prob = (\<lambda>texts. Inr (map (\<lambda>_. 1 / 10) texts)) \<rparr>"

lemma demo_models_per_text: "per_text demo_models (\<lambda>_. []) (\<lambda>_. 1 / 10)" "per_text_if demo_models (\<lambda>_. []) (\<lambda>_. 1 / 10)"
  by (simp_all add: per_text_def per_text_if_def demo_models_def)

lemma demo_clean: "rules_clean demo_text_lib detector_new ''hi''"
  by (simp add: rules_clean_def check_trie_patterns_def check_regex_patterns_def check_custom_handlers_def
      detector_new_def trie_node_init_def demo_text_lib_def scan_trie.simps)

definition demo_task :: PrivateNodeTask where
  "demo_task = \<lparr> t_node = 2, t_task_type = ''update_private'', t_context = ''hi'', t_prompt = ''hi'', t_request_id = [],
     t_timestamp = Fin 0, t_privacy = True \<rparr>"

definition demo_judged :: judge_state where
  "demo_judged =
     process_result (process_second_level id (process_responses (pii_service demo_models 0 (process_second_level id
       (process_second_level id (process_first_level demo_text_lib 0 (process_request (submit demo_task
         (judge_init detector_new True)))))))))"

lemma demo_judged_reachable: "judge_reachable demo_text_lib demo_models id detector_new demo_judged"
  unfolding demo_judged_def
  by (intro judge_reachable.step[OF _ judge_step.intros(1)] judge_reachable.step[OF _ judge_step.intros(2)]
      judge_reachable.step[OF _ judge_step.intros(3)] judge_reachable.step[OF _ judge_step.intros(4)]
      judge_reachable.step[OF _ judge_step.intros(5)] judge_reachable.step[OF _ judge_step.intros(6)]
      judge_reachable.step[OF _ judge_step.intros(7)] judge_reachable.start)

lemma demo_judged_public: "j_final demo_judged = [demo_task\<lparr>t_request_id := ''hi'', t_privacy := False\<rparr>]"
  by (simp add: demo_judged_def judge_init_def submit_def process_request_def process_first_level_def demo_task_def
      clean_detected[OF demo_clean] process_second_level_def pii_service_def handle_requests_def pii_detect_def
      demo_models_def tagged_result_def high_tokens_def address_combo_def pii_init_def pii_update_stats_def
      score_result_def process_responses_def handle_single_response_def process_result_def tier2_privacy_def
      LOW_QUALITY_THRESHOLD_def HIGH_QUALITY_THRESHOLD_def Let_def)

theorem only_cleared_text_shared_witness:
  "let c = demo_insert [1, 2, 3] ''al'' (demo_cache ''balanced'' False);
       c' = snd (response_task 5 demo_judged c)
   in visible_to c' 2 (Some ''bo'') \<and> \<not> visible_to c 2 (Some ''bo'') \<and>
      rules_clean demo_text_lib detector_new ''hi'' \<and> model_public demo_models (\<lambda>_. []) (\<lambda>_. 1 / 10) ''hi''"
proof -
  let ?c = "demo_insert [1, 2, 3] ''al'' (demo_cache ''balanced'' False)"
  let ?run = "response_task 5 demo_judged ?c"
  have vis: "visible_to (snd ?run) 2 (Some ''bo'')" "\<not> visible_to ?c 2 (Some ''bo'')"
    by (simp_all add: response_task_def demo_judged_public demo_task_def apply_verdict_def visible_to_def cache_eval
        update_privacy_def)
  have "?run = (fst ?run, snd ?run)" by simp
  from only_cleared_text_shared[OF demo_judged_reachable demo_models_per_text(2) this vis] vis
  show ?thesis by (auto simp: Let_def demo_judged_public demo_task_def)
qed

text \<open>
  C40: an answer of the second tier can be lost for good.  The request is sent before it is marked as
  pending; if the answer arrives in between, the mark overwrites it.  From every text that the rules
  clear, with models that always answer, the system can reach a state in which the thread of the second
  tier waits for an answer that no one will give: it is in the same state after any number of further
  steps, whatever the other threads do.
\<close>

theorem lost_answer_hangs_tier2:
  assumes "rules_clean lib rules x" and "per_text ms tag yes"
  shows "\<exists>s t. judge_reachable lib ms hash_str rules s \<and> t_prompt t = x \<and> hung t s \<and>
     (\<forall>s'. (judge_step lib ms hash_str)\<^sup>*\<^sup>* s s' \<longrightarrow> hung t s')"
proof -
  let ?t = "\<lparr> t_node = 0, t_task_type = ''update_private'', t_context = x, t_prompt = x, t_request_id = [],
     t_timestamp = Fin 0, t_privacy = True \<rparr>"
  let ?s1 = "process_first_level lib 0 (process_request (submit ?t (judge_init rules True)))"
  let ?s2 = "process_responses (pii_service ms 0 (process_second_level hash_str ?s1))"
  let ?s = "process_second_level hash_str ?s2"
  let ?v = "verdict ms tag yes (55 / 100) x" and ?t' = "?t\<lparr>t_request_id := hash_str x\<rparr>"
  have "judge_reachable lib ms hash_str rules ?s"
    by (intro judge_reachable.step[OF _ judge_step.intros(1)] judge_reachable.step[OF _ judge_step.intros(2)]
        judge_reachable.step[OF _ judge_step.intros(3)] judge_reachable.step[OF _ judge_step.intros(4)]
        judge_reachable.step[OF _ judge_step.intros(5)] judge_reachable.step[OF _ judge_step.intros(6)]
        judge_reachable.start)
  moreover have "hung ?t' ?s"
  proof -
    have "fst (pii_detect ms [x] 0 (pii_init (55 / 100))) = Inr [Some ?v]"
      using pii_detect_map[of ms "[x]" tag yes 0 "pii_init (55 / 100)"] assms(2) by (simp add: per_text_def pii_init_def)
    then obtain d where run: "pii_detect ms [x] 0 (pii_init (55 / 100)) = (Inr [Some ?v], d)" by (metis prod.collapse)
    then show ?thesis
      by (simp add: hung_def judge_init_def submit_def process_request_def process_first_level_def
          clean_detected[OF assms(1)] process_second_level_def pii_service_def handle_requests_def
          process_responses_def handle_single_response_def Let_def)
  qed
  ultimately show ?thesis using hung_forever[of lib ms hash_str ?s _ ?t'] by (intro exI[of _ ?s] exI[of _ ?t']) auto
qed

theorem lost_answer_hangs_tier2_witness:
  "\<exists>s t. judge_reachable demo_text_lib demo_models id detector_new s \<and> t_prompt t = ''hi'' \<and> hung t s \<and>
     (\<forall>s'. (judge_step demo_text_lib demo_models id)\<^sup>*\<^sup>* s s' \<longrightarrow> hung t s')"
  by (rule lost_answer_hangs_tier2[OF demo_clean demo_models_per_text(1)])

text \<open>
  The judge reads one line of a prompt.  For a prompt of at least three lines only the last line but
  one reaches the detectors: two prompts that agree in their last two lines are queued as the same
  task, whatever precedes them, and the text of this task is that line alone.
\<close>

theorem judge_reads_one_line:
  assumes "a \<noteq> []" and "\<not> is_space (hd a)" and "a' \<noteq> []" and "\<not> is_space (hd a')"
    and "d \<noteq> []" and "\<not> is_space (last d)" and "char_of (10 :: nat) \<notin> set b" and "char_of (10 :: nat) \<notin> set d"
  shows "update_privacy env i (Some (a @ char_of (10 :: nat) # b @ char_of (10 :: nat) # d)) c
       = update_privacy env i (Some (a' @ char_of (10 :: nat) # b @ char_of (10 :: nat) # d)) c \<and>
     (\<forall>t \<in> set (tier_1_task_queue (update_privacy env i (Some (a @ char_of (10 :: nat) # b @ char_of (10 :: nat) # d)) c)).
        t \<in> set (tier_1_task_queue c) \<or> t_prompt t = b)"
proof -
  have "judged_line (a @ char_of (10 :: nat) # b @ char_of (10 :: nat) # d) = b"
    "judged_line (a' @ char_of (10 :: nat) # b @ char_of (10 :: nat) # d) = b"
    using judged_line_middle assms by blast+
  then show ?thesis by (auto simp: update_privacy_def upd_def Let_def)
qed

theorem judge_reads_one_line_witness:
  "update_privacy demo_env 2 (Some (''my ssn'' @ char_of (10 :: nat) # ''hi'' @ char_of (10 :: nat) # ''bye''))
       (demo_insert [1, 2, 3] ''al'' (demo_cache ''balanced'' False))
     = update_privacy demo_env 2 (Some (''a poem'' @ char_of (10 :: nat) # ''hi'' @ char_of (10 :: nat) # ''bye''))
       (demo_insert [1, 2, 3] ''al'' (demo_cache ''balanced'' False))"
  by (rule judge_reads_one_line[THEN conjunct1]) (auto simp: is_space_def char_of_def)

end
