(* ===== verification/RW_Lock.thy ===== *)
theory RW_Lock
  imports Prelude "HOL-Library.Multiset"
begin

text \<open>
  \<open>aio_rwlock.py\<close>: a reader-writer lock for coroutines on one \<open>asyncio.Condition\<close>.  A coroutine runs
  without interruption between two awaits, so entering a method, checking again after a wake-up and
  releasing are one step each.  A task that waits on the condition is asleep until it is notified; then
  it is woken and takes its next step once it has the internal lock again.  The order in which woken
  tasks run is left open.
\<close>

section \<open>State\<close>

datatype rw_task = Outside | AsleepR | WokenR | Reading | AsleepW | WokenW | Writing

record RWLock =
  rw_readers :: int
  rw_writer_active :: bool
  rw_waiting_writers :: int
  rw_tasks :: "rw_task list"

definition rwlock_init :: "nat \<Rightarrow> RWLock" where
  "rwlock_init n =
     \<lparr> rw_readers = 0, rw_writer_active = False, rw_waiting_writers = 0, rw_tasks = replicate n Outside \<rparr>"

definition set_task :: "nat \<Rightarrow> rw_task \<Rightarrow> RWLock \<Rightarrow> RWLock" where
  "set_task i t s = s\<lparr>rw_tasks := (rw_tasks s)[i := t]\<rparr>"

fun woken :: "rw_task \<Rightarrow> rw_task" where
  "woken AsleepR = WokenR"
| "woken AsleepW = WokenW"
| "woken t = t"

definition notify_all :: "RWLock \<Rightarrow> RWLock" where
  "notify_all s = s\<lparr>rw_tasks := map woken (rw_tasks s)\<rparr>"

section \<open>The methods\<close>

text \<open>One turn of the loop of \<open>acquire_reader\<close>, on entry and after every wake-up.\<close>

definition acquire_reader :: "nat \<Rightarrow> RWLock \<Rightarrow> RWLock" where
  "acquire_reader i s =
     (if rw_writer_active s \<or> rw_waiting_writers s > 0 then set_task i AsleepR s
      else set_task i Reading (s\<lparr>rw_readers := rw_readers s + 1\<rparr>))"

definition release_reader :: "nat \<Rightarrow> RWLock \<Rightarrow> RWLock" where
  "release_reader i s =
     (let s1 = set_task i Outside (s\<lparr>rw_readers := rw_readers s - 1\<rparr>)
      in if rw_readers s1 = 0 then notify_all s1 else s1)"

text \<open>One turn of the loop of \<open>acquire_writer\<close>; the entry announces the writer first.\<close>

definition try_writer :: "nat \<Rightarrow> RWLock \<Rightarrow> RWLock" where
  "try_writer i s =
     (if rw_writer_active s \<or> rw_readers s > 0 then set_task i AsleepW s
      else set_task i Writing (s\<lparr>rw_writer_active := True, rw_waiting_writers := rw_waiting_writers s - 1\<rparr>))"

definition acquire_writer :: "nat \<Rightarrow> RWLock \<Rightarrow> RWLock" where
  "acquire_writer i s = try_writer i (s\<lparr>rw_waiting_writers := rw_waiting_writers s + 1\<rparr>)"

definition release_writer :: "nat \<Rightarrow> RWLock \<Rightarrow> RWLock" where
  "release_writer i s = notify_all (set_task i Outside (s\<lparr>rw_writer_active := False\<rparr>))"

text \<open>
  A waiting task is cancelled: \<open>wait\<close> raises, the \<open>finally\<close> block of a writer runs.  From Python 3.13 on
  \<open>wait\<close> passes a notification on in this case; earlier it does not.
\<close>

definition cancel :: "nat \<Rightarrow> RWLock \<Rightarrow> RWLock" where
  "cancel i s =
     set_task i Outside
       (if rw_tasks s ! i \<in> {AsleepW, WokenW} then s\<lparr>rw_waiting_writers := rw_waiting_writers s - 1\<rparr> else s)"

definition pass_on :: "nat \<Rightarrow> RWLock \<Rightarrow> RWLock" where
  "pass_on j s = set_task j (woken (rw_tasks s ! j)) s"

section \<open>Runs\<close>

datatype cancellation = NoCancel | Silent | Renotify

abbreviation asleep :: "RWLock \<Rightarrow> nat \<Rightarrow> bool" where
  "asleep s j \<equiv> j < length (rw_tasks s) \<and> rw_tasks s ! j \<in> {AsleepR, AsleepW}"

inductive rw_step :: "cancellation \<Rightarrow> RWLock \<Rightarrow> RWLock \<Rightarrow> bool" for mode where
  enter_reader: "i < length (rw_tasks s) \<Longrightarrow> rw_tasks s ! i \<in> {Outside, WokenR} \<Longrightarrow> rw_step mode s (acquire_reader i s)"
| leave_reader: "i < length (rw_tasks s) \<Longrightarrow> rw_tasks s ! i = Reading \<Longrightarrow> rw_step mode s (release_reader i s)"
| enter_writer: "i < length (rw_tasks s) \<Longrightarrow> rw_tasks s ! i = Outside \<Longrightarrow> rw_step mode s (acquire_writer i s)"
| retry_writer: "i < length (rw_tasks s) \<Longrightarrow> rw_tasks s ! i = WokenW \<Longrightarrow> rw_step mode s (try_writer i s)"
| leave_writer: "i < length (rw_tasks s) \<Longrightarrow> rw_tasks s ! i = Writing \<Longrightarrow> rw_step mode s (release_writer i s)"
| cancel_silent: "mode = Silent \<Longrightarrow> i < length (rw_tasks s) \<Longrightarrow>
    rw_tasks s ! i \<in> {AsleepR, WokenR, AsleepW, WokenW} \<Longrightarrow> rw_step mode s (cancel i s)"
| cancel_pass: "mode = Renotify \<Longrightarrow> i < length (rw_tasks s) \<Longrightarrow>
    rw_tasks s ! i \<in> {AsleepR, WokenR, AsleepW, WokenW} \<Longrightarrow> asleep (cancel i s) j \<Longrightarrow>
    rw_step mode s (pass_on j (cancel i s))"
| cancel_last: "mode = Renotify \<Longrightarrow> i < length (rw_tasks s) \<Longrightarrow>
    rw_tasks s ! i \<in> {AsleepR, WokenR, AsleepW, WokenW} \<Longrightarrow> \<nexists>j. asleep (cancel i s) j \<Longrightarrow>
    rw_step mode s (cancel i s)"

inductive rw_reachable :: "cancellation \<Rightarrow> nat \<Rightarrow> RWLock \<Rightarrow> bool" for mode n where
  start: "rw_reachable mode n (rwlock_init n)"
| step: "rw_reachable mode n s \<Longrightarrow> rw_step mode s s' \<Longrightarrow> rw_reachable mode n s'"

section \<open>Counting tasks\<close>

definition cnt :: "rw_task \<Rightarrow> rw_task list \<Rightarrow> int" where
  "cnt t ts = int (count (mset ts) t)"

lemma cnt_update:
  "i < length ts \<Longrightarrow> cnt t (ts[i := u]) = cnt t ts - (if ts ! i = t then 1 else 0) + (if u = t then 1 else 0)"
  by (auto simp: cnt_def mset_update nth_mem Suc_leI of_nat_diff)

lemma cnt_nonneg [simp]: "0 \<le> cnt t ts"
  by (simp add: cnt_def)

lemma cnt_pos: "0 < cnt t ts \<longleftrightarrow> t \<in> set ts"
  by (simp add: cnt_def count_greater_zero_iff)

lemma cnt_not_pos: "\<not> 0 < cnt t ts \<Longrightarrow> cnt t ts = 0"
  using cnt_nonneg[of t ts] by linarith

lemma cnt_nth: "i < length ts \<Longrightarrow> 0 < cnt (ts ! i) ts"
  by (simp add: cnt_pos)

lemma cnt_woken:
  "cnt t (map woken ts) =
     (case t of AsleepR \<Rightarrow> 0 | AsleepW \<Rightarrow> 0 | WokenR \<Rightarrow> cnt WokenR ts + cnt AsleepR ts
      | WokenW \<Rightarrow> cnt WokenW ts + cnt AsleepW ts | _ \<Rightarrow> cnt t ts)"
proof (induction ts)
  case (Cons u ts)
  then show ?case by (cases u) (auto simp: cnt_def split: rw_task.splits)
qed (simp add: cnt_def split: rw_task.splits)

text \<open>The counters are exact, a writer excludes everyone, and a writer sleeps only while someone holds the lock.\<close>

definition rw_inv :: "RWLock \<Rightarrow> bool" where
  "rw_inv s \<longleftrightarrow>
     rw_readers s = cnt Reading (rw_tasks s) \<and>
     cnt Writing (rw_tasks s) = (if rw_writer_active s then 1 else 0) \<and>
     rw_waiting_writers s = cnt AsleepW (rw_tasks s) + cnt WokenW (rw_tasks s) \<and>
     (rw_writer_active s \<longrightarrow> rw_readers s = 0) \<and>
     (cnt AsleepW (rw_tasks s) > 0 \<longrightarrow> rw_writer_active s \<or> rw_readers s > 0)"

lemma rw_inv_step:
  assumes "rw_step mode s s'" "rw_inv s"
  shows "rw_inv s'"
  using assms
proof (induction rule: rw_step.induct)
  case (enter_reader i s)
  then show ?case by (auto simp: rw_inv_def acquire_reader_def set_task_def cnt_update)
next
  case (leave_reader i s)
  then show ?case
    using cnt_nth[of i "rw_tasks s"]
    by (auto simp: rw_inv_def release_reader_def set_task_def notify_all_def cnt_woken cnt_update Let_def)
next
  case (enter_writer i s)
  then show ?case by (auto simp: rw_inv_def acquire_writer_def try_writer_def set_task_def cnt_update dest: cnt_not_pos)
next
  case (retry_writer i s)
  then show ?case by (auto simp: rw_inv_def try_writer_def set_task_def cnt_update dest: cnt_not_pos)
next
  case (leave_writer i s)
  then show ?case
    using cnt_nth[of i "rw_tasks s"]
    by (auto simp: rw_inv_def release_writer_def set_task_def notify_all_def cnt_woken cnt_update split: if_splits)
next
  case (cancel_silent i s)
  then show ?case by (auto simp: rw_inv_def cancel_def set_task_def cnt_update)
next
  case (cancel_pass i s j)
  then have c: "rw_inv (cancel i s)" by (auto simp: rw_inv_def cancel_def set_task_def cnt_update)
  show ?case using c cancel_pass(4) by (auto simp: rw_inv_def pass_on_def set_task_def cnt_update)
next
  case (cancel_last i s)
  then show ?case by (auto simp: rw_inv_def cancel_def set_task_def cnt_update)
qed

lemma rw_inv_reachable: "rw_reachable mode n s \<Longrightarrow> rw_inv s"
proof (induction rule: rw_reachable.induct)
  case start
  then show ?case by (simp add: rw_inv_def rwlock_init_def cnt_def)
next
  case (step s s')
  then show ?case using rw_inv_step by blast
qed

section \<open>Nobody sleeps alone\<close>

definition held :: "RWLock \<Rightarrow> bool" where
  "held s \<longleftrightarrow> rw_writer_active s \<or> rw_readers s > 0"

definition rw_live :: "cancellation \<Rightarrow> RWLock \<Rightarrow> bool" where
  "rw_live mode s \<longleftrightarrow>
     (cnt AsleepR (rw_tasks s) > 0 \<longrightarrow>
        held s \<or> cnt WokenW (rw_tasks s) > 0 \<or> mode = Renotify \<and> cnt WokenR (rw_tasks s) > 0)"

lemma rw_live_step:
  assumes "rw_step mode s s'" "rw_inv s" "rw_live mode s" "mode \<noteq> Silent"
  shows "rw_live mode s'"
  using assms
proof (induction rule: rw_step.induct)
  case (enter_reader i s)
  then show ?case
    by (auto simp: rw_inv_def rw_live_def held_def acquire_reader_def set_task_def cnt_update)
next
  case (leave_reader i s)
  then show ?case
    by (auto simp: rw_inv_def rw_live_def held_def release_reader_def set_task_def notify_all_def cnt_woken cnt_update Let_def)
next
  case (enter_writer i s)
  then show ?case
    by (auto simp: rw_inv_def rw_live_def held_def acquire_writer_def try_writer_def set_task_def cnt_update)
next
  case (retry_writer i s)
  then show ?case by (auto simp: rw_inv_def rw_live_def held_def try_writer_def set_task_def cnt_update)
next
  case (leave_writer i s)
  then show ?case
    by (auto simp: rw_live_def release_writer_def set_task_def notify_all_def cnt_woken)
next
  case (cancel_pass i s j)
  have inv: "rw_inv (cancel i s)"
    using cancel_pass(2,3,5) by (auto simp: rw_inv_def cancel_def set_task_def cnt_update)
  have same: "held (pass_on j (cancel i s)) = held (cancel i s)" by (simp add: held_def pass_on_def set_task_def)
  consider (r) "rw_tasks (cancel i s) ! j = AsleepR" | (w) "rw_tasks (cancel i s) ! j = AsleepW"
    using cancel_pass(4) by blast
  then show ?case
  proof cases
    case r
    then show ?thesis
      using cancel_pass(1,4) by (auto simp: rw_live_def pass_on_def set_task_def cnt_update)
  next
    case w
    then have "held (cancel i s)"
      using inv cnt_nth[of j "rw_tasks (cancel i s)"] cancel_pass(4) by (auto simp: rw_inv_def held_def)
    then show ?thesis by (simp add: rw_live_def same)
  qed
next
  case (cancel_last i s)
  then have "\<not> cnt AsleepR (rw_tasks (cancel i s)) > 0"
    unfolding cnt_pos by (metis in_set_conv_nth insertI1)
  then show ?case by (simp add: rw_live_def)
qed simp

lemma rw_live_reachable: "rw_reachable mode n s \<Longrightarrow> mode \<noteq> Silent \<Longrightarrow> rw_live mode s"
proof (induction rule: rw_reachable.induct)
  case start
  then show ?case by (simp add: rw_live_def rwlock_init_def cnt_def)
next
  case (step s s')
  then show ?case using rw_live_step rw_inv_reachable by blast
qed

section \<open>Properties\<close>

text \<open>
  The lock is exclusive.  In every reachable state, with any cancellations: at most one task is
  writing, nobody reads while one writes, and the counters are the numbers of readers and of waiting
  writers.
\<close>

theorem rwlock_exclusive:
  assumes "rw_reachable mode n s"
  shows "cnt Writing (rw_tasks s) \<le> 1 \<and> (Writing \<in> set (rw_tasks s) \<longrightarrow> Reading \<notin> set (rw_tasks s)) \<and>
     rw_readers s = cnt Reading (rw_tasks s) \<and> (rw_writer_active s \<longleftrightarrow> Writing \<in> set (rw_tasks s)) \<and>
     rw_waiting_writers s = cnt AsleepW (rw_tasks s) + cnt WokenW (rw_tasks s)"
proof -
  have inv: "rw_inv s" by (rule rw_inv_reachable[OF assms])
  then show ?thesis
    using cnt_pos[of Writing "rw_tasks s"] cnt_pos[of Reading "rw_tasks s"]
    by (auto simp: rw_inv_def split: if_splits)
qed

text \<open>A writer that holds the lock and a reader that waits for it.\<close>

lemmas rw_eval = rwlock_init_def acquire_writer_def try_writer_def acquire_reader_def release_writer_def cancel_def
  set_task_def notify_all_def numeral_3_eq_3 numeral_2_eq_2

lemma demo_rw_reachable: "rw_reachable mode 2 (acquire_reader 1 (acquire_writer 0 (rwlock_init 2)))"
  by (intro rw_reachable.step[OF _ enter_reader] rw_reachable.step[OF _ enter_writer] rw_reachable.start)
     (simp_all add: rw_eval)

theorem rwlock_exclusive_witness:
  "rw_tasks (acquire_reader 1 (acquire_writer 0 (rwlock_init 2))) = [Writing, AsleepR] \<and>
   cnt Writing [Writing, AsleepR] \<le> 1"
proof
  show ts: "rw_tasks (acquire_reader 1 (acquire_writer 0 (rwlock_init 2))) = [Writing, AsleepR]" by (simp add: rw_eval)
  show "cnt Writing [Writing, AsleepR] \<le> 1" using rwlock_exclusive[OF demo_rw_reachable] unfolding ts by blast
qed

text \<open>
  C39: no task waits in vain.  As long as waiting tasks are not cancelled, or a cancelled wait passes its
  notification on, some task makes progress whenever one sleeps: someone holds the lock and will
  notify, or a woken task is about to run.
\<close>

theorem rwlock_no_lost_wakeup:
  assumes "rw_reachable mode n s" and "mode \<noteq> Silent" and "AsleepR \<in> set (rw_tasks s) \<or> AsleepW \<in> set (rw_tasks s)"
  shows "rw_writer_active s \<or> rw_readers s > 0 \<or> WokenR \<in> set (rw_tasks s) \<or> WokenW \<in> set (rw_tasks s)"
  using assms(3) rw_inv_reachable[OF assms(1)] rw_live_reachable[OF assms(1,2)]
  by (auto simp: rw_inv_def rw_live_def held_def simp flip: cnt_pos)

theorem rwlock_no_lost_wakeup_witness:
  "AsleepR \<in> set (rw_tasks (acquire_reader 1 (acquire_writer 0 (rwlock_init 2)))) \<and>
   rw_writer_active (acquire_reader 1 (acquire_writer 0 (rwlock_init 2)))"
proof
  show sleeps: "AsleepR \<in> set (rw_tasks (acquire_reader 1 (acquire_writer 0 (rwlock_init 2))))" by (simp add: rw_eval)
  show "rw_writer_active (acquire_reader 1 (acquire_writer 0 (rwlock_init 2)))"
    using rwlock_no_lost_wakeup[OF demo_rw_reachable[of Renotify] _ disjI1[OF sleeps]] by (simp add: rw_eval)
qed

text \<open>
  A cancelled writer can leave a reader asleep.  When a cancelled wait does not pass its
  notification on, there is a run of three tasks after which a reader sleeps although the lock is free, no
  writer waits and no task is about to run.
\<close>

theorem rwlock_cancel_loses_wakeup:
  "\<exists>s. rw_reachable Silent 3 s \<and> rw_tasks s = [Outside, AsleepR, Outside] \<and>
     rw_readers s = 0 \<and> \<not> rw_writer_active s \<and> rw_waiting_writers s = 0"
proof -
  let ?s3 = "acquire_writer 2 (acquire_reader 1 (acquire_writer 0 (rwlock_init 3)))"
  let ?s4 = "release_writer 0 ?s3"
  let ?s = "cancel 2 (acquire_reader 1 ?s4)"
  have "rw_reachable Silent 3 ?s4"
    by (intro rw_reachable.step[OF _ leave_writer] rw_reachable.step[OF _ enter_writer]
        rw_reachable.step[OF _ enter_reader] rw_reachable.start) (simp_all add: rw_eval)
  then have "rw_reachable Silent 3 ?s"
    by (intro rw_reachable.step[OF _ cancel_silent] rw_reachable.step[OF _ enter_reader]) (simp_all add: rw_eval)
  moreover have "rw_tasks ?s = [Outside, AsleepR, Outside] \<and> rw_readers ?s = 0 \<and> \<not> rw_writer_active ?s \<and>
      rw_waiting_writers ?s = 0"
    by (simp add: rw_eval)
  ultimately show ?thesis by blast
qed

end
