(* ===== verification/Radix_Owner.thy ===== *)
theory Radix_Owner
  imports Radix_Reach Radix_Path
begin

text \<open>
  Who owns a node.  Below the root that \<open>_private_root\<close> makes for a principal, every node carries the
  namespace of that root and was created by that principal.  This is a property of the edges of the
  arena; lookups, insertions and every other operation keep it.
\<close>

section \<open>Edges\<close>

definition kin :: "TreeNode \<Rightarrow> TreeNode \<Rightarrow> bool" where
  "kin p t \<longleftrightarrow>
     n_namespace_key t = n_namespace_key p \<and>
     (\<forall>u f. n_namespace_key p = Some (ns_private u f) \<longrightarrow> n_creator_id t = Some u)"

definition kin_edges :: "TreeNode list \<Rightarrow> bool" where
  "kin_edges ns \<longleftrightarrow> (\<forall>(p, i) \<in> child_rel ns. kin (ns ! p) (ns ! i))"

definition tags_kept :: "TreeNode list \<Rightarrow> TreeNode list \<Rightarrow> bool" where
  "tags_kept ns ns' \<longleftrightarrow>
     length ns \<le> length ns' \<and>
     (\<forall>i < length ns. n_namespace_key (ns' ! i) = n_namespace_key (ns ! i) \<and>
        n_creator_id (ns' ! i) = n_creator_id (ns ! i))"

lemma tags_kept_refl [simp]: "tags_kept ns ns"
  by (simp add: tags_kept_def)

lemma tags_kept_trans: "tags_kept a b \<Longrightarrow> tags_kept b c \<Longrightarrow> tags_kept a c"
  by (auto simp: tags_kept_def)

lemma kinD:
  assumes "kin_edges ns" "(p, i) \<in> child_rel ns"
  shows "n_namespace_key (ns ! i) = n_namespace_key (ns ! p)"
    "n_namespace_key (ns ! p) = Some (ns_private u f) \<Longrightarrow> n_creator_id (ns ! i) = Some u"
  using bspec[OF assms(1)[unfolded kin_edges_def] assms(2)] by (auto simp: kin_def)

text \<open>Enough for one step: nodes keep their tags, and every edge is an old one or in order.\<close>

lemma kin_edgesI:
  assumes "kin_edges ns" "tree_ok ps ns" "tags_kept ns ns'"
    and "\<And>p i. (p, i) \<in> child_rel ns' \<Longrightarrow> (p, i) \<in> child_rel ns \<or> kin (ns' ! p) (ns' ! i)"
  shows "kin_edges ns'"
proof -
  have "kin (ns' ! p) (ns' ! i)" if "(p, i) \<in> child_rel ns" for p i
    using kinD[OF assms(1) that] child_relD(1,2)[OF assms(2) that] assms(3)
    by (auto simp: kin_def tags_kept_def)
  then show ?thesis using assms(4) by (auto simp: kin_edges_def)
qed

lemma kin_edges_shape:
  assumes "kin_edges ns" "tree_ok ps ns" "length ns' = length ns"
    and "\<And>j. j < length ns \<Longrightarrow> same_shape (ns ! j) (ns' ! j)"
  shows "kin_edges ns' \<and> tags_kept ns ns'"
proof -
  have tags: "tags_kept ns ns'" using assms(3,4) by (simp add: tags_kept_def same_shape_def)
  moreover have "child_rel ns' = child_rel ns"
    using assms(3,4) by (auto simp: child_rel_def child_ids_def same_shape_def)
  ultimately show ?thesis using kin_edgesI[OF assms(1,2)] by blast
qed

lemma touch_shape: "touched (ns ! i) t \<Longrightarrow> j < length ns \<Longrightarrow> same_shape (ns ! j) (ns[i := t] ! j)"
  by (cases "j = i") (simp_all add: touched_def)

lemma kin_edges_touch:
  "kin_edges ns \<Longrightarrow> tree_ok ps ns \<Longrightarrow> touched (ns ! i) t \<Longrightarrow> kin_edges (ns[i := t]) \<and> tags_kept ns (ns[i := t])"
  using kin_edges_shape[of ns ps "ns[i := t]"] touch_shape[of ns i t] by simp

lemma kin_edges_split:
  assumes "kin_edges ns" "tree_ok ps ns" "(p, child) \<in> child_rel ns"
  shows "kin_edges (split_arena ps p child n ns) \<and> tags_kept ns (split_arena ps p child n ns)"
proof -
  let ?ns = "split_arena ps p child n ns"
  note cr = child_relD[OF assms(2,3)]
  have pc: "p \<noteq> child" using parent_neq[OF assms(2) cr(2,3)] .
  note nth = nth_split_arena[OF cr(2,1) pc, where ps = ps and n = n]
  have tags: "tags_kept ns ?ns"
    unfolding tags_kept_def
  proof (intro conjI allI impI)
    fix i
    assume i: "i < length ns"
    consider "i = child" | "i = p" | "i \<noteq> p" "i \<noteq> child" by blast
    then have "n_namespace_key (?ns ! i) = n_namespace_key (ns ! i) \<and> n_creator_id (?ns ! i) = n_creator_id (ns ! i)"
    proof cases
      case 1
      then show ?thesis unfolding 1 nth(2) by (simp add: lower_half_def)
    next
      case 2
      then show ?thesis unfolding 2 nth(3) by simp
    next
      case 3
      then show ?thesis using nth(4)[OF i] by simp
    qed
    then show "n_namespace_key (?ns ! i) = n_namespace_key (ns ! i)" "n_creator_id (?ns ! i) = n_creator_id (ns ! i)"
      by simp_all
  qed simp
  have new: "kin (?ns ! p) (?ns ! length ns)" "kin (?ns ! length ns) (?ns ! child)"
    using kinD[OF assms(1,3)] nth(1-3) by (auto simp: kin_def upper_half_def lower_half_def)
  have "(q, i) \<in> child_rel ns \<or> kin (?ns ! q) (?ns ! i)" if e: "(q, i) \<in> child_rel ?ns" for q i
  proof -
    consider "q = length ns" | "q = p" | "q < length ns" "q \<noteq> p" using e by (auto simp: child_rel_def less_Suc_eq)
    then show ?thesis
    proof cases
      case 1
      then have "i = child" using e nth(1) by (simp add: child_rel_def child_ids_def upper_half_def)
      then show ?thesis using 1 new(2) by simp
    next
      case 2
      then have "i = length ns \<or> (q, i) \<in> child_rel ns"
        using e nth(3) cr(1) snd_set_dict_set[of _ "length ns" "n_children (ns ! p)"]
        by (auto simp: child_rel_def child_ids_def)
      then show ?thesis using 2 new(1) by auto
    next
      case 3
      then show ?thesis
        using e nth(2) nth(4)[of q] by (cases "q = child") (auto simp: child_rel_def child_ids_def lower_half_def)
    qed
  qed
  then show ?thesis using kin_edgesI[OF assms(1,2) tags] tags by blast
qed

lemma kin_edges_leaf:
  assumes "kin_edges ns" "tree_ok ps ns" "p < length ns" "n_children t = []" "kin (ns ! p) t"
    and ns': "ns' = (ns @ [t])[p := (ns ! p)\<lparr>n_children := dict_set k (length ns) (n_children (ns ! p))\<rparr>]"
  shows "kin_edges ns' \<and> tags_kept ns ns'"
proof -
  have nth: "ns' ! p = (ns ! p)\<lparr>n_children := dict_set k (length ns) (n_children (ns ! p))\<rparr>" "ns' ! length ns = t"
    "\<And>i. i < length ns \<Longrightarrow> i \<noteq> p \<Longrightarrow> ns' ! i = ns ! i" "length ns' = Suc (length ns)"
    using assms(3) by (auto simp: ns' nth_append nth_list_update)
  have tags: "tags_kept ns ns'"
    unfolding tags_kept_def
  proof (intro conjI allI impI)
    fix i
    assume "i < length ns"
    then show "n_namespace_key (ns' ! i) = n_namespace_key (ns ! i)" "n_creator_id (ns' ! i) = n_creator_id (ns ! i)"
      using nth(1) nth(3)[of i] by (cases "i = p"; simp)+
  qed (simp add: nth(4))
  have "(q, i) \<in> child_rel ns \<or> kin (ns' ! q) (ns' ! i)" if e: "(q, i) \<in> child_rel ns'" for q i
  proof -
    consider "q = length ns" | "q = p" | "q < length ns" "q \<noteq> p"
      using e nth(4) by (auto simp: child_rel_def less_Suc_eq)
    then show ?thesis
    proof cases
      case 1
      then show ?thesis using e nth(2) assms(4) by (simp add: child_rel_def child_ids_def)
    next
      case 2
      then have "i = length ns \<or> (q, i) \<in> child_rel ns"
        using e nth(1) assms(3) snd_set_dict_set[of k "length ns" "n_children (ns ! p)"]
        by (auto simp: child_rel_def child_ids_def)
      then show ?thesis using 2 nth(1,2) assms(5) by (auto simp: kin_def)
    next
      case 3
      then show ?thesis using e nth(3)[of q] by (simp add: child_rel_def child_ids_def)
    qed
  qed
  then show ?thesis using kin_edgesI[OF assms(1,2) tags] tags by blast
qed

lemma kin_edges_append:
  assumes "kin_edges ns" "tree_ok ps ns" "n_children t = []"
  shows "kin_edges (ns @ [t]) \<and> tags_kept ns (ns @ [t])"
proof -
  have tags: "tags_kept ns (ns @ [t])" by (simp add: tags_kept_def nth_append)
  have "child_rel (ns @ [t]) \<subseteq> child_rel ns"
    using assms(3) by (auto simp: child_rel_def child_ids_def nth_append less_Suc_eq)
  then show ?thesis using kin_edgesI[OF assms(1,2) tags] tags by blast
qed

lemma kin_edges_pop:
  assumes "kin_edges ns" "tree_ok ps ns"
  shows "kin_edges (ns[p := (ns ! p)\<lparr>n_children := dict_pop k (n_children (ns ! p))\<rparr>]) \<and>
     tags_kept ns (ns[p := (ns ! p)\<lparr>n_children := dict_pop k (n_children (ns ! p))\<rparr>])"
proof -
  let ?ns = "ns[p := (ns ! p)\<lparr>n_children := dict_pop k (n_children (ns ! p))\<rparr>]"
  have nth: "?ns ! i = (if i = p then (ns ! p)\<lparr>n_children := dict_pop k (n_children (ns ! p))\<rparr> else ns ! i)"
    if "i < length ns" for i
    using that by auto
  have tags: "tags_kept ns ?ns" unfolding tags_kept_def by (auto simp: nth)
  have "set (n_children (?ns ! i)) \<subseteq> set (n_children (ns ! i))" if "i < length ns" for i
    using nth[OF that] by (auto simp: dict_pop_member)
  then have "child_rel ?ns \<subseteq> child_rel ns" unfolding child_rel_def child_ids_def by fastforce
  then show ?thesis using kin_edgesI[OF assms tags] tags by blast
qed

section \<open>Owned caches\<close>

definition owned :: "RadixCache \<Rightarrow> bool" where
  "owned c \<longleftrightarrow>
     kin_edges (nodes c) \<and> n_namespace_key (nd c (root_node c)) = None \<and>
     (\<forall>(u, r) \<in> set (private_roots c). n_namespace_key (nd c r) = Some (ns_private u ''namespace-root'')) \<and>
     (\<forall>(oid, r) \<in> set (public_roots c). public_namespace (n_namespace_key (nd c r)))"

lemma owned_keeps:
  assumes "owned c" "cache_ok c" "same_frame c c'" "kin_edges (nodes c') \<and> tags_kept (nodes c) (nodes c')"
  shows "owned c'"
proof -
  have tag: "n_namespace_key (nd c' i) = n_namespace_key (nd c i)" if "i < length (nodes c)" for i
    using assms(4) that by (simp add: tags_kept_def)
  show ?thesis
    using assms tag[OF cache_ok_root[OF assms(2)]] tag[OF cache_ok_private[OF assms(2)]] tag[OF cache_ok_public[OF assms(2)]]
    by (auto simp: owned_def same_frame_def)
qed

lemma owned_same_nodes: "owned c \<Longrightarrow> same_nodes c c' \<Longrightarrow> owned c'"
  by (simp add: owned_def same_nodes_def same_frame_def)

lemma owned_adds_root:
  assumes "owned c" "cache_ok c" "adds_root c c'"
  shows "owned c'"
proof -
  obtain t n where t: "nodes c' = nodes c @ [t]" "n_children t = []" "n_namespace_key t = Some n"
    and r: "\<And>u r. (u, r) \<in> set (private_roots c') \<Longrightarrow>
       (u, r) \<in> set (private_roots c) \<or> r = length (nodes c) \<and> n = ns_private u ''namespace-root''"
      "\<And>oid r. (oid, r) \<in> set (public_roots c') \<Longrightarrow>
       (oid, r) \<in> set (public_roots c) \<or> r = length (nodes c) \<and> ns_visibility n = VERIFIED_PUBLIC"
    and root: "root_node c' = root_node c"
    using assms(3) by (fastforce simp: adds_root_def tree_node_init_def)
  have k: "kin_edges (nodes c')"
    using kin_edges_append[of "nodes c" "page_size c" t] assms(1,2) t by (simp add: owned_def cache_ok_def)
  have old: "nd c' i = nd c i" if "i < length (nodes c)" for i using that t(1) by (simp add: nth_append)
  have "n_namespace_key (nd c' i) = Some (ns_private u ''namespace-root'')" if "(u, i) \<in> set (private_roots c')" for u i
    using r(1)[OF that]
  proof
    assume p: "(u, i) \<in> set (private_roots c)"
    then show ?thesis using assms(1) old[OF cache_ok_private[OF assms(2) p]] by (auto simp: owned_def)
  qed (use t in simp)
  moreover have "public_namespace (n_namespace_key (nd c' i))" if "(oid, i) \<in> set (public_roots c')" for oid i
    using r(2)[OF that]
  proof
    assume p: "(oid, i) \<in> set (public_roots c)"
    then show ?thesis using assms(1) old[OF cache_ok_public[OF assms(2) p]] by (auto simp: owned_def)
  qed (use t in \<open>simp add: public_namespace_def\<close>)
  moreover have "n_namespace_key (nd c' (root_node c')) = None"
    using old[OF cache_ok_root[OF assms(2)]] assms(1) root by (simp add: owned_def)
  ultimately show ?thesis using k by (auto simp: owned_def)
qed

interpretation owner: lookup_law "\<lambda>u c c'. owned c \<longrightarrow> owned c'"
proof
  show "owned c \<longrightarrow> owned c'" if "same_nodes c c'" for c c' using that owned_same_nodes by blast
  show "owned c \<longrightarrow> owned c'" if "may_visit u c node child" "same_frame c c'" "touched (nd c child) t"
    "nodes c' = (nodes c)[child := t]" for u c node child c' t
    using owned_keeps[of c c'] that kin_edges_touch[of "nodes c" "page_size c" child t]
    by (auto simp: may_visit_def cache_ok_def owned_def)
  show "owned c \<longrightarrow> owned c'" if v: "may_visit u c node child" and f: "same_frame c c'" and t: "touched (nd c child) t"
    and n: "nodes c' = split_arena (page_size c) node child n ((nodes c)[child := t])" for u c node child c' t n
  proof
    assume o: "owned c"
    note vd = may_visitD[OF v]
    have k: "kin_edges ((nodes c)[child := t]) \<and> tags_kept (nodes c) ((nodes c)[child := t])"
      using kin_edges_touch[OF _ vd(5) t] o by (simp add: owned_def)
    have "(node, child) \<in> child_rel ((nodes c)[child := t])"
      using v vd by (force simp: may_visit_def child_rel_def child_ids_def dest: map_of_SomeD)
    from kin_edges_split[OF conjunct1[OF k] tree_ok_touch[OF vd(5) t] this, of n] k
    show "owned c'"
      unfolding n[symmetric]
      by (intro owned_keeps[OF o _ f]) (use v in \<open>auto simp: may_visit_def intro: tags_kept_trans\<close>)
  qed
  show "owned c \<longrightarrow> owned c'" if "cache_ok c" "adds_root c c'" for c c'
    using that owned_adds_root by blast
qed auto

lemma match_prefix_owned:
  "match_prefix env key u auth c = (r, c') \<Longrightarrow> cache_ok c \<Longrightarrow> owned c \<Longrightarrow> owned c'"
  using owner.match_prefix_related by blast

section \<open>Insertion reads a path\<close>

text \<open>
  Insertion leads from a node that reads \<open>ks\<close> to one that reads \<open>ks @ key\<close>.  The first part of \<open>key\<close>
  is what the descent finds, the rest is in new nodes with the new slots.
\<close>

definition paged :: "nat \<Rightarrow> TreeNode list \<Rightarrow> bool" where
  "paged ps ns \<longleftrightarrow> (\<forall>t \<in> set ns. ps dvd length (n_key t))"

definition settled :: "RadixCache \<Rightarrow> RadixCache \<Rightarrow> bool" where
  "settled c c' \<longleftrightarrow>
     same_frame c c' \<and>
     (kin_edges (nodes c) \<longrightarrow> kin_edges (nodes c') \<and> tags_kept (nodes c) (nodes c')) \<and>
     (paged (page_size c) (nodes c) \<longrightarrow> paged (page_size c') (nodes c'))"

lemma settled_refl [simp]: "settled c c"
  by (simp add: settled_def)

lemma settled_trans: "settled a b \<Longrightarrow> settled b c \<Longrightarrow> settled a c"
  by (auto simp: settled_def intro: same_frame_trans tags_kept_trans)

lemma settled_owned: "settled c c' \<Longrightarrow> cache_ok c \<Longrightarrow> owned c \<Longrightarrow> owned c'"
  using owned_keeps[of c c'] by (simp add: settled_def owned_def)

lemma paged_split:
  assumes "paged ps ns" "child < length ns" "p < length ns" "p \<noteq> child" "ps dvd n"
  shows "paged ps (split_arena ps p child n ns)"
proof -
  note nth = nth_split_arena[OF assms(2-4), where ps = ps and n = n]
  have len: "ps dvd length (n_key (ns ! i))" if "i < length ns" for i
    using assms(1) that by (simp add: paged_def)
  have "ps dvd length (n_key (split_arena ps p child n ns ! i))" if i: "i < Suc (length ns)" for i
  proof -
    consider "i = length ns" | "i = child" | "i = p" | "i < length ns" "i \<noteq> p" "i \<noteq> child"
      using i less_Suc_eq by blast
    then show ?thesis
    proof cases
      case 1
      then show ?thesis unfolding 1 nth(1) using len[OF assms(2)] assms(5) by (simp add: upper_half_def min_def)
    next
      case 2
      then show ?thesis unfolding 2 nth(2) using len[OF assms(2)] assms(5) by (simp add: lower_half_def dvd_diff_nat)
    next
      case 3
      then show ?thesis unfolding 3 nth(3) using len[OF assms(3)] by simp
    next
      case 4
      then show ?thesis using nth(4) len by simp
    qed
  qed
  then show ?thesis by (auto simp: paged_def in_set_conv_nth)
qed

lemma split_settled:
  assumes "cache_ok c" "node < length (nodes c)" "map_of (n_children (nd c node)) k = Some child"
    and "same_frame c c'" "nodes c' = split_arena (page_size c) node child n (nodes c)" "page_size c dvd n"
  shows "settled c c'"
proof -
  have ok: "tree_ok (page_size c) (nodes c)" using assms(1) by (simp add: cache_ok_def)
  have e: "(node, child) \<in> child_rel (nodes c)"
    using assms(2,3) by (force simp: child_rel_def child_ids_def dest: map_of_SomeD)
  note cr = child_relD[OF ok e]
  show ?thesis
    using kin_edges_split[OF _ ok e, of n] paged_split[OF _ cr(2,1) parent_neq[OF ok cr(2,3)] assms(6)] assms(4,5)
    by (auto simp: settled_def same_frame_def)
qed

definition found_on ::
  "nat \<Rightarrow> int list \<Rightarrow> int list \<Rightarrow> nat \<Rightarrow> int list \<Rightarrow> int list \<Rightarrow> nat \<Rightarrow> nat \<Rightarrow> TreeNode list \<Rightarrow> nat \<Rightarrow> TreeNode list \<Rightarrow> bool"
where
  "found_on r key vl plen key' vl' plen' node ns node' ns' \<longleftrightarrow>
     (\<forall>ks vs. reads ns r node ks vs \<longrightarrow>
        (\<exists>ms ws. key = ms @ key' \<and> plen' = plen + length ms \<and> vl' = drop (length ms) vl \<and> length ws = length ms \<and>
           reads ns' r node' (ks @ ms) (vs @ ws)))"

lemma found_on_refl: "found_on r key vl plen key vl plen node ns node ns"
  unfolding found_on_def by (metis add_0_right append_Nil append_Nil2 drop0 list.size(3))

lemma found_on_trans:
  assumes "found_on r (ms @ key1) vl plen key1 (drop (length ms) vl) (plen + length ms) node ns node1 ns1"
    and "found_on r key1 (drop (length ms) vl) (plen + length ms) key' vl' plen' node1 ns1 node' ns'"
  shows "found_on r (ms @ key1) vl plen key' vl' plen' node ns node' ns'"
  unfolding found_on_def
proof (intro allI impI)
  fix ks vs
  assume "reads ns r node ks vs"
  then obtain ws where 1: "length ws = length ms" "reads ns1 r node1 (ks @ ms) (vs @ ws)"
    using assms(1) by (auto simp: found_on_def)
  then obtain ms' ws' where "key1 = ms' @ key'" "plen' = plen + length ms + length ms'"
    "vl' = drop (length ms') (drop (length ms) vl)" "length ws' = length ms'"
    "reads ns' r node' ((ks @ ms) @ ms') ((vs @ ws) @ ws')"
    using mp[OF spec[OF spec[OF assms(2)[unfolded found_on_def]]] 1(2)] by blast
  then show "\<exists>ms'' ws. ms @ key1 = ms'' @ key' \<and> plen' = plen + length ms'' \<and> vl' = drop (length ms'') vl \<and>
       length ws = length ms'' \<and> reads ns' r node' (ks @ ms'') (vs @ ws)"
    using 1(1) by (intro exI[of _ "ms @ ms'"] exI[of _ "ws @ ws'"]) (simp add: add.commute)
qed

text \<open>One turn of the descent.\<close>

lemma insert_walk_turn:
  assumes ok: "cache_ok c" and node: "node < length (nodes c)" and key: "key \<noteq> []" "ck = get_child_key (page_size c) key"
    and m: "map_of (n_children (nd c node)) ck = Some child"
  defines "n \<equiv> key_match (page_size c) (n_key (nd c child)) key"
  obtains node1 c1 where
    "insert_walk env node ck key vl plen c =
       insert_walk env node1 (if drop n key \<noteq> [] then get_child_key (page_size c) (drop n key) else ck)
         (drop n key) (drop n vl) (plen + n) c1"
    "0 < n" "cache_ok c1" "node1 < length (nodes c1)" "settled c c1"
    "n_namespace_key (nd c1 node1) = n_namespace_key (nd c child)"
    "paged (page_size c) (nodes c) \<Longrightarrow> page_size c dvd length key \<Longrightarrow>
       key = take n key @ drop n key \<and> length (take n key) = n \<and>
       found_on r key vl plen (drop n key) (drop n vl) (plen + n) node (nodes c) node1 (nodes c1)"
proof -
  have tok: "tree_ok (page_size c) (nodes c)" using ok by (simp add: cache_ok_def)
  have co: "child_ok (page_size c) (nodes c) node ck child" by (rule child_of_map[OF tok node m])
  then have child: "child < length (nodes c)" by (simp add: child_ok_def)
  have e: "(node, child) \<in> child_rel (nodes c)"
    using node m by (force simp: child_rel_def child_ids_def dest: map_of_SomeD)
  have pos: "0 < n"
    unfolding n_def using co key tree_ok_pos[OF tok] by (intro key_match_pos) (auto simp: child_ok_def)
  let ?k = "take n (n_key (nd c child))" and ?v = "take n (n_value (nd c child))"
  have len: "n \<le> length (n_key (nd c child))" "n \<le> length key" "length ?v = n"
    if "paged (page_size c) (nodes c)" "page_size c dvd length key"
  proof -
    have "page_size c dvd length (n_key (nd c child))" using that(1) child by (simp add: paged_def)
    from key_match_le[OF this that(2)] show "n \<le> length (n_key (nd c child))" "n \<le> length key"
      by (simp_all add: n_def)
    then show "length ?v = n" using tree_okD(2)[OF tok child] by simp
  qed
  have kk: "take n key = ?k" using key_match_take[of "page_size c" "n_key (nd c child)" key] by (simp add: n_def)
  have found: "key = take n key @ drop n key \<and> length (take n key) = n \<and>
       found_on r key vl plen (drop n key) (drop n vl) (plen + n) node (nodes c) node1 (nodes c1)"
    if p: "paged (page_size c) (nodes c)" "page_size c dvd length key"
      and "\<And>ks vs. reads (nodes c) r node ks vs \<Longrightarrow> reads (nodes c1) r node1 (ks @ ?k) (vs @ ?v)" for node1 c1
  proof -
    have "found_on r key vl plen (drop n key) (drop n vl) (plen + n) node (nodes c) node1 (nodes c1)"
      unfolding found_on_def
    proof (intro allI impI)
      fix ks vs
      assume "reads (nodes c) r node ks vs"
      from that(3)[OF this] show "\<exists>ms ws. key = ms @ drop n key \<and> plen + n = plen + length ms \<and>
          drop n vl = drop (length ms) vl \<and> length ws = length ms \<and> reads (nodes c1) r node1 (ks @ ms) (vs @ ws)"
        using len[OF p] kk append_take_drop_id[of n key]
        by - (rule exI[of _ "take n key"], rule exI[of _ ?v], simp)
    qed
    then show ?thesis using len(2)[OF p] by simp
  qed
  show thesis
  proof (cases "n < length (n_key (nd c child))")
    case True
    obtain c1 where s: "split_node env child n c = (Inr (length (nodes c)), c1)" "cache_ok c1"
      "same_frame c c1" "nodes c1 = split_arena (page_size c) node child n (nodes c)"
      using split_keeps[OF ok node m] key_match_ge_page True pos unfolding n_def by blast
    have "page_size c dvd n" unfolding n_def by (rule key_match_dvd)
    then have "settled c c1" by (rule split_settled[OF ok node m s(3,4)])
    moreover have "nd c1 (length (nodes c)) = upper_half (page_size c) (nd c child) child n"
      unfolding s(4) using child node parent_neq[OF tok, of child node] co
      by (intro nth_split_arena(1)) (auto simp: child_ok_def)
    moreover have "reads (nodes c1) r (length (nodes c)) (ks @ ?k) (vs @ ?v)" if "reads (nodes c) r node ks vs" for ks vs
      unfolding s(4) by (rule reads_new_half[OF that tok e])
    moreover have "insert_walk env node ck key vl plen c =
       insert_walk env (length (nodes c)) (if drop n key \<noteq> [] then get_child_key (page_size c) (drop n key) else ck)
         (drop n key) (drop n vl) (plen + n) c1"
      using key m True s(1) unfolding n_def by (subst insert_walk.simps) (simp add: Let_def)
    ultimately show thesis
      using pos s(2,4) found[of c1 "length (nodes c)"] by (intro that[of "length (nodes c)" c1]) (auto simp: upper_half_def)
  next
    case False
    then have all: "?k = n_key (nd c child)" "?v = n_value (nd c child)"
      using tree_okD(2)[OF tok child] by simp_all
    have "insert_walk env node ck key vl plen c =
       insert_walk env child (if drop n key \<noteq> [] then get_child_key (page_size c) (drop n key) else ck)
         (drop n key) (drop n vl) (plen + n) c"
      using key m False unfolding n_def by (subst insert_walk.simps) (simp add: Let_def)
    moreover have "reads (nodes c) r child (ks @ ?k) (vs @ ?v)" if "reads (nodes c) r node ks vs" for ks vs
      unfolding all by (rule reads.down[OF that e])
    ultimately show thesis
      using pos ok child found[of c child] by (intro that[of child c]) auto
  qed
qed

lemma insert_walk_settles:
  "insert_walk env node ck key vl plen c = Some (Inr (node', ck', key', vl', plen'), c') \<Longrightarrow> cache_ok c \<Longrightarrow>
     node < length (nodes c) \<Longrightarrow> (key \<noteq> [] \<Longrightarrow> ck = get_child_key (page_size c) key) \<Longrightarrow>
     settled c c' \<and>
     (kin_edges (nodes c) \<longrightarrow> n_namespace_key (nd c' node') = n_namespace_key (nd c node)) \<and>
     (paged (page_size c) (nodes c) \<and> page_size c dvd length key \<longrightarrow>
        page_size c dvd length key' \<and> found_on r key vl plen key' vl' plen' node (nodes c) node' (nodes c'))"
proof (induction "length key" arbitrary: node ck key vl plen c rule: less_induct)
  case less
  show ?case
  proof (cases "key = [] \<or> map_of (n_children (nd c node)) ck = None")
    case True
    then have "insert_walk env node ck key vl plen c = Some (Inr (node, ck, key, vl, plen), c)"
      by (subst insert_walk.simps) auto
    then have "node' = node" "key' = key" "vl' = vl" "plen' = plen" "c' = c" using less.prems(1) by simp_all
    then show ?thesis by (simp add: found_on_refl)
  next
    case False
    then obtain child where key: "key \<noteq> []" "ck = get_child_key (page_size c) key"
      and m: "map_of (n_children (nd c node)) ck = Some child" using less.prems(4) by auto
    define n where "n = key_match (page_size c) (n_key (nd c child)) key"
    let ?ck = "if drop n key \<noteq> [] then get_child_key (page_size c) (drop n key) else ck"
    from insert_walk_turn[OF less.prems(2,3) key m, of env vl plen r, folded n_def]
    obtain node1 c1 where
      go: "insert_walk env node ck key vl plen c = insert_walk env node1 ?ck (drop n key) (drop n vl) (plen + n) c1"
      and c1: "0 < n" "cache_ok c1" "node1 < length (nodes c1)" "settled c c1"
        "n_namespace_key (nd c1 node1) = n_namespace_key (nd c child)"
      and pg: "paged (page_size c) (nodes c) \<Longrightarrow> page_size c dvd length key \<Longrightarrow>
       key = take n key @ drop n key \<and> length (take n key) = n \<and>
       found_on r key vl plen (drop n key) (drop n vl) (plen + n) node (nodes c) node1 (nodes c1)" by blast
    have ps: "page_size c1 = page_size c" using c1(4) by (simp add: settled_def same_frame_def)
    have "length (drop n key) < length key" using c1(1) key by simp
    from less.hyps[OF this less.prems(1)[unfolded go] c1(2,3)] ps
    have IH: "settled c1 c'" "kin_edges (nodes c1) \<Longrightarrow> n_namespace_key (nd c' node') = n_namespace_key (nd c1 node1)"
      "paged (page_size c) (nodes c1) \<Longrightarrow> page_size c dvd length (drop n key) \<Longrightarrow> page_size c dvd length key' \<and>
         found_on r (drop n key) (drop n vl) (plen + n) key' vl' plen' node1 (nodes c1) node' (nodes c')"
      by auto
    have e: "(node, child) \<in> child_rel (nodes c)"
      using less.prems(3) m by (force simp: child_rel_def child_ids_def dest: map_of_SomeD)
    have names: "n_namespace_key (nd c' node') = n_namespace_key (nd c node)" if "kin_edges (nodes c)"
      using that c1(4,5) IH(2) kinD(1)[OF that e] by (simp add: settled_def)
    have "page_size c dvd length key' \<and> found_on r key vl plen key' vl' plen' node (nodes c) node' (nodes c')"
      if p: "paged (page_size c) (nodes c)" "page_size c dvd length key"
    proof -
      have d: "page_size c dvd n" unfolding n_def by (rule key_match_dvd)
      then have "page_size c dvd length (drop n key)" using p(2) by (simp add: dvd_diff_nat)
      moreover have "paged (page_size c) (nodes c1)" using p(1) c1(4) ps by (simp add: settled_def)
      ultimately have tail: "page_size c dvd length key'"
        "found_on r (drop n key) (drop n vl) (plen + n) key' vl' plen' node1 (nodes c1) node' (nodes c')"
        using IH(3) by auto
      have "found_on r (take n key @ drop n key) vl plen key' vl' plen' node (nodes c) node' (nodes c')"
        by (rule found_on_trans[of _ _ _ _ _ _ _ node1 "nodes c1"]) (use pg[OF p] tail(2) in simp_all)
      then show ?thesis using tail(1) by simp
    qed
    then show ?thesis using settled_trans[OF c1(4) IH(1)] names by blast
  qed
qed

section \<open>New nodes\<close>

lemma fresh_node_kin:
  assumes "\<forall>w f. n_namespace_key (nd c node) = Some (ns_private w f) \<longrightarrow> u = Some w"
  shows "kin (nd c node) (fresh_node c node key vl prompt u)"
  using assms by (auto simp: kin_def fresh_node_def public_namespace_def Let_def ns_private_def split: option.splits)

lemma reads_leaf:
  assumes "reads ns r i ks vs" "tree_ok ps ns" "ranked ns d" "p < length ns" "d i \<le> d p"
    and ns': "ns' = (ns @ [t])[p := (ns ! p)\<lparr>n_children := dict_set k (length ns) (n_children (ns ! p))\<rparr>]"
  shows "reads ns' r i ks vs"
  using assms(1,5)
proof (induction rule: reads.induct)
  case (down q ks vs i)
  have i: "i < length ns" "q < length ns" using child_relD(2,1)[OF assms(2) down(2)] .
  have "d q < d i" by (rule child_rel_ranked[OF assms(2,3) down(2)])
  then have q: "q \<noteq> p" "d q \<le> d p" using down.prems by auto
  have "(q, i) \<in> child_rel ns'"
    using down(2) i q(1) assms(4) by (simp add: ns' child_rel_def child_ids_def nth_append)
  moreover have "n_key (ns' ! i) = n_key (ns ! i)" "n_value (ns' ! i) = n_value (ns ! i)"
    using i assms(4) by (cases "i = p"; simp add: ns' nth_append)+
  ultimately show ?case using reads.down[OF down.IH[OF q(2)], of i] by simp
qed (rule reads.start)

lemma add_chunk_settled:
  assumes ok: "cache_ok c" and node: "node < length (nodes c)"
    and u: "\<forall>w f. n_namespace_key (nd c node) = Some (ns_private w f) \<longrightarrow> u = Some w"
    and c': "c' = add_chunk env node ck key vl prompt u c"
  shows "same_frame c c'" "length (nodes c') = Suc (length (nodes c))"
    "kin_edges (nodes c) \<Longrightarrow> kin_edges (nodes c') \<and> tags_kept (nodes c) (nodes c')"
    "n_namespace_key (nd c' (length (nodes c))) = n_namespace_key (nd c node)"
    "paged ps (nodes c) \<Longrightarrow> ps dvd length (take chunk_size key) \<Longrightarrow> paged ps (nodes c')"
    "reads (nodes c) r node ks vs \<Longrightarrow>
       reads (nodes c') r (length (nodes c)) (ks @ take chunk_size key) (vs @ take chunk_size vl)"
proof -
  let ?f = "fresh_node c node key vl prompt u"
  obtain t where t: "same_shape ?f t"
    and eq: "nodes c' = (nodes c @ [t])[node := (nd c node)\<lparr>n_children := dict_set ck (length (nodes c)) (n_children (nd c node))\<rparr>]"
    and fr: "same_frame c c'"
    using add_chunk_arena[OF node, of key vl prompt u env ck] unfolding c' by blast
  have tok: "tree_ok (page_size c) (nodes c)" using ok by (simp add: cache_ok_def)
  have t': "n_children t = []" "kin (nd c node) t" "n_key t = take chunk_size key" "n_value t = take chunk_size vl"
    "n_namespace_key t = n_namespace_key (nd c node)"
    using t fresh_node_shape[of c node key vl prompt u] fresh_node_kin[OF u, where key = key and vl = vl and prompt = prompt]
    by (simp_all add: same_shape_def kin_def)
  have last: "nd c' (length (nodes c)) = t" using node by (simp add: eq nth_append)
  show "same_frame c c'" by (rule fr)
  show "length (nodes c') = Suc (length (nodes c))" by (simp add: eq)
  show "kin_edges (nodes c) \<Longrightarrow> kin_edges (nodes c') \<and> tags_kept (nodes c) (nodes c')"
    by (rule kin_edges_leaf[OF _ tok node t'(1,2) eq])
  show "n_namespace_key (nd c' (length (nodes c))) = n_namespace_key (nd c node)" using last t'(5) by simp
  show "paged ps (nodes c')" if "paged ps (nodes c)" "ps dvd length (take chunk_size key)"
  proof -
    have "set (nodes c') \<subseteq> insert ((nd c node)\<lparr>n_children := dict_set ck (length (nodes c)) (n_children (nd c node))\<rparr>)
        (insert t (set (nodes c)))"
      unfolding eq using set_update_subset_insert[of "nodes c @ [t]"] by auto
    then show ?thesis using that t'(3) node unfolding paged_def by fastforce
  qed
  show "reads (nodes c') r (length (nodes c)) (ks @ take chunk_size key) (vs @ take chunk_size vl)"
    if rd: "reads (nodes c) r node ks vs"
  proof -
    obtain d where d: "ranked (nodes c) d" using tok by (auto simp: tree_ok_def)
    have "reads (nodes c') r node ks vs" by (rule reads_leaf[OF rd tok d node order_refl eq])
    moreover have "(node, length (nodes c)) \<in> child_rel (nodes c')"
      using node dict_set_self[of ck "length (nodes c)"] by (force simp: eq child_rel_def child_ids_def nth_append)
    ultimately show ?thesis using reads.down[of "nodes c'" r node ks vs "length (nodes c)"] last t'(3,4) by simp
  qed
qed

lemma insert_chunks_settles:
  "cache_ok c \<Longrightarrow> node < length (nodes c) \<Longrightarrow> length key = length vl \<Longrightarrow> page_size c \<le> chunk_size \<Longrightarrow>
     (key \<noteq> [] \<Longrightarrow> ck = get_child_key (page_size c) key) \<Longrightarrow>
     \<forall>w f. n_namespace_key (nd c node) = Some (ns_private w f) \<longrightarrow> u = Some w \<Longrightarrow>
     c' = insert_chunks env node ck key vl prompt u c \<Longrightarrow>
     (kin_edges (nodes c) \<longrightarrow> kin_edges (nodes c') \<and> tags_kept (nodes c) (nodes c')) \<and>
     (paged (page_size c) (nodes c) \<and> page_size c dvd length key \<and> page_size c dvd chunk_size \<longrightarrow>
        paged (page_size c) (nodes c')) \<and>
     (reads (nodes c) r node ks vs \<longrightarrow> (\<exists>i. reads (nodes c') r i (ks @ key) (vs @ vl)))"
proof (induction "length vl" arbitrary: node ck key vl c ks vs rule: less_induct)
  case less
  show ?case
  proof (cases "vl = []")
    case True
    then show ?thesis using less.prems by (auto simp: insert_chunks_turn[of env node])
  next
    case False
    then have key: "key \<noteq> []" using less.prems(3) by auto
    let ?c = "add_chunk env node ck key vl prompt u c"
    let ?ck = "if drop chunk_size key \<noteq> [] then get_child_key (page_size c) (drop chunk_size key) else ck"
    note a = add_chunk_settled[OF less.prems(1,2,6) refl, where env = env and ck = ck and key = key and vl = vl and prompt = prompt]
    have ok: "cache_ok ?c" using less.prems key by (intro add_chunk_ok) auto
    have ps: "page_size ?c = page_size c" using a(1) by (simp add: same_frame_def)
    have "length (drop chunk_size vl) < length vl" using False by (simp add: chunk_size_def)
    moreover have "c' = insert_chunks env (length (nodes c)) ?ck (drop chunk_size key) (drop chunk_size vl) prompt u ?c"
      using less.prems(7) False by (subst (asm) insert_chunks_turn) simp
    ultimately have IH: "kin_edges (nodes ?c) \<Longrightarrow> kin_edges (nodes c') \<and> tags_kept (nodes ?c) (nodes c')"
      "paged (page_size c) (nodes ?c) \<Longrightarrow> page_size c dvd length (drop chunk_size key) \<Longrightarrow> page_size c dvd chunk_size \<Longrightarrow>
         paged (page_size c) (nodes c')"
      "reads (nodes ?c) r (length (nodes c)) ks' vs' \<Longrightarrow>
         \<exists>i. reads (nodes c') r i (ks' @ drop chunk_size key) (vs' @ drop chunk_size vl)" for ks' vs'
      using less.hyps[of "drop chunk_size vl" ?c "length (nodes c)" "drop chunk_size key" ?ck] ok a(2,4) ps less.prems(3,4,6)
      by auto
    have "paged (page_size c) (nodes c')" if p: "paged (page_size c) (nodes c)" "page_size c dvd length key" "page_size c dvd chunk_size"
    proof (rule IH(2))
      show "paged (page_size c) (nodes ?c)" using a(5)[OF p(1)] p(2,3) by (simp add: min_def)
      show "page_size c dvd length (drop chunk_size key)" using p(2,3) by (simp add: dvd_diff_nat)
    qed (rule p(3))
    moreover have "\<exists>i. reads (nodes c') r i (ks @ key) (vs @ vl)" if "reads (nodes c) r node ks vs"
      using IH(3)[OF a(6)[OF that]] by simp
    moreover have "kin_edges (nodes c') \<and> tags_kept (nodes c) (nodes c')" if "kin_edges (nodes c)"
      using a(3)[OF that] IH(1) tags_kept_trans by blast
    ultimately show ?thesis by blast
  qed
qed

section \<open>Every reachable cache is owned\<close>

lemma owned_user:
  assumes "owned c"
  shows "n_namespace_key (nd c (root_node c)) \<noteq> Some (ns_private w f)"
    "(oid, i) \<in> set (public_roots c) \<Longrightarrow> n_namespace_key (nd c i) \<noteq> Some (ns_private w f)"
    "(u, i) \<in> set (private_roots c) \<Longrightarrow> n_namespace_key (nd c i) = Some (ns_private w f) \<Longrightarrow> w = u"
  using assms by (force simp: owned_def public_namespace_def ns_private_def)+

lemma private_root_owned:
  assumes "private_root uid True c = (r, c')" "cache_ok c" "owned c"
  shows "owned c' \<and> (\<exists>i. r = Some i \<and> map_of (private_roots c') uid = Some i)"
proof -
  have "owned c'"
    using assms(1) by (cases rule: private_root_steps) (use assms owned_adds_root in auto)
  moreover have "\<exists>i. r = Some i \<and> map_of (private_roots c') uid = Some i"
    using assms(1)
    by (cases "map_of (private_roots c) uid") (auto simp: private_root_def new_namespace_root_def dest: sym)
  ultimately show ?thesis by blast
qed

lemma insert_target_owned:
  assumes run: "insert_target env key uid auth c = (r, c')" and ok: "cache_ok c" and own: "owned c"
  shows "owned c' \<and> (\<forall>a i w f. r = Inr (a, i) \<and> n_namespace_key (nd c' i) = Some (ns_private w f) \<longrightarrow> w = uid)"
proof -
  obtain rp c1 where p: "parse_authorization env auth c = (rp, c1)" by fastforce
  have s1: "same_nodes c c1" by (rule parse_authorization_same_nodes[OF p])
  have 1: "cache_ok c1" "owned c1" using cache_ok_same_nodes[OF s1 ok] owned_same_nodes[OF own s1] .
  define second where "second = (case rp of Inl e \<Rightarrow> (Inl e, c1) | Inr parsed \<Rightarrow> (case parsed of
                None \<Rightarrow> (Inr None, c1)
              | Some a \<Rightarrow>
                  if prefix_token_length a \<le> int (length key)
                  then andThen (install_authorization env auth (py_take (prefix_token_length a) key) c1)
                         (\<lambda>(inst, _) c2. (Inr inst, c2))
                  else (Inr None, c1)))"
  obtain ri c2 where s: "second = (ri, c2)" by fastforce
  have 2: "cache_ok c2 \<and> owned c2"
    using s 1 owner.install_keeps[OF _ 1(1), of env auth _ _ _ None]
    by (fastforce simp: second_def owner.keeps_def andThen_def split: sum.splits option.splits if_splits prod.splits)
  have run2: "andThen (ri, c2) (\<lambda>inst c2. case inst of
       Some a \<Rightarrow> (case map_of (public_roots c2) (public_object_id a) of
            None \<Rightarrow> (Inl (KeyError (public_object_id a)), c2)
          | Some r \<Rightarrow> (Inr (Some a, r), c2))
     | None \<Rightarrow> (case private_root uid True c2 of (r, c3) \<Rightarrow> (Inr (None, the r), c3))) = (r, c')"
    using run p s by (cases rp) (auto simp: insert_target_def second_def)
  show ?thesis
  proof (cases "ri = Inr None")
    case True
    obtain ro c3 where pr: "private_root uid True c2 = (ro, c3)" by fastforce
    from private_root_owned[OF this] 2 obtain i where "owned c3" "ro = Some i" "(uid, i) \<in> set (private_roots c3)"
      by (auto dest: map_of_SomeD)
    moreover have "r = Inr (None, the ro)" "c' = c3" using run2 True pr by auto
    ultimately show ?thesis using owned_user(3) by auto
  next
    case False
    then have "c' = c2" "\<And>a i. r = Inr (a, i) \<Longrightarrow> \<exists>oid. (oid, i) \<in> set (public_roots c2)"
      using run2 by (cases ri; auto split: option.splits dest: map_of_SomeD)+
    then show ?thesis using 2 owned_user(2) by fast
  qed
qed

text \<open>What insertion below one root does, for a root of the inserting user's own, a public or the global one.\<close>

lemma insert_helper_settles:
  assumes run: "insert_helper env node key vl prompt u c = Some (Inr n, c')" and ok: "cache_ok c"
    and node: "node < length (nodes c)" and len: "length key = length vl" and ps: "page_size c \<le> chunk_size"
    and kin: "kin_edges (nodes c)" and u: "\<forall>w f. n_namespace_key (nd c node) = Some (ns_private w f) \<longrightarrow> u = Some w"
  shows "cache_ok c' \<and> same_frame c c' \<and> kin_edges (nodes c') \<and> tags_kept (nodes c) (nodes c') \<and>
     (paged (page_size c) (nodes c) \<and> page_size c dvd length key \<and> page_size c dvd chunk_size \<longrightarrow>
        paged (page_size c) (nodes c') \<and> n \<le> length key \<and>
        (\<exists>i vs. reads (nodes c') node i key vs \<and> length vs = length key \<and> drop n vs = drop n vl))"
proof -
  have c': "cache_ok c'" "same_frame c c'" using insert_helper_ok[OF ok node len ps, of env prompt u] run by auto
  show ?thesis
  proof (cases "key = []")
    case True
    then show ?thesis using run kin c' len by (auto simp: insert_helper_def intro: reads.start)
  next
    case False
    obtain node' ck' key' vl' plen' c1 where
      w: "insert_walk env node (get_child_key (page_size c) key) key vl 0 c
            = Some (Inr (node', ck', key', vl', plen'), c1)"
      and wk: "walked c key vl 0 node' ck' key' vl' plen' c1"
      using insert_walk_total[OF ok node, where key = key and plen = 0 and env = env and vl = vl] by blast
    note st = insert_walk_settles[OF w ok node refl, of node]
    have n: "n = plen'" and cc: "c' = (if key' \<noteq> [] then insert_chunks env node' ck' key' vl' prompt u c1 else c1)"
      using run False w by (auto simp: insert_helper_def)
    have c1: "cache_ok c1" "node' < length (nodes c1)" "page_size c1 = page_size c" "length key' = length vl'"
      "kin_edges (nodes c1)" "tags_kept (nodes c) (nodes c1)"
      "n_namespace_key (nd c1 node') = n_namespace_key (nd c node)"
      using wk st kin len by (auto simp: walked_def settled_def same_frame_def)
    have tail: "(kin_edges (nodes c1) \<longrightarrow> kin_edges (nodes c') \<and> tags_kept (nodes c1) (nodes c')) \<and>
       (paged (page_size c) (nodes c1) \<and> page_size c dvd length key' \<and> page_size c dvd chunk_size \<longrightarrow>
          paged (page_size c) (nodes c')) \<and>
       (reads (nodes c1) node node' ks vs \<longrightarrow> (\<exists>i. reads (nodes c') node i (ks @ key') (vs @ vl')))" for ks vs
    proof (cases "key' = []")
      case True
      then show ?thesis using cc c1(4) by auto
    next
      case kn: False
      show ?thesis
        using insert_chunks_settles[of c1 node' key' vl' ck' u c' env prompt node ks vs] c1 ps u wk cc kn
        by (simp add: walked_def)
    qed
    have "paged (page_size c) (nodes c') \<and> n \<le> length key \<and>
        (\<exists>i vs. reads (nodes c') node i key vs \<and> length vs = length key \<and> drop n vs = drop n vl)"
      if p: "paged (page_size c) (nodes c)" "page_size c dvd length key" "page_size c dvd chunk_size"
    proof -
      have f: "page_size c dvd length key'" "found_on node key vl 0 key' vl' plen' node (nodes c) node' (nodes c1)"
        "paged (page_size c) (nodes c1)" using st p c1(3) by (auto simp: settled_def)
      obtain ms ws where m: "key = ms @ key'" "plen' = length ms" "vl' = drop (length ms) vl" "length ws = length ms"
        "reads (nodes c1) node node' ms ws"
        using f(2) reads.start[of "nodes c" node] by (fastforce simp: found_on_def)
      obtain i where "reads (nodes c') node i key (ws @ vl')" using tail[of ms ws] m(1,5) by auto
      moreover have "length (ws @ vl') = length key" "drop n (ws @ vl') = drop n vl" "n \<le> length key"
        using m n len by simp_all
      ultimately show ?thesis using tail f(1,3) p(3) by blast
    qed
    then show ?thesis using c' tail c1(5,6) tags_kept_trans by blast
  qed
qed

lemma cache_insert_owned:
  assumes run: "cache_insert env key value_arg prompt u auth c = Some (r, c')" and ok: "cache_ok c" and own: "owned c"
    and len: "\<And>v. value_arg = Some v \<Longrightarrow> length v = length key" and ps: "page_size c \<le> chunk_size"
  shows "owned c'"
proof -
  define v where "v = (case value_arg of None \<Rightarrow> key | Some v \<Rightarrow> v)"
  have lv: "length key = length v" using len by (auto simp: v_def split: option.splits)
  have helper: "owned d'"
    if h: "insert_helper env i k w prompt u d = Some (x, d')" "cache_ok d" "owned d" "i < length (nodes d)"
      "length k = length w" "page_size d = page_size c" "\<forall>w f. n_namespace_key (nd d i) = Some (ns_private w f) \<longrightarrow> u = Some w"
    for i k w d x d'
  proof -
    obtain n where "x = Inr n" using insert_helper_ok[OF h(2,4,5), of env prompt u] h(1,6) ps by auto
    then show ?thesis
      using insert_helper_settles[of env i k w prompt u d n d'] h ps owned_keeps[OF h(3,2), of d']
      by (auto simp: owned_def)
  qed
  consider (off) "disable c \<or> safekv_mode c \<noteq> ''none'' \<and> (u = None \<or> u = Some [])"
    | (none) "\<not> disable c" "safekv_mode c = ''none''" | (user) "\<not> disable c" "safekv_mode c \<noteq> ''none''" "\<not> (u = None \<or> u = Some [])"
    by blast
  then show ?thesis
  proof cases
    case off
    then show ?thesis using run own by (auto simp: cache_insert_def split: if_splits)
  next
    case none
    then show ?thesis
      using run helper[OF _ ok own cache_ok_root[OF ok] lv] owned_user(1)[OF own] by (auto simp: cache_insert_def v_def)
  next
    case user
    obtain rt c1 where t: "insert_target env key (the u) auth c = (rt, c1)" by fastforce
    note tok = insert_target_ok[OF t ok] and tow = insert_target_owned[OF t ok own]
    show ?thesis
    proof (cases rt)
      case (Inl e)
      then show ?thesis using run user t tow by (auto simp: cache_insert_def)
    next
      case (Inr ai)
      obtain a i where ai: "ai = (a, i)" by (cases ai)
      have i: "i < length (nodes c1)" "\<forall>w f. n_namespace_key (nd c1 i) = Some (ns_private w f) \<longrightarrow> u = Some w"
        using tok tow Inr ai user by fastforce+
      note h = helper[of i _ _ c1]
      show ?thesis
      proof (cases a)
        case None
        then show ?thesis
          using run user t Inr ai h[of key v] tok tow i lv by (auto simp: cache_insert_def v_def Let_def)
      next
        case (Some b)
        let ?k = "py_take (prefix_token_length b) key" and ?v = "py_take (prefix_token_length b) v"
        have "length ?k = length ?v" using lv by (simp add: py_take_def)
        then have hb: "insert_helper env i ?k ?v prompt u c1 = Some (x, d') \<Longrightarrow> owned d'" for x d'
          using h[of ?k ?v] tok tow i by auto
        moreover have "owned d \<Longrightarrow> owned (log_count env s y d)" for s y d by (simp add: owned_def)
        ultimately show ?thesis
          using run user t Inr ai Some
          by (auto simp: cache_insert_def v_def[symmetric] Let_def split: option.splits sum.splits prod.splits if_splits)
      qed
    qed
  qed
qed

end
