(* ===== verification/Radix_Roundtrip.thy ===== *)
theory Radix_Roundtrip
  imports Radix_Owner
begin

text \<open>
  Insertion and lookup fit together: what a principal has inserted, the same principal finds again.
\<close>

section \<open>Every reachable cache is owned\<close>

lemma owned_shapes: "same_shapes c c' \<Longrightarrow> cache_ok c \<Longrightarrow> owned c \<Longrightarrow> owned c'"
  using owned_keeps[of c c'] kin_edges_shape[of "nodes c" "page_size c" "nodes c'"]
  by (simp add: same_shapes_def cache_ok_def owned_def)

lemma owned_frame: "owned c \<Longrightarrow> nodes c' = nodes c \<Longrightarrow> root_node c' = root_node c \<Longrightarrow>
    private_roots c' = private_roots c \<Longrightarrow> public_roots c' = public_roots c \<Longrightarrow> owned c'"
  by (simp add: owned_def)

lemma delete_leaf_owned:
  assumes "delete_leaf x c = (r, c')" "cache_ok c" "owned c"
  shows "owned c'"
proof -
  have "owned (upd p (\<lambda>t. t\<lparr>n_children := dict_pop k (n_children t)\<rparr>) c)" for p k
    by (rule owned_keeps[OF assms(3,2)])
       (use kin_edges_pop[of "nodes c" "page_size c" p k] assms(2,3) in
         \<open>simp_all add: same_frame_def cache_ok_def owned_def\<close>)
  then have "owned ((upd p (\<lambda>t. t\<lparr>n_children := dict_pop k (n_children t)\<rparr>) c)\<lparr>evictable_sz := e\<rparr>)" for p k e
    by (rule owned_frame) simp_all
  then show ?thesis
    using assms(1,3) by (auto simp: delete_leaf_def Let_def split: option.splits if_splits prod.splits)
qed

lemma free_kv_owned: "free_kv idx c = (r, c') \<Longrightarrow> owned c \<Longrightarrow> owned c'"
  by (auto simp: free_kv_def intro: owned_frame split: prod.splits)

lemma evict_one_owned:
  assumes "evict_one env x c = (r, c')" "sound_cache c \<and> owned c"
  shows "sound_cache c' \<and> owned c'"
proof -
  have rem: "owned d \<Longrightarrow> owned (record_remove_event env x d)" for d by (rule owned_frame) simp_all
  have "owned c'"
    using assms(1) unfolding evict_one_def
    by (auto elim!: andThen_cases split: option.splits)
       (use assms(2) rem in \<open>blast dest: free_kv_ok free_kv_owned delete_leaf_owned sound_cache_ok\<close>)+
  then show ?thesis using evict_one_ok[OF assms(1)] assms(2) by blast
qed

lemma cache_reset_owned:
  assumes "kin_edges (nodes c)" "tree_ok (page_size c) (nodes c)"
  shows "owned (cache_reset c)"
proof -
  have "kin_edges (nodes c @ [t])" if "n_children t = []" for t
    using kin_edges_append[OF assms that] by simp
  then show ?thesis
    by (simp add: owned_def cache_reset_def record_all_cleared_event_def Let_def tree_node_init_def add_node_def)
qed

lemma cache_step_owned: "cache_step env c c' \<Longrightarrow> sound_cache c \<Longrightarrow> owned c \<Longrightarrow> owned c'"
proof (induction rule: cache_step.induct)
  case (lookup key u auth c r c')
  then show ?case using match_prefix_owned sound_cache_ok by blast
next
  case (insert value_arg key c prompt u auth r c')
  then show ?case using cache_insert_owned[of env key value_arg prompt u auth c r c'] sound_cache_ok by blast
next
  case (lock i c r c')
  then show ?case
    using inc_lock_shapes[of "Some i" 0 c "(r, c')"] owned_shapes sound_cache_ok
    by (auto simp: inc_lock_ref_def split: if_splits)
next
  case (unlock i c r c')
  then show ?case
    using dec_lock_shapes[of "Some i" 0 c "(r, c')"] owned_shapes sound_cache_ok
    by (auto simp: dec_lock_ref_def split: if_splits)
next
  case (evict n c r c')
  then show ?case
    using evict_loop_keeps[of env n _ 0 c "(r, c')" "\<lambda>c. sound_cache c \<and> owned c", OF _ _ evict_one_owned]
    by (auto simp: evict_def split: if_splits option.splits)
next
  case (promote u fp c r c')
  then show ?case
    using promote_list_shapes owned_shapes sound_cache_ok
    by (fastforce simp: promote_to_budgeted_def split: if_splits option.splits)
next
  case (reset c)
  then show ?case using cache_reset_owned[of c] by (simp add: sound_cache_def cache_ok_def owned_def)
qed

lemma cache_init_owned:
  "cache_init pool al ps dis ev B K mode key epoch model tok path auto disk = Inr c \<Longrightarrow> 0 < ps \<Longrightarrow>
    owned c"
  by (auto simp: cache_init_def kin_edges_def child_rel_def tree_ok_empty intro!: cache_reset_owned)

lemma reachable_owned: "cache_reachable env c \<Longrightarrow> owned c"
  by (induction rule: cache_reachable.induct) (auto intro: cache_init_owned cache_step_owned reachable_sound)

section \<open>Lookups in the own tree\<close>

lemma reads_first:
  assumes "reads ns r i ks vs"
  shows "i = r \<and> ks = [] \<and> vs = [] \<or> (\<exists>j ks' vs'. (r, j) \<in> child_rel ns \<and> ks = n_key (ns ! j) @ ks' \<and>
     vs = n_value (ns ! j) @ vs' \<and> reads ns j i ks' vs')"
  using assms
proof (induction rule: reads.induct)
  case (down p ks vs i)
  then show ?case
  proof (elim disjE exE conjE)
    assume "p = r" "ks = []" "vs = []"
    then show ?thesis
      using down(2) reads.start[of ns i] append_Nil2[of "n_key (ns ! i)"] append_Nil2[of "n_value (ns ! i)"] by fastforce
  next
    fix j ks' vs'
    assume "(r, j) \<in> child_rel ns" "ks = n_key (ns ! j) @ ks'" "vs = n_value (ns ! j) @ vs'" "reads ns j p ks' vs'"
    then show ?thesis using reads.down[OF \<open>reads ns j p ks' vs'\<close> down(2)] by auto
  qed
qed simp

lemma match1_whole: "key_match_page_size1 k (k @ x) = length k"
  by (induction k) simp_all

lemma paged_whole:
  assumes "0 < ps" "ps dvd length k - i" "i \<le> length k"
  shows "length k \<le> key_match_paged_loop ps k (k @ x) i"
  using assms
proof (induction ps k "k @ x" i rule: key_match_paged_loop.induct)
  case (1 ps k i)
  show ?case
  proof (cases "i < length k")
    case True
    then have "ps \<le> length k - i" using 1(3) by (auto intro: dvd_imp_le)
    then have le: "i + ps \<le> length k" using True by simp
    have "length k - (i + ps) = length k - i - ps" by simp
    then have "ps dvd length k - (i + ps)" using 1(3) dvd_diff_nat[of ps "length k - i" ps] by simp
    moreover have "py_slice i (i + ps) k = py_slice i (i + ps) (k @ x)" using le by (simp add: py_slice_def)
    ultimately show ?thesis using 1 True le by (subst key_match_paged_loop.simps) auto
  next
    case False
    then show ?thesis using paged_loop_ge[of i ps k "k @ x"] by simp
  qed
qed

lemma key_match_whole:
  assumes "0 < ps" "ps dvd length k"
  shows "length k \<le> key_match ps k (k @ x)"
  using paged_whole[of ps k 0 x] assms by (simp add: key_match_def match1_whole)

lemma first_child:
  assumes "tree_ok ps ns" "paged ps ns" "(p, j) \<in> child_rel ns"
  shows "map_of (n_children (ns ! p)) (get_child_key ps (n_key (ns ! j) @ x)) = Some j" "ps dvd length (n_key (ns ! j))"
proof -
  obtain k where k: "p < length ns" "(k, j) \<in> set (n_children (ns ! p))"
    using assms(3) by (auto simp: child_rel_def child_ids_def)
  have co: "child_ok ps ns p k j" by (rule child_okI[OF assms(1) k])
  show dv: "ps dvd length (n_key (ns ! j))" using assms(2) co by (simp add: paged_def child_ok_def)
  then have "ps \<le> length (n_key (ns ! j))" using co by (auto simp: child_ok_def intro: dvd_imp_le)
  then have "get_child_key ps (n_key (ns ! j) @ x) = k"
    using co tree_ok_pos[OF assms(1)] by (auto simp: get_child_key_def child_ok_def)
  then show "map_of (n_children (ns ! p)) (get_child_key ps (n_key (ns ! j) @ x)) = Some j"
    using tree_okD(1)[OF assms(1) k(1)] k(2) by (simp add: children_ok_def)
qed

text \<open>
  In a tree of the requester's own nothing is refused, and the lookup follows every stored path to its end.
\<close>

lemma own_lookup:
  "match_loop env (Some u) node key vals c = (res, c') \<Longrightarrow> cache_ok c \<Longrightarrow> node < length (nodes c) \<Longrightarrow>
     kin_edges (nodes c) \<Longrightarrow> n_namespace_key (nd c node) = Some (ns_private u f) \<Longrightarrow>
     \<exists>ws j. res = Inr (vals @ ws, j) \<and>
       (\<forall>i ks vs rest. paged (page_size c) (nodes c) \<and> key = ks @ rest \<and> reads (nodes c) node i ks vs \<longrightarrow>
          take (length vs) (concat ws) = vs)"
proof (induction "length key" arbitrary: node key vals c rule: less_induct)
  case less
  have ok: "tree_ok (page_size c) (nodes c)" using less.prems(2) by (simp add: cache_ok_def)
  have mine: "n_creator_id (nd c j) = Some u" "n_namespace_key (nd c j) = Some (ns_private u f)"
    if "map_of (n_children (nd c node)) k = Some j" for k j
  proof -
    have "(node, j) \<in> child_rel (nodes c)"
      using that less.prems(3) by (force simp: child_rel_def child_ids_def dest: map_of_SomeD)
    then show "n_creator_id (nd c j) = Some u" "n_namespace_key (nd c j) = Some (ns_private u f)"
      using kinD[OF less.prems(4)] less.prems(5) by auto
  qed
  have path: "ks = [] \<and> vs = [] \<or> (\<exists>j ks' vs'. map_of (n_children (nd c node)) (get_child_key (page_size c) key) = Some j \<and>
      ks = n_key (nd c j) @ ks' \<and> vs = n_value (nd c j) @ vs' \<and> reads (nodes c) j i ks' vs' \<and>
      length (n_key (nd c j)) \<le> key_match (page_size c) (n_key (nd c j)) key \<and> key \<noteq> [])"
    if p: "paged (page_size c) (nodes c)" "key = ks @ rest" "reads (nodes c) node i ks vs" for i ks vs rest
    using reads_first[OF p(3)]
  proof (elim disjE exE conjE)
    fix j ks' vs'
    assume j: "(node, j) \<in> child_rel (nodes c)" "ks = n_key (nd c j) @ ks'" "vs = n_value (nd c j) @ vs'" "reads (nodes c) j i ks' vs'"
    have key: "key = n_key (nd c j) @ ks' @ rest" using p(2) j(2) by simp
    note fc = first_child[OF ok p(1) j(1)]
    have "n_key (nd c j) \<noteq> []" using child_of_map[OF ok less.prems(3) fc(1)] by (simp add: child_ok_def)
    then show ?thesis
      using fc(1)[of "ks' @ rest"] key_match_whole[OF tree_ok_pos[OF ok] fc(2), of "ks' @ rest"] j key by auto
  qed simp
  from less.prems(1-3) show ?case
  proof (cases rule: match_turn)
    case stop
    have "visible_to c j (Some u)" if "map_of (n_children (nd c node)) k = Some j" for k j
      using mine(1)[OF that] by (simp add: visible_to_def)
    then have "take (length vs) (concat []) = vs"
      if "paged (page_size c) (nodes c)" "key = ks @ rest" "reads (nodes c) node i ks vs" for i ks vs rest
      using path[OF that] stop(3) by auto
    then show ?thesis using stop(1) by (intro exI[of _ "[]"]) auto
  next
    case (refused child t)
    then obtain k where "map_of (n_children (nd c node)) k = Some child" by (auto simp: may_visit_def)
    then show ?thesis using mine(1) refused(6) by (auto simp: budget_applies_def)
  next
    case (split child t n)
    have "take (length vs) (concat [take n (n_value (nd c child))]) = vs"
      if "paged (page_size c) (nodes c)" "key = ks @ rest" "reads (nodes c) node i ks vs" for i ks vs rest
      using path[OF that] split(4,5,7) by auto
    then show ?thesis using split(9) by (intro exI[of _ "[take n (n_value (nd c child))]"]) blast
  next
    case (descend child t n c2)
    note vd = may_visitD[OF descend(1)]
    have shape: "length (nodes c2) = length (nodes c)" "\<And>j. j < length (nodes c) \<Longrightarrow> same_shape (nd c j) (nd c2 j)"
      using touch_shape[OF descend(3)] by (simp_all add: descend(4))
    have kin2: "kin_edges (nodes c2)" using kin_edges_touch[OF less.prems(4) ok descend(3)] descend(4) by simp
    have ns2: "n_namespace_key (nd c2 child) = Some (ns_private u f)"
      using mine(2)[OF descend(6)] shape(2)[OF vd(1)] by (simp add: same_shape_def)
    have ps2: "page_size c2 = page_size c" using descend(2) by (simp add: same_frame_def)
    have "0 < n" using descend(8) tree_ok_pos[OF ok] by simp
    then have "length (drop n key) < length key" using descend(5) by simp
    moreover have "child < length (nodes c2)" using vd(1) shape(1) by simp
    ultimately obtain ws j where ws: "res = Inr ((vals @ [n_value (nd c child)]) @ ws, j)"
      and tl: "\<forall>i ks vs rest. paged (page_size c) (nodes c2) \<and> drop n key = ks @ rest \<and> reads (nodes c2) child i ks vs \<longrightarrow>
        take (length vs) (concat ws) = vs"
      using less.hyps[OF _ descend(10) cache_ok_touch[OF descend(1-4)] _ kin2 ns2] unfolding ps2 by blast
    have "take (length vs) (concat (n_value (nd c child) # ws)) = vs"
      if p: "paged (page_size c) (nodes c)" "key = ks @ rest" "reads (nodes c) node i ks vs" for i ks vs rest
      using path[OF p]
    proof (elim disjE exE conjE)
      fix j ks' vs'
      assume j: "map_of (n_children (nd c node)) (get_child_key (page_size c) key) = Some j"
        "ks = n_key (nd c j) @ ks'" "vs = n_value (nd c j) @ vs'" "reads (nodes c) j i ks' vs'"
      then have jc: "j = child" using descend(6) by simp
      have "paged (page_size c) (nodes c2)"
        using p(1) shape by (simp add: paged_def all_set_conv_all_nth same_shape_def)
      moreover have "key = n_key (nd c child) @ drop n key"
        using full_key_matched[of "n_key (nd c child)" "page_size c" key] descend(7,9) by simp
      then have "n_key (nd c child) @ drop n key = n_key (nd c child) @ ks' @ rest"
        unfolding p(2)[unfolded j(2) jc append.assoc, symmetric] by (rule sym)
      then have "drop n key = ks' @ rest" by (simp only: same_append_eq)
      moreover have "reads (nodes c2) child i ks' vs'" using reads_same_shape[OF j(4) shape ok] jc by simp
      ultimately have "take (length vs') (concat ws) = vs'" using tl by blast
      then show ?thesis using j(3) jc by simp
    qed simp
    then show ?thesis using ws by (intro exI[of _ "n_value (nd c child) # ws"]) auto
  qed
qed

section \<open>Properties\<close>

lemma match_prefix_own:
  assumes "match_loop env (Some u) r (aligned_key (page_size c) key) [] c = (Inr (ws, j), c')"
    and "map_of (private_roots c) u = Some r" "ws \<noteq> []" "key \<noteq> []" "u \<noteq> []" "\<not> disable c" "safekv_mode c \<noteq> ''none''"
    and "public_matches (aligned_key (page_size c) key) c = []"
  shows "\<exists>c''. match_prefix env key (Some u) None c = (Inr (concat ws, j), c'')"
proof -
  have "match_public env (aligned_key (page_size c) key) u None c = (Inr None, c)"
    using assms(8)
    by (simp add: match_public_def install_authorization_def parse_authorization_def matching_public_root_def)
  then show ?thesis
    using assms(1-7) by (simp add: match_prefix_def match_private_def match_prefix_helper_def Let_def)
qed

lemma aligned_key_append:
  assumes "ps dvd length key" "0 < ps"
  shows "\<exists>rest'. aligned_key ps (key @ rest) = key @ rest'"
proof -
  have "length key \<le> page_align ps (length (key @ rest))"
    using assms by (auto simp: page_align_def elim!: dvdE)
  then show ?thesis by (simp add: aligned_key_def)
qed

lemma private_root_frame:
  assumes "private_root u True c = (Some r, c0)"
  shows "page_size c0 = page_size c \<and> safekv_mode c0 = safekv_mode c \<and> disable c0 = disable c \<and>
     (paged ps (nodes c) \<longrightarrow> paged ps (nodes c0))"
  using assms
proof (cases rule: private_root_steps)
  case root
  then obtain t where "nodes c0 = nodes c @ [t]" "n_key t = []" by (auto simp: adds_root_def tree_node_init_def)
  then show ?thesis using root(1) by (auto simp: adds_root_def paged_def)
qed simp

text \<open>
  C5: what a principal inserts it finds again.  Take any reachable cache in a SafeKV mode whose node keys
  are whole pages (always so with page size 1), and insert a key of whole pages for a principal.  The
  insertion succeeds and reports that the first \<open>n\<close> tokens were cached before.  A later lookup by the same
  principal of this key followed by any tokens, with no public object in the way, never raises; it
  returns slots for at least the whole key, and those behind the first \<open>n\<close> are the inserted ones.
\<close>

theorem inserted_prefix_found:
  assumes "cache_reachable env c" and "safekv_mode c \<noteq> ''none''" and "\<not> disable c" and "u \<noteq> []" and "key \<noteq> []"
    and "length v = length key" and "paged (page_size c) (nodes c)" and "page_size c dvd length key"
    and "page_size c dvd chunk_size"
  shows "\<exists>n c1. cache_insert env key (Some v) prompt (Some u) None c = Some (Inr n, c1) \<and> n \<le> length key \<and>
     (public_matches (aligned_key (page_size c) (key @ rest)) c1 = [] \<longrightarrow>
       (\<exists>slots i c2. match_prefix env (key @ rest) (Some u) None c1 = (Inr (slots, i), c2) \<and>
          length key \<le> length slots \<and> drop n (take (length key) slots) = drop n v))"
proof -
  have ok: "cache_ok c" "owned c"
    using reachable_sound[OF assms(1)] reachable_owned[OF assms(1)] by (simp_all add: sound_cache_def)
  have ps: "page_size c \<le> chunk_size" "0 < page_size c"
    using assms(9) ok(1) tree_ok_pos by (auto simp: chunk_size_def cache_ok_def intro!: dvd_imp_le)
  obtain r c0 where pr: "private_root u True c = (Some r, c0)" "owned c0" "map_of (private_roots c0) u = Some r"
    using private_root_owned[OF _ ok] by (metis prod.exhaust)
  have t: "insert_target env key u None c = (Inr (None, r), c0)"
    using pr(1) by (simp add: insert_target_def parse_authorization_def)
  have c0: "cache_ok c0" "r < length (nodes c0)" using insert_target_ok[OF t ok(1)] by auto
  note fr = private_root_frame[OF pr(1)]
  have own: "kin_edges (nodes c0)" "n_namespace_key (nd c0 r) = Some (ns_private u ''namespace-root'')"
    using pr(2) map_of_SomeD[OF pr(3)] by (auto simp: owned_def)
  obtain n c1 where run: "insert_helper env r key v prompt (Some u) c0 = Some (Inr n, c1)"
    using insert_helper_ok[OF c0, of key v env prompt "Some u"] assms(6) ps fr by auto
  then have ins: "cache_insert env key (Some v) prompt (Some u) None c = Some (Inr n, c1)"
    using assms(2-4) t by (simp add: cache_insert_def)
  have c1: "cache_ok c1 \<and> same_frame c0 c1 \<and> kin_edges (nodes c1) \<and> tags_kept (nodes c0) (nodes c1) \<and>
      paged (page_size c) (nodes c1) \<and> n \<le> length key \<and>
      (\<exists>i vs. reads (nodes c1) r i key vs \<and> length vs = length key \<and> drop n vs = drop n v)"
    using insert_helper_settles[OF run c0] assms(6-9) ps fr own by (auto simp: ns_private_def)
  then obtain i vs where rd: "reads (nodes c1) r i key vs" "length vs = length key" "drop n vs = drop n v" by blast
  have f1: "page_size c1 = page_size c" "safekv_mode c1 \<noteq> ''none''" "\<not> disable c1" "map_of (private_roots c1) u = Some r"
    "n_namespace_key (nd c1 r) = Some (ns_private u ''namespace-root'')"
    using c1 fr assms(2,3) pr(3) own(2) c0(2) by (auto simp: same_frame_def tags_kept_def)
  obtain rest' where al: "aligned_key (page_size c) (key @ rest) = key @ rest'"
    using aligned_key_append[OF assms(8) ps(2)] by blast
  obtain rl c2 where m: "match_loop env (Some u) r (key @ rest') [] c1 = (rl, c2)" by fastforce
  have "r < length (nodes c1)" using c1 c0(2) by (auto simp: tags_kept_def)
  from own_lookup[OF m _ this _ f1(5)] c1 obtain ws j where rl: "rl = Inr (ws, j)"
    and tk: "\<forall>i ks vs rest. paged (page_size c1) (nodes c1) \<and> key @ rest' = ks @ rest \<and> reads (nodes c1) r i ks vs \<longrightarrow>
       take (length vs) (concat ws) = vs" by auto
  have slots: "take (length key) (concat ws) = vs" using tk c1 rd(1,2) f1(1) by metis
  then have "ws \<noteq> []" "length key \<le> length (concat ws)"
    using rd(2) assms(5) by (auto simp: min_def dest!: arg_cong[where f = length] split: if_splits)
  moreover have "\<exists>c2. match_prefix env (key @ rest) (Some u) None c1 = (Inr (concat ws, j), c2)"
    if "public_matches (aligned_key (page_size c) (key @ rest)) c1 = []"
    using m rl f1 al assms(4,5) that \<open>ws \<noteq> []\<close> by (intro match_prefix_own[of env u r c1 "key @ rest" ws j c2]) auto
  ultimately show ?thesis using ins c1 slots rd(3) by auto
qed

theorem inserted_prefix_found_witness:
  "\<exists>slots i c2. match_prefix demo_env [1, 2, 3, 4] (Some ''al'') None
       (demo_insert [1, 2, 3] ''al'' (demo_cache ''strict'' False)) = (Inr (slots, i), c2) \<and>
     3 \<le> length slots \<and> take 3 slots = [11, 12, 13]"
proof -
  let ?c = "demo_cache ''strict'' False" and ?key = "[1, 2, 3] :: int list"
  have r: "cache_reachable demo_env ?c"
    by (rule cache_reachable.start[of "req_pool_init 2 8" "Slots (allocator_init 8)" 1 False False 2 2
          "''strict''" None 1 None None None False NoFile])
       (auto simp: demo_cache_def cache_init_def registry_init_def utf8_def)
  have ins: "cache_insert demo_env ?key (Some [11, 12, 13]) None (Some ''al'') None ?c =
      Some (Inr 0, demo_insert ?key ''al'' ?c)"
    by (simp add: cache_eval)
  have pm: "public_matches (aligned_key (page_size ?c) (?key @ [4])) (demo_insert ?key ''al'' ?c) = []"
    by (simp add: cache_eval)
  have "safekv_mode ?c \<noteq> ''none''" "\<not> disable ?c" "paged (page_size ?c) (nodes ?c)" "page_size ?c dvd length ?key"
    "page_size ?c dvd chunk_size" by (simp_all add: cache_eval paged_def)
  from inserted_prefix_found[OF r this(1,2) _ _ _ this(3-5), of "''al''" "[11, 12, 13]" None "[4]"]
  show ?thesis using ins pm by (auto simp: numeral_3_eq_3)
qed

end
