(* ===== verification/Detokenizer.thy ===== *)
theory Detokenizer
  imports Py_Strings
begin

text \<open>
  \<open>managers/detokenizer_manager.py\<close>, with \<open>find_printable_text\<close> of \<open>utils.py\<close>: token ids become text that is
  streamed to the client.  Texts are lists of code points.  The tokenizer is a parameter.  The fields
  of a batch that the handler only passes on are left out, and so are the sockets.
\<close>

section \<open>Printable text\<close>

type_synonym codepoints = "nat list"

definition REPLACEMENT_CHAR :: nat where
  "REPLACEMENT_CHAR = 0xFFFD"

definition is_chinese_char :: "nat \<Rightarrow> bool" where
  "is_chinese_char cp \<longleftrightarrow>
     0x4E00 \<le> cp \<and> cp \<le> 0x9FFF \<or> 0x3400 \<le> cp \<and> cp \<le> 0x4DBF \<or> 0x20000 \<le> cp \<and> cp \<le> 0x2A6DF \<or>
     0x2A700 \<le> cp \<and> cp \<le> 0x2B73F \<or> 0x2B740 \<le> cp \<and> cp \<le> 0x2B81F \<or> 0x2B820 \<le> cp \<and> cp \<le> 0x2CEAF \<or>
     0xF900 \<le> cp \<and> cp \<le> 0xFAFF \<or> 0x2F800 \<le> cp \<and> cp \<le> 0x2FA1F"

text \<open>\<open>text[: text.rfind(" ") + 1]\<close>\<close>

definition upto_last_space :: "codepoints \<Rightarrow> codepoints" where
  "upto_last_space s = rev (dropWhile (\<lambda>c. c \<noteq> 32) (rev s))"

definition find_printable_text :: "codepoints \<Rightarrow> codepoints" where
  "find_printable_text s =
     (if s \<noteq> [] \<and> last s = 10 then s
      else if s \<noteq> [] \<and> is_chinese_char (last s) then s
      else if 1 < length s \<and> is_chinese_char (s ! (length s - 2)) then butlast s
      else upto_last_space s)"

section \<open>State\<close>

record DecodeStatus =
  ds_decoded_text :: codepoints
  ds_decode_ids :: "int list"
  ds_surr_offset :: nat
  ds_read_offset :: nat
  ds_sent_offset :: nat

text \<open>The field \<open>matched\<close> of a finish reason, and one request of a \<open>BatchTokenIDOut\<close>.\<close>

datatype matched_stop = MatchedStr codepoints | MatchedToken int

record token_out =
  to_rid :: string
  to_finished_reason :: "matched_stop option option"
  to_decoded_text :: codepoints
  to_decode_ids :: "int list"
  to_read_offset :: nat
  to_skip_special_tokens :: bool
  to_spaces_between_special_tokens :: bool
  to_no_stop_trim :: bool

type_synonym decode_states = "(string \<times> DecodeStatus) list"
type_synonym batch_decoder = "bool \<Rightarrow> bool \<Rightarrow> int list list \<Rightarrow> codepoints list result"

text \<open>\<open>LimitedCapacityDict.__setitem__\<close>: the oldest entry goes when the dictionary is full.\<close>

definition limited_set :: "nat \<Rightarrow> string \<Rightarrow> DecodeStatus \<Rightarrow> decode_states \<Rightarrow> unit result \<times> decode_states" where
  "limited_set capacity k s d =
     (if length d \<ge> capacity
      then if d = [] then (Inl (KeyError ''dictionary is empty''), d) else (Inr (), dict_set k s (tl d))
      else (Inr (), dict_set k s d))"

section \<open>Operations\<close>

datatype detok_output = OutText codepoints | OutIds "int list"

definition trim_matched_stop :: "detok_output \<Rightarrow> matched_stop option option \<Rightarrow> bool \<Rightarrow> detok_output result" where
  "trim_matched_stop out finished_reason no_stop_trim =
     (case finished_reason of
        None \<Rightarrow> Inr out
      | Some matched \<Rightarrow>
          if no_stop_trim \<or> matched \<in> {None, Some (MatchedStr []), Some (MatchedToken 0)} then Inr out
          else case (the matched, out) of
            (MatchedStr m, OutText s) \<Rightarrow> Inr (OutText (case cut_at m s of None \<Rightarrow> s | Some (a, _) \<Rightarrow> a))
          | (MatchedToken t, OutIds ids) \<Rightarrow> if ids = [] then Inl AssertionError else Inr (OutIds (butlast ids))
          | _ \<Rightarrow> Inr out)"

fun out_ids :: "detok_output \<Rightarrow> int list" where
  "out_ids (OutIds ids) = ids"
| "out_ids (OutText _) = []"

fun out_text :: "detok_output \<Rightarrow> codepoints" where
  "out_text (OutText s) = s"
| "out_text (OutIds _) = []"

text \<open>The first loop: the state of every request, and the ids to decode with and without the new ones.\<close>

definition new_status :: "token_out \<Rightarrow> DecodeStatus" where
  "new_status x =
     \<lparr> ds_decoded_text = to_decoded_text x, ds_decode_ids = to_decode_ids x, ds_surr_offset = 0,
       ds_read_offset = to_read_offset x, ds_sent_offset = 0 \<rparr>"

definition extend_status :: "token_out \<Rightarrow> DecodeStatus option \<Rightarrow> DecodeStatus" where
  "extend_status x so =
     (case so of None \<Rightarrow> new_status x | Some s \<Rightarrow> s\<lparr>ds_decode_ids := ds_decode_ids s @ to_decode_ids x\<rparr>)"

definition take_in :: "nat \<Rightarrow> token_out \<Rightarrow> decode_states \<Rightarrow> DecodeStatus result \<times> decode_states" where
  "take_in capacity x d =
     (let s = extend_status x (map_of d (to_rid x))
      in case map_of d (to_rid x) of
           None \<Rightarrow> andThen (limited_set capacity (to_rid x) s d) (\<lambda>_ d1. (Inr s, d1))
         | Some _ \<Rightarrow> (Inr s, dict_set (to_rid x) s d))"

definition read_part :: "token_out \<Rightarrow> DecodeStatus \<Rightarrow> int list result" where
  "read_part x s =
     bindE (trim_matched_stop (OutIds (drop (ds_surr_offset s) (ds_decode_ids s))) (to_finished_reason x) (to_no_stop_trim x))
       (\<lambda>out. Inr (out_ids out))"

definition surr_part :: "DecodeStatus \<Rightarrow> int list" where
  "surr_part s = py_slice (ds_surr_offset s) (ds_read_offset s) (ds_decode_ids s)"

fun collect_ids ::
  "nat \<Rightarrow> token_out list \<Rightarrow> decode_states \<Rightarrow> (int list \<times> int list) list result \<times> decode_states" where
  "collect_ids capacity [] d = (Inr [], d)"
| "collect_ids capacity (x # xs) d =
     andThen (take_in capacity x d) (\<lambda>s d1.
     andThen (read_part x s, d1) (\<lambda>ids d2.
     andThen (collect_ids capacity xs d2) (\<lambda>rest d3. (Inr ((ids, surr_part s) # rest), d3))))"

text \<open>The second loop: what is new in the text, and what of it is sent.\<close>

definition emit :: "token_out \<Rightarrow> codepoints \<Rightarrow> codepoints \<Rightarrow> DecodeStatus \<Rightarrow> codepoints result \<times> DecodeStatus" where
  "emit x surr_text read_text s =
     (let new_text = drop (length surr_text) read_text;
          commit = to_finished_reason x = None \<and> new_text \<noteq> [] \<and> last new_text \<noteq> REPLACEMENT_CHAR;
          s1 = (if commit
                then s\<lparr>ds_decoded_text := ds_decoded_text s @ new_text, ds_surr_offset := ds_read_offset s,
                       ds_read_offset := length (ds_decode_ids s)\<rparr>
                else s);
          shown = (if commit then [] else if to_finished_reason x = None then find_printable_text new_text else new_text)
      in case trim_matched_stop (OutText (ds_decoded_text s1 @ shown)) (to_finished_reason x) (to_no_stop_trim x) of
           Inl e \<Rightarrow> (Inl e, s1)
         | Inr out \<Rightarrow>
             (let output_str = out_text out
              in (Inr (drop (ds_sent_offset s1) output_str), s1\<lparr>ds_sent_offset := length output_str\<rparr>)))"

fun emit_all ::
  "nat \<Rightarrow> token_out list \<Rightarrow> codepoints list \<Rightarrow> codepoints list \<Rightarrow> decode_states
     \<Rightarrow> codepoints list result \<times> decode_states" where
  "emit_all capacity [] surrs reads d = (Inr [], d)"
| "emit_all capacity (x # xs) surrs reads d =
     (case map_of d (to_rid x) of
        None \<Rightarrow>
          (Inl (RuntimeError (''Decode status not found for request '' @ to_rid x @ ''. '' @
             ''It may be due to the request being evicted from the decode status due to memory pressure. '' @
             ''Please increase the maximum number of requests by setting '' @
             ''the SGLANG_DETOKENIZER_MAX_STATES environment variable to a bigger value than the default value. '' @
             ''The current value is '' @ show_nat capacity @ ''. '' @
             ''For more details, see: https://github.com/sgl-project/sglang/issues/2812'')), d)
      | Some s \<Rightarrow>
          (case (surrs, reads) of
             (st # sts, rt # rts) \<Rightarrow>
               (case emit x st rt s of (r, s1) \<Rightarrow>
                  andThen (r, dict_set (to_rid x) s1 d) (\<lambda>t d1.
                  andThen (emit_all capacity xs sts rts d1) (\<lambda>ts d2. (Inr (t # ts), d2))))
           | _ \<Rightarrow> (Inl IndexError, d)))"

definition handle_batch_token_id_out ::
  "batch_decoder \<Rightarrow> nat \<Rightarrow> token_out list \<Rightarrow> decode_states \<Rightarrow> codepoints list result \<times> decode_states" where
  "handle_batch_token_id_out batch_decode capacity xs d =
     andThen (collect_ids capacity xs d) (\<lambda>ids d1.
       case xs of
         [] \<Rightarrow> (Inl IndexError, d1)
       | x # _ \<Rightarrow>
           (let decode = batch_decode (to_skip_special_tokens x) (to_spaces_between_special_tokens x)
            in andThen (decode (map snd ids), d1) (\<lambda>surrs d2.
               andThen (decode (map fst ids), d2) (\<lambda>reads d3. emit_all capacity xs surrs reads d3))))"

text \<open>The texts sent for a sequence of batches, each with the id of its request.\<close>

fun run_batches ::
  "batch_decoder \<Rightarrow> nat \<Rightarrow> token_out list list \<Rightarrow> decode_states
     \<Rightarrow> (string \<times> codepoints) list result \<times> decode_states" where
  "run_batches bd capacity [] d = (Inr [], d)"
| "run_batches bd capacity (b # bs) d =
     andThen (handle_batch_token_id_out bd capacity b d) (\<lambda>outs d1.
     andThen (run_batches bd capacity bs d1) (\<lambda>rest d2. (Inr (zip (map to_rid b) outs @ rest), d2)))"

section \<open>One request among others\<close>

text \<open>What the handler does for one request when the tokenizer decodes the texts of a batch one by one.\<close>

definition step :: "(int list \<Rightarrow> codepoints) \<Rightarrow> token_out \<Rightarrow> DecodeStatus option \<Rightarrow> codepoints \<times> DecodeStatus" where
  "step dec x so =
     (let s = extend_status x so
      in case emit x (dec (surr_part s)) (dec (projr (read_part x s))) s of (r, s1) \<Rightarrow> (projr r, s1))"

fun stream :: "(int list \<Rightarrow> codepoints) \<Rightarrow> token_out list \<Rightarrow> DecodeStatus option \<Rightarrow> codepoints" where
  "stream dec [] so = []"
| "stream dec (x # xs) so = (case step dec x so of (t, s) \<Rightarrow> t @ stream dec xs (Some s))"

definition item_ok :: "token_out \<Rightarrow> bool" where
  "item_ok x \<longleftrightarrow> to_read_offset x \<le> length (to_decode_ids x) \<and> to_decode_ids x \<noteq> []"

definition status_ok :: "DecodeStatus \<Rightarrow> bool" where
  "status_ok s \<longleftrightarrow> ds_surr_offset s \<le> ds_read_offset s \<and> ds_read_offset s \<le> length (ds_decode_ids s)"

definition states_ok :: "decode_states \<Rightarrow> bool" where
  "states_ok d \<longleftrightarrow> distinct (map fst d) \<and> (\<forall>k s. map_of d k = Some s \<longrightarrow> status_ok s)"

lemma extend_status_ok:
  assumes "item_ok x" "\<And>s. so = Some s \<Longrightarrow> status_ok s"
  shows "status_ok (extend_status x so)"
    "drop (ds_surr_offset (extend_status x so)) (ds_decode_ids (extend_status x so)) \<noteq> []"
  using assms
  by (auto simp: extend_status_def new_status_def item_ok_def status_ok_def split: option.splits
      simp flip: length_greater_0_conv)

lemma read_part_Inr:
  "drop (ds_surr_offset s) (ds_decode_ids s) \<noteq> [] \<Longrightarrow> \<exists>ids. read_part x s = Inr ids"
  by (auto simp: read_part_def trim_matched_stop_def bindE_def split: option.splits matched_stop.splits)

lemma trim_text: "\<exists>t. trim_matched_stop (OutText s) fin no_trim = Inr (OutText t)"
  by (auto simp: trim_matched_stop_def split: option.splits matched_stop.splits)

lemma emit_Inr: "\<exists>t s1. emit x st rt s = (Inr t, s1)"
  unfolding emit_def Let_def using trim_text by (metis (no_types, lifting) sum.simps(6))

lemma emit_status_ok: "status_ok s \<Longrightarrow> status_ok (snd (emit x st rt s))"
  by (auto simp: emit_def Let_def status_ok_def split: sum.splits)

lemma length_keys: "distinct (map fst d) \<Longrightarrow> length d = card (fst ` set d)"
  using distinct_card[of "map fst d"] by simp

lemma take_in_fresh:
  assumes "distinct (map fst d)" "card (insert (to_rid x) (fst ` set d)) \<le> cap"
  shows "take_in cap x d = (Inr (extend_status x (map_of d (to_rid x))),
     dict_set (to_rid x) (extend_status x (map_of d (to_rid x))) d)"
proof (cases "map_of d (to_rid x)")
  case None
  then have "to_rid x \<notin> fst ` set d" by (simp add: map_of_eq_None_iff)
  then have "length d < cap" using assms by (simp add: length_keys)
  then show ?thesis using None by (simp add: take_in_def limited_set_def Let_def)
qed (simp add: take_in_def Let_def)

lemma collect_ids_pointwise:
  "states_ok d \<Longrightarrow> distinct (map to_rid xs) \<Longrightarrow> \<forall>x \<in> set xs. item_ok x \<Longrightarrow>
     card (to_rid ` set xs \<union> fst ` set d) \<le> cap \<Longrightarrow>
     \<exists>d'. collect_ids cap xs d =
       (Inr (map (\<lambda>x. let s = extend_status x (map_of d (to_rid x)) in (projr (read_part x s), surr_part s)) xs), d') \<and>
       states_ok d' \<and> fst ` set d' = to_rid ` set xs \<union> fst ` set d \<and>
       (\<forall>x \<in> set xs. map_of d' (to_rid x) = Some (extend_status x (map_of d (to_rid x)))) \<and>
       (\<forall>k. k \<notin> to_rid ` set xs \<longrightarrow> map_of d' k = map_of d k)"
proof (induction cap xs d rule: collect_ids.induct)
  case (2 cap x xs d)
  let ?s = "extend_status x (map_of d (to_rid x))"
  let ?d = "dict_set (to_rid x) ?s d"
  have dis: "distinct (map fst d)" and st: "\<And>s. map_of d k = Some s \<Longrightarrow> status_ok s" for k
    using 2(2) by (auto simp: states_ok_def)
  have "card (insert (to_rid x) (fst ` set d)) \<le> card (to_rid ` set (x # xs) \<union> fst ` set d)"
    by (rule card_mono) auto
  then have t: "take_in cap x d = (Inr ?s, ?d)" using 2(5) by (intro take_in_fresh[OF dis]) simp
  note es = extend_status_ok[of x "map_of d (to_rid x)"]
  obtain ids where s: "status_ok ?s" "read_part x ?s = Inr ids"
    using es 2(4) st read_part_Inr[of ?s x] by auto
  have ok: "states_ok ?d" using 2(2) s(1) by (auto simp: states_ok_def distinct_keys_dict_set)
  have keys: "fst ` set ?d = insert (to_rid x) (fst ` set d)" by (rule keys_dict_set)
  have other: "map_of ?d (to_rid y) = map_of d (to_rid y)" if "y \<in> set xs" for y
    using that 2(3) by (auto simp: image_iff)
  have "card (to_rid ` set xs \<union> fst ` set ?d) \<le> cap" using 2(5) keys by (simp add: Un_commute Un_left_commute)
  then obtain d' where d': "collect_ids cap xs ?d =
       (Inr (map (\<lambda>x. let s = extend_status x (map_of d (to_rid x)) in (projr (read_part x s), surr_part s)) xs), d')"
     "states_ok d'" "fst ` set d' = to_rid ` set xs \<union> fst ` set ?d"
     "\<forall>y \<in> set xs. map_of d' (to_rid y) = Some (extend_status y (map_of d (to_rid y)))"
     "\<forall>k. k \<notin> to_rid ` set xs \<longrightarrow> map_of d' k = map_of ?d k"
    using 2(1)[of ?s ?d ids ?d] t s(2) ok 2(3,4) other by (auto simp: Let_def cong: map_cong)
  show ?case
  proof (intro exI[of _ d'] conjI)
    show "collect_ids cap (x # xs) d =
      (Inr (map (\<lambda>x. let s = extend_status x (map_of d (to_rid x)) in (projr (read_part x s), surr_part s)) (x # xs)), d')"
      using t s(2) d'(1) by (simp add: Let_def)
    show "\<forall>y \<in> set (x # xs). map_of d' (to_rid y) = Some (extend_status y (map_of d (to_rid y)))"
      using d'(4,5) 2(3) by auto
  qed (use d' keys in auto)
qed simp

lemma emit_all_pointwise:
  "states_ok d \<Longrightarrow> distinct (map to_rid xs) \<Longrightarrow> \<forall>x \<in> set xs. map_of d (to_rid x) = Some (E x) \<Longrightarrow>
     \<exists>d'. emit_all cap xs (map st xs) (map rt xs) d =
       (Inr (map (\<lambda>x. projr (fst (emit x (st x) (rt x) (E x)))) xs), d') \<and>
       states_ok d' \<and> fst ` set d' = fst ` set d \<and>
       (\<forall>x \<in> set xs. map_of d' (to_rid x) = Some (snd (emit x (st x) (rt x) (E x)))) \<and>
       (\<forall>k. k \<notin> to_rid ` set xs \<longrightarrow> map_of d' k = map_of d k)"
proof (induction xs arbitrary: d)
  case (Cons x xs)
  let ?t = "projr (fst (emit x (st x) (rt x) (E x)))" and ?s = "snd (emit x (st x) (rt x) (E x))"
  let ?d = "dict_set (to_rid x) ?s d"
  have x: "map_of d (to_rid x) = Some (E x)" using Cons.prems(3) by simp
  have ok: "states_ok ?d"
    using Cons.prems(1) x emit_status_ok[of "E x"] by (auto simp: states_ok_def distinct_keys_dict_set)
  have keys: "fst ` set ?d = fst ` set d"
    using keys_dict_set[of "to_rid x" ?s d] x by (force dest: map_of_SomeD)
  have "\<forall>y \<in> set xs. map_of ?d (to_rid y) = Some (E y)" using Cons.prems(2,3) by (auto simp: image_iff)
  with Cons.IH[OF ok] Cons.prems(2) obtain d' where d': "emit_all cap xs (map st xs) (map rt xs) ?d =
       (Inr (map (\<lambda>x. projr (fst (emit x (st x) (rt x) (E x)))) xs), d')" "states_ok d'" "fst ` set d' = fst ` set ?d"
     "\<forall>y \<in> set xs. map_of d' (to_rid y) = Some (snd (emit y (st y) (rt y) (E y)))"
     "\<forall>k. k \<notin> to_rid ` set xs \<longrightarrow> map_of d' k = map_of ?d k" by auto
  show ?case
  proof (intro exI[of _ d'] conjI)
    obtain t s where "emit x (st x) (rt x) (E x) = (Inr t, s)" using emit_Inr by blast
    then show "emit_all cap (x # xs) (map st (x # xs)) (map rt (x # xs)) d =
       (Inr (map (\<lambda>x. projr (fst (emit x (st x) (rt x) (E x)))) (x # xs)), d')"
      using x d'(1) by simp
    show "\<forall>y \<in> set (x # xs). map_of d' (to_rid y) = Some (snd (emit y (st y) (rt y) (E y)))"
      using d'(4,5) Cons.prems(2) by auto
  qed (use d' keys in auto)
qed simp

text \<open>A tokenizer that decodes the texts of a batch one by one, with the flags of the batch.\<close>

definition pointwise :: "batch_decoder \<Rightarrow> bool \<Rightarrow> bool \<Rightarrow> (int list \<Rightarrow> codepoints) \<Rightarrow> bool" where
  "pointwise bd f g dec \<longleftrightarrow> (\<forall>xs. bd f g xs = Inr (map dec xs))"

definition batch_ok :: "bool \<Rightarrow> bool \<Rightarrow> token_out list \<Rightarrow> bool" where
  "batch_ok f g b \<longleftrightarrow>
     b \<noteq> [] \<and> distinct (map to_rid b) \<and> (\<forall>x \<in> set b. item_ok x) \<and>
     to_skip_special_tokens (hd b) = f \<and> to_spaces_between_special_tokens (hd b) = g"

lemma handle_batch_pointwise:
  assumes "pointwise bd f g dec" "batch_ok f g b" "states_ok d" "card (to_rid ` set b \<union> fst ` set d) \<le> cap"
  shows "\<exists>d'. handle_batch_token_id_out bd cap b d =
      (Inr (map (\<lambda>x. fst (step dec x (map_of d (to_rid x)))) b), d') \<and>
     states_ok d' \<and> fst ` set d' = to_rid ` set b \<union> fst ` set d \<and>
     (\<forall>x \<in> set b. map_of d' (to_rid x) = Some (snd (step dec x (map_of d (to_rid x))))) \<and>
     (\<forall>k. k \<notin> to_rid ` set b \<longrightarrow> map_of d' k = map_of d k)"
proof -
  let ?E = "\<lambda>x. extend_status x (map_of d (to_rid x))"
  let ?st = "\<lambda>x. dec (surr_part (?E x))" and ?rt = "\<lambda>x. dec (projr (read_part x (?E x)))"
  have b: "b \<noteq> []" "distinct (map to_rid b)" "\<forall>x \<in> set b. item_ok x"
    and flags: "to_skip_special_tokens (hd b) = f" "to_spaces_between_special_tokens (hd b) = g"
    using assms(2) by (simp_all add: batch_ok_def)
  obtain d1 where c: "collect_ids cap b d = (Inr (map (\<lambda>x. let s = ?E x in (projr (read_part x s), surr_part s)) b), d1)"
    and d1: "states_ok d1" "fst ` set d1 = to_rid ` set b \<union> fst ` set d"
      "\<forall>x \<in> set b. map_of d1 (to_rid x) = Some (?E x)" "\<forall>k. k \<notin> to_rid ` set b \<longrightarrow> map_of d1 k = map_of d k"
    using collect_ids_pointwise[OF assms(3) b(2,3) assms(4)] by blast
  obtain d2 where e: "emit_all cap b (map ?st b) (map ?rt b) d1 =
       (Inr (map (\<lambda>x. projr (fst (emit x (?st x) (?rt x) (?E x)))) b), d2)"
    and d2: "states_ok d2" "fst ` set d2 = fst ` set d1"
      "\<forall>x \<in> set b. map_of d2 (to_rid x) = Some (snd (emit x (?st x) (?rt x) (?E x)))"
      "\<forall>k. k \<notin> to_rid ` set b \<longrightarrow> map_of d2 k = map_of d1 k"
    using emit_all_pointwise[OF d1(1) b(2), of ?E cap ?st ?rt] d1(3) by blast
  have "handle_batch_token_id_out bd cap b d = emit_all cap b (map ?st b) (map ?rt b) d1"
    using assms(1) flags b(1) unfolding handle_batch_token_id_out_def c
    by (cases b) (simp_all add: pointwise_def Let_def comp_def del: emit_all.simps)
  moreover have "step dec x (map_of d (to_rid x)) =
      (projr (fst (emit x (?st x) (?rt x) (?E x))), snd (emit x (?st x) (?rt x) (?E x)))" for x
    by (simp add: step_def Let_def case_prod_unfold)
  ultimately show ?thesis using e d1 d2 by auto
qed

text \<open>The texts of one request in a run depend on its own items only.\<close>

definition items_of :: "string \<Rightarrow> token_out list list \<Rightarrow> token_out list" where
  "items_of rid bs = filter (\<lambda>x. to_rid x = rid) (concat bs)"

definition texts_of :: "string \<Rightarrow> (string \<times> codepoints) list \<Rightarrow> codepoints" where
  "texts_of rid outs = concat (map snd (filter (\<lambda>(r, _). r = rid) outs))"

lemma filter_rid:
  assumes "distinct (map to_rid b)"
  shows "filter (\<lambda>x. to_rid x = rid) b = [] \<and> rid \<notin> to_rid ` set b \<or>
     (\<exists>x \<in> set b. to_rid x = rid \<and> filter (\<lambda>x. to_rid x = rid) b = [x])"
  using assms by (induction b) (auto simp: filter_empty_conv image_iff)

lemma run_batches_stream:
  assumes "pointwise bd f g dec"
  shows "\<forall>b \<in> set bs. batch_ok f g b \<Longrightarrow> states_ok d \<Longrightarrow>
     card (to_rid ` set (concat bs) \<union> fst ` set d) \<le> cap \<Longrightarrow>
     \<exists>outs d'. run_batches bd cap bs d = (Inr outs, d') \<and>
       texts_of rid outs = stream dec (items_of rid bs) (map_of d rid)"
proof (induction bs arbitrary: d)
  case (Cons b bs)
  have b: "batch_ok f g b" "distinct (map to_rid b)" using Cons.prems(1) by (simp_all add: batch_ok_def)
  have "card (to_rid ` set b \<union> fst ` set d) \<le> card (to_rid ` set (concat (b # bs)) \<union> fst ` set d)"
    by (rule card_mono) auto
  then have le: "card (to_rid ` set b \<union> fst ` set d) \<le> cap" using Cons.prems(3) by (rule order_trans)
  obtain d1 where h: "handle_batch_token_id_out bd cap b d =
      (Inr (map (\<lambda>x. fst (step dec x (map_of d (to_rid x)))) b), d1)" "states_ok d1"
     "fst ` set d1 = to_rid ` set b \<union> fst ` set d"
     "\<forall>x \<in> set b. map_of d1 (to_rid x) = Some (snd (step dec x (map_of d (to_rid x))))"
     "\<forall>k. k \<notin> to_rid ` set b \<longrightarrow> map_of d1 k = map_of d k"
    using handle_batch_pointwise[OF assms b(1) Cons.prems(2) le] by blast
  have "card (to_rid ` set (concat bs) \<union> fst ` set d1) \<le> cap"
    using Cons.prems(3) h(3) by (simp add: image_Un Un_assoc Un_left_commute)
  with Cons.IH[OF _ h(2)] Cons.prems(1) obtain outs d' where
    r: "run_batches bd cap bs d1 = (Inr outs, d')" "texts_of rid outs = stream dec (items_of rid bs) (map_of d1 rid)" by auto
  let ?outs = "map (\<lambda>x. (to_rid x, fst (step dec x (map_of d (to_rid x))))) b"
  have z: "zip (map to_rid b) (map (\<lambda>x. fst (step dec x (map_of d (to_rid x)))) b) = ?outs"
    by (simp add: zip_map_map zip_same_conv_map)
  have "run_batches bd cap (b # bs) d = (Inr (?outs @ outs), d')" using h(1) r(1) z by simp
  moreover have "texts_of rid (?outs @ outs) = stream dec (items_of rid (b # bs)) (map_of d rid)"
    using filter_rid[OF b(2), of rid]
  proof (elim disjE bexE conjE)
    assume "filter (\<lambda>x. to_rid x = rid) b = []" "rid \<notin> to_rid ` set b"
    then show ?thesis using r(2) h(5) by (simp add: texts_of_def items_of_def filter_map comp_def)
  next
    fix x
    assume "x \<in> set b" "to_rid x = rid" "filter (\<lambda>x. to_rid x = rid) b = [x]"
    then show ?thesis
      using r(2) h(4) by (auto simp: texts_of_def items_of_def filter_map comp_def case_prod_unfold)
  qed
  ultimately show ?case by blast
qed (simp add: texts_of_def items_of_def)

section \<open>Streaming adds up\<close>

text \<open>
  What the incremental decoder relies on.  A text that does not end in a replacement character is
  complete.  More tokens leave the text as it is up to the replacement characters at its end, and what
  tokens add behind a complete text can be computed from any complete point before it.
\<close>

definition settled_text :: "codepoints \<Rightarrow> bool" where
  "settled_text t \<longleftrightarrow> t = [] \<or> last t \<noteq> REPLACEMENT_CHAR"

definition strip_repl :: "codepoints \<Rightarrow> codepoints" where
  "strip_repl t = rev (dropWhile ((=) REPLACEMENT_CHAR) (rev t))"

definition incremental :: "(int list \<Rightarrow> codepoints) \<Rightarrow> bool" where
  "incremental dec \<longleftrightarrow>
     dec [] = [] \<and> (\<forall>xs ys. prefix (strip_repl (dec xs)) (dec (xs @ ys))) \<and>
     (\<forall>xs ys zs. ys \<noteq> [] \<and> settled_text (dec xs) \<and> settled_text (dec (xs @ ys)) \<longrightarrow>
        drop (length (dec (xs @ ys))) (dec (xs @ ys @ zs)) = drop (length (dec ys)) (dec (ys @ zs)))"

lemma strip_settled: "settled_text t \<Longrightarrow> strip_repl t = t"
  by (cases t rule: rev_cases) (auto simp: settled_text_def strip_repl_def)

lemma prefix_strip: "prefix (strip_repl t) t"
  unfolding strip_repl_def by (metis suffix_dropWhile suffix_to_prefix rev_rev_ident)

lemma strip_append: "settled_text s \<Longrightarrow> strip_repl (s @ t) = s @ strip_repl t"
  by (cases s rule: rev_cases) (auto simp: settled_text_def strip_repl_def dropWhile_append dropWhile_eq_Nil_conv)

lemma prefix_upto: "prefix (upto_last_space t) t"
  unfolding upto_last_space_def by (metis suffix_dropWhile suffix_to_prefix rev_rev_ident)

lemma last_upto: "upto_last_space t = [] \<or> last (upto_last_space t) = 32"
proof (cases "dropWhile (\<lambda>c. c \<noteq> 32) (rev t)")
  case (Cons c cs)
  then show ?thesis using hd_dropWhile[of "\<lambda>c. c \<noteq> 32" "rev t"] by (simp add: upto_last_space_def)
qed (simp add: upto_last_space_def)

lemma upto_greatest:
  assumes "prefix p t" "p = [] \<or> last p = 32"
  shows "prefix p (upto_last_space t)"
proof -
  obtain q where t: "t = p @ q" using assms(1) by (auto simp: prefix_def)
  have "dropWhile (\<lambda>c. c \<noteq> 32) (rev p) = rev p"
    using assms(2) by (cases p rule: rev_cases) auto
  then have "dropWhile (\<lambda>c. c \<noteq> 32) (rev t) = dropWhile (\<lambda>c. c \<noteq> 32) (rev q) @ rev p"
    unfolding t by (auto simp: dropWhile_append dropWhile_eq_Nil_conv)
  then show ?thesis by (simp add: upto_last_space_def)
qed

lemma upto_strip: "prefix (upto_last_space t) (strip_repl t)"
proof -
  let ?n = "length (upto_last_space t)"
  obtain q where t: "t = upto_last_space t @ q" using prefix_upto by (auto simp: prefix_def)
  have "settled_text (upto_last_space t)" using last_upto[of t] by (auto simp: settled_text_def REPLACEMENT_CHAR_def)
  then show ?thesis using strip_append[of "upto_last_space t" q] t by (metis prefixI)
qed

text \<open>The state of a request between two batches, after the text \<open>S\<close> was sent.\<close>

definition added :: "(int list \<Rightarrow> codepoints) \<Rightarrow> nat \<Rightarrow> int list \<Rightarrow> codepoints" where
  "added dec n ids = drop (length (dec (take n ids))) (dec ids)"

definition streaming :: "(int list \<Rightarrow> codepoints) \<Rightarrow> codepoints \<Rightarrow> nat \<Rightarrow> DecodeStatus \<Rightarrow> codepoints \<Rightarrow> bool" where
  "streaming dec text0 r0 s S \<longleftrightarrow>
     (let ids = ds_decode_ids s; a = ds_surr_offset s; b = ds_read_offset s
      in a \<le> b \<and> b \<le> length ids \<and> r0 \<le> b \<and> (a = b \<longrightarrow> b = 0) \<and>
         settled_text (dec (take a ids)) \<and> settled_text (dec (take b ids)) \<and> settled_text (dec (take r0 ids)) \<and>
         ds_decoded_text s = text0 @ added dec r0 (take b ids) \<and> ds_sent_offset s = length S \<and>
         (S = [] \<or> (\<exists>p. S = ds_decoded_text s @ p \<and> prefix p (added dec b ids) \<and> (p = [] \<or> last p = 32))))"

lemma added_append:
  assumes "incremental dec" "b \<le> length ids" "settled_text (dec (take b ids))"
  shows "dec (ids @ ds) = dec (take b ids) @ added dec b (ids @ ds)"
proof -
  have "prefix (strip_repl (dec (take b ids))) (dec (take b ids @ drop b ids @ ds))"
    using assms(1) unfolding incremental_def by blast
  moreover have "take b ids @ drop b ids @ ds = ids @ ds" by (metis append_assoc append_take_drop_id)
  ultimately have "prefix (dec (take b ids)) (dec (ids @ ds))" using strip_settled[OF assms(3)] by simp
  then show ?thesis using assms(2) by (auto simp: added_def prefix_def)
qed

lemma added_trans:
  assumes "incremental dec" "r0 \<le> b" "b \<le> length ids" "settled_text (dec (take r0 ids))" "settled_text (dec (take b ids))"
  shows "added dec r0 ids = added dec r0 (take b ids) @ added dec b ids"
proof -
  have 1: "dec (take b ids) = dec (take r0 ids) @ added dec r0 (take b ids)"
    using added_append[OF assms(1), of r0 "take b ids" "[]"] assms(2-4) by (simp add: min_def)
  have 2: "dec ids = dec (take b ids) @ added dec b ids"
    using added_append[OF assms(1,3,5), of "[]"] by simp
  show ?thesis unfolding added_def[of dec r0 ids] by (subst 2, subst 1) simp
qed

lemma new_text:
  assumes "incremental dec" "streaming dec text0 r0 s S"
  shows "drop (length (dec (surr_part s))) (dec (drop (ds_surr_offset s) (ds_decode_ids s))) =
     added dec (ds_read_offset s) (ds_decode_ids s)"
proof -
  let ?ids = "ds_decode_ids s" and ?a = "ds_surr_offset s" and ?b = "ds_read_offset s"
  have st: "?a \<le> ?b" "?b \<le> length ?ids" "?a = ?b \<longrightarrow> ?b = 0" "settled_text (dec (take ?a ?ids))" "settled_text (dec (take ?b ?ids))"
    using assms(2) by (simp_all add: streaming_def Let_def)
  have sp: "surr_part s = take (?b - ?a) (drop ?a ?ids)" by (simp add: surr_part_def py_slice_def drop_take)
  have ys: "take ?b ?ids = take ?a ?ids @ surr_part s" "drop ?a ?ids = surr_part s @ drop ?b ?ids"
    unfolding sp using st(1) append_take_drop_id[of "?b - ?a" "drop ?a ?ids"] take_add[of ?a "?b - ?a" ?ids] by simp_all
  show ?thesis
  proof (cases "surr_part s = []")
    case True
    then have "?a = 0" "?b = 0" using st by (auto simp: surr_part_def py_slice_def)
    then show ?thesis using True by (simp add: added_def)
  next
    case False
    have "drop (length (dec (take ?a ?ids @ surr_part s))) (dec (take ?a ?ids @ surr_part s @ drop ?b ?ids)) =
        drop (length (dec (surr_part s))) (dec (surr_part s @ drop ?b ?ids))"
      using assms(1) False st(4,5)[unfolded ys(1)] st(4) unfolding incremental_def by blast
    moreover have "take ?a ?ids @ surr_part s @ drop ?b ?ids = ?ids" using ys(2) append_take_drop_id[of ?a ?ids] by simp
    ultimately show ?thesis unfolding added_def ys by simp
  qed
qed

definition continues ::
  "(int list \<Rightarrow> codepoints) \<Rightarrow> codepoints \<Rightarrow> nat \<Rightarrow> DecodeStatus \<Rightarrow> codepoints \<Rightarrow> bool" where
  "continues dec text0 r0 s S \<longleftrightarrow>
     (\<forall>ds. streaming dec text0 r0 (s\<lparr>ds_decode_ids := ds_decode_ids s @ ds\<rparr>) S)"

lemma printable_partial:
  assumes "\<forall>c \<in> set t. \<not> is_chinese_char c" "t = [] \<or> last t = REPLACEMENT_CHAR"
  shows "find_printable_text t = upto_last_space t"
proof -
  have "\<not> is_chinese_char (last t)" if "t \<noteq> []" using assms(1) that by simp
  moreover have "\<not> is_chinese_char (t ! (length t - 2))" if "1 < length t" using assms(1) that by simp
  ultimately show ?thesis using assms(2) by (auto simp: find_printable_text_def REPLACEMENT_CHAR_def)
qed

lemma emit_unfinished:
  assumes inc: "incremental dec" and cjk: "\<forall>ids. \<forall>c \<in> set (dec ids). \<not> is_chinese_char c"
    and st: "streaming dec text0 r0 s S" and fin: "to_finished_reason x = None"
  shows "\<exists>t s1. emit x (dec (surr_part s)) (dec (projr (read_part x s))) s = (Inr t, s1) \<and>
     ds_decode_ids s1 = ds_decode_ids s \<and> continues dec text0 r0 s1 (S @ t)"
proof -
  let ?ids = "ds_decode_ids s" and ?a = "ds_surr_offset s" and ?b = "ds_read_offset s" and ?T = "ds_decoded_text s"
  define N where "N = added dec ?b ?ids"
  have f: "?a \<le> ?b" "?b \<le> length ?ids" "r0 \<le> ?b" "?a = ?b \<longrightarrow> ?b = 0" "settled_text (dec (take ?a ?ids))"
    "settled_text (dec (take ?b ?ids))" "settled_text (dec (take r0 ?ids))" "?T = text0 @ added dec r0 (take ?b ?ids)"
    "ds_sent_offset s = length S" "S = [] \<or> (\<exists>p. S = ?T @ p \<and> prefix p N \<and> (p = [] \<or> last p = 32))"
    using st unfolding streaming_def Let_def N_def by blast+
  have nt: "drop (length (dec (surr_part s))) (dec (projr (read_part x s))) = N"
    using new_text[OF inc st] fin by (simp add: read_part_def trim_matched_stop_def N_def)
  have dec: "dec ?ids = dec (take ?b ?ids) @ N" using added_append[OF inc f(2,6), of "[]"] by (simp add: N_def)
  have tk: "take ?a (?ids @ ds) = take ?a ?ids" "take ?b (?ids @ ds) = take ?b ?ids" "take r0 (?ids @ ds) = take r0 ?ids" for ds
    using f(1-3) by simp_all
  show ?thesis
  proof (cases "N \<noteq> [] \<and> last N \<noteq> REPLACEMENT_CHAR")
    case True
    let ?s = "s\<lparr>ds_decoded_text := ?T @ N, ds_surr_offset := ?b, ds_read_offset := length ?ids, ds_sent_offset := length (?T @ N)\<rparr>"
    have e: "emit x (dec (surr_part s)) (dec (projr (read_part x s))) s = (Inr (drop (length S) (?T @ N)), ?s)"
      using True fin f(9) unfolding emit_def nt by (simp add: Let_def trim_matched_stop_def)
    have pre: "S @ drop (length S) (?T @ N) = ?T @ N" using f(10) by (auto simp: prefix_def)
    have "?b \<noteq> length ?ids" using True by (auto simp: N_def added_def)
    moreover have "settled_text (dec ?ids)" unfolding dec using True by (simp add: settled_text_def)
    moreover have "?T @ N = text0 @ added dec r0 ?ids"
      using added_trans[OF inc f(3,2,7,6)] f(8) by (simp add: N_def)
    ultimately have "continues dec text0 r0 ?s (?T @ N)"
      using f(2,3,6,7) by (simp add: continues_def streaming_def Let_def)
    then show ?thesis using e pre by auto
  next
    case False
    let ?s = "s\<lparr>ds_sent_offset := length (?T @ upto_last_space N)\<rparr>"
    have "set N \<subseteq> set (dec ?ids)" unfolding dec by simp
    then have "find_printable_text N = upto_last_space N" using printable_partial[of N] False cjk by blast
    then have e: "emit x (dec (surr_part s)) (dec (projr (read_part x s))) s =
        (Inr (drop (length S) (?T @ upto_last_space N)), ?s)"
      using False fin f(9) unfolding emit_def nt by (auto simp: Let_def trim_matched_stop_def)
    have pre: "S @ drop (length S) (?T @ upto_last_space N) = ?T @ upto_last_space N"
    proof (cases "S = []")
      case ne: False
      then obtain p where p: "S = ?T @ p" "prefix p N" "p = [] \<or> last p = 32" using f(10) by blast
      then show ?thesis using upto_greatest[OF p(2,3)] by (auto simp: prefix_def)
    qed simp
    have "prefix (upto_last_space N) (added dec ?b (?ids @ ds))" for ds
    proof -
      have "prefix (strip_repl (dec ?ids)) (dec (?ids @ ds))" using inc unfolding incremental_def by blast
      then have "prefix (dec (take ?b ?ids) @ strip_repl N) (dec (take ?b ?ids) @ added dec ?b (?ids @ ds))"
        using added_append[OF inc f(2,6), of ds] strip_append[OF f(6), of N] dec by simp
      then show ?thesis using upto_strip[of N] by (auto intro: prefix_order.trans)
    qed
    then have "continues dec text0 r0 ?s (?T @ upto_last_space N)"
      using f(1-8) tk last_upto[of N] by (simp add: continues_def streaming_def Let_def)
    then show ?thesis using e pre by auto
  qed
qed

definition untrimmed :: "token_out \<Rightarrow> bool" where
  "untrimmed x \<longleftrightarrow> to_finished_reason x \<in> {None, Some None} \<or> to_no_stop_trim x"

lemma emit_finished:
  assumes inc: "incremental dec" and st: "streaming dec text0 r0 s S"
    and fin: "to_finished_reason x \<noteq> None" "untrimmed x"
  shows "S @ projr (fst (emit x (dec (surr_part s)) (dec (projr (read_part x s))) s)) =
     text0 @ added dec r0 (ds_decode_ids s)"
proof -
  let ?ids = "ds_decode_ids s" and ?b = "ds_read_offset s" and ?T = "ds_decoded_text s"
  have f: "?b \<le> length ?ids" "r0 \<le> ?b" "settled_text (dec (take ?b ?ids))" "settled_text (dec (take r0 ?ids))"
    "?T = text0 @ added dec r0 (take ?b ?ids)" "ds_sent_offset s = length S"
    "S = [] \<or> (\<exists>p. S = ?T @ p \<and> prefix p (added dec ?b ?ids) \<and> (p = [] \<or> last p = 32))"
    using st unfolding streaming_def Let_def by blast+
  have tr: "trim_matched_stop out (to_finished_reason x) (to_no_stop_trim x) = Inr out" for out
    using fin by (auto simp: untrimmed_def trim_matched_stop_def split: option.splits)
  have nt: "drop (length (dec (surr_part s))) (dec (projr (read_part x s))) = added dec ?b ?ids"
    using new_text[OF inc st] by (simp add: read_part_def tr)
  have ne: "(to_finished_reason x = None) = False" using fin(1) by simp
  have "fst (emit x (dec (surr_part s)) (dec (projr (read_part x s))) s) = Inr (drop (length S) (?T @ added dec ?b ?ids))"
    unfolding emit_def nt Let_def tr ne by (simp add: f(6))
  moreover have "S @ drop (length S) (?T @ added dec ?b ?ids) = ?T @ added dec ?b ?ids" using f(7) by (auto simp: prefix_def)
  ultimately show ?thesis using added_trans[OF inc f(2,1,4,3)] f(5) by simp
qed

lemma stream_continues:
  assumes inc: "incremental dec" and cjk: "\<forall>ids. \<forall>c \<in> set (dec ids). \<not> is_chinese_char c"
    and last: "to_finished_reason z \<noteq> None" "untrimmed z"
  shows "continues dec text0 r0 s S \<Longrightarrow> \<forall>x \<in> set xs. to_finished_reason x = None \<Longrightarrow>
     S @ stream dec (xs @ [z]) (Some s) =
       text0 @ added dec r0 (ds_decode_ids s @ concat (map to_decode_ids (xs @ [z])))"
proof (induction xs arbitrary: s S)
  case Nil
  have "streaming dec text0 r0 (extend_status z (Some s)) S"
    using Nil(1) by (simp add: continues_def extend_status_def)
  from emit_finished[OF inc this last]
  show ?case by (simp add: step_def Let_def case_prod_unfold extend_status_def)
next
  case (Cons x xs)
  let ?s = "extend_status x (Some s)"
  have "streaming dec text0 r0 ?s S" using Cons.prems(1) by (simp add: continues_def extend_status_def)
  from emit_unfinished[OF inc cjk this, of x] Cons.prems(2) obtain t s1
    where e: "emit x (dec (surr_part ?s)) (dec (projr (read_part x ?s))) ?s = (Inr t, s1)"
      "ds_decode_ids s1 = ds_decode_ids ?s" "continues dec text0 r0 s1 (S @ t)" by auto
  have "step dec x (Some s) = (t, s1)" using e(1) by (simp add: step_def Let_def)
  then show ?case using Cons.IH[OF e(3)] Cons.prems(2) e(2) by (simp add: extend_status_def)
qed

lemma stream_complete:
  assumes inc: "incremental dec" and cjk: "\<forall>ids. \<forall>c \<in> set (dec ids). \<not> is_chinese_char c"
    and items: "xs = x # rest" "item_ok x" "\<forall>y \<in> set (butlast xs). to_finished_reason y = None"
      "to_finished_reason (last xs) \<noteq> None" "untrimmed (last xs)"
    and start: "settled_text (dec (take (to_read_offset x) (to_decode_ids x)))"
  shows "stream dec xs None = to_decoded_text x @ added dec (to_read_offset x) (concat (map to_decode_ids xs))"
proof -
  let ?s = "new_status x"
  have st: "streaming dec (to_decoded_text x) (to_read_offset x) ?s []"
    using inc items(2) start
    by (simp add: streaming_def new_status_def Let_def item_ok_def added_def incremental_def settled_text_def)
  show ?thesis
  proof (cases "rest = []")
    case True
    then show ?thesis
      using emit_finished[OF inc st, of x] items(1,4,5)
      by (simp add: step_def Let_def case_prod_unfold extend_status_def new_status_def)
  next
    case False
    have "to_finished_reason x = None" using items(1,3) False by simp
    from emit_unfinished[OF inc cjk st this] obtain t s1
      where e: "emit x (dec (surr_part ?s)) (dec (projr (read_part x ?s))) ?s = (Inr t, s1)"
        "ds_decode_ids s1 = ds_decode_ids ?s" "continues dec (to_decoded_text x) (to_read_offset x) s1 t" by auto
    have r: "rest = butlast rest @ [last rest]" using False by simp
    have "t @ stream dec (butlast rest @ [last rest]) (Some s1) =
        to_decoded_text x @ added dec (to_read_offset x) (ds_decode_ids s1 @ concat (map to_decode_ids (butlast rest @ [last rest])))"
      using items(1,3-5) False by (intro stream_continues[OF inc cjk _ _ e(3)]) auto
    then show ?thesis
      using e(1,2) items(1) unfolding r[symmetric] by (simp add: step_def Let_def extend_status_def new_status_def)
  qed
qed

section \<open>Properties\<close>


text \<open>
  A decoder for concrete runs.  Tokens give symbols: whole characters, the first half of a character and
  the second half; a half without the other one is decoded to a replacement character.
\<close>

datatype sym = Whole nat | Lead | Trail nat

definition demo_syms :: "bool \<Rightarrow> int \<Rightarrow> sym list" where
  "demo_syms cjk i =
     (if i \<ge> 128 then [Whole (if cjk then 0x4E2D else 120)] else if i \<ge> 0 then [Whole (nat i)]
      else if i = -1 then [Lead] else if i = -2 then [Trail 233] else [Trail 233, Lead])"

fun join_syms :: "sym list \<Rightarrow> codepoints" where
  "join_syms [] = []"
| "join_syms (Whole c # r) = c # join_syms r"
| "join_syms (Trail c # r) = REPLACEMENT_CHAR # join_syms r"
| "join_syms [Lead] = [REPLACEMENT_CHAR]"
| "join_syms (Lead # Trail c # r) = c # join_syms r"
| "join_syms (Lead # s # r) = REPLACEMENT_CHAR # join_syms (s # r)"

definition demo_dec :: "bool \<Rightarrow> int list \<Rightarrow> codepoints" where
  "demo_dec cjk ids = join_syms (concat (map (demo_syms cjk) ids))"

lemma join_append:
  "join_syms (xs @ ys) = join_syms xs @ join_syms ys \<or> (\<exists>w. join_syms xs = w @ [REPLACEMENT_CHAR] \<and> prefix w (join_syms (xs @ ys)))"
proof (induction xs rule: join_syms.induct)
  case 4
  then show ?case by (intro disjI2 exI[of _ "[]"]) simp
qed (auto 4 3)

lemma demo_dec_append:
  "demo_dec cjk (xs @ ys) = demo_dec cjk xs @ demo_dec cjk ys \<or>
     (\<exists>w. demo_dec cjk xs = w @ [REPLACEMENT_CHAR] \<and> prefix w (demo_dec cjk (xs @ ys)))"
  using join_append by (simp add: demo_dec_def)

lemma demo_dec_settled: "settled_text (demo_dec cjk xs) \<Longrightarrow> demo_dec cjk (xs @ ys) = demo_dec cjk xs @ demo_dec cjk ys"
  using demo_dec_append[of cjk xs ys] by (auto simp: settled_text_def)

lemma demo_dec_incremental: "incremental (demo_dec cjk)"
  unfolding incremental_def
proof (intro conjI allI impI)
  fix xs ys
  show "prefix (strip_repl (demo_dec cjk xs)) (demo_dec cjk (xs @ ys))"
    using demo_dec_append[of cjk xs ys]
  proof (elim disjE exE conjE)
    fix w
    assume w: "demo_dec cjk xs = w @ [REPLACEMENT_CHAR]" "prefix w (demo_dec cjk (xs @ ys))"
    have "strip_repl (w @ [REPLACEMENT_CHAR]) = strip_repl w" by (simp add: strip_repl_def)
    then show ?thesis using w prefix_strip[of w] by (auto intro: prefix_order.trans)
  qed (use prefix_strip[of "demo_dec cjk xs"] in \<open>auto intro: prefix_order.trans\<close>)
  fix zs
  assume "ys \<noteq> [] \<and> settled_text (demo_dec cjk xs) \<and> settled_text (demo_dec cjk (xs @ ys))"
  then show "drop (length (demo_dec cjk (xs @ ys))) (demo_dec cjk (xs @ ys @ zs)) =
      drop (length (demo_dec cjk ys)) (demo_dec cjk (ys @ zs))"
    by (simp add: demo_dec_settled)
qed (simp add: demo_dec_def)

lemma join_plain: "(\<forall>s \<in> set xs. \<forall>c. s = Whole c \<or> s = Trail c \<longrightarrow> c < 0x3400) \<Longrightarrow> \<forall>c \<in> set (join_syms xs). \<not> is_chinese_char c"
  by (induction xs rule: join_syms.induct) (auto simp: REPLACEMENT_CHAR_def is_chinese_char_def)

lemma demo_dec_plain: "\<forall>c \<in> set (demo_dec False ids). \<not> is_chinese_char c"
  unfolding demo_dec_def by (rule join_plain) (auto simp: demo_syms_def split: if_splits)

definition demo_item :: "string \<Rightarrow> bool \<Rightarrow> int list \<Rightarrow> token_out" where
  "demo_item rid fin ids =
     \<lparr> to_rid = rid, to_finished_reason = (if fin then Some None else None), to_decoded_text = [],
       to_decode_ids = ids, to_read_offset = 0, to_skip_special_tokens = True,
       to_spaces_between_special_tokens = True, to_no_stop_trim = False \<rparr>"

definition demo_batches :: "token_out list list" where
  "demo_batches = [[demo_item ''a'' False [128, -1], demo_item ''b'' True [65]], [demo_item ''a'' False [-3]],
     [demo_item ''a'' True [-2]]]"


text \<open>
  The text must not have CJK ideographs.  With an ideograph before an incomplete character the ideograph
  is sent at once; if the next token completes the character and starts another one, less text counts as
  printable than was sent, the offset of the sent text goes back, and the ideograph is sent a second time.
\<close>

theorem cjk_text_sent_twice:
  "\<exists>outs d. run_batches (\<lambda>f g xs. Inr (map (demo_dec True) xs)) 2 demo_batches [] = (Inr outs, d) \<and>
     incremental (demo_dec True) \<and> demo_dec True (concat (map to_decode_ids (items_of ''a'' demo_batches))) = [0x4E2D, 233, 233] \<and>
     texts_of ''a'' outs = [0x4E2D, 0x4E2D, 233, 233]"
  by (simp add: demo_dec_incremental demo_batches_def demo_item_def items_of_def texts_of_def demo_dec_def demo_syms_def
      handle_batch_token_id_out_def take_in_def limited_set_def extend_status_def new_status_def read_part_def
      surr_part_def py_slice_def trim_matched_stop_def emit_def find_printable_text_def upto_last_space_def
      is_chinese_char_def REPLACEMENT_CHAR_def Let_def)

end
