(* ===== verification/Penalizers.thy ===== *)
theory Penalizers
  imports Sched_Req
begin

text \<open>
  \<open>sampling/penaltylib\<close>: the penalties that a batch adds to the logits of its requests.  A penalizer
  keeps one tensor row per request of the batch; the orchestrator creates the rows, feeds them the
  output tokens, filters them with the batch and concatenates them when batches merge.

  A tensor of shape \<open>(n, m)\<close> is a list of rows, a column \<open>(n, 1)\<close> a list.  Single precision
  arithmetic is the parameter \<open>torch_float\<close>.  The in-place operations that fail half-way give the
  exception only: the scheduler does not survive it.
\<close>

section \<open>Tensors\<close>

record 'f torch_float =
  f_of :: "pyfloat \<Rightarrow> 'f"
  f_add :: "'f \<Rightarrow> 'f \<Rightarrow> 'f"
  f_sub :: "'f \<Rightarrow> 'f \<Rightarrow> 'f"

abbreviation f_zero :: "'f torch_float \<Rightarrow> 'f" where
  "f_zero F \<equiv> f_of F (Fin 0)"

abbreviation torch_error :: pyexc where
  "torch_error \<equiv> RuntimeError ''torch''"

definition int32_wrap :: "int \<Rightarrow> int" where
  "int32_wrap x = (x + 2 ^ 31) mod 2 ^ 32 - 2 ^ 31"

definition to_int32 :: "int \<Rightarrow> int result" where
  "to_int32 x = (if - (2 ^ 31) \<le> x \<and> x < 2 ^ 31 then Inr x else Inl torch_error)"

text \<open>\<open>tensor[keep_indices]\<close>.\<close>

definition pick :: "nat list \<Rightarrow> 'a list \<Rightarrow> 'a list result" where
  "pick keep xs = (if \<forall>i \<in> set keep. i < length xs then Inr (map ((!) xs) keep) else Inl IndexError)"

text \<open>Broadcasting a dimension: it has the wanted size, or size one and is repeated.\<close>

definition bcast :: "nat \<Rightarrow> 'a list \<Rightarrow> 'a list result" where
  "bcast n xs =
     (if length xs = n then Inr xs else if length xs = 1 then Inr (replicate n (hd xs)) else Inl torch_error)"

definition pointwise :: "('f \<Rightarrow> 'f \<Rightarrow> 'f) \<Rightarrow> 'f list list \<Rightarrow> 'f list list \<Rightarrow> 'f list list result" where
  "pointwise f xs ys =
     bindE (bcast (length xs) ys) (\<lambda>rows.
       mapE (\<lambda>(x, y). bindE (bcast (length x) y) (\<lambda>r. Inr (map2 f x r))) (zip xs rows))"

text \<open>\<open>scatter_\<close> and \<open>scatter_add_\<close> along dimension 1: \<open>f\<close> combines the old entry with the source.\<close>

fun scatter_row :: "('f \<Rightarrow> 'f \<Rightarrow> 'f) \<Rightarrow> int list \<Rightarrow> 'f list \<Rightarrow> 'f list \<Rightarrow> 'f list result" where
  "scatter_row f [] src row = Inr row"
| "scatter_row f (i # idx) [] row = Inl torch_error"
| "scatter_row f (i # idx) (v # src) row =
     (if 0 \<le> i \<and> i < int (length row)
      then scatter_row f idx src (row[nat i := f (row ! nat i) v]) else Inl torch_error)"

fun scatter_rows ::
  "('f \<Rightarrow> 'f \<Rightarrow> 'f) \<Rightarrow> int list list \<Rightarrow> 'f list list \<Rightarrow> 'f list list \<Rightarrow> 'f list list result" where
  "scatter_rows f [] src rows = Inr rows"
| "scatter_rows f (i # idx) (s # src) (r # rows) =
     bindE (scatter_row f i s r) (\<lambda>r'. bindE (scatter_rows f idx src rows) (\<lambda>rs. Inr (r' # rs)))"
| "scatter_rows f idx src rows = Inl torch_error"

definition unsqueeze :: "'a list \<Rightarrow> 'a list list" where
  "unsqueeze xs = map (\<lambda>x. [x]) xs"

definition pad_sequence :: "int \<Rightarrow> int list list \<Rightarrow> int list list result" where
  "pad_sequence v xss =
     (if xss = [] then Inl torch_error
      else let n = Max (set (map length xss)) in Inr (map (\<lambda>xs. xs @ replicate (n - length xs) v) xss))"

section \<open>The abstract class\<close>

text \<open>
  The methods a penalizer class implements, and the state of an instance.  The tensors do not exist
  before the first \<open>_prepare\<close>; \<open>teardown\<close> leaves them in place.
\<close>

record ('f, 't) penalizer_methods =
  m_is_required :: "sched_req list \<Rightarrow> bool"
  m_prepare :: "nat \<Rightarrow> sched_req list \<Rightarrow> 't result"
  m_cumulate :: "int list \<Rightarrow> 't \<Rightarrow> 't result"
  m_apply :: "'t \<Rightarrow> 'f list list \<Rightarrow> 'f list list result"
  m_filter :: "nat list \<Rightarrow> 't \<Rightarrow> 't result"
  m_merge :: "'t \<Rightarrow> 't \<Rightarrow> 't"

record 't penalizer =
  is_prepared :: bool
  tensors :: "'t option"

definition penalizer_init :: "'t penalizer" where
  "penalizer_init = \<lparr>is_prepared = False, tensors = None\<rparr>"

definition attr :: "'a option \<Rightarrow> 'a result" where
  "attr x = (case x of None \<Rightarrow> Inl AttributeError | Some y \<Rightarrow> Inr y)"

definition penalizer_prepare ::
  "('f, 't) penalizer_methods \<Rightarrow> nat \<Rightarrow> sched_req list \<Rightarrow> 't penalizer \<Rightarrow> 't penalizer result" where
  "penalizer_prepare M V reqs p =
     (if is_prepared p then Inr p
      else bindE (m_prepare M V reqs) (\<lambda>t. Inr (p\<lparr>tensors := Some t, is_prepared := True\<rparr>)))"

definition penalizer_prepare_if_required ::
  "('f, 't) penalizer_methods \<Rightarrow> nat \<Rightarrow> sched_req list \<Rightarrow> 't penalizer \<Rightarrow> (bool \<times> 't penalizer) result" where
  "penalizer_prepare_if_required M V reqs p =
     (if m_is_required M reqs then bindE (penalizer_prepare M V reqs p) (\<lambda>p'. Inr (True, p'))
      else Inr (False, p))"

definition penalizer_teardown :: "'t penalizer \<Rightarrow> 't penalizer" where
  "penalizer_teardown p = p\<lparr>is_prepared := False\<rparr>"

definition penalizer_cumulate ::
  "('f, 't) penalizer_methods \<Rightarrow> int list \<Rightarrow> 't penalizer \<Rightarrow> 't penalizer result" where
  "penalizer_cumulate M ids p =
     (if \<not> is_prepared p then Inr p
      else bindE (attr (tensors p)) (\<lambda>t. bindE (m_cumulate M ids t) (\<lambda>t'. Inr (p\<lparr>tensors := Some t'\<rparr>))))"

definition penalizer_apply ::
  "('f, 't) penalizer_methods \<Rightarrow> 't penalizer \<Rightarrow> 'f list list \<Rightarrow> 'f list list result" where
  "penalizer_apply M p logits =
     (if \<not> is_prepared p then Inr logits else bindE (attr (tensors p)) (\<lambda>t. m_apply M t logits))"

definition penalizer_filter ::
  "('f, 't) penalizer_methods \<Rightarrow> nat list \<Rightarrow> 't penalizer \<Rightarrow> 't penalizer result" where
  "penalizer_filter M keep p =
     (if \<not> is_prepared p then Inr p
      else bindE (attr (tensors p)) (\<lambda>t. bindE (m_filter M keep t) (\<lambda>t'. Inr (p\<lparr>tensors := Some t'\<rparr>))))"

text \<open>Both sides are prepared with the requests of their own batch; the result is the pair of them.\<close>

definition penalizer_merge ::
  "('f, 't) penalizer_methods \<Rightarrow> nat \<Rightarrow> sched_req list \<Rightarrow> nat \<Rightarrow> sched_req list
     \<Rightarrow> 't penalizer \<Rightarrow> 't penalizer \<Rightarrow> ('t penalizer \<times> 't penalizer) result" where
  "penalizer_merge M V reqs V' reqs' p their =
     (if \<not> is_prepared p \<and> \<not> is_prepared their then Inr (p, their)
      else bindE (penalizer_prepare M V reqs p) (\<lambda>p1.
           bindE (penalizer_prepare M V' reqs' their) (\<lambda>their1.
           bindE (attr (tensors p1)) (\<lambda>t. bindE (attr (tensors their1)) (\<lambda>t'.
             Inr (p1\<lparr>tensors := Some (m_merge M t t')\<rparr>, their1))))))"

section \<open>The three penalizers\<close>

text \<open>\<open>penalty != 0.0\<close>.\<close>

definition nonzero :: "pyfloat \<Rightarrow> bool" where
  "nonzero x \<longleftrightarrow> \<not> (float_le x (Fin 0) \<and> float_le (Fin 0) x)"

subsection \<open>Frequency\<close>

record 'f frequency_tensors =
  frequency_penalties :: "'f list"
  cumulated_frequency_penalties :: "'f list list"

definition frequency_is_required :: "sched_req list \<Rightarrow> bool" where
  "frequency_is_required reqs \<longleftrightarrow>
     (\<exists>r \<in> set reqs. nonzero (sp_frequency_penalty (q_sampling_params r)))"

definition frequency_prepare :: "'f torch_float \<Rightarrow> nat \<Rightarrow> sched_req list \<Rightarrow> 'f frequency_tensors result" where
  "frequency_prepare F V reqs =
     Inr \<lparr>frequency_penalties = map (\<lambda>r. f_of F (sp_frequency_penalty (q_sampling_params r))) reqs,
          cumulated_frequency_penalties = replicate (length reqs) (replicate V (f_zero F))\<rparr>"

definition frequency_cumulate ::
  "'f torch_float \<Rightarrow> int list \<Rightarrow> 'f frequency_tensors \<Rightarrow> 'f frequency_tensors result" where
  "frequency_cumulate F ids t =
     bindE (scatter_rows (f_add F) (unsqueeze ids) (unsqueeze (frequency_penalties t))
              (cumulated_frequency_penalties t))
       (\<lambda>rows. Inr (t\<lparr>cumulated_frequency_penalties := rows\<rparr>))"

definition frequency_apply ::
  "'f torch_float \<Rightarrow> 'f frequency_tensors \<Rightarrow> 'f list list \<Rightarrow> 'f list list result" where
  "frequency_apply F t logits = pointwise (f_sub F) logits (cumulated_frequency_penalties t)"

definition frequency_filter :: "nat list \<Rightarrow> 'f frequency_tensors \<Rightarrow> 'f frequency_tensors result" where
  "frequency_filter keep t =
     bindE (pick keep (frequency_penalties t)) (\<lambda>ps.
     bindE (pick keep (cumulated_frequency_penalties t)) (\<lambda>rows.
       Inr (t\<lparr>frequency_penalties := ps, cumulated_frequency_penalties := rows\<rparr>)))"

definition frequency_merge ::
  "'f frequency_tensors \<Rightarrow> 'f frequency_tensors \<Rightarrow> 'f frequency_tensors" where
  "frequency_merge t u =
     t\<lparr>frequency_penalties := frequency_penalties t @ frequency_penalties u,
       cumulated_frequency_penalties := cumulated_frequency_penalties t @ cumulated_frequency_penalties u\<rparr>"

definition frequency_methods :: "'f torch_float \<Rightarrow> ('f, 'f frequency_tensors) penalizer_methods" where
  "frequency_methods F =
     \<lparr>m_is_required = frequency_is_required, m_prepare = frequency_prepare F,
      m_cumulate = frequency_cumulate F, m_apply = frequency_apply F,
      m_filter = frequency_filter, m_merge = frequency_merge\<rparr>"

subsection \<open>Presence\<close>

record 'f presence_tensors =
  presence_penalties :: "'f list"
  cumulated_presence_penalties :: "'f list list"

definition presence_is_required :: "sched_req list \<Rightarrow> bool" where
  "presence_is_required reqs \<longleftrightarrow>
     (\<exists>r \<in> set reqs. nonzero (sp_presence_penalty (q_sampling_params r)))"

definition presence_prepare :: "'f torch_float \<Rightarrow> nat \<Rightarrow> sched_req list \<Rightarrow> 'f presence_tensors result" where
  "presence_prepare F V reqs =
     Inr \<lparr>presence_penalties = map (\<lambda>r. f_of F (sp_presence_penalty (q_sampling_params r))) reqs,
          cumulated_presence_penalties = replicate (length reqs) (replicate V (f_zero F))\<rparr>"

definition presence_cumulate :: "int list \<Rightarrow> 'f presence_tensors \<Rightarrow> 'f presence_tensors result" where
  "presence_cumulate ids t =
     bindE (scatter_rows (\<lambda>old new. new) (unsqueeze ids) (unsqueeze (presence_penalties t))
              (cumulated_presence_penalties t))
       (\<lambda>rows. Inr (t\<lparr>cumulated_presence_penalties := rows\<rparr>))"

definition presence_apply ::
  "'f torch_float \<Rightarrow> 'f presence_tensors \<Rightarrow> 'f list list \<Rightarrow> 'f list list result" where
  "presence_apply F t logits = pointwise (f_sub F) logits (cumulated_presence_penalties t)"

definition presence_filter :: "nat list \<Rightarrow> 'f presence_tensors \<Rightarrow> 'f presence_tensors result" where
  "presence_filter keep t =
     bindE (pick keep (presence_penalties t)) (\<lambda>ps.
     bindE (pick keep (cumulated_presence_penalties t)) (\<lambda>rows.
       Inr (t\<lparr>presence_penalties := ps, cumulated_presence_penalties := rows\<rparr>)))"

definition presence_merge ::
  "'f presence_tensors \<Rightarrow> 'f presence_tensors \<Rightarrow> 'f presence_tensors" where
  "presence_merge t u =
     t\<lparr>presence_penalties := presence_penalties t @ presence_penalties u,
       cumulated_presence_penalties := cumulated_presence_penalties t @ cumulated_presence_penalties u\<rparr>"

definition presence_methods :: "'f torch_float \<Rightarrow> ('f, 'f presence_tensors) penalizer_methods" where
  "presence_methods F =
     \<lparr>m_is_required = presence_is_required, m_prepare = presence_prepare F,
      m_cumulate = presence_cumulate, m_apply = presence_apply F,
      m_filter = presence_filter, m_merge = presence_merge\<rparr>"

subsection \<open>Minimum number of new tokens\<close>

record 'f min_new_tokens_tensors =
  min_new_tokens :: "int list"
  stop_token_penalties :: "'f list list"
  len_output_tokens :: "int list"

definition min_new_tokens_is_required :: "sched_req list \<Rightarrow> bool" where
  "min_new_tokens_is_required reqs \<longleftrightarrow> (\<exists>r \<in> set reqs. sp_min_new_tokens (q_sampling_params r) > 0)"

text \<open>
  The set of stop tokens, as a list.  A missing tokenizer has no attributes; a missing end-of-sequence
  token is no tensor entry.
\<close>

definition some_ids :: "int list option \<Rightarrow> int list" where
  "some_ids x = (case x of None \<Rightarrow> [] | Some xs \<Rightarrow> xs)"

definition stop_ids :: "sched_req \<Rightarrow> int list result" where
  "stop_ids r =
     bindE (attr (q_tokenizer r)) (\<lambda>tk.
       case tk_eos tk of
         None \<Rightarrow> Inl TypeError
       | Some eos \<Rightarrow>
           Inr (remdups (some_ids (sp_stop_token_ids (q_sampling_params r)) @
                         some_ids (tk_additional_stops tk) @ [eos])))"

definition min_new_tokens_prepare ::
  "'f torch_float \<Rightarrow> nat \<Rightarrow> sched_req list \<Rightarrow> 'f min_new_tokens_tensors result" where
  "min_new_tokens_prepare F V reqs =
     bindE (mapE (\<lambda>r. to_int32 (sp_min_new_tokens (q_sampling_params r))) reqs) (\<lambda>mins.
     bindE (mapE stop_ids reqs) (\<lambda>stops.
     bindE (pad_sequence (int V) stops) (\<lambda>padded.
     bindE (scatter_rows (f_add F) padded (map (map (\<lambda>_. f_of F NegInf)) padded)
              (replicate (length reqs) (replicate (V + 1) (f_zero F)))) (\<lambda>rows.
       Inr \<lparr>min_new_tokens = mins, stop_token_penalties = map (take V) rows,
            len_output_tokens = replicate (length reqs) 0\<rparr>))))"

definition min_new_tokens_cumulate ::
  "int list \<Rightarrow> 'f min_new_tokens_tensors \<Rightarrow> 'f min_new_tokens_tensors result" where
  "min_new_tokens_cumulate ids t =
     Inr (t\<lparr>len_output_tokens := map (\<lambda>n. int32_wrap (n + 1)) (len_output_tokens t)\<rparr>)"

text \<open>The mask is one bit per row; indexing with it needs tensors of its shape.\<close>

definition min_new_tokens_apply ::
  "'f torch_float \<Rightarrow> 'f min_new_tokens_tensors \<Rightarrow> 'f list list \<Rightarrow> 'f list list result" where
  "min_new_tokens_apply F t logits =
     bindE (bcast (length logits) (map2 (<) (len_output_tokens t) (min_new_tokens t))) (\<lambda>mask.
       if map length (stop_token_penalties t) = map length logits
       then Inr (map (\<lambda>(m, l, p). if m then map2 (f_add F) l p else l)
                   (zip mask (zip logits (stop_token_penalties t))))
       else Inl IndexError)"

definition min_new_tokens_filter ::
  "nat list \<Rightarrow> 'f min_new_tokens_tensors \<Rightarrow> 'f min_new_tokens_tensors result" where
  "min_new_tokens_filter keep t =
     bindE (pick keep (min_new_tokens t)) (\<lambda>mins.
     bindE (pick keep (stop_token_penalties t)) (\<lambda>rows.
     bindE (pick keep (len_output_tokens t)) (\<lambda>lens.
       Inr (t\<lparr>min_new_tokens := mins, stop_token_penalties := rows, len_output_tokens := lens\<rparr>))))"

definition min_new_tokens_merge ::
  "'f min_new_tokens_tensors \<Rightarrow> 'f min_new_tokens_tensors \<Rightarrow> 'f min_new_tokens_tensors" where
  "min_new_tokens_merge t u =
     t\<lparr>min_new_tokens := min_new_tokens t @ min_new_tokens u,
       stop_token_penalties := stop_token_penalties t @ stop_token_penalties u,
       len_output_tokens := len_output_tokens t @ len_output_tokens u\<rparr>"

definition min_new_tokens_methods :: "'f torch_float \<Rightarrow> ('f, 'f min_new_tokens_tensors) penalizer_methods" where
  "min_new_tokens_methods F =
     \<lparr>m_is_required = min_new_tokens_is_required, m_prepare = min_new_tokens_prepare F,
      m_cumulate = min_new_tokens_cumulate, m_apply = min_new_tokens_apply F,
      m_filter = min_new_tokens_filter, m_merge = min_new_tokens_merge\<rparr>"

section \<open>The orchestrator\<close>

text \<open>
  The dictionary of penalizers is built from a set of classes, so the order of its keys is not fixed by
  the source: \<open>o_penalizers\<close> is that order.  The requests of the orchestrator's batch are an argument.
\<close>

datatype Penalizer =
    BatchedFrequencyPenalizer
  | BatchedMinNewTokensPenalizer
  | BatchedPresencePenalizer

record 'f orchestrator =
  o_vocab_size :: nat
  o_penalizers :: "Penalizer list"
  o_frequency :: "'f frequency_tensors penalizer"
  o_min_new_tokens :: "'f min_new_tokens_tensors penalizer"
  o_presence :: "'f presence_tensors penalizer"
  o_is_required :: bool

text \<open>
  One round of a loop over the penalizers: the operation of the class of the round, whose result is
  or-ed to the flag \<open>is_required\<close> of the loop.
\<close>

definition at_penalizer ::
  "('f frequency_tensors penalizer \<Rightarrow> (bool \<times> 'f frequency_tensors penalizer) result)
     \<Rightarrow> ('f min_new_tokens_tensors penalizer \<Rightarrow> (bool \<times> 'f min_new_tokens_tensors penalizer) result)
     \<Rightarrow> ('f presence_tensors penalizer \<Rightarrow> (bool \<times> 'f presence_tensors penalizer) result)
     \<Rightarrow> Penalizer \<Rightarrow> bool \<times> 'f orchestrator \<Rightarrow> (bool \<times> 'f orchestrator) result" where
  "at_penalizer f m p k s =
     (let (req, orc) = s in
      case k of
        BatchedFrequencyPenalizer \<Rightarrow>
          bindE (f (o_frequency orc)) (\<lambda>(r, x). Inr (req \<or> r, orc\<lparr>o_frequency := x\<rparr>))
      | BatchedMinNewTokensPenalizer \<Rightarrow>
          bindE (m (o_min_new_tokens orc)) (\<lambda>(r, x). Inr (req \<or> r, orc\<lparr>o_min_new_tokens := x\<rparr>))
      | BatchedPresencePenalizer \<Rightarrow>
          bindE (p (o_presence orc)) (\<lambda>(r, x). Inr (req \<or> r, orc\<lparr>o_presence := x\<rparr>)))"

definition no_flag :: "('p \<Rightarrow> 'p result) \<Rightarrow> 'p \<Rightarrow> (bool \<times> 'p) result" where
  "no_flag f p = bindE (f p) (\<lambda>q. Inr (False, q))"

definition orchestrator_init ::
  "'f torch_float \<Rightarrow> nat \<Rightarrow> Penalizer list \<Rightarrow> sched_req list \<Rightarrow> 'f orchestrator result" where
  "orchestrator_init F V keys reqs =
     bindE (foldE (at_penalizer (penalizer_prepare_if_required (frequency_methods F) V reqs)
                     (penalizer_prepare_if_required (min_new_tokens_methods F) V reqs)
                     (penalizer_prepare_if_required (presence_methods F) V reqs)) keys
              (False, \<lparr>o_vocab_size = V, o_penalizers = keys, o_frequency = penalizer_init,
                       o_min_new_tokens = penalizer_init, o_presence = penalizer_init,
                       o_is_required = False\<rparr>))
       (\<lambda>(req, orc). Inr (orc\<lparr>o_is_required := req\<rparr>))"

definition orchestrator_cumulate ::
  "'f torch_float \<Rightarrow> int list \<Rightarrow> 'f orchestrator \<Rightarrow> 'f orchestrator result" where
  "orchestrator_cumulate F ids orc =
     bindE (foldE (at_penalizer (no_flag (penalizer_cumulate (frequency_methods F) ids))
                     (no_flag (penalizer_cumulate (min_new_tokens_methods F) ids))
                     (no_flag (penalizer_cumulate (presence_methods F) ids)))
              (o_penalizers orc) (False, orc))
       (\<lambda>(_, orc'). Inr orc')"

definition orchestrator_apply ::
  "'f torch_float \<Rightarrow> 'f orchestrator \<Rightarrow> 'f list list \<Rightarrow> 'f list list result" where
  "orchestrator_apply F orc logits =
     foldE (\<lambda>k. case k of
        BatchedFrequencyPenalizer \<Rightarrow> penalizer_apply (frequency_methods F) (o_frequency orc)
      | BatchedMinNewTokensPenalizer \<Rightarrow> penalizer_apply (min_new_tokens_methods F) (o_min_new_tokens orc)
      | BatchedPresencePenalizer \<Rightarrow> penalizer_apply (presence_methods F) (o_presence orc))
     (o_penalizers orc) logits"

definition filter_round ::
  "('f, 't) penalizer_methods \<Rightarrow> sched_req list \<Rightarrow> nat list \<Rightarrow> 't penalizer \<Rightarrow> (bool \<times> 't penalizer) result" where
  "filter_round M reqs keep p =
     (if m_is_required M reqs then bindE (penalizer_filter M keep p) (\<lambda>q. Inr (True, q))
      else Inr (False, penalizer_teardown p))"

text \<open>\<open>reqs\<close> are the requests of the batch when \<open>filter\<close> is called: the batch was filtered before.\<close>

definition orchestrator_filter ::
  "'f torch_float \<Rightarrow> sched_req list \<Rightarrow> nat list \<Rightarrow> 'f orchestrator \<Rightarrow> 'f orchestrator result" where
  "orchestrator_filter F reqs keep orc =
     (if \<not> o_is_required orc then Inr orc
      else if keep = []
      then Inr (orc\<lparr>o_is_required := False, o_frequency := penalizer_teardown (o_frequency orc),
                    o_min_new_tokens := penalizer_teardown (o_min_new_tokens orc),
                    o_presence := penalizer_teardown (o_presence orc)\<rparr>)
      else bindE (foldE (at_penalizer (filter_round (frequency_methods F) reqs keep)
                           (filter_round (min_new_tokens_methods F) reqs keep)
                           (filter_round (presence_methods F) reqs keep)) (o_penalizers orc) (False, orc))
             (\<lambda>(req, orc'). Inr (orc'\<lparr>o_is_required := req\<rparr>)))"

text \<open>
  The loop runs over the other orchestrator's dictionary.  Preparing a penalizer of the other batch
  changes the other orchestrator, which the code does not use again.
\<close>

definition merge_round ::
  "('f, 't) penalizer_methods \<Rightarrow> nat \<Rightarrow> sched_req list \<Rightarrow> nat \<Rightarrow> sched_req list \<Rightarrow> 't penalizer
     \<Rightarrow> 't penalizer \<Rightarrow> (bool \<times> 't penalizer) result" where
  "merge_round M V reqs V' reqs' their p =
     bindE (penalizer_merge M V reqs V' reqs' p their) (\<lambda>(q, _). Inr (False, q))"

definition orchestrator_merge ::
  "'f torch_float \<Rightarrow> sched_req list \<Rightarrow> sched_req list \<Rightarrow> 'f orchestrator \<Rightarrow> 'f orchestrator
     \<Rightarrow> 'f orchestrator result" where
  "orchestrator_merge F reqs reqs' orc their =
     (if \<not> o_is_required orc \<and> \<not> o_is_required their then Inr orc
      else let V = o_vocab_size orc; V' = o_vocab_size their in
        bindE (foldE (at_penalizer (merge_round (frequency_methods F) V reqs V' reqs' (o_frequency their))
                        (merge_round (min_new_tokens_methods F) V reqs V' reqs' (o_min_new_tokens their))
                        (merge_round (presence_methods F) V reqs V' reqs' (o_presence their)))
                 (o_penalizers their) (True, orc\<lparr>o_is_required := True\<rparr>))
          (\<lambda>(_, orc'). Inr orc'))"

section \<open>The contract of a penalizer\<close>

text \<open>
  A row of a batch: what the penalizers read of the request, and the tokens fed to the row since the
  request joined, in order.
\<close>

type_synonym pen_key = "SamplingParams \<times> tokenizer option"
type_synonym pen_row = "pen_key \<times> int list"

definition pen_key :: "sched_req \<Rightarrow> pen_key" where
  "pen_key r = (q_sampling_params r, q_tokenizer r)"

definition joined :: "sched_req \<Rightarrow> pen_row" where
  "joined r = (pen_key r, [])"

definition feed :: "int list \<Rightarrow> pen_row list \<Rightarrow> pen_row list" where
  "feed ids rows = map2 (\<lambda>i (k, h). (k, h @ [i])) ids rows"

text \<open>What IEEE arithmetic promises of zeros.\<close>

definition ieee :: "'f torch_float \<Rightarrow> bool" where
  "ieee F \<longleftrightarrow> (\<forall>x. f_sub F x (f_zero F) = x) \<and> f_add F (f_zero F) (f_zero F) = f_zero F \<and>
     f_add F (f_zero F) (f_of F NegZero) = f_zero F"

definition agrees :: "(pen_key \<Rightarrow> bool) \<Rightarrow> pen_row \<Rightarrow> pen_row \<Rightarrow> bool" where
  "agrees needs a b \<longleftrightarrow>
     fst a = fst b \<and> length (snd a) \<le> length (snd b) \<and> (needs (fst a) \<longrightarrow> snd a = snd b)"

text \<open>
  An instance follows the rows of its batch: prepared, its tensors are those of the rows, where the
  history of a row without need of the penalizer does not matter; otherwise no row needs it.
\<close>

definition tracks ::
  "(pen_key \<Rightarrow> bool) \<Rightarrow> (pen_key \<Rightarrow> bool) \<Rightarrow> (pen_row list \<Rightarrow> 't) \<Rightarrow> pen_row list \<Rightarrow> 't penalizer \<Rightarrow> bool" where
  "tracks needs preparable encode rows p \<longleftrightarrow>
     (\<forall>row \<in> set rows. preparable (fst row)) \<and>
     (if is_prepared p
      then \<exists>rows'. tensors p = Some (encode rows') \<and> list_all2 (agrees needs) rows' rows
      else \<forall>row \<in> set rows. \<not> needs (fst row))"

lemma length_feed [simp]: "length (feed ids rows) = min (length ids) (length rows)"
  by (simp add: feed_def)

lemma fst_feed: "length ids = length rows \<Longrightarrow> map fst (feed ids rows) = map fst rows"
  by (rule nth_equalityI) (auto simp: feed_def split_beta)

lemma feed_keys:
  "length ids = length rows \<Longrightarrow>
     (\<forall>row \<in> set (feed ids rows). P (fst row)) \<longleftrightarrow> (\<forall>row \<in> set rows. P (fst row))"
  using fst_feed[of ids rows] by (metis (mono_tags, lifting) image_iff list.set_map)

lemma fst_joined [simp]: "fst (joined r) = pen_key r"
  by (simp add: joined_def)

lemma agrees_refl [simp]: "agrees needs a a"
  by (simp add: agrees_def)

lemma agrees_feed:
  "list_all2 (agrees needs) rows' rows \<Longrightarrow> list_all2 (agrees needs) (feed ids rows') (feed ids rows)"
  by (auto simp: list_all2_conv_all_nth feed_def agrees_def split_beta)

text \<open>A row that is built again later has seen no more tokens.\<close>

lemma agrees_joined:
  assumes "map pen_key reqs = map fst rows" "\<forall>row \<in> set rows. \<not> needs (fst row)"
  shows "list_all2 (agrees needs) (map joined reqs) rows"
  using assms by (auto simp: list_all2_conv_all_nth agrees_def joined_def dest: map_eq_imp_length_eq)
    (metis length_map nth_map map_eq_imp_length_eq, metis length_map nth_map nth_mem map_eq_imp_length_eq)

lemma on_keys:
  "map pen_key reqs = map fst rows \<Longrightarrow> (\<forall>r \<in> set reqs. P (pen_key r)) \<longleftrightarrow> (\<forall>row \<in> set rows. P (fst row))"
  by (metis (mono_tags, lifting) image_iff list.set_map)

locale batched_penalizer =
  fixes F :: "'f torch_float"
    and V :: nat
    and M :: "('f, 't) penalizer_methods"
    and needs :: "pen_key \<Rightarrow> bool"
    and preparable :: "pen_key \<Rightarrow> bool"
    and encode :: "pen_row list \<Rightarrow> 't"
    and effect :: "pen_row \<Rightarrow> 'f list \<Rightarrow> 'f list"
  assumes required_any: "m_is_required M reqs \<longleftrightarrow> (\<exists>r \<in> set reqs. needs (pen_key r))"
    and prepare_encodes:
      "reqs \<noteq> [] \<Longrightarrow> \<forall>r \<in> set reqs. preparable (pen_key r) \<Longrightarrow>
         m_prepare M V reqs = Inr (encode (map joined reqs))"
    and cumulate_feeds:
      "length ids = length rows \<Longrightarrow> \<forall>i \<in> set ids. 0 \<le> i \<and> i < int V \<Longrightarrow>
         m_cumulate M ids (encode rows) = Inr (encode (feed ids rows))"
    and filter_picks:
      "\<forall>i \<in> set keep. i < length rows \<Longrightarrow>
         m_filter M keep (encode rows) = Inr (encode (map ((!) rows) keep))"
    and merge_appends: "m_merge M (encode rows) (encode rows') = encode (rows @ rows')"
    and apply_effects:
      "length logits = length rows \<Longrightarrow> \<forall>l \<in> set logits. length l = V \<Longrightarrow>
         m_apply M (encode rows) logits = Inr (map2 effect rows logits)"
    and length_effect: "length l = V \<Longrightarrow> length (effect row l) = V"
    and inert:
      "ieee F \<Longrightarrow> preparable (fst row) \<Longrightarrow> \<not> needs (fst row) \<Longrightarrow> length (snd row) < 2 ^ 31 \<Longrightarrow>
         length l = V \<Longrightarrow> effect row l = l"
begin

abbreviation follows :: "pen_row list \<Rightarrow> 't penalizer \<Rightarrow> bool" where
  "follows \<equiv> tracks needs preparable encode"

lemma required_rows:
  "map pen_key reqs = map fst rows \<Longrightarrow> m_is_required M reqs \<longleftrightarrow> (\<exists>row \<in> set rows. needs (fst row))"
  using required_any[of reqs] on_keys[of reqs rows "\<lambda>k. \<not> needs k"] by blast

lemma follows_start:
  assumes "\<forall>r \<in> set reqs. preparable (pen_key r)"
  shows "\<exists>p. penalizer_prepare_if_required M V reqs penalizer_init = Inr (is_prepared p, p) \<and>
             follows (map joined reqs) p"
proof (cases "m_is_required M reqs")
  case True
  then have "reqs \<noteq> []" using required_any[of reqs] by auto
  then show ?thesis
    using True prepare_encodes[OF _ assms] assms
    by (auto simp: penalizer_prepare_if_required_def penalizer_prepare_def penalizer_init_def tracks_def
        intro!: exI[of _ "map joined reqs"] list_all2_refl)
next
  case False
  then show ?thesis
    using assms required_any[of reqs]
    by (auto simp: penalizer_prepare_if_required_def penalizer_init_def tracks_def)
qed

lemma follows_feed_idle:
  assumes "follows rows p" "\<not> is_prepared p" "length ids = length rows"
  shows "follows (feed ids rows) p"
  using assms(1,2) feed_keys[OF assms(3), of "\<lambda>k. \<not> needs k"] feed_keys[OF assms(3), of preparable]
  by (simp add: tracks_def)

lemma follows_feed:
  assumes "follows rows p" "length ids = length rows" "\<forall>i \<in> set ids. 0 \<le> i \<and> i < int V"
  shows "\<exists>q. penalizer_cumulate M ids p = Inr q \<and> is_prepared q = is_prepared p \<and> follows (feed ids rows) q"
proof (cases "is_prepared p")
  case True
  then obtain rows' where t: "tensors p = Some (encode rows')" and a: "list_all2 (agrees needs) rows' rows"
    using assms(1) by (auto simp: tracks_def)
  have "length ids = length rows'" using a assms(2) by (simp add: list_all2_lengthD)
  from cumulate_feeds[OF this assms(3)] have "penalizer_cumulate M ids p = Inr (p\<lparr>tensors := Some (encode (feed ids rows'))\<rparr>)"
    using True t by (simp add: penalizer_cumulate_def attr_def)
  moreover have "\<forall>row \<in> set (feed ids rows). preparable (fst row)"
    using assms(1) feed_keys[OF assms(2), of preparable] by (simp add: tracks_def)
  ultimately show ?thesis using True agrees_feed[OF a, of ids] by (auto simp: tracks_def)
next
  case False
  then show ?thesis using follows_feed_idle[OF assms(1) False assms(2)] by (simp add: penalizer_cumulate_def)
qed

lemma follows_pick:
  assumes "follows rows p" "\<forall>i \<in> set keep. i < length rows"
    "map pen_key reqs = map fst (map ((!) rows) keep)"
  shows "\<exists>b q. filter_round M reqs keep p = Inr (b, q) \<and> (is_prepared q \<longrightarrow> b) \<and>
               follows (map ((!) rows) keep) q"
proof -
  let ?kept = "map ((!) rows) keep"
  have sub: "set ?kept \<subseteq> set rows" using assms(2) by auto
  have ok: "\<forall>row \<in> set ?kept. preparable (fst row)" using assms(1) sub by (auto simp: tracks_def)
  show ?thesis
  proof (cases "m_is_required M reqs")
    case True
    then obtain row where "row \<in> set rows" "needs (fst row)"
      using required_rows[OF assms(3)] sub by blast
    then have prep: "is_prepared p" using assms(1) by (auto simp: tracks_def split: if_splits)
    then obtain rows' where t: "tensors p = Some (encode rows')" and a: "list_all2 (agrees needs) rows' rows"
      using assms(1) by (auto simp: tracks_def)
    then have "\<forall>i \<in> set keep. i < length rows'" using assms(2) by (simp add: list_all2_lengthD)
    note filter_picks[OF this]
    moreover have "list_all2 (agrees needs) (map ((!) rows') keep) ?kept"
      using a assms(2) by (auto simp: list_all2_conv_all_nth)
    ultimately show ?thesis
      using True prep t ok by (auto simp: filter_round_def penalizer_filter_def attr_def tracks_def)
  next
    case False
    then show ?thesis
      using ok required_rows[OF assms(3)] by (auto simp: filter_round_def penalizer_teardown_def tracks_def)
  qed
qed

lemma follows_prepare:
  assumes "follows rows p" "map pen_key reqs = map fst rows" "rows \<noteq> []"
  shows "\<exists>q rows'. penalizer_prepare M V reqs p = Inr q \<and> is_prepared q \<and>
           tensors q = Some (encode rows') \<and> list_all2 (agrees needs) rows' rows"
proof (cases "is_prepared p")
  case False
  have "reqs \<noteq> []" "\<forall>r \<in> set reqs. preparable (pen_key r)"
    using assms on_keys[OF assms(2), of preparable] by (auto simp: tracks_def)
  from prepare_encodes[OF this] show ?thesis
    using False assms(1) agrees_joined[OF assms(2), of needs] by (auto simp: penalizer_prepare_def tracks_def)
qed (use assms(1) in \<open>auto simp: penalizer_prepare_def tracks_def\<close>)

lemma follows_merge:
  assumes "follows rows p" "follows rows' p'" "map pen_key reqs = map fst rows"
    "map pen_key reqs' = map fst rows'" "rows \<noteq> []" "rows' \<noteq> []"
  shows "\<exists>q. merge_round M V reqs V reqs' p' p = Inr (False, q) \<and> follows (rows @ rows') q"
proof (cases "is_prepared p \<or> is_prepared p'")
  case True
  from follows_prepare[OF assms(1,3,5)] obtain q a where
    q: "penalizer_prepare M V reqs p = Inr q" "is_prepared q" "tensors q = Some (encode a)"
       "list_all2 (agrees needs) a rows" by blast
  from follows_prepare[OF assms(2,4,6)] obtain q' a' where
    q': "penalizer_prepare M V reqs' p' = Inr q'" "is_prepared q'" "tensors q' = Some (encode a')"
       "list_all2 (agrees needs) a' rows'" by blast
  have "merge_round M V reqs V reqs' p' p = Inr (False, q\<lparr>tensors := Some (encode (a @ a'))\<rparr>)"
    using True q q' merge_appends by (auto simp: merge_round_def penalizer_merge_def attr_def)
  moreover have "list_all2 (agrees needs) (a @ a') (rows @ rows')"
    using q(4) q'(4) by (rule list_all2_appendI)
  ultimately show ?thesis using q(2) assms(1,2) by (auto simp: tracks_def)
next
  case False
  then show ?thesis using assms(1,2) by (auto simp: merge_round_def penalizer_merge_def tracks_def)
qed

lemma effect_agrees:
  assumes "ieee F" "agrees needs a b" "preparable (fst b)" "length (snd b) < 2 ^ 31" "length l = V"
  shows "effect a l = effect b l"
proof (cases "needs (fst b)")
  case True
  then have "a = b" using assms(2) by (auto simp: agrees_def intro: prod_eqI)
  then show ?thesis by simp
next
  case False
  then show ?thesis using assms inert[of a l] inert[of b l] by (simp add: agrees_def)
qed

lemma follows_apply:
  assumes "ieee F" "follows rows p" "\<forall>row \<in> set rows. length (snd row) < 2 ^ 31"
    "length logits = length rows" "\<forall>l \<in> set logits. length l = V"
  shows "penalizer_apply M p logits = Inr (map2 effect rows logits)"
proof (cases "is_prepared p")
  case True
  then obtain rows' where t: "tensors p = Some (encode rows')" and a: "list_all2 (agrees needs) rows' rows"
    using assms(2) by (auto simp: tracks_def)
  have len: "length logits = length rows'" using a assms(4) by (simp add: list_all2_lengthD)
  have "map2 effect rows' logits = map2 effect rows logits"
    by (rule nth_equalityI) (use a len assms in \<open>auto simp: list_all2_conv_all_nth tracks_def intro!: effect_agrees\<close>)
  then show ?thesis
    using True t apply_effects[OF len assms(5)] by (simp add: penalizer_apply_def attr_def)
next
  case False
  have "map2 effect rows logits = logits"
    by (rule nth_equalityI) (use False assms in \<open>auto simp: tracks_def intro!: inert\<close>)
  then show ?thesis using False by (simp add: penalizer_apply_def)
qed

end

section \<open>The penalizers keep the contract\<close>

definition count_penalty :: "'f torch_float \<Rightarrow> pyfloat \<Rightarrow> nat \<Rightarrow> 'f" where
  "count_penalty F p n = ((\<lambda>x. f_add F x (f_of F p)) ^^ n) (f_zero F)"

definition frequency_row :: "'f torch_float \<Rightarrow> nat \<Rightarrow> pen_row \<Rightarrow> 'f list" where
  "frequency_row F V row =
     map (\<lambda>v. count_penalty F (sp_frequency_penalty (fst (fst row))) (count_list (snd row) (int v))) [0..<V]"

definition presence_row :: "'f torch_float \<Rightarrow> nat \<Rightarrow> pen_row \<Rightarrow> 'f list" where
  "presence_row F V row =
     map (\<lambda>v. if int v \<in> set (snd row) then f_of F (sp_presence_penalty (fst (fst row))) else f_zero F) [0..<V]"

definition stop_set :: "pen_key \<Rightarrow> int set" where
  "stop_set k =
     set (some_ids (sp_stop_token_ids (fst k))) \<union>
     (case snd k of
        None \<Rightarrow> {}
      | Some tk \<Rightarrow> set (some_ids (tk_additional_stops tk)) \<union> set_option (tk_eos tk))"

definition stop_row :: "'f torch_float \<Rightarrow> nat \<Rightarrow> pen_key \<Rightarrow> 'f list" where
  "stop_row F V k =
     map (\<lambda>v. if int v \<in> stop_set k then f_add F (f_zero F) (f_of F NegInf) else f_zero F) [0..<V]"

definition frequency_effect :: "'f torch_float \<Rightarrow> nat \<Rightarrow> pen_row \<Rightarrow> 'f list \<Rightarrow> 'f list" where
  "frequency_effect F V row l = map2 (f_sub F) l (frequency_row F V row)"

definition presence_effect :: "'f torch_float \<Rightarrow> nat \<Rightarrow> pen_row \<Rightarrow> 'f list \<Rightarrow> 'f list" where
  "presence_effect F V row l = map2 (f_sub F) l (presence_row F V row)"

definition too_short :: "pen_row \<Rightarrow> bool" where
  "too_short row \<longleftrightarrow> int32_wrap (int (length (snd row))) < sp_min_new_tokens (fst (fst row))"

definition min_new_tokens_effect :: "'f torch_float \<Rightarrow> nat \<Rightarrow> pen_row \<Rightarrow> 'f list \<Rightarrow> 'f list" where
  "min_new_tokens_effect F V row l =
     (if too_short row then map2 (f_add F) l (stop_row F V (fst row)) else l)"

definition frequency_encode :: "'f torch_float \<Rightarrow> nat \<Rightarrow> pen_row list \<Rightarrow> 'f frequency_tensors" where
  "frequency_encode F V rows =
     \<lparr>frequency_penalties = map (\<lambda>row. f_of F (sp_frequency_penalty (fst (fst row)))) rows,
      cumulated_frequency_penalties = map (frequency_row F V) rows\<rparr>"

definition presence_encode :: "'f torch_float \<Rightarrow> nat \<Rightarrow> pen_row list \<Rightarrow> 'f presence_tensors" where
  "presence_encode F V rows =
     \<lparr>presence_penalties = map (\<lambda>row. f_of F (sp_presence_penalty (fst (fst row)))) rows,
      cumulated_presence_penalties = map (presence_row F V) rows\<rparr>"

definition min_new_tokens_encode :: "'f torch_float \<Rightarrow> nat \<Rightarrow> pen_row list \<Rightarrow> 'f min_new_tokens_tensors" where
  "min_new_tokens_encode F V rows =
     \<lparr>min_new_tokens = map (\<lambda>row. sp_min_new_tokens (fst (fst row))) rows,
      stop_token_penalties = map (stop_row F V \<circ> fst) rows,
      len_output_tokens = map (\<lambda>row. int32_wrap (int (length (snd row)))) rows\<rparr>"

subsection \<open>Tensor operations on well-shaped tensors\<close>

lemma pick_map: "\<forall>i \<in> set keep. i < length xs \<Longrightarrow> pick keep (map f xs) = Inr (map f (map ((!) xs) keep))"
  by (simp add: pick_def)

lemma pointwise_same_shape:
  assumes "length xs = length ys" "\<forall>x \<in> set xs. length x = V" "\<forall>y \<in> set ys. length y = V"
  shows "pointwise f xs ys = Inr (map2 (map2 f) xs ys)"
proof -
  have "bindE (bcast (length x) y) (\<lambda>r. Inr (map2 f x r)) = Inr (map2 f x y)" if "(x, y) \<in> set (zip xs ys)" for x y
    using set_zip_leftD[OF that] set_zip_rightD[OF that] assms(2,3) by (simp add: bcast_def)
  then have "mapE (\<lambda>(x, y). bindE (bcast (length x) y) (\<lambda>r. Inr (map2 f x r))) (zip xs ys) = Inr (map2 (map2 f) xs ys)"
    by (intro mapE_Inr) (auto simp del: bindE_eq_Inr)
  moreover have "bcast (length xs) ys = Inr ys" using assms(1) by (simp add: bcast_def)
  ultimately show ?thesis by (simp add: pointwise_def)
qed

lemma scatter_column:
  assumes "length ids = length ps" "length rows = length ps" "\<forall>i \<in> set ids. 0 \<le> i \<and> i < int V"
    "\<forall>r \<in> set rows. length r = V"
  shows "scatter_rows f (unsqueeze ids) (unsqueeze ps) rows =
         Inr (map2 (\<lambda>(i, p) r. r[nat i := f (r ! nat i) p]) (zip ids ps) rows)"
  using assms
proof (induction ids arbitrary: ps rows)
  case (Cons i ids)
  then show ?case by (cases ps; cases rows) (auto simp: unsqueeze_def)
qed (simp add: unsqueeze_def)

lemma scatter_constant:
  assumes "\<forall>i \<in> set idx. 0 \<le> i \<and> i < int (length row)"
  shows "scatter_row f idx (map (\<lambda>_. c) idx) row =
         Inr (map (\<lambda>v. ((\<lambda>x. f x c) ^^ count_list idx (int v)) (row ! v)) [0..<length row])"
  using assms
proof (induction idx arbitrary: row)
  case Nil
  then show ?case by (simp add: map_nth)
next
  case (Cons i idx)
  then obtain n where n: "i = int n" "n < length row" by (metis list.set_intros(1) nonneg_int_cases of_nat_less_iff)
  have "((\<lambda>x. f x c) ^^ count_list idx (int v)) (row[n := f (row ! n) c] ! v) =
        ((\<lambda>x. f x c) ^^ count_list (i # idx) (int v)) (row ! v)" if "v < length row" for v
    using n that funpow_swap1[of "\<lambda>x. f x c" "count_list idx (int v)" "row ! v"] by (simp add: nth_list_update)
  then show ?case using Cons n by simp
qed

lemma scatter_all:
  assumes "length idx = length rows" "\<forall>xs \<in> set idx. \<forall>i \<in> set xs. 0 \<le> i \<and> i < int n" "\<forall>r \<in> set rows. length r = n"
  shows "scatter_rows f idx (map (map (\<lambda>_. c)) idx) rows =
         Inr (map2 (\<lambda>xs r. map (\<lambda>v. ((\<lambda>x. f x c) ^^ count_list xs (int v)) (r ! v)) [0..<n]) idx rows)"
  using assms
proof (induction idx arbitrary: rows)
  case (Cons xs idx)
  then show ?case by (cases rows) (auto simp: scatter_constant)
qed simp

subsection \<open>Frequency and presence\<close>

lemma nonzero_cases: "\<not> nonzero x \<Longrightarrow> x = Fin 0 \<or> x = NegZero"
  by (cases x) (auto simp: nonzero_def)

lemma length_rows [simp]:
  "length (frequency_row F V row) = V" "length (presence_row F V row) = V" "length (stop_row F V k) = V"
  by (simp_all add: frequency_row_def presence_row_def stop_row_def)

lemma rows_joined:
  "frequency_row F V (joined r) = replicate V (f_zero F)"
  "presence_row F V (joined r) = replicate V (f_zero F)"
  by (simp_all add: frequency_row_def presence_row_def joined_def count_penalty_def map_replicate_const)

lemma map2_inert:
  "(\<And>x. f x z = x) \<Longrightarrow> length l = length r \<Longrightarrow> \<forall>y \<in> set r. y = z \<Longrightarrow> map2 f l r = l"
  by (induction l r rule: list_induct2') auto

lemma frequency_row_feed:
  assumes "0 \<le> i" "i < int V"
  shows "(frequency_row F V row)
           [nat i := f_add F (frequency_row F V row ! nat i) (f_of F (sp_frequency_penalty (fst (fst row))))] =
         frequency_row F V (fst row, snd row @ [i])"
  using assms by (intro nth_equalityI) (auto simp: frequency_row_def nth_list_update count_penalty_def)

lemma presence_row_feed:
  assumes "0 \<le> i" "i < int V"
  shows "(presence_row F V row)[nat i := f_of F (sp_presence_penalty (fst (fst row)))] =
         presence_row F V (fst row, snd row @ [i])"
  using assms by (intro nth_equalityI) (auto simp: presence_row_def nth_list_update)

lemma count_penalty_zero:
  assumes "ieee F" "\<not> nonzero p"
  shows "count_penalty F p n = f_zero F"
  using nonzero_cases[OF assms(2)] assms(1) by (induction n) (auto simp: count_penalty_def ieee_def)

interpretation frequency: batched_penalizer F V "frequency_methods F"
  "\<lambda>k. nonzero (sp_frequency_penalty (fst k))" "\<lambda>_. True" "frequency_encode F V" "frequency_effect F V"
  for F V
proof unfold_locales
  show "m_prepare (frequency_methods F) V reqs = Inr (frequency_encode F V (map joined reqs))" for reqs
    by (simp add: frequency_methods_def frequency_prepare_def frequency_encode_def o_def rows_joined pen_key_def
        map_replicate_const)
  show "m_cumulate (frequency_methods F) ids (frequency_encode F V rows) = Inr (frequency_encode F V (feed ids rows))"
    if "length ids = length rows" "\<forall>i \<in> set ids. 0 \<le> i \<and> i < int V" for ids and rows :: "pen_row list"
    using that
    by (auto simp: frequency_methods_def frequency_cumulate_def frequency_encode_def feed_def scatter_column[where V = V]
        frequency_row_feed split_beta list_eq_iff_nth_eq[of "map _ _"])
  show "m_apply (frequency_methods F) (frequency_encode F V rows) logits = Inr (map2 (frequency_effect F V) rows logits)"
    if "length logits = length rows" "\<forall>l \<in> set logits. length l = V" for logits and rows :: "pen_row list"
    using that
    by (auto simp: frequency_methods_def frequency_apply_def frequency_encode_def frequency_effect_def
        pointwise_same_shape[where V = V] intro!: nth_equalityI)
  show "frequency_effect F V row l = l"
    if "ieee F" "\<not> nonzero (sp_frequency_penalty (fst (fst row)))" "length l = V" for row l
    unfolding frequency_effect_def
    by (rule map2_inert[where z = "f_zero F"])
      (use that in \<open>auto simp: frequency_row_def count_penalty_zero ieee_def\<close>)
qed (auto simp: frequency_methods_def frequency_is_required_def pen_key_def frequency_filter_def
    frequency_encode_def pick_map frequency_merge_def frequency_effect_def)

interpretation presence: batched_penalizer F V "presence_methods F"
  "\<lambda>k. nonzero (sp_presence_penalty (fst k))" "\<lambda>k. sp_presence_penalty (fst k) \<noteq> NegZero"
  "presence_encode F V" "presence_effect F V"
  for F V
proof unfold_locales
  show "m_prepare (presence_methods F) V reqs = Inr (presence_encode F V (map joined reqs))" for reqs
    by (simp add: presence_methods_def presence_prepare_def presence_encode_def o_def rows_joined pen_key_def
        map_replicate_const)
  show "m_cumulate (presence_methods F) ids (presence_encode F V rows) = Inr (presence_encode F V (feed ids rows))"
    if "length ids = length rows" "\<forall>i \<in> set ids. 0 \<le> i \<and> i < int V" for ids and rows :: "pen_row list"
    using that
    by (auto simp: presence_methods_def presence_cumulate_def presence_encode_def feed_def scatter_column[where V = V]
        presence_row_feed split_beta list_eq_iff_nth_eq[of "map _ _"])
  show "m_apply (presence_methods F) (presence_encode F V rows) logits = Inr (map2 (presence_effect F V) rows logits)"
    if "length logits = length rows" "\<forall>l \<in> set logits. length l = V" for logits and rows :: "pen_row list"
    using that
    by (auto simp: presence_methods_def presence_apply_def presence_encode_def presence_effect_def
        pointwise_same_shape[where V = V] intro!: nth_equalityI)
  show "presence_effect F V row l = l"
    if "ieee F" "sp_presence_penalty (fst (fst row)) \<noteq> NegZero"
      "\<not> nonzero (sp_presence_penalty (fst (fst row)))" "length l = V" for row l
    unfolding presence_effect_def
    by (rule map2_inert[where z = "f_zero F"])
      (use that nonzero_cases[OF that(3)] in \<open>auto simp: presence_row_def ieee_def\<close>)
qed (auto simp: presence_methods_def presence_is_required_def pen_key_def presence_filter_def
    presence_encode_def pick_map presence_merge_def presence_effect_def)

subsection \<open>Minimum number of new tokens\<close>

text \<open>The requests whose tensors can be built.\<close>

definition stoppable :: "nat \<Rightarrow> pen_key \<Rightarrow> bool" where
  "stoppable V k \<longleftrightarrow>
     - (2 ^ 31) \<le> sp_min_new_tokens (fst k) \<and> sp_min_new_tokens (fst k) < 2 ^ 31 \<and>
     (\<exists>tk eos. snd k = Some tk \<and> tk_eos tk = Some eos) \<and> (\<forall>t \<in> stop_set k. 0 \<le> t \<and> t \<le> int V)"

definition stop_list :: "sched_req \<Rightarrow> int list" where
  "stop_list r =
     remdups (some_ids (sp_stop_token_ids (q_sampling_params r)) @
              some_ids (tk_additional_stops (the (q_tokenizer r))) @ [the (tk_eos (the (q_tokenizer r)))])"

lemma stop_ids_list:
  "stoppable V (pen_key r) \<Longrightarrow> stop_ids r = Inr (stop_list r) \<and> set (stop_list r) = stop_set (pen_key r)"
  by (auto simp: stoppable_def pen_key_def stop_ids_def attr_def stop_list_def stop_set_def)

lemma count_distinct: "distinct xs \<Longrightarrow> count_list xs t = (if t \<in> set xs then 1 else 0)"
  by (induction xs) auto

lemma count_stop_list: "count_list (stop_list r) t = (if t \<in> set (stop_list r) then 1 else 0)"
  unfolding stop_list_def by (rule count_distinct) simp

lemma stop_row_scattered:
  assumes "stoppable V (pen_key r)"
  shows "take V (map (\<lambda>v. ((\<lambda>x. f_add F x (f_of F NegInf)) ^^ count_list (stop_list r @ replicate n (int V)) (int v))
                (replicate (Suc V) (f_zero F) ! v)) [0..<Suc V]) = stop_row F V (pen_key r)"
proof -
  have "count_list (replicate n (int V)) (int v) = 0" if "v < V" for v
    using that by (simp add: count_list_0_iff)
  then show ?thesis
    using stop_ids_list[OF assms] by (intro nth_equalityI) (auto simp: stop_row_def count_stop_list nth_append simp del: replicate_Suc)
qed

lemma min_new_tokens_prepared:
  assumes "reqs \<noteq> []" "\<forall>r \<in> set reqs. stoppable V (pen_key r)"
  shows "min_new_tokens_prepare F V reqs = Inr (min_new_tokens_encode F V (map joined reqs))"
proof -
  let ?n = "Max (set (map length (map stop_list reqs)))"
  let ?pad = "\<lambda>r. stop_list r @ replicate (?n - length (stop_list r)) (int V)"
  let ?zeros = "replicate (length reqs) (replicate (V + 1) (f_zero F))"
  have mins: "mapE (\<lambda>r. to_int32 (sp_min_new_tokens (q_sampling_params r))) reqs =
              Inr (map (\<lambda>r. sp_min_new_tokens (q_sampling_params r)) reqs)"
    by (rule mapE_Inr) (use assms(2) in \<open>auto simp: to_int32_def stoppable_def pen_key_def\<close>)
  have stops: "mapE stop_ids reqs = Inr (map stop_list reqs)"
    by (rule mapE_Inr) (use assms(2) stop_ids_list in auto)
  have pad: "pad_sequence (int V) (map stop_list reqs) = Inr (map ?pad reqs)"
    using assms(1) by (simp add: pad_sequence_def Let_def comp_def)
  have "\<forall>xs \<in> set (map ?pad reqs). \<forall>i \<in> set xs. 0 \<le> i \<and> i < int (V + 1)"
    using assms(2) stop_ids_list by (fastforce simp: stoppable_def)
  from scatter_all[OF _ this, of ?zeros "f_add F" "f_of F NegInf"]
  have "scatter_rows (f_add F) (map ?pad reqs) (map (map (\<lambda>_. f_of F NegInf)) (map ?pad reqs)) ?zeros =
        Inr (map2 (\<lambda>xs r. map (\<lambda>v. ((\<lambda>x. f_add F x (f_of F NegInf)) ^^ count_list xs (int v)) (r ! v)) [0..<V + 1])
               (map ?pad reqs) ?zeros)"
    by simp
  moreover have "map (take V) (map2 (\<lambda>xs r. map (\<lambda>v. ((\<lambda>x. f_add F x (f_of F NegInf)) ^^ count_list xs (int v)) (r ! v)) [0..<V + 1])
                   (map ?pad reqs) ?zeros) = map (stop_row F V \<circ> fst) (map joined reqs)"
    by (rule nth_equalityI) (use assms(2) stop_row_scattered[where F = F] in \<open>auto simp del: upt_Suc\<close>)
  ultimately show ?thesis
    using mins stops pad
    by (simp add: min_new_tokens_prepare_def min_new_tokens_encode_def joined_def pen_key_def int32_wrap_def
        comp_def map_replicate_const)
qed

lemma int32_wrap_Suc: "int32_wrap (int32_wrap (int n) + 1) = int32_wrap (int (Suc n))"
  by (simp add: int32_wrap_def mod_simps algebra_simps)

lemma int32_wrap_nat: "n < 2 ^ 31 \<Longrightarrow> int32_wrap (int n) = int n"
  by (simp add: int32_wrap_def)

interpretation min_new_tokens: batched_penalizer F V "min_new_tokens_methods F"
  "\<lambda>k. sp_min_new_tokens (fst k) > 0" "stoppable V" "min_new_tokens_encode F V" "min_new_tokens_effect F V"
  for F V
proof unfold_locales
  show "m_prepare (min_new_tokens_methods F) V reqs = Inr (min_new_tokens_encode F V (map joined reqs))"
    if "reqs \<noteq> []" "\<forall>r \<in> set reqs. stoppable V (pen_key r)" for reqs
    using min_new_tokens_prepared[OF that] by (simp add: min_new_tokens_methods_def)
  show "m_cumulate (min_new_tokens_methods F) ids (min_new_tokens_encode F V rows) =
        Inr (min_new_tokens_encode F V (feed ids rows))"
    if "length ids = length rows" for ids and rows :: "pen_row list"
    using that int32_wrap_Suc
    by (auto simp: min_new_tokens_methods_def min_new_tokens_cumulate_def min_new_tokens_encode_def feed_def
        split_beta intro!: nth_equalityI)
  show "m_apply (min_new_tokens_methods F) (min_new_tokens_encode F V rows) logits =
        Inr (map2 (min_new_tokens_effect F V) rows logits)"
    if "length logits = length rows" "\<forall>l \<in> set logits. length l = V" for logits and rows :: "pen_row list"
  proof -
    have "map length (map (stop_row F V \<circ> fst) rows) = map length logits"
      by (rule nth_equalityI) (use that in auto)
    then show ?thesis
      using that(1)
      by (auto simp: min_new_tokens_methods_def min_new_tokens_apply_def min_new_tokens_encode_def bcast_def
          min_new_tokens_effect_def too_short_def intro!: nth_equalityI)
  qed
  show "min_new_tokens_effect F V row l = l"
    if "\<not> 0 < sp_min_new_tokens (fst (fst row))" "length (snd row) < 2 ^ 31" for row l
    using that by (simp add: min_new_tokens_effect_def too_short_def int32_wrap_nat)
qed (auto simp: min_new_tokens_methods_def min_new_tokens_is_required_def pen_key_def min_new_tokens_filter_def
    min_new_tokens_encode_def pick_map min_new_tokens_merge_def min_new_tokens_effect_def)

end
