(* ===== verification/Penalty_Batch.thy ===== *)
theory Penalty_Batch
  imports Penalizers
begin

text \<open>
  The orchestrator of \<open>sampling/penaltylib\<close> over the life of a batch: whatever the order of decode
  steps, filters and merges, the logits of a request are changed by the penalties of its own tokens.
\<close>

section \<open>Loops over the penalizers\<close>

text \<open>The classes of penalizers are enumerable, so that the dictionary of all of them is a list of all values.\<close>

instantiation Penalizer :: enum
begin

definition enum_Penalizer :: "Penalizer list" where
  "enum_Penalizer = [BatchedFrequencyPenalizer, BatchedMinNewTokensPenalizer, BatchedPresencePenalizer]"

definition enum_all_Penalizer :: "(Penalizer \<Rightarrow> bool) \<Rightarrow> bool" where
  "enum_all_Penalizer P \<longleftrightarrow>
     P BatchedFrequencyPenalizer \<and> P BatchedMinNewTokensPenalizer \<and> P BatchedPresencePenalizer"

definition enum_ex_Penalizer :: "(Penalizer \<Rightarrow> bool) \<Rightarrow> bool" where
  "enum_ex_Penalizer P \<longleftrightarrow>
     P BatchedFrequencyPenalizer \<or> P BatchedMinNewTokensPenalizer \<or> P BatchedPresencePenalizer"

instance
proof
  show "(UNIV :: Penalizer set) = set enum_class.enum"
    by (auto simp: enum_Penalizer_def intro: Penalizer.exhaust)
  show "distinct (enum_class.enum :: Penalizer list)" by (simp add: enum_Penalizer_def)
  fix P :: "Penalizer \<Rightarrow> bool"
  show "enum_class.enum_all P \<longleftrightarrow> Ball UNIV P" by (auto simp: enum_all_Penalizer_def) (metis Penalizer.exhaust)
  show "enum_class.enum_ex P \<longleftrightarrow> Bex UNIV P" by (auto simp: enum_ex_Penalizer_def) (metis Penalizer.exhaust)
qed

end

definition complete_keys :: "Penalizer list \<Rightarrow> bool" where
  "complete_keys ks \<longleftrightarrow> distinct ks \<and> (\<forall>k. k \<in> set ks)"

lemma set_complete_keys: "complete_keys ks \<Longrightarrow> set ks = set (enum_class.enum :: Penalizer list)"
  using UNIV_enum[where 'a = Penalizer] by (auto simp: complete_keys_def)

lemma complete_keys_three:
  assumes "complete_keys ks"
  obtains a b c where "ks = [a, b, c]"
proof -
  have "length ks = 3"
    using assms distinct_card[of ks] set_complete_keys[OF assms] by (simp add: complete_keys_def enum_Penalizer_def)
  then show thesis using that by (auto simp: numeral_3_eq_3 length_Suc_conv)
qed

lemma at_penalizers:
  assumes "complete_keys ks" "f (o_frequency orc) = Inr (rf, xf)" "m (o_min_new_tokens orc) = Inr (rm, xm)"
    "p (o_presence orc) = Inr (rp, xp)"
  shows "foldE (at_penalizer f m p) ks (b, orc) =
         Inr (b \<or> rf \<or> rm \<or> rp, orc\<lparr>o_frequency := xf, o_min_new_tokens := xm, o_presence := xp\<rparr>)"
proof -
  obtain k1 k2 k3 where ks: "ks = [k1, k2, k3]" using complete_keys_three[OF assms(1)] .
  have "distinct [k1, k2, k3]" using assms(1) ks by (simp add: complete_keys_def)
  then show ?thesis unfolding ks
    by (cases k1; cases k2; cases k3; simp add: at_penalizer_def assms(2-4); blast)
qed

section \<open>The life of a batch\<close>

definition pen_ok :: "nat \<Rightarrow> pen_key \<Rightarrow> bool" where
  "pen_ok V k \<longleftrightarrow> stoppable V k \<and> sp_presence_penalty (fst k) \<noteq> NegZero"

text \<open>
  The tokens that \<open>prepare_for_decode\<close> feeds: the sampled tokens of the last step, or with overlapped
  scheduling the last token that the scheduler knows of each request.
\<close>

definition last_item :: "int list \<Rightarrow> int result" where
  "last_item xs = (if xs = [] then Inl IndexError else Inr (last xs))"

definition delayed_output_ids :: "sched_req list \<Rightarrow> int list result" where
  "delayed_output_ids reqs =
     mapE (\<lambda>r. if q_output_ids r \<noteq> [] then last_item (q_output_ids r) else last_item (q_origin_input_ids r)) reqs"

definition decode_penalties ::
  "'f torch_float \<Rightarrow> bool \<Rightarrow> sched_req list \<Rightarrow> int list \<Rightarrow> 'f orchestrator \<Rightarrow> 'f orchestrator result" where
  "decode_penalties F enable_overlap reqs output_ids orc =
     (if \<not> o_is_required orc then Inr orc
      else if enable_overlap
      then bindE (delayed_output_ids reqs) (\<lambda>ids. orchestrator_cumulate F ids orc)
      else orchestrator_cumulate F output_ids orc)"

text \<open>The tokens that count for the requests of a decode step.\<close>

definition counted :: "bool \<Rightarrow> sched_req list \<Rightarrow> int list \<Rightarrow> int list" where
  "counted enable_overlap reqs output_ids =
     (if enable_overlap
      then map (\<lambda>r. if q_output_ids r \<noteq> [] then last (q_output_ids r) else last (q_origin_input_ids r)) reqs
      else output_ids)"

definition decodable :: "nat \<Rightarrow> bool \<Rightarrow> sched_req list \<Rightarrow> int list \<Rightarrow> bool" where
  "decodable V enable_overlap reqs output_ids \<longleftrightarrow>
     length output_ids = length reqs \<and> (\<forall>r \<in> set reqs. q_origin_input_ids r \<noteq> []) \<and>
     (\<forall>i \<in> set (counted enable_overlap reqs output_ids). 0 \<le> i \<and> i < int V)"

inductive penalty_run :: "'f torch_float \<Rightarrow> nat \<Rightarrow> Penalizer list \<Rightarrow> pen_row list \<Rightarrow> 'f orchestrator \<Rightarrow> bool"
  for F V keys where
  start: "\<forall>r \<in> set reqs. pen_ok V (pen_key r) \<Longrightarrow> orchestrator_init F V keys reqs = Inr orc \<Longrightarrow>
    penalty_run F V keys (map joined reqs) orc"
| decode: "penalty_run F V keys rows orc \<Longrightarrow> map pen_key reqs = map fst rows \<Longrightarrow>
    decodable V overlap reqs ids \<Longrightarrow> decode_penalties F overlap reqs ids orc = Inr orc' \<Longrightarrow>
    penalty_run F V keys (feed (counted overlap reqs ids) rows) orc'"
| filter: "penalty_run F V keys rows orc \<Longrightarrow> \<forall>i \<in> set keep. i < length rows \<Longrightarrow>
    map pen_key reqs = map fst (map ((!) rows) keep) \<Longrightarrow> orchestrator_filter F reqs keep orc = Inr orc' \<Longrightarrow>
    penalty_run F V keys (map ((!) rows) keep) orc'"
| merge: "penalty_run F V keys rows orc \<Longrightarrow> penalty_run F V keys rows' their \<Longrightarrow> rows \<noteq> [] \<Longrightarrow> rows' \<noteq> [] \<Longrightarrow>
    map pen_key reqs = map fst rows \<Longrightarrow> map pen_key reqs' = map fst rows' \<Longrightarrow>
    orchestrator_merge F reqs reqs' orc their = Inr orc' \<Longrightarrow>
    penalty_run F V keys (rows @ rows') orc'"

text \<open>The invariant of the orchestrator.\<close>

definition orchestrated :: "'f torch_float \<Rightarrow> nat \<Rightarrow> Penalizer list \<Rightarrow> pen_row list \<Rightarrow> 'f orchestrator \<Rightarrow> bool" where
  "orchestrated F V keys rows orc \<longleftrightarrow>
     o_vocab_size orc = V \<and> o_penalizers orc = keys \<and>
     frequency.follows F V rows (o_frequency orc) \<and>
     min_new_tokens.follows V F rows (o_min_new_tokens orc) \<and>
     presence.follows F V rows (o_presence orc) \<and>
     (is_prepared (o_frequency orc) \<or> is_prepared (o_min_new_tokens orc) \<or> is_prepared (o_presence orc) \<longrightarrow>
      o_is_required orc)"

lemma delayed_counted:
  "\<forall>r \<in> set reqs. q_origin_input_ids r \<noteq> [] \<Longrightarrow> delayed_output_ids reqs = Inr (counted True reqs ids)"
  unfolding delayed_output_ids_def counted_def by (simp, rule mapE_Inr) (simp add: last_item_def)

lemma length_counted: "decodable V overlap reqs ids \<Longrightarrow> length (counted overlap reqs ids) = length reqs"
  by (simp add: decodable_def counted_def)

lemma decode_penalties_counted:
  "decodable V overlap reqs ids \<Longrightarrow> decode_penalties F overlap reqs ids orc =
     (if o_is_required orc then orchestrator_cumulate F (counted overlap reqs ids) orc else Inr orc)"
  using delayed_counted[of reqs ids] by (auto simp: decode_penalties_def decodable_def counted_def)

section \<open>Every operation succeeds and keeps the invariant\<close>

lemma init_orchestrated:
  assumes "complete_keys keys" "\<forall>r \<in> set reqs. pen_ok V (pen_key r)"
  shows "\<exists>orc. orchestrator_init F V keys reqs = Inr orc \<and> orchestrated F V keys (map joined reqs) orc"
proof -
  obtain f where f: "penalizer_prepare_if_required (frequency_methods F) V reqs penalizer_init = Inr (is_prepared f, f)"
    "frequency.follows F V (map joined reqs) f"
    using frequency.follows_start[of reqs F V] by auto
  obtain m where m: "penalizer_prepare_if_required (min_new_tokens_methods F) V reqs penalizer_init = Inr (is_prepared m, m)"
    "min_new_tokens.follows V F (map joined reqs) m"
    using min_new_tokens.follows_start[of reqs V F] assms(2) by (auto simp: pen_ok_def)
  obtain p where p: "penalizer_prepare_if_required (presence_methods F) V reqs penalizer_init = Inr (is_prepared p, p)"
    "presence.follows F V (map joined reqs) p"
    using presence.follows_start[of reqs F V] assms(2) by (auto simp: pen_ok_def)
  have "orchestrator_init F V keys reqs =
        Inr \<lparr>o_vocab_size = V, o_penalizers = keys, o_frequency = f, o_min_new_tokens = m, o_presence = p,
             o_is_required = is_prepared f \<or> is_prepared m \<or> is_prepared p\<rparr>"
    unfolding orchestrator_init_def by (subst at_penalizers[OF assms(1)]) (simp_all add: f(1) m(1) p(1))
  then show ?thesis using f(2) m(2) p(2) by (simp add: orchestrated_def)
qed

lemma cumulate_orchestrated:
  assumes "complete_keys keys" "orchestrated F V keys rows orc" "length ids = length rows"
    "\<forall>i \<in> set ids. 0 \<le> i \<and> i < int V"
  shows "\<exists>orc'. orchestrator_cumulate F ids orc = Inr orc' \<and> orchestrated F V keys (feed ids rows) orc'"
proof -
  obtain f where f: "penalizer_cumulate (frequency_methods F) ids (o_frequency orc) = Inr f"
    "is_prepared f = is_prepared (o_frequency orc)" "frequency.follows F V (feed ids rows) f"
    using frequency.follows_feed[OF _ assms(3,4)] assms(2) unfolding orchestrated_def by blast
  obtain m where m: "penalizer_cumulate (min_new_tokens_methods F) ids (o_min_new_tokens orc) = Inr m"
    "is_prepared m = is_prepared (o_min_new_tokens orc)" "min_new_tokens.follows V F (feed ids rows) m"
    using min_new_tokens.follows_feed[OF _ assms(3,4)] assms(2) unfolding orchestrated_def by blast
  obtain p where p: "penalizer_cumulate (presence_methods F) ids (o_presence orc) = Inr p"
    "is_prepared p = is_prepared (o_presence orc)" "presence.follows F V (feed ids rows) p"
    using presence.follows_feed[OF _ assms(3,4)] assms(2) unfolding orchestrated_def by blast
  have "orchestrator_cumulate F ids orc =
        Inr (orc\<lparr>o_frequency := f, o_min_new_tokens := m, o_presence := p\<rparr>)"
    unfolding orchestrator_cumulate_def
    by (subst at_penalizers[where rf = False and rm = False and rp = False and xf = f and xm = m and xp = p])
      (use assms(1,2) f(1) m(1) p(1) in \<open>simp_all add: no_flag_def orchestrated_def\<close>)
  then show ?thesis using f(2,3) m(2,3) p(2,3) assms(2) by (simp add: orchestrated_def)
qed

lemma decode_orchestrated:
  assumes "complete_keys keys" "orchestrated F V keys rows orc" "map pen_key reqs = map fst rows"
    "decodable V overlap reqs ids"
  shows "\<exists>orc'. decode_penalties F overlap reqs ids orc = Inr orc' \<and>
                orchestrated F V keys (feed (counted overlap reqs ids) rows) orc'"
proof -
  let ?ids = "counted overlap reqs ids"
  have len: "length ?ids = length rows"
    using length_counted[OF assms(4)] map_eq_imp_length_eq[OF assms(3)] by simp
  show ?thesis
  proof (cases "o_is_required orc")
    case True
    then show ?thesis
      using cumulate_orchestrated[OF assms(1,2) len] assms(4)
      by (simp add: decode_penalties_counted[OF assms(4)] decodable_def)
  next
    case False
    then have "orchestrated F V keys (feed ?ids rows) orc"
      using assms(2) len
      by (auto simp: orchestrated_def intro: frequency.follows_feed_idle min_new_tokens.follows_feed_idle
          presence.follows_feed_idle)
    then show ?thesis using False by (simp add: decode_penalties_counted[OF assms(4)])
  qed
qed

lemma filter_orchestrated:
  assumes "complete_keys keys" "orchestrated F V keys rows orc" "\<forall>i \<in> set keep. i < length rows"
    "map pen_key reqs = map fst (map ((!) rows) keep)"
  shows "\<exists>orc'. orchestrator_filter F reqs keep orc = Inr orc' \<and> orchestrated F V keys (map ((!) rows) keep) orc'"
proof -
  obtain b1 f where f: "filter_round (frequency_methods F) reqs keep (o_frequency orc) = Inr (b1, f)"
    "is_prepared f \<longrightarrow> b1" "frequency.follows F V (map ((!) rows) keep) f"
    using frequency.follows_pick[OF _ assms(3,4)] assms(2) unfolding orchestrated_def by blast
  obtain b2 m where m: "filter_round (min_new_tokens_methods F) reqs keep (o_min_new_tokens orc) = Inr (b2, m)"
    "is_prepared m \<longrightarrow> b2" "min_new_tokens.follows V F (map ((!) rows) keep) m"
    using min_new_tokens.follows_pick[OF _ assms(3,4)] assms(2) unfolding orchestrated_def by blast
  obtain b3 p where p: "filter_round (presence_methods F) reqs keep (o_presence orc) = Inr (b3, p)"
    "is_prepared p \<longrightarrow> b3" "presence.follows F V (map ((!) rows) keep) p"
    using presence.follows_pick[OF _ assms(3,4)] assms(2) unfolding orchestrated_def by blast
  consider "\<not> o_is_required orc" | "o_is_required orc" "keep = []" | "o_is_required orc" "keep \<noteq> []" by blast
  then show ?thesis
  proof cases
    case 1
    then have "orchestrated F V keys (map ((!) rows) keep) orc"
      using assms(2,3) by (auto simp: orchestrated_def tracks_def)
    then show ?thesis using 1 by (simp add: orchestrator_filter_def)
  next
    case 2
    then show ?thesis
      using assms(2) by (simp add: orchestrator_filter_def orchestrated_def tracks_def penalizer_teardown_def)
  next
    case 3
    then have "orchestrator_filter F reqs keep orc =
        Inr (orc\<lparr>o_frequency := f, o_min_new_tokens := m, o_presence := p, o_is_required := b1 \<or> b2 \<or> b3\<rparr>)"
      unfolding orchestrator_filter_def
      by (subst at_penalizers[where rf = b1 and rm = b2 and rp = b3 and xf = f and xm = m and xp = p])
        (use assms(1,2) f(1) m(1) p(1) in \<open>simp_all add: orchestrated_def\<close>)
    then show ?thesis using f(2,3) m(2,3) p(2,3) assms(2) by (auto simp: orchestrated_def)
  qed
qed

lemma merge_orchestrated:
  assumes "complete_keys keys" "orchestrated F V keys rows orc" "orchestrated F V keys rows' their"
    "rows \<noteq> []" "rows' \<noteq> []" "map pen_key reqs = map fst rows" "map pen_key reqs' = map fst rows'"
  shows "\<exists>orc'. orchestrator_merge F reqs reqs' orc their = Inr orc' \<and> orchestrated F V keys (rows @ rows') orc'"
proof -
  note prems = assms(6,7,4,5)
  obtain f where f: "merge_round (frequency_methods F) V reqs V reqs' (o_frequency their) (o_frequency orc) = Inr (False, f)"
    "frequency.follows F V (rows @ rows') f"
    using frequency.follows_merge[OF _ _ prems] assms(2,3) unfolding orchestrated_def by blast
  obtain m where m: "merge_round (min_new_tokens_methods F) V reqs V reqs' (o_min_new_tokens their) (o_min_new_tokens orc) = Inr (False, m)"
    "min_new_tokens.follows V F (rows @ rows') m"
    using min_new_tokens.follows_merge[OF _ _ prems] assms(2,3) unfolding orchestrated_def by blast
  obtain p where p: "merge_round (presence_methods F) V reqs V reqs' (o_presence their) (o_presence orc) = Inr (False, p)"
    "presence.follows F V (rows @ rows') p"
    using presence.follows_merge[OF _ _ prems] assms(2,3) unfolding orchestrated_def by blast
  show ?thesis
  proof (cases "o_is_required orc \<or> o_is_required their")
    case True
    then have "orchestrator_merge F reqs reqs' orc their =
        Inr (orc\<lparr>o_is_required := True, o_frequency := f, o_min_new_tokens := m, o_presence := p\<rparr>)"
      unfolding orchestrator_merge_def Let_def
      by (subst at_penalizers[where rf = False and rm = False and rp = False and xf = f and xm = m and xp = p])
        (use assms(1-3) f(1) m(1) p(1) in \<open>auto simp: orchestrated_def\<close>)
    then show ?thesis using f(2) m(2) p(2) assms(2) by (simp add: orchestrated_def)
  next
    case False
    then have "orchestrated F V keys (rows @ rows') orc"
      using assms(2,3) unfolding orchestrated_def by (simp add: tracks_def ball_Un)
    then show ?thesis using False by (simp add: orchestrator_merge_def)
  qed
qed

lemma run_orchestrated: "penalty_run F V keys rows orc \<Longrightarrow> complete_keys keys \<Longrightarrow> orchestrated F V keys rows orc"
proof (induction rule: penalty_run.induct)
  case (start reqs orc)
  then show ?case using init_orchestrated[of keys reqs V F] by auto
next
  case (decode rows orc reqs overlap ids orc')
  then show ?case using decode_orchestrated[of keys F V rows orc reqs overlap ids] by auto
next
  case (filter rows orc keep reqs orc')
  then show ?case using filter_orchestrated[of keys F V rows orc keep reqs] by auto
next
  case (merge rows orc rows' their reqs reqs' orc')
  then show ?case using merge_orchestrated[of keys F V rows orc rows' their reqs reqs'] by auto
qed

section \<open>The penalties of a row\<close>

text \<open>What the orchestrator does to the logits of one request, by the request and its own tokens.\<close>

definition penalty_effect :: "'f torch_float \<Rightarrow> nat \<Rightarrow> Penalizer \<Rightarrow> pen_row \<Rightarrow> 'f list \<Rightarrow> 'f list" where
  "penalty_effect F V k =
     (case k of
        BatchedFrequencyPenalizer \<Rightarrow> frequency_effect F V
      | BatchedMinNewTokensPenalizer \<Rightarrow> min_new_tokens_effect F V
      | BatchedPresencePenalizer \<Rightarrow> presence_effect F V)"

definition penalize :: "'f torch_float \<Rightarrow> nat \<Rightarrow> Penalizer list \<Rightarrow> pen_row \<Rightarrow> 'f list \<Rightarrow> 'f list" where
  "penalize F V keys row l = fold (\<lambda>k. penalty_effect F V k row) keys l"

lemma foldE_rows:
  assumes "\<And>k logits. k \<in> set ks \<Longrightarrow> length logits = length rows \<Longrightarrow> \<forall>l \<in> set logits. length l = V \<Longrightarrow>
      step k logits = Inr (map2 (eff k) rows logits)"
    "\<And>k row l. length l = V \<Longrightarrow> length (eff k row l) = V"
    "length logits = length rows" "\<forall>l \<in> set logits. length l = V"
  shows "foldE step ks logits = Inr (map2 (\<lambda>row. fold (\<lambda>k. eff k row) ks) rows logits)"
  using assms
proof (induction ks arbitrary: logits)
  case Nil
  then show ?case by (auto intro!: nth_equalityI)
next
  case (Cons k ks)
  have "\<forall>l \<in> set (map2 (eff k) rows logits). length l = V"
    using Cons.prems(2,4) by (auto dest: set_zip_rightD)
  then have "foldE step ks (map2 (eff k) rows logits) =
             Inr (map2 (\<lambda>row. fold (\<lambda>k. eff k row) ks) rows (map2 (eff k) rows logits))"
    using Cons.prems by (intro Cons.IH) auto
  moreover have "map2 (\<lambda>row. fold (\<lambda>k. eff k row) ks) rows (map2 (eff k) rows logits) =
                 map2 (\<lambda>row. fold (\<lambda>k. eff k row) (k # ks)) rows logits"
    using Cons.prems(3) by (auto intro!: nth_equalityI)
  ultimately show ?case using Cons.prems by simp
qed

lemma apply_orchestrated:
  assumes "complete_keys keys" "ieee F" "orchestrated F V keys rows orc"
    "\<forall>row \<in> set rows. length (snd row) < 2 ^ 31" "length logits = length rows" "\<forall>l \<in> set logits. length l = V"
  shows "orchestrator_apply F orc logits = Inr (map2 (penalize F V keys) rows logits)"
proof -
  have keys: "o_penalizers orc = keys" using assms(3) by (simp add: orchestrated_def)
  show ?thesis
    unfolding orchestrator_apply_def penalize_def[abs_def] keys
  proof (rule foldE_rows[OF _ _ assms(5,6)])
    fix k and logits :: "'a list list"
    assume "length logits = length rows" "\<forall>l \<in> set logits. length l = V"
    then show "(case k of
        BatchedFrequencyPenalizer \<Rightarrow> penalizer_apply (frequency_methods F) (o_frequency orc)
      | BatchedMinNewTokensPenalizer \<Rightarrow> penalizer_apply (min_new_tokens_methods F) (o_min_new_tokens orc)
      | BatchedPresencePenalizer \<Rightarrow> penalizer_apply (presence_methods F) (o_presence orc)) logits =
      Inr (map2 (penalty_effect F V k) rows logits)"
      using assms(3) frequency.follows_apply[OF assms(2) _ assms(4)] min_new_tokens.follows_apply[OF assms(2) _ assms(4)]
        presence.follows_apply[OF assms(2) _ assms(4)]
      by (cases k) (auto simp: orchestrated_def penalty_effect_def)
  qed (auto simp: penalty_effect_def frequency.length_effect min_new_tokens.length_effect presence.length_effect
         split: Penalizer.split)
qed

text \<open>
  C30: whatever the order of decode steps, filters and merges since the requests of a batch joined, and in
  whatever order the penalizers are visited, applying the penalties succeeds and changes the logits of each
  request by the penalties of that request and of the tokens counted for it alone: the frequency penalty
  once per occurrence, the presence penalty once, and minus infinity on the stop tokens while the
  request is too short.  A penalizer that was torn down and built again in between makes no difference.
\<close>

theorem penalties_of_own_tokens:
  assumes "complete_keys keys" "ieee F" "penalty_run F V keys rows orc"
    "\<forall>row \<in> set rows. length (snd row) < 2 ^ 31" "length logits = length rows" "\<forall>l \<in> set logits. length l = V"
  shows "orchestrator_apply F orc logits = Inr (map2 (penalize F V keys) rows logits)"
  using apply_orchestrated[OF assms(1,2) run_orchestrated[OF assms(3,1)] assms(4-6)] .

section \<open>Stop tokens\<close>

lemma matched_eos_stop_set:
  "q_tokenizer r \<noteq> None \<Longrightarrow> matched_eos r t \<longleftrightarrow> t \<in> stop_set (pen_key r) \<or> in_some t (q_eos_token_ids r)"
  by (auto simp: matched_eos_def stop_set_def pen_key_def in_some_def some_ids_def split: option.splits)

text \<open>Two effects that leave a row alone drop out.\<close>

lemma penalize_stops_only:
  assumes "complete_keys keys" "ieee F" "\<not> nonzero (sp_frequency_penalty (fst (fst row)))"
    "sp_presence_penalty (fst (fst row)) = Fin 0" "length (snd row) < 2 ^ 31" "length l = V"
  shows "penalize F V keys row l = min_new_tokens_effect F V row l"
proof -
  have f: "frequency_effect F V row l' = l'" if "length l' = V" for l'
    using frequency.inert[OF assms(2) TrueI assms(3,5) that] .
  have p: "presence_effect F V row l' = l'" if "length l' = V" for l'
    by (rule presence.inert[OF assms(2) _ _ assms(5) that]) (simp_all add: assms(4) nonzero_def)
  obtain a b c where "keys = [a, b, c]" using complete_keys_three[OF assms(1)] .
  then show ?thesis
    using assms(1,6) f p min_new_tokens.length_effect[of l V F row]
    by (cases a; cases b; cases c) (auto simp: complete_keys_def penalize_def penalty_effect_def)
qed

text \<open>
  C31: while fewer tokens were counted for a request than its \<open>min_new_tokens\<close>, the logits of its stop tokens
  become minus infinity and all others stay, when it asks for no other penalty.  The stop tokens are
  those of the sampling parameters and of the tokenizer; \<open>check_finished\<close> also ends the request at
  the \<open>eos_token_ids\<close> of the model, which are not blocked.
\<close>

theorem min_new_tokens_blocks_stops:
  assumes "complete_keys keys" "ieee F" "penalty_run F V keys rows orc"
    "\<forall>row \<in> set rows. length (snd row) < 2 ^ 31" "length logits = length rows" "\<forall>l \<in> set logits. length l = V"
    "i < length rows" "rows ! i = (pen_key r, h)" "t < V"
    "\<not> nonzero (sp_frequency_penalty (q_sampling_params r))" "sp_presence_penalty (q_sampling_params r) = Fin 0"
    "int (length h) < sp_min_new_tokens (q_sampling_params r)"
    "f_add F (f_zero F) (f_of F NegInf) = f_of F NegInf"
    "f_add F (logits ! i ! t) (f_of F NegInf) = f_of F NegInf"
    "f_add F (logits ! i ! t) (f_zero F) = logits ! i ! t"
  shows "\<exists>new. orchestrator_apply F orc logits = Inr new \<and>
           new ! i ! t = (if int t \<in> stop_set (pen_key r) then f_of F NegInf else logits ! i ! t) \<and>
           (matched_eos r (int t) \<longleftrightarrow> int t \<in> stop_set (pen_key r) \<or> in_some (int t) (q_eos_token_ids r))"
proof -
  have l: "i < length logits" "length (logits ! i) = V" using assms(5-7) by auto
  have h: "length h < 2 ^ 31" using assms(4,7,8) nth_mem[of i rows] by fastforce
  have "stoppable V (fst (rows ! i))"
    using run_orchestrated[OF assms(3,1)] nth_mem[OF assms(7)] by (simp add: orchestrated_def tracks_def)
  then have tk: "q_tokenizer r \<noteq> None" using assms(8) by (auto simp: stoppable_def pen_key_def)
  let ?row = "(pen_key r, h)"
  have "penalize F V keys ?row (logits ! i) = min_new_tokens_effect F V ?row (logits ! i)"
    using penalize_stops_only[OF assms(1,2) _ _ _ l(2), of ?row] assms(10,11) h by (simp add: pen_key_def)
  moreover have "too_short ?row" using assms(12) h by (simp add: too_short_def int32_wrap_nat pen_key_def)
  ultimately have "penalize F V keys ?row (logits ! i) ! t =
      (if int t \<in> stop_set (pen_key r) then f_of F NegInf else logits ! i ! t)"
    using assms(9,13-15) l by (simp add: min_new_tokens_effect_def stop_row_def)
  then show ?thesis
    using apply_orchestrated[OF assms(1,2) run_orchestrated[OF assms(3,1)] assms(4-6)] assms(5,7,8) tk
    by (simp add: matched_eos_stop_set)
qed

section \<open>A batch\<close>

text \<open>Exact arithmetic on the values of a float.\<close>

fun padd :: "pyfloat \<Rightarrow> pyfloat \<Rightarrow> pyfloat" where
  "padd NaN y = NaN"
| "padd x NaN = NaN"
| "padd NegInf PosInf = NaN"
| "padd PosInf NegInf = NaN"
| "padd NegInf y = NegInf"
| "padd PosInf y = PosInf"
| "padd x NegInf = NegInf"
| "padd x PosInf = PosInf"
| "padd NegZero y = y"
| "padd x NegZero = x"
| "padd (Fin x) (Fin y) = Fin (x + y)"

fun pneg :: "pyfloat \<Rightarrow> pyfloat" where
  "pneg NaN = NaN"
| "pneg NegInf = PosInf"
| "pneg PosInf = NegInf"
| "pneg NegZero = Fin 0"
| "pneg (Fin x) = (if x = 0 then NegZero else Fin (- x))"

definition exact_float :: "pyfloat torch_float" where
  "exact_float = \<lparr>f_of = id, f_add = padd, f_sub = \<lambda>x y. padd x (pneg y)\<rparr>"

lemma ieee_exact: "ieee exact_float"
  unfolding ieee_def exact_float_def
proof (simp, rule allI)
  fix x show "padd x NegZero = x" by (cases x) auto
qed

text \<open>
  Two requests: one with penalties of a half and of one, one that wants two tokens and stops at token 3,
  of the tokenizer, and token 2, of the model.
\<close>

definition demo_tokenizer :: tokenizer where
  "demo_tokenizer = \<lparr>tk_eos = Some 3, tk_bos = None, tk_additional_stops = None, tk_decode = \<lambda>_. []\<rparr>"

definition demo_repeats :: sched_req where
  "demo_repeats =
     (req_init ''a'' None [0] (default_params\<lparr>sp_frequency_penalty := Fin (1 / 2), sp_presence_penalty := Fin 1\<rparr>)
        False False None None None)\<lparr>q_tokenizer := Some demo_tokenizer\<rparr>"

definition demo_stops :: sched_req where
  "demo_stops =
     (req_init ''b'' None [0] (default_params\<lparr>sp_min_new_tokens := 2\<rparr>) False False None None (Some [2]))
        \<lparr>q_tokenizer := Some demo_tokenizer\<rparr>"

definition demo_keys :: "Penalizer list" where
  "demo_keys = [BatchedPresencePenalizer, BatchedFrequencyPenalizer, BatchedMinNewTokensPenalizer]"

lemma demo_complete: "complete_keys demo_keys"
  by code_simp

lemmas demo_req_defs = demo_repeats_def demo_stops_def demo_tokenizer_def req_init_def default_params_def

lemma demo_ok: "pen_ok 4 (pen_key demo_repeats)" "pen_ok 4 (pen_key demo_stops)"
  by (simp_all add: pen_ok_def stoppable_def pen_key_def stop_set_def some_ids_def demo_req_defs)

text \<open>The first request decodes twice, the second joins, then both decode once.\<close>

definition demo_rows :: "pen_row list" where
  "demo_rows = [(pen_key demo_repeats, [1, 1, 0]), (pen_key demo_stops, [1])]"

lemma demo_run: "\<exists>orc. penalty_run exact_float 4 demo_keys demo_rows orc"
proof -
  let ?run = "penalty_run exact_float 4 demo_keys"
  note orch = run_orchestrated[OF _ demo_complete]
  have one: "decodable 4 False [r] [t]" if "0 \<le> t" "t < 4" "q_origin_input_ids r \<noteq> []" for r t
    using that by (simp add: decodable_def counted_def)
  obtain a where a: "?run (map joined [demo_repeats]) a"
    using init_orchestrated[OF demo_complete, of "[demo_repeats]" 4 exact_float] demo_ok
      penalty_run.start[of "[demo_repeats]" 4 exact_float demo_keys] by auto
  obtain b where b: "?run (map joined [demo_stops]) b"
    using init_orchestrated[OF demo_complete, of "[demo_stops]" 4 exact_float] demo_ok
      penalty_run.start[of "[demo_stops]" 4 exact_float demo_keys] by auto
  have dec: "\<exists>orc'. ?run (feed (counted False reqs ids) rows) orc'"
    if "?run rows orc" "map pen_key reqs = map fst rows" "decodable 4 False reqs ids" for rows orc reqs ids
    using decode_orchestrated[OF demo_complete orch[OF that(1)] that(2,3)] penalty_run.decode[OF that(1-3)] by blast
  have c0: "q_origin_input_ids demo_repeats \<noteq> []" "q_origin_input_ids demo_stops \<noteq> []"
    by (simp_all add: demo_req_defs)
  obtain c where c: "?run [(pen_key demo_repeats, [1])] c"
    using dec[OF a _ one[of 1 demo_repeats]] c0 by (auto simp: feed_def counted_def joined_def)
  obtain d where d: "?run [(pen_key demo_repeats, [1, 1])] d"
    using dec[OF c _ one[of 1 demo_repeats]] c0 by (auto simp: feed_def counted_def)
  obtain e where e: "?run [(pen_key demo_repeats, [1, 1]), (pen_key demo_stops, [])] e"
    using merge_orchestrated[OF demo_complete orch[OF d] orch[OF b], of "[demo_repeats]" "[demo_stops]"]
      penalty_run.merge[OF d b, of "[demo_repeats]" "[demo_stops]"] by (auto simp: joined_def)
  have "decodable 4 False [demo_repeats, demo_stops] [0, 1]"
    using c0 by (simp add: decodable_def counted_def)
  from dec[OF e _ this] show ?thesis by (auto simp: feed_def counted_def demo_rows_def)
qed

definition demo_logits :: "pyfloat list list" where
  "demo_logits = [replicate 4 (Fin 0), replicate 4 (Fin 5)]"

theorem penalties_of_own_tokens_witness:
  "\<exists>orc. penalty_run exact_float 4 demo_keys demo_rows orc \<and>
     orchestrator_apply exact_float orc demo_logits =
     Inr [[Fin (- 3 / 2), Fin (- 2), Fin 0, Fin 0], [Fin 5, Fin 5, Fin 5, NegInf]]"
proof -
  obtain orc where run: "penalty_run exact_float 4 demo_keys demo_rows orc" using demo_run by blast
  have "map2 (penalize exact_float 4 demo_keys) demo_rows demo_logits =
        [[Fin (- 3 / 2), Fin (- 2), Fin 0, Fin 0], [Fin 5, Fin 5, Fin 5, NegInf]]"
    by code_simp
  moreover have "orchestrator_apply exact_float orc demo_logits =
      Inr (map2 (penalize exact_float 4 demo_keys) demo_rows demo_logits)"
    by (rule penalties_of_own_tokens[OF demo_complete ieee_exact run])
      (simp_all add: demo_rows_def demo_logits_def)
  ultimately show ?thesis using run by auto
qed

theorem min_new_tokens_blocks_stops_witness:
  "\<exists>orc new. penalty_run exact_float 4 demo_keys demo_rows orc \<and>
     orchestrator_apply exact_float orc demo_logits = Inr new \<and>
     new ! 1 ! 3 = NegInf \<and> new ! 1 ! 2 = Fin 5 \<and> matched_eos demo_stops 2"
proof -
  obtain orc where run: "penalty_run exact_float 4 demo_keys demo_rows orc" using demo_run by blast
  have at: "\<exists>new. orchestrator_apply exact_float orc demo_logits = Inr new \<and>
      new ! 1 ! t = (if int t \<in> stop_set (pen_key demo_stops) then f_of exact_float NegInf else demo_logits ! 1 ! t) \<and>
      (matched_eos demo_stops (int t) \<longleftrightarrow>
       int t \<in> stop_set (pen_key demo_stops) \<or> in_some (int t) (q_eos_token_ids demo_stops))" if "t < 4" for t
    by (rule min_new_tokens_blocks_stops[OF demo_complete ieee_exact run, where h = "[1]"])
      (use that in \<open>auto simp: demo_rows_def demo_logits_def demo_req_defs exact_float_def nonzero_def\<close>)
  have "stop_set (pen_key demo_stops) = {3}" "in_some 2 (q_eos_token_ids demo_stops)"
    by (simp_all add: stop_set_def pen_key_def some_ids_def in_some_def demo_req_defs)
  then show ?thesis using at[of 3] at[of 2] run by (auto simp: exact_float_def demo_logits_def)
qed

end
