(* ===== verification/Sampling_Batch.thy ===== *)
theory Sampling_Batch
  imports Penalty_Batch
begin

text \<open>
  \<open>sampling/sampling_batch_info.py\<close>: the sampling tensors of a batch, one row per request, with its
  penalizers and its custom logit processors; filtering and merging them with the batch.

  The grammar masks are left out: they are computed by the grammar packages.  \<open>hash\<close> and
  \<open>CustomLogitProcessor.from_str\<close> are parameters.
\<close>

section \<open>The tensors of a batch\<close>

text \<open>The fields of a request that only the batch reads.\<close>

record batch_req =
  b_req :: sched_req
  b_custom_logit_processor :: "string option"
  b_top_logprobs_num :: int
  b_token_ids_logprob :: "int list option"
  b_multimodal :: "nat option"
  b_return_hidden_states :: bool

abbreviation b_params :: "batch_req \<Rightarrow> SamplingParams" where
  "b_params r \<equiv> q_sampling_params (b_req r)"

type_synonym custom_params = "(string \<times> pyval) list option"
type_synonym 'p processors = "(int \<times> ('p \<times> bool list)) list"

record ('f, 'p) SamplingBatchInfo =
  si_temperatures :: "'f list"
  si_top_ps :: "'f list"
  si_top_ks :: "int list"
  si_min_ps :: "'f list"
  si_is_all_greedy :: bool
  si_need_min_p_sampling :: bool
  si_vocab_size :: nat
  si_orchestrator :: "'f orchestrator"
  si_linear_penalty :: "'f list list option"
  si_has_custom :: bool
  si_custom_params :: "custom_params list option"
  si_custom_logit_processor :: "'p processors option"

record ('f, 'p) sampling_env =
  se_float :: "'f torch_float"
  se_keys :: "Penalizer list"
  se_hash :: "string \<Rightarrow> int"
  se_from_str :: "string \<Rightarrow> 'p result"

text \<open>The positions of each processor string, in the order of first use.\<close>

definition processor_dict :: "batch_req list \<Rightarrow> (string \<times> nat list) list" where
  "processor_dict reqs =
     fold (\<lambda>(i, r) d. case b_custom_logit_processor r of
             None \<Rightarrow> d
           | Some s \<Rightarrow> dict_set s (dict_get d s [] @ [i]) d) (enumerate 0 reqs) []"

definition mask_of :: "nat \<Rightarrow> nat list \<Rightarrow> bool list" where
  "mask_of n idx = map (\<lambda>i. i \<in> set idx) [0..<n]"

fun load_processors ::
  "('f, 'p) sampling_env \<Rightarrow> nat \<Rightarrow> (string \<times> nat list) list \<Rightarrow> 'p processors \<Rightarrow> 'p processors result" where
  "load_processors env n [] d = Inr d"
| "load_processors env n ((s, idx) # rest) d =
     bindE (se_from_str env s) (\<lambda>p. load_processors env n rest (dict_set (se_hash env s) (p, mask_of n idx) d))"

definition truthy_str :: "string option \<Rightarrow> bool" where
  "truthy_str s \<longleftrightarrow> (case s of None \<Rightarrow> False | Some x \<Rightarrow> x \<noteq> [])"

definition from_schedule_batch ::
  "('f, 'p) sampling_env \<Rightarrow> bool \<Rightarrow> nat \<Rightarrow> batch_req list \<Rightarrow> ('f, 'p) SamplingBatchInfo result" where
  "from_schedule_batch env enable_custom V reqs =
     (let F = se_float env;
          has = (enable_custom \<and> (\<exists>r \<in> set reqs. truthy_str (b_custom_logit_processor r)))
      in bindE (mapE (\<lambda>r. to_int32 (sp_top_k (b_params r))) reqs) (\<lambda>top_ks.
         bindE (if has then bindE (load_processors env (length reqs) (processor_dict reqs) []) (\<lambda>d. Inr (Some d))
                else Inr None) (\<lambda>custom.
         bindE (orchestrator_init F V (se_keys env) (map b_req reqs)) (\<lambda>orc.
           Inr \<lparr>si_temperatures = map (\<lambda>r. f_of F (sp_temperature (b_params r))) reqs,
                si_top_ps = map (\<lambda>r. f_of F (sp_top_p (b_params r))) reqs,
                si_top_ks = top_ks,
                si_min_ps = map (\<lambda>r. f_of F (sp_min_p (b_params r))) reqs,
                si_is_all_greedy = (\<forall>r \<in> set reqs. sp_top_k (b_params r) \<le> 1),
                si_need_min_p_sampling = (\<exists>r \<in> set reqs. float_lt (Fin 0) (sp_min_p (b_params r))),
                si_vocab_size = V, si_orchestrator = orc, si_linear_penalty = None, si_has_custom = has,
                si_custom_params = (if has then Some (map (\<lambda>r. sp_custom_params (b_params r)) reqs) else None),
                si_custom_logit_processor = custom\<rparr>))))"

abbreviation si_len :: "('f, 'p) SamplingBatchInfo \<Rightarrow> nat" where
  "si_len s \<equiv> length (si_temperatures s)"

text \<open>
  The penalties on the logits: at once, or with overlapped scheduling as a tensor computed before the
  forward pass, for a copy without the orchestrator.
\<close>

definition update_penalties ::
  "'f torch_float \<Rightarrow> ('f, 'p) SamplingBatchInfo \<Rightarrow> ('f, 'p) SamplingBatchInfo result" where
  "update_penalties F s =
     (if o_is_required (si_orchestrator s)
      then bindE (orchestrator_apply F (si_orchestrator s) (replicate (si_len s) (replicate (si_vocab_size s) (f_zero F))))
             (\<lambda>pen. Inr (s\<lparr>si_linear_penalty := Some pen\<rparr>))
      else Inr (s\<lparr>si_linear_penalty := None\<rparr>))"

definition apply_logits_bias ::
  "'f torch_float \<Rightarrow> bool \<Rightarrow> ('f, 'p) SamplingBatchInfo \<Rightarrow> 'f list list \<Rightarrow> 'f list list result" where
  "apply_logits_bias F with_orchestrator s logits =
     bindE (case si_linear_penalty s of None \<Rightarrow> Inr logits | Some pen \<Rightarrow> pointwise (f_add F) logits pen) (\<lambda>l.
       if with_orchestrator \<and> o_is_required (si_orchestrator s)
       then orchestrator_apply F (si_orchestrator s) l else Inr l)"

section \<open>Filter and merge\<close>

fun filter_processors :: "nat list \<Rightarrow> 'p processors \<Rightarrow> 'p processors result" where
  "filter_processors keep [] = Inr []"
| "filter_processors keep ((k, p, bits) # d) =
     bindE (pick keep bits) (\<lambda>bits'.
       bindE (filter_processors keep d) (\<lambda>d'. Inr (if True \<in> set bits' then (k, p, bits') # d' else d')))"

definition filter_batch_custom_logit_processor ::
  "nat list \<Rightarrow> ('f, 'p) SamplingBatchInfo \<Rightarrow> ('f, 'p) SamplingBatchInfo result" where
  "filter_batch_custom_logit_processor keep s =
     bindE (attr (si_custom_logit_processor s)) (\<lambda>d. bindE (filter_processors keep d) (\<lambda>d'.
     bindE (case si_custom_params s of None \<Rightarrow> Inl TypeError | Some ps \<Rightarrow> pick keep ps) (\<lambda>ps'.
       Inr (if d' = []
            then s\<lparr>si_custom_logit_processor := None, si_custom_params := None, si_has_custom := False\<rparr>
            else s\<lparr>si_custom_logit_processor := Some d', si_custom_params := Some ps'\<rparr>))))"

text \<open>\<open>reqs\<close> are the requests that the batch keeps.\<close>

definition sampling_filter ::
  "'f torch_float \<Rightarrow> sched_req list \<Rightarrow> nat list \<Rightarrow> ('f, 'p) SamplingBatchInfo \<Rightarrow> ('f, 'p) SamplingBatchInfo result" where
  "sampling_filter F reqs keep s =
     bindE (orchestrator_filter F reqs keep (si_orchestrator s)) (\<lambda>orc.
     bindE (if si_has_custom s then filter_batch_custom_logit_processor keep s else Inr s) (\<lambda>s1.
     bindE (pick keep (si_temperatures s1)) (\<lambda>ts. bindE (pick keep (si_top_ps s1)) (\<lambda>tps.
     bindE (pick keep (si_top_ks s1)) (\<lambda>tks. bindE (pick keep (si_min_ps s1)) (\<lambda>mps.
       Inr (s1\<lparr>si_orchestrator := orc, si_temperatures := ts, si_top_ps := tps, si_top_ks := tks,
               si_min_ps := mps\<rparr>)))))))"

definition processors_of :: "'p processors option \<Rightarrow> 'p processors" where
  "processors_of d = (case d of None \<Rightarrow> [] | Some x \<Rightarrow> x)"

text \<open>
  The keys of both dictionaries, those of the left one first: a set in the code, so its order is not
  determined there.
\<close>

definition merge_entry :: "'p processors \<Rightarrow> 'p processors \<Rightarrow> nat \<Rightarrow> nat \<Rightarrow> int \<Rightarrow> (int \<times> 'p \<times> bool list) result" where
  "merge_entry lhs rhs bs1 bs2 k =
     (let left = map_of lhs k; right = map_of rhs k;
          bits = (case left of Some (_, m) \<Rightarrow> m | None \<Rightarrow> replicate bs1 False) @
                 (case right of Some (_, m) \<Rightarrow> m | None \<Rightarrow> replicate bs2 False)
      in if length bits = bs1 + bs2
         then Inr (k, (case left of Some (p, _) \<Rightarrow> p | None \<Rightarrow> fst (the right)), bits)
         else Inl AssertionError)"

definition merge_custom_logit_processor ::
  "'p processors option \<Rightarrow> 'p processors option \<Rightarrow> nat \<Rightarrow> nat \<Rightarrow> 'p processors option result" where
  "merge_custom_logit_processor lhs rhs bs1 bs2 =
     (if lhs = None \<and> rhs = None then Inr None
      else let l = processors_of lhs; r = processors_of rhs
           in bindE (mapE (merge_entry l r bs1 bs2) (remdups (map fst l @ map fst r))) (\<lambda>d. Inr (Some d)))"

definition params_or_none :: "nat \<Rightarrow> custom_params list option \<Rightarrow> custom_params list" where
  "params_or_none n ps = (case ps of None \<Rightarrow> replicate n None | Some xs \<Rightarrow> if xs = [] then replicate n None else xs)"

text \<open>The processors and parameters of the other side enter this one; the tensors are concatenated.\<close>

definition merge_custom ::
  "('f, 'p) SamplingBatchInfo \<Rightarrow> ('f, 'p) SamplingBatchInfo \<Rightarrow> ('f, 'p) SamplingBatchInfo result" where
  "merge_custom s other =
     (if si_has_custom s \<or> si_has_custom other
      then bindE (merge_custom_logit_processor (si_custom_logit_processor s) (si_custom_logit_processor other)
                    (si_len s) (si_len other)) (\<lambda>d.
             Inr (s\<lparr>si_custom_logit_processor := d,
                    si_custom_params := Some (params_or_none (si_len s) (si_custom_params s) @
                                              params_or_none (si_len other) (si_custom_params other)),
                    si_has_custom := True\<rparr>))
      else Inr s)"

definition sampling_merge ::
  "'f torch_float \<Rightarrow> sched_req list \<Rightarrow> sched_req list \<Rightarrow> ('f, 'p) SamplingBatchInfo
     \<Rightarrow> ('f, 'p) SamplingBatchInfo \<Rightarrow> ('f, 'p) SamplingBatchInfo result" where
  "sampling_merge F reqs reqs' s other =
     bindE (orchestrator_merge F reqs reqs' (si_orchestrator s) (si_orchestrator other)) (\<lambda>orc.
     bindE (merge_custom s other) (\<lambda>s1.
       Inr (s1\<lparr>si_orchestrator := orc,
               si_temperatures := si_temperatures s1 @ si_temperatures other,
               si_top_ps := si_top_ps s1 @ si_top_ps other,
               si_top_ks := si_top_ks s1 @ si_top_ks other,
               si_min_ps := si_min_ps s1 @ si_min_ps other,
               si_is_all_greedy := si_is_all_greedy s1 \<and> si_is_all_greedy other,
               si_need_min_p_sampling := si_need_min_p_sampling s1 \<or> si_need_min_p_sampling other\<rparr>)))"

section \<open>One row per request\<close>

text \<open>
  The rows of a batch: a request and the tokens counted for it.  The custom processor of a request counts
  when the server allows them.
\<close>

type_synonym sam_row = "batch_req \<times> int list"

abbreviation pen_rows :: "sam_row list \<Rightarrow> pen_row list" where
  "pen_rows rows \<equiv> map (\<lambda>(r, h). (pen_key (b_req r), h)) rows"

definition processor_key :: "('f, 'p) sampling_env \<Rightarrow> bool \<Rightarrow> batch_req \<Rightarrow> int option" where
  "processor_key env en r = (if en then map_option (se_hash env) (b_custom_logit_processor r) else None)"

text \<open>Every processor in use has an entry with the mask of its requests; the parameters are aligned.\<close>

definition loads_to :: "('f, 'p) sampling_env \<Rightarrow> batch_req list \<Rightarrow> int \<Rightarrow> 'p \<Rightarrow> bool" where
  "loads_to env rs k p \<longleftrightarrow>
     (\<forall>r \<in> set rs. \<forall>s. b_custom_logit_processor r = Some s \<longrightarrow> se_hash env s = k \<longrightarrow> se_from_str env s = Inr p)"

definition masks_ok :: "('f, 'p) sampling_env \<Rightarrow> bool \<Rightarrow> batch_req list \<Rightarrow> 'p processors \<Rightarrow> bool" where
  "masks_ok env en rs d \<longleftrightarrow>
     distinct (map fst d) \<and>
     (\<forall>(k, p, bits) \<in> set d.
        bits = map (\<lambda>r. processor_key env en r = Some k) rs \<and> True \<in> set bits \<and> loads_to env rs k p) \<and>
     (\<forall>r \<in> set rs. \<forall>k. processor_key env en r = Some k \<longrightarrow> k \<in> fst ` set d)"

definition customised ::
  "('f, 'p) sampling_env \<Rightarrow> bool \<Rightarrow> batch_req list \<Rightarrow> ('f, 'p) SamplingBatchInfo \<Rightarrow> bool" where
  "customised env en rs s \<longleftrightarrow>
     (case si_custom_logit_processor s of
        None \<Rightarrow> \<not> si_has_custom s \<and> si_custom_params s = None \<and> (\<forall>r \<in> set rs. processor_key env en r = None)
      | Some d \<Rightarrow> si_has_custom s \<and> masks_ok env en rs d \<and>
          (\<exists>ps. si_custom_params s = Some ps \<and>
             list_all2 (\<lambda>r p. processor_key env en r \<noteq> None \<longrightarrow> p = sp_custom_params (b_params r)) rs ps))"

definition sampled ::
  "('f, 'p) sampling_env \<Rightarrow> bool \<Rightarrow> nat \<Rightarrow> sam_row list \<Rightarrow> ('f, 'p) SamplingBatchInfo \<Rightarrow> bool" where
  "sampled env en V rows s \<longleftrightarrow>
     si_temperatures s = map (\<lambda>(r, h). f_of (se_float env) (sp_temperature (b_params r))) rows \<and>
     si_top_ps s = map (\<lambda>(r, h). f_of (se_float env) (sp_top_p (b_params r))) rows \<and>
     si_top_ks s = map (\<lambda>(r, h). sp_top_k (b_params r)) rows \<and>
     si_min_ps s = map (\<lambda>(r, h). f_of (se_float env) (sp_min_p (b_params r))) rows \<and>
     (si_is_all_greedy s \<longrightarrow> (\<forall>(r, h) \<in> set rows. sp_top_k (b_params r) \<le> 1)) \<and>
     ((\<exists>(r, h) \<in> set rows. float_lt (Fin 0) (sp_min_p (b_params r))) \<longrightarrow> si_need_min_p_sampling s) \<and>
     si_vocab_size s = V \<and>
     orchestrated (se_float env) V (se_keys env) (pen_rows rows) (si_orchestrator s) \<and>
     customised env en (map fst rows) s"

section \<open>Custom logit processors\<close>

definition positions :: "string \<Rightarrow> batch_req list \<Rightarrow> nat list" where
  "positions s reqs = filter (\<lambda>i. b_custom_logit_processor (reqs ! i) = Some s) [0..<length reqs]"

lemma positions_snoc:
  "positions s (xs @ [x]) = positions s xs @ (if b_custom_logit_processor x = Some s then [length xs] else [])"
proof -
  have "filter (\<lambda>i. b_custom_logit_processor ((xs @ [x]) ! i) = Some s) [0..<length xs] = positions s xs"
    unfolding positions_def by (rule filter_cong) (auto simp: nth_append)
  then show ?thesis unfolding positions_def[of s "xs @ [x]"] by simp
qed

lemma positions_Nil: "positions s reqs = [] \<longleftrightarrow> (\<forall>r \<in> set reqs. b_custom_logit_processor r \<noteq> Some s)"
  by (auto simp: positions_def filter_empty_conv all_set_conv_all_nth)

lemma mask_positions: "mask_of (length reqs) (positions s reqs) = map (\<lambda>r. b_custom_logit_processor r = Some s) reqs"
  by (rule nth_equalityI) (auto simp: mask_of_def positions_def)

lemma processor_dict_positions:
  "distinct (map fst (processor_dict reqs)) \<and>
   map_of (processor_dict reqs) s = (if positions s reqs = [] then None else Some (positions s reqs))"
proof (induction reqs rule: rev_induct)
  case Nil
  show ?case by (simp add: processor_dict_def positions_def)
next
  case (snoc x xs)
  have "processor_dict (xs @ [x]) =
        (case b_custom_logit_processor x of
           None \<Rightarrow> processor_dict xs
         | Some s \<Rightarrow> dict_set s (dict_get (processor_dict xs) s [] @ [length xs]) (processor_dict xs))"
    unfolding processor_dict_def by (simp add: enumerate_append_eq split: option.split)
  moreover have "dict_get (processor_dict xs) s [] = positions s xs" if "b_custom_logit_processor x = Some s"
    using snoc by (auto simp: dict_get_def)
  ultimately show ?case
    using snoc by (auto simp: positions_snoc distinct_keys_dict_set dict_set_member split: option.split)
qed

text \<open>The processor strings of the requests: not empty, loadable and told apart by their hashes.\<close>

definition strings :: "batch_req list \<Rightarrow> string set" where
  "strings rs = {s. \<exists>r \<in> set rs. b_custom_logit_processor r = Some s}"

definition strings_ok :: "('f, 'p) sampling_env \<Rightarrow> batch_req list \<Rightarrow> bool" where
  "strings_ok env rs \<longleftrightarrow>
     inj_on (se_hash env) (strings rs) \<and> [] \<notin> strings rs \<and> (\<forall>s \<in> strings rs. \<exists>p. se_from_str env s = Inr p)"

lemma processor_dict_keys: "fst ` set (processor_dict reqs) = strings reqs"
proof -
  have "s \<in> fst ` set (processor_dict reqs) \<longleftrightarrow> s \<in> strings reqs" for s
    using processor_dict_positions[of reqs s] positions_Nil[of s reqs]
    by (auto simp: strings_def simp flip: map_of_eq_None_iff) (metis option.distinct(1) map_of_eq_None_iff)+
  then show ?thesis by blast
qed

lemma load_processors_entries:
  assumes "distinct (map fst ps)" "inj_on (se_hash env) (fst ` set ps)"
    "\<forall>s \<in> fst ` set ps. \<exists>p. se_from_str env s = Inr p" "distinct (map fst d)"
    "\<forall>s \<in> fst ` set ps. se_hash env s \<notin> fst ` set d"
  shows "\<exists>d'. load_processors env n ps d = Inr d' \<and> distinct (map fst d') \<and>
           set d' = set d \<union> {(se_hash env s, p, mask_of n idx) | s p idx. (s, idx) \<in> set ps \<and> se_from_str env s = Inr p}"
  using assms
proof (induction ps arbitrary: d)
  case (Cons x ps)
  obtain s idx where x: "x = (s, idx)" by force
  obtain p where p: "se_from_str env s = Inr p" using Cons.prems(3) x by auto
  let ?d = "dict_set (se_hash env s) (p, mask_of n idx) d"
  have set_d: "set ?d = insert (se_hash env s, p, mask_of n idx) (set d)"
    using Cons.prems(4,5) x dict_set_member[OF Cons.prems(4)] by (auto simp: image_iff split: if_splits)
  have "\<exists>d'. load_processors env n ps ?d = Inr d' \<and> distinct (map fst d') \<and>
      set d' = set ?d \<union> {(se_hash env s, p, mask_of n idx) | s p idx. (s, idx) \<in> set ps \<and> se_from_str env s = Inr p}"
  proof (rule Cons.IH)
    show "\<forall>t \<in> fst ` set ps. se_hash env t \<notin> fst ` set ?d"
    proof
      fix t assume t: "t \<in> fst ` set ps"
      then have "t \<noteq> s" using Cons.prems(1) x by auto
      then have "se_hash env t \<noteq> se_hash env s" using Cons.prems(2) t x by (auto simp: inj_on_def)
      then show "se_hash env t \<notin> fst ` set ?d" using Cons.prems(5) t by (auto simp: keys_dict_set)
    qed
  qed (use Cons.prems in \<open>auto intro: distinct_keys_dict_set inj_on_subset\<close>)
  then show ?case using x p set_d by (fastforce simp: Collect_disj_eq)
qed auto

lemma processor_key_hash:
  "processor_key env en r = Some k \<longleftrightarrow> en \<and> (\<exists>s. b_custom_logit_processor r = Some s \<and> se_hash env s = k)"
  by (auto simp: processor_key_def)

lemma mask_key:
  assumes "strings_ok env rs" "s \<in> strings rs"
  shows "map (\<lambda>r. b_custom_logit_processor r = Some s) rs = map (\<lambda>r. processor_key env True r = Some (se_hash env s)) rs"
proof (rule map_cong[OF refl])
  fix r assume "r \<in> set rs"
  then have "t \<in> strings rs" if "b_custom_logit_processor r = Some t" for t using that by (auto simp: strings_def)
  then show "(b_custom_logit_processor r = Some s) = (processor_key env True r = Some (se_hash env s))"
    using assms by (auto simp: processor_key_hash strings_ok_def inj_on_def)
qed

lemma strings_load:
  assumes "strings_ok env rs" "s \<in> strings rs" "se_from_str env s = Inr p"
  shows "loads_to env rs (se_hash env s) p"
  using assms by (auto simp: loads_to_def strings_ok_def inj_on_def strings_def)

lemma loaded_masks:
  assumes "strings_ok env rs"
  shows "\<exists>d. load_processors env (length rs) (processor_dict rs) [] = Inr d \<and> masks_ok env True rs d"
proof -
  have "\<exists>d. load_processors env (length rs) (processor_dict rs) [] = Inr d \<and> distinct (map fst d) \<and>
      set d = set [] \<union> {(se_hash env s, p, mask_of (length rs) idx) | s p idx.
        (s, idx) \<in> set (processor_dict rs) \<and> se_from_str env s = Inr p}"
    by (rule load_processors_entries)
      (use assms processor_dict_positions[of rs] processor_dict_keys[of rs] in \<open>auto simp: strings_ok_def\<close>)
  then obtain d where d: "load_processors env (length rs) (processor_dict rs) [] = Inr d" "distinct (map fst d)"
    "set d = {(se_hash env s, p, mask_of (length rs) idx) | s p idx.
        (s, idx) \<in> set (processor_dict rs) \<and> se_from_str env s = Inr p}" by auto
  have entry: "s \<in> strings rs \<and> idx = positions s rs \<and> idx \<noteq> []" if "(s, idx) \<in> set (processor_dict rs)" for s idx
  proof -
    have "map_of (processor_dict rs) s = Some idx"
      by (rule map_of_is_SomeI) (use that processor_dict_positions[of rs] in auto)
    then show ?thesis using processor_dict_positions[of rs s] positions_Nil[of s rs]
      by (auto simp: strings_def split: if_splits)
  qed
  have "bits = map (\<lambda>r. processor_key env True r = Some k) rs \<and> True \<in> set bits \<and> loads_to env rs k p"
    if kp: "(k, p, bits) \<in> set d" for k p bits
  proof -
    obtain s idx where s: "k = se_hash env s" "(s, idx) \<in> set (processor_dict rs)" "se_from_str env s = Inr p"
      "bits = mask_of (length rs) idx" using kp d(3) by auto
    note e = entry[OF s(2)]
    have "bits = map (\<lambda>r. b_custom_logit_processor r = Some s) rs" using s(4) e mask_positions[of rs s] by simp
    moreover have "True \<in> set (map (\<lambda>r. b_custom_logit_processor r = Some s) rs)"
      using e by (auto simp: strings_def image_iff)
    ultimately show ?thesis using mask_key[OF assms, of s] strings_load[OF assms _ s(3)] e s(1) by auto
  qed
  moreover have "k \<in> fst ` set d" if "r \<in> set rs" "processor_key env True r = Some k" for r k
  proof -
    obtain s where s: "b_custom_logit_processor r = Some s" "se_hash env s = k"
      using \<open>processor_key env True r = Some k\<close> by (auto simp: processor_key_hash)
    then have "s \<in> strings rs" using \<open>r \<in> set rs\<close> by (auto simp: strings_def)
    then obtain idx p where "(s, idx) \<in> set (processor_dict rs)" "se_from_str env s = Inr p"
      using assms processor_dict_keys[of rs] unfolding strings_ok_def by (metis (no_types, lifting) imageE prod.collapse)
    then show ?thesis using d(3) s(2) by (auto simp: image_iff)
  qed
  ultimately show ?thesis using d(1,2) by (auto simp: masks_ok_def)
qed

text \<open>Filtering.\<close>

lemma filter_processors_picked:
  assumes "\<forall>(k, p, bits) \<in> set d. \<forall>i \<in> set keep. i < length bits"
  shows "filter_processors keep d =
         Inr (filter (\<lambda>(k, p, bits). True \<in> set bits) (map (\<lambda>(k, p, bits). (k, p, map ((!) bits) keep)) d))"
  using assms by (induction d) (auto simp: pick_def)

lemma distinct_filter_keys:
  "distinct (map fst d) \<Longrightarrow> distinct (map fst (filter P (map (\<lambda>(k, p, bits). (k, p, g bits)) d)))"
  by (induction d) (auto simp: image_iff)

lemma filtered_masks:
  assumes "masks_ok env en rs d" "\<forall>i \<in> set keep. i < length rs"
  shows "\<exists>d'. filter_processors keep d = Inr d' \<and> masks_ok env en (map ((!) rs) keep) d' \<and>
           (d' = [] \<longrightarrow> (\<forall>r \<in> set (map ((!) rs) keep). processor_key env en r = None))"
proof -
  let ?kept = "map ((!) rs) keep"
  let ?d = "filter (\<lambda>(k, p, bits). True \<in> set bits) (map (\<lambda>(k, p, bits). (k, p, map ((!) bits) keep)) d)"
  have bits: "bits = map (\<lambda>r. processor_key env en r = Some k) rs" "loads_to env rs k p" if "(k, p, bits) \<in> set d" for k p bits
    using assms(1) that by (auto simp: masks_ok_def)
  have "filter_processors keep d = Inr ?d"
    by (rule filter_processors_picked) (use bits assms(2) in fastforce)
  moreover have keys: "k \<in> fst ` set ?d" if "r \<in> set ?kept" "processor_key env en r = Some k" for r k
  proof -
    obtain i where i: "i \<in> set keep" "r = rs ! i" using \<open>r \<in> set ?kept\<close> by auto
    then have "r \<in> set rs" using assms(2) by simp
    then obtain p b where e: "(k, p, b) \<in> set d"
      using assms(1) \<open>processor_key env en r = Some k\<close> by (fastforce simp: masks_ok_def)
    moreover have "True \<in> set (map ((!) b) keep)"
      using bits(1)[OF e] i assms(2) \<open>processor_key env en r = Some k\<close> by (auto simp: image_iff intro!: bexI[of _ i])
    ultimately show ?thesis by (force simp: image_iff)
  qed
  moreover have "masks_ok env en ?kept ?d"
  proof -
    have "bits = map (\<lambda>r. processor_key env en r = Some k) ?kept \<and> True \<in> set bits \<and> loads_to env ?kept k p"
      if e: "(k, p, bits) \<in> set ?d" for k p bits
    proof -
      obtain b where b: "(k, p, b) \<in> set d" "bits = map ((!) b) keep" "True \<in> set bits" using e by auto
      have "set ?kept \<subseteq> set rs" using assms(2) by auto
      then have "loads_to env ?kept k p" using bits(2)[OF b(1)] by (auto simp: loads_to_def)
      then show ?thesis using b(2,3) bits(1)[OF b(1)] assms(2) by (simp add: map_nth)
    qed
    then show ?thesis
      unfolding masks_ok_def
      using distinct_filter_keys[of d _ "\<lambda>b. map ((!) b) keep"] keys assms(1) by (auto simp: masks_ok_def)
  qed
  ultimately show ?thesis by fastforce
qed

text \<open>Merging.\<close>

lemma map_of_masks:
  assumes "masks_ok env en rs d"
  shows "map_of d k = None \<Longrightarrow> replicate (length rs) False = map (\<lambda>r. processor_key env en r = Some k) rs"
    and "map_of d k = Some (p, bits) \<Longrightarrow>
      bits = map (\<lambda>r. processor_key env en r = Some k) rs \<and> True \<in> set bits \<and> loads_to env rs k p"
proof -
  assume "map_of d k = None"
  then have "\<forall>r \<in> set rs. processor_key env en r \<noteq> Some k" using assms by (auto simp: masks_ok_def map_of_eq_None_iff)
  then have "map (\<lambda>r. processor_key env en r = Some k) rs = map (\<lambda>_. False) rs" by simp
  then show "replicate (length rs) False = map (\<lambda>r. processor_key env en r = Some k) rs"
    by (simp only: map_replicate_const)
next
  assume "map_of d k = Some (p, bits)"
  then have "(k, p, bits) \<in> set d" by (rule map_of_SomeD)
  then show "bits = map (\<lambda>r. processor_key env en r = Some k) rs \<and> True \<in> set bits \<and> loads_to env rs k p"
    using assms by (auto simp: masks_ok_def)
qed

text \<open>A processor loaded for one request is the processor of every request with its key.\<close>

lemma loads_to_extend:
  assumes "inj_on (se_hash env) (strings (rs @ rs'))" "loads_to env rs k p"
    "\<exists>r \<in> set rs. processor_key env en r = Some k"
  shows "loads_to env (rs @ rs') k p"
proof -
  obtain r s where s: "r \<in> set rs" "b_custom_logit_processor r = Some s" "se_hash env s = k"
    using assms(3) by (auto simp: processor_key_hash)
  have "se_from_str env t = Inr p" if "r' \<in> set (rs @ rs')" "b_custom_logit_processor r' = Some t" "se_hash env t = k" for r' t
  proof -
    have "t = s" using that s assms(1) by (auto simp: inj_on_def strings_def)
    then show ?thesis using assms(2) s by (auto simp: loads_to_def)
  qed
  then show ?thesis by (auto simp: loads_to_def)
qed

lemma masks_True: "True \<in> set (map P rs) \<longleftrightarrow> (\<exists>r \<in> set rs. P r)"
  by (auto simp: image_iff)

lemma merged_entry:
  assumes "masks_ok env en rs d" "masks_ok env en rs' d'" "inj_on (se_hash env) (strings (rs @ rs'))"
    "k \<in> fst ` set d \<union> fst ` set d'"
  shows "\<exists>p. merge_entry d d' (length rs) (length rs') k =
           Inr (k, p, map (\<lambda>r. processor_key env en r = Some k) (rs @ rs')) \<and>
         loads_to env (rs @ rs') k p \<and> (\<exists>r \<in> set (rs @ rs'). processor_key env en r = Some k)"
proof (cases "map_of d k")
  case None
  then obtain p bits where r: "map_of d' k = Some (p, bits)"
    using assms(4) by (metis UnE map_of_eq_None_iff not_None_eq surj_pair)
  note right = map_of_masks(2)[OF assms(2) r]
  have "strings (rs' @ rs) = strings (rs @ rs')" by (auto simp: strings_def)
  then have "loads_to env (rs' @ rs) k p"
    using loads_to_extend[of env rs' rs k p en] assms(3) right by (auto simp: masks_True)
  then show ?thesis
    using None r right map_of_masks(1)[OF assms(1) None]
    by (auto simp: merge_entry_def masks_True loads_to_def)
next
  case (Some e)
  obtain p bits where l: "map_of d k = Some (p, bits)" using Some by (cases e) auto
  note left = map_of_masks(2)[OF assms(1) l]
  have "loads_to env (rs @ rs') k p"
    using loads_to_extend[OF assms(3), of k p en] left by (auto simp: masks_True)
  moreover have "(case map_of d' k of None \<Rightarrow> replicate (length rs') False | Some (_, m) \<Rightarrow> m) =
                 map (\<lambda>r. processor_key env en r = Some k) rs'"
    using map_of_masks[OF assms(2), of k] by (auto split: option.split)
  ultimately show ?thesis using l left by (auto simp: merge_entry_def masks_True)
qed

lemma merged_masks:
  assumes "masks_ok env en rs d" "masks_ok env en rs' d'" "inj_on (se_hash env) (strings (rs @ rs'))"
  shows "\<exists>m. mapE (merge_entry d d' (length rs) (length rs')) (remdups (map fst d @ map fst d')) = Inr m \<and>
           masks_ok env en (rs @ rs') m"
proof -
  let ?keys = "remdups (map fst d @ map fst d')"
  have "\<forall>k \<in> set ?keys. \<exists>p. merge_entry d d' (length rs) (length rs') k =
           Inr (k, p, map (\<lambda>r. processor_key env en r = Some k) (rs @ rs')) \<and>
         loads_to env (rs @ rs') k p \<and> (\<exists>r \<in> set (rs @ rs'). processor_key env en r = Some k)"
    using merged_entry[OF assms] by simp
  then obtain q where q: "\<forall>k \<in> set ?keys. merge_entry d d' (length rs) (length rs') k =
           Inr (k, q k, map (\<lambda>r. processor_key env en r = Some k) (rs @ rs')) \<and>
         loads_to env (rs @ rs') k (q k) \<and> (\<exists>r \<in> set (rs @ rs'). processor_key env en r = Some k)"
    by (rule bchoice[elim_format]) blast
  let ?m = "map (\<lambda>k. (k, q k, map (\<lambda>r. processor_key env en r = Some k) (rs @ rs'))) ?keys"
  have "mapE (merge_entry d d' (length rs) (length rs')) ?keys = Inr ?m"
    by (rule mapE_Inr) (use q in blast)
  moreover have "masks_ok env en (rs @ rs') ?m"
    unfolding masks_ok_def
  proof (intro conjI)
    show "distinct (map fst ?m)" by (simp add: comp_def)
    show "\<forall>(k, p, bits) \<in> set ?m. bits = map (\<lambda>r. processor_key env en r = Some k) (rs @ rs') \<and> True \<in> set bits \<and>
            loads_to env (rs @ rs') k p"
      using q by (auto simp: masks_True simp del: map_append)
    show "\<forall>r \<in> set (rs @ rs'). \<forall>k. processor_key env en r = Some k \<longrightarrow> k \<in> fst ` set ?m"
      using assms(1,2) by (auto simp: masks_ok_def image_iff)
  qed
  ultimately show ?thesis by blast
qed

section \<open>The operations on the rows\<close>

lemma sampled_start:
  assumes "complete_keys (se_keys env)" "\<forall>r \<in> set reqs. pen_ok V (pen_key (b_req r))"
    "\<forall>r \<in> set reqs. - (2 ^ 31) \<le> sp_top_k (b_params r) \<and> sp_top_k (b_params r) < 2 ^ 31"
    "en \<Longrightarrow> strings_ok env reqs"
  shows "\<exists>s. from_schedule_batch env en V reqs = Inr s \<and> sampled env en V (map (\<lambda>r. (r, [])) reqs) s"
proof -
  have ks: "mapE (\<lambda>r. to_int32 (sp_top_k (b_params r))) reqs = Inr (map (\<lambda>r. sp_top_k (b_params r)) reqs)"
    by (rule mapE_Inr) (use assms(3) in \<open>auto simp: to_int32_def\<close>)
  obtain orc where orc: "orchestrator_init (se_float env) V (se_keys env) (map b_req reqs) = Inr orc"
    "orchestrated (se_float env) V (se_keys env) (map joined (map b_req reqs)) orc"
    using init_orchestrated[OF assms(1), of "map b_req reqs" V "se_float env"] assms(2) by auto
  have rows: "orchestrated (se_float env) V (se_keys env) (pen_rows (map (\<lambda>r. (r, [])) reqs)) orc"
    using orc(2) by (simp add: joined_def comp_def)
  let ?has = "en \<and> (\<exists>r \<in> set reqs. truthy_str (b_custom_logit_processor r))"
  show ?thesis
  proof (cases ?has)
    case True
    obtain d where d: "load_processors env (length reqs) (processor_dict reqs) [] = Inr d" "masks_ok env en reqs d"
      using True loaded_masks[of env reqs] assms(4) by auto
    show ?thesis
      unfolding from_schedule_batch_def Let_def ks
      using True d orc(1) rows by (auto simp: sampled_def customised_def comp_def list_all2_conv_all_nth)
  next
    case False
    then have "processor_key env en r = None" if "r \<in> set reqs" for r
      using that assms(4)
      by (cases "b_custom_logit_processor r") (auto simp: processor_key_def strings_ok_def strings_def truthy_str_def)
    then show ?thesis
      unfolding from_schedule_batch_def Let_def ks
      using False orc(1) rows by (auto simp: sampled_def customised_def comp_def)
  qed
qed

lemma customised_filter:
  assumes "customised env en rs s" "\<forall>i \<in> set keep. i < length rs" "si_has_custom s"
  shows "\<exists>s'. filter_batch_custom_logit_processor keep s = Inr s' \<and> customised env en (map ((!) rs) keep) s' \<and>
           s' = s\<lparr>si_custom_logit_processor := si_custom_logit_processor s',
                 si_custom_params := si_custom_params s', si_has_custom := si_has_custom s'\<rparr>"
proof -
  obtain d ps where d: "si_custom_logit_processor s = Some d" "masks_ok env en rs d" "si_custom_params s = Some ps"
    "list_all2 (\<lambda>r p. processor_key env en r \<noteq> None \<longrightarrow> p = sp_custom_params (b_params r)) rs ps"
    using assms(1,3) by (auto simp: customised_def split: option.splits)
  obtain d' where d': "filter_processors keep d = Inr d'" "masks_ok env en (map ((!) rs) keep) d'"
    "d' = [] \<longrightarrow> (\<forall>r \<in> set (map ((!) rs) keep). processor_key env en r = None)"
    using filtered_masks[OF d(2) assms(2)] by auto
  have "pick keep ps = Inr (map ((!) ps) keep)" using assms(2) d(4) by (simp add: pick_def list_all2_lengthD)
  moreover have "list_all2 (\<lambda>r p. processor_key env en r \<noteq> None \<longrightarrow> p = sp_custom_params (b_params r))
                   (map ((!) rs) keep) (map ((!) ps) keep)"
    using assms(2) d(4) by (auto simp: list_all2_conv_all_nth)
  ultimately show ?thesis
    using d d' assms(3) by (auto simp: filter_batch_custom_logit_processor_def attr_def customised_def)
qed

lemma customised_tensors [simp]:
  "customised env en rs (s\<lparr>si_orchestrator := orc, si_temperatures := ts, si_top_ps := tps, si_top_ks := tks,
     si_min_ps := mps\<rparr>) = customised env en rs s"
  by (simp add: customised_def split: option.split)

lemma sampled_filter:
  assumes "complete_keys (se_keys env)" "sampled env en V rows s" "\<forall>i \<in> set keep. i < length rows"
    "map pen_key reqs = map (\<lambda>i. pen_key (b_req (fst (rows ! i)))) keep"
  shows "\<exists>s'. sampling_filter (se_float env) reqs keep s = Inr s' \<and> sampled env en V (map ((!) rows) keep) s'"
proof -
  have rows: "map ((!) (pen_rows rows)) keep = pen_rows (map ((!) rows) keep)"
    using assms(3) by simp
  have "\<exists>orc. orchestrator_filter (se_float env) reqs keep (si_orchestrator s) = Inr orc \<and>
          orchestrated (se_float env) V (se_keys env) (map ((!) (pen_rows rows)) keep) orc"
    by (rule filter_orchestrated[OF assms(1)]) (use assms(2,3,4) in \<open>auto simp: sampled_def split_beta\<close>)
  then obtain orc where orc: "orchestrator_filter (se_float env) reqs keep (si_orchestrator s) = Inr orc"
    "orchestrated (se_float env) V (se_keys env) (pen_rows (map ((!) rows) keep)) orc" unfolding rows by blast
  have sub: "set (map ((!) rows) keep) \<subseteq> set rows" using assms(3) by auto
  have fst_rows: "map ((!) (map fst rows)) keep = map fst (map ((!) rows) keep)" using assms(3) by simp
  have cust: "customised env en (map fst rows) s" using assms(2) by (simp add: sampled_def)
  have "\<exists>s1. (if si_has_custom s then filter_batch_custom_logit_processor keep s else Inr s) = Inr s1 \<and>
          customised env en (map fst (map ((!) rows) keep)) s1 \<and>
          s1 = s\<lparr>si_custom_logit_processor := si_custom_logit_processor s1,
                si_custom_params := si_custom_params s1, si_has_custom := si_has_custom s1\<rparr>"
  proof (cases "si_has_custom s")
    case True
    then show ?thesis using customised_filter[OF cust _ True, of keep] assms(3) unfolding fst_rows by simp
  next
    case False
    then show ?thesis using cust assms(3) by (auto simp: customised_def split: option.splits)
  qed
  then obtain s1 where s1: "(if si_has_custom s then filter_batch_custom_logit_processor keep s else Inr s) = Inr s1"
    "customised env en (map fst (map ((!) rows) keep)) s1"
    "s1 = s\<lparr>si_custom_logit_processor := si_custom_logit_processor s1,
            si_custom_params := si_custom_params s1, si_has_custom := si_has_custom s1\<rparr>" by blast
  have same: "si_temperatures s1 = si_temperatures s" "si_top_ps s1 = si_top_ps s" "si_top_ks s1 = si_top_ks s"
    "si_min_ps s1 = si_min_ps s" "si_is_all_greedy s1 = si_is_all_greedy s" "si_vocab_size s1 = si_vocab_size s"
    "si_need_min_p_sampling s1 = si_need_min_p_sampling s"
    by (subst s1(3); simp)+
  have greedy: "si_is_all_greedy s \<longrightarrow> (\<forall>(r, h) \<in> set (map ((!) rows) keep). sp_top_k (b_params r) \<le> 1)"
    using assms(2) sub unfolding sampled_def by blast
  have minp: "(\<exists>(r, h) \<in> set (map ((!) rows) keep). float_lt (Fin 0) (sp_min_p (b_params r))) \<longrightarrow> si_need_min_p_sampling s"
    using assms(2) sub unfolding sampled_def by blast
  let ?s' = "s1\<lparr>si_orchestrator := orc,
      si_temperatures := map (\<lambda>(r, h). f_of (se_float env) (sp_temperature (b_params r))) (map ((!) rows) keep),
      si_top_ps := map (\<lambda>(r, h). f_of (se_float env) (sp_top_p (b_params r))) (map ((!) rows) keep),
      si_top_ks := map (\<lambda>(r, h). sp_top_k (b_params r)) (map ((!) rows) keep),
      si_min_ps := map (\<lambda>(r, h). f_of (se_float env) (sp_min_p (b_params r))) (map ((!) rows) keep)\<rparr>"
  have "sampling_filter (se_float env) reqs keep s = Inr ?s'"
    using assms(2,3) orc(1) s1(1) by (simp add: sampling_filter_def sampled_def same pick_map)
  moreover have "sampled env en V (map ((!) rows) keep) ?s'"
    using assms(2) orc(2) s1(2) greedy minp by (simp add: sampled_def same del: map_map)
  ultimately show ?thesis by blast
qed

text \<open>The parameters of a side without processors are filled up; they are not read.\<close>

lemma customised_params:
  assumes "customised env en rs s" "length rs = n"
  shows "list_all2 (\<lambda>r p. processor_key env en r \<noteq> None \<longrightarrow> p = sp_custom_params (b_params r)) rs
           (params_or_none n (si_custom_params s))"
proof (cases "si_custom_params s")
  case None
  then show ?thesis
    using assms by (auto simp: customised_def params_or_none_def list_all2_conv_all_nth split: option.splits)
next
  case (Some ps)
  then show ?thesis
    using assms by (auto simp: customised_def params_or_none_def split: option.splits)
qed

lemma customised_masks: "customised env en rs s \<Longrightarrow> masks_ok env en rs (processors_of (si_custom_logit_processor s))"
  by (auto simp: customised_def masks_ok_def processors_of_def split: option.splits)

lemma customised_flag: "customised env en rs s \<Longrightarrow> si_has_custom s \<longleftrightarrow> si_custom_logit_processor s \<noteq> None"
  by (auto simp: customised_def split: option.splits)

lemma customised_merge:
  assumes "customised env en rs s" "customised env en rs' s'" "inj_on (se_hash env) (strings (rs @ rs'))"
    "si_len s = length rs" "si_len s' = length rs'"
  shows "\<exists>m. merge_custom s s' = Inr m \<and> customised env en (rs @ rs') m \<and>
           m = s\<lparr>si_custom_logit_processor := si_custom_logit_processor m,
                 si_custom_params := si_custom_params m, si_has_custom := si_has_custom m\<rparr>"
proof (cases "si_has_custom s \<or> si_has_custom s'")
  case True
  obtain m where m: "mapE (merge_entry (processors_of (si_custom_logit_processor s)) (processors_of (si_custom_logit_processor s'))
        (length rs) (length rs')) (remdups (map fst (processors_of (si_custom_logit_processor s)) @
        map fst (processors_of (si_custom_logit_processor s')))) = Inr m" "masks_ok env en (rs @ rs') m"
    using merged_masks[OF customised_masks[OF assms(1)] customised_masks[OF assms(2)] assms(3)] by blast
  have "merge_custom_logit_processor (si_custom_logit_processor s) (si_custom_logit_processor s')
          (length rs) (length rs') = Inr (Some m)"
    unfolding merge_custom_logit_processor_def Let_def m(1)
    using True customised_flag[OF assms(1)] customised_flag[OF assms(2)] by auto
  moreover have "list_all2 (\<lambda>r p. processor_key env en r \<noteq> None \<longrightarrow> p = sp_custom_params (b_params r)) (rs @ rs')
      (params_or_none (length rs) (si_custom_params s) @ params_or_none (length rs') (si_custom_params s'))"
    by (rule list_all2_appendI[OF customised_params[OF assms(1) refl] customised_params[OF assms(2) refl]])
  ultimately show ?thesis using True m(2) assms(4,5) by (simp add: merge_custom_def customised_def)
next
  case False
  then show ?thesis using assms(1,2) by (auto simp: merge_custom_def customised_def split: option.splits)
qed

lemma customised_concat [simp]:
  "customised env en rs (s\<lparr>si_orchestrator := orc, si_temperatures := ts, si_top_ps := tps, si_top_ks := tks,
     si_min_ps := mps, si_is_all_greedy := g, si_need_min_p_sampling := mp\<rparr>) = customised env en rs s"
  by (simp add: customised_def split: option.split)

lemma sampled_merge:
  assumes "complete_keys (se_keys env)" "sampled env en V rows s" "sampled env en V rows' s'"
    "rows \<noteq> []" "rows' \<noteq> []" "map pen_key reqs = map (\<lambda>(r, h). pen_key (b_req r)) rows"
    "map pen_key reqs' = map (\<lambda>(r, h). pen_key (b_req r)) rows'"
    "inj_on (se_hash env) (strings (map fst rows @ map fst rows'))"
  shows "\<exists>m. sampling_merge (se_float env) reqs reqs' s s' = Inr m \<and> sampled env en V (rows @ rows') m"
proof -
  have "\<exists>orc. orchestrator_merge (se_float env) reqs reqs' (si_orchestrator s) (si_orchestrator s') = Inr orc \<and>
          orchestrated (se_float env) V (se_keys env) (pen_rows rows @ pen_rows rows') orc"
    by (rule merge_orchestrated[OF assms(1)]) (use assms(2-7) in \<open>auto simp: sampled_def split_beta comp_def\<close>)
  then obtain orc where orc: "orchestrator_merge (se_float env) reqs reqs' (si_orchestrator s) (si_orchestrator s') = Inr orc"
    "orchestrated (se_float env) V (se_keys env) (pen_rows (rows @ rows')) orc" by auto
  have cust: "customised env en (map fst rows) s" "customised env en (map fst rows') s'"
    using assms(2,3) by (simp_all add: sampled_def)
  have len: "si_len s = length (map fst rows)" "si_len s' = length (map fst rows')"
    using assms(2,3) by (simp_all add: sampled_def)
  obtain s1 where s1: "merge_custom s s' = Inr s1" "customised env en (map fst (rows @ rows')) s1"
    "s1 = s\<lparr>si_custom_logit_processor := si_custom_logit_processor s1,
            si_custom_params := si_custom_params s1, si_has_custom := si_has_custom s1\<rparr>"
    using customised_merge[OF cust assms(8) len] unfolding map_append by blast
  have same: "si_temperatures s1 = si_temperatures s" "si_top_ps s1 = si_top_ps s" "si_top_ks s1 = si_top_ks s"
    "si_min_ps s1 = si_min_ps s" "si_is_all_greedy s1 = si_is_all_greedy s" "si_vocab_size s1 = si_vocab_size s"
    "si_need_min_p_sampling s1 = si_need_min_p_sampling s"
    by (subst s1(3); simp)+
  let ?m = "s1\<lparr>si_orchestrator := orc, si_temperatures := si_temperatures s1 @ si_temperatures s',
      si_top_ps := si_top_ps s1 @ si_top_ps s', si_top_ks := si_top_ks s1 @ si_top_ks s',
      si_min_ps := si_min_ps s1 @ si_min_ps s', si_is_all_greedy := si_is_all_greedy s1 \<and> si_is_all_greedy s',
      si_need_min_p_sampling := si_need_min_p_sampling s1 \<or> si_need_min_p_sampling s'\<rparr>"
  have "sampling_merge (se_float env) reqs reqs' s s' = Inr ?m"
    unfolding sampling_merge_def orc(1) bindE_simps s1(1) ..
  moreover have "sampled env en V (rows @ rows') ?m"
    using assms(2,3) orc(2) s1(2) by (simp add: sampled_def same ball_Un bex_Un)
  ultimately show ?thesis by blast
qed

end
