(* ===== verification/Batch_Rows.thy ===== *)
theory Batch_Rows
  imports Sampling_Batch Batch_Memory
begin

text \<open>
  \<open>managers/schedule_batch.py\<close>, class \<open>ScheduleBatch\<close>: the columns of a running batch and the operations
  that keep them aligned, \<open>filter_batch\<close>, \<open>merge_batch\<close> and \<open>prepare_for_decode\<close>.  Speculative decoding
  (\<open>spec_info\<close>) is not modelled; requests are identified by their \<open>rid\<close>.
\<close>

section \<open>The batch\<close>

datatype ForwardMode = EXTEND | DECODE | MIXED | IDLE | TARGET_VERIFY | DRAFT_EXTEND | DUMMY_FIRST

record ('f, 'p) ScheduleBatch =
  sb_reqs :: "batch_req list"
  sb_forward_mode :: ForwardMode
  sb_encoder_lens :: "nat list"
  sb_encoder_lens_cpu :: "nat list"
  sb_multimodal_inputs :: "nat option list option"
  sb_req_pool_indices :: "nat list"
  sb_seq_lens :: "nat list"
  sb_seq_lens_sum :: nat
  sb_input_ids :: "int list option"
  sb_output_ids :: "int list option"
  sb_out_cache_loc :: "int list option"
  sb_return_logprob :: bool
  sb_top_logprobs_nums :: "int list option"
  sb_token_ids_logprobs :: "int list option list option"
  sb_has_stream :: bool
  sb_has_grammar :: bool
  sb_return_hidden_states :: bool
  sb_sampling_info :: "('f, 'p) SamplingBatchInfo"

record batch_cfg =
  bc_encoder_decoder :: bool
  bc_enable_overlap :: bool

text \<open>A list or tensor indexed by \<open>keep_indices\<close>, when the attribute is set.\<close>

definition pick_opt :: "nat list \<Rightarrow> 'a list option \<Rightarrow> 'a list option result" where
  "pick_opt keep xs = (case xs of None \<Rightarrow> Inl TypeError | Some ys \<Rightarrow> bindE (pick keep ys) (\<lambda>zs. Inr (Some zs)))"

definition keep_indices :: "string list \<Rightarrow> batch_req list \<Rightarrow> nat list" where
  "keep_indices exclude reqs =
     filter (\<lambda>i. \<not> req_finished (b_req (reqs ! i)) \<and> q_rid (b_req (reqs ! i)) \<notin> set exclude) [0..<length reqs]"

definition filter_encoder ::
  "batch_cfg \<Rightarrow> nat list \<Rightarrow> ('f, 'p) ScheduleBatch \<Rightarrow> ('f, 'p) ScheduleBatch result" where
  "filter_encoder cfg keep b =
     (if bc_encoder_decoder cfg
      then bindE (pick keep (sb_encoder_lens b)) (\<lambda>el. bindE (pick keep (sb_encoder_lens_cpu b)) (\<lambda>ec.
             Inr (b\<lparr>sb_encoder_lens := el, sb_encoder_lens_cpu := ec\<rparr>)))
      else Inr b)"

text \<open>The log probability settings of the requests that stay.\<close>

definition filter_logprobs ::
  "nat list \<Rightarrow> batch_req list \<Rightarrow> ('f, 'p) ScheduleBatch \<Rightarrow> ('f, 'p) ScheduleBatch result" where
  "filter_logprobs keep reqs b =
     (if \<exists>r \<in> set reqs. q_return_logprob (b_req r)
      then bindE (pick_opt keep (sb_top_logprobs_nums b)) (\<lambda>ns.
           bindE (pick_opt keep (sb_token_ids_logprobs b)) (\<lambda>ts.
             Inr (b\<lparr>sb_return_logprob := True, sb_top_logprobs_nums := ns, sb_token_ids_logprobs := ts\<rparr>)))
      else Inr (b\<lparr>sb_return_logprob := False, sb_top_logprobs_nums := None, sb_token_ids_logprobs := None\<rparr>))"

definition filter_to ::
  "batch_cfg \<Rightarrow> 'f torch_float \<Rightarrow> nat list \<Rightarrow> ('f, 'p) ScheduleBatch \<Rightarrow> ('f, 'p) ScheduleBatch result" where
  "filter_to cfg F keep b =
     bindE (filter_encoder cfg keep b) (\<lambda>b1.
     bindE (pick keep (sb_reqs b1)) (\<lambda>reqs.
     bindE (case sb_multimodal_inputs b1 of
              None \<Rightarrow> Inr None | Some mm \<Rightarrow> bindE (pick keep mm) (\<lambda>x. Inr (Some x))) (\<lambda>mm.
     bindE (pick keep (sb_req_pool_indices b1)) (\<lambda>pool.
     bindE (pick keep (sb_seq_lens b1)) (\<lambda>lens.
     bindE (pick_opt keep (sb_output_ids b1)) (\<lambda>outs.
     bindE (filter_logprobs keep reqs (b1\<lparr>sb_reqs := reqs, sb_multimodal_inputs := mm, sb_req_pool_indices := pool,
              sb_seq_lens := lens, sb_out_cache_loc := None, sb_seq_lens_sum := sum_list lens,
              sb_output_ids := outs\<rparr>)) (\<lambda>b2.
     bindE (sampling_filter F (map b_req reqs) keep (sb_sampling_info b2)) (\<lambda>si.
       Inr (b2\<lparr>sb_has_stream := \<exists>r \<in> set reqs. q_stream (b_req r),
               sb_has_grammar := \<exists>r \<in> set reqs. q_grammar (b_req r) \<noteq> None,
               sb_sampling_info := si\<rparr>)))))))))"

definition filter_batch ::
  "batch_cfg \<Rightarrow> 'f torch_float \<Rightarrow> string list \<Rightarrow> nat list option \<Rightarrow> ('f, 'p) ScheduleBatch
     \<Rightarrow> ('f, 'p) ScheduleBatch result" where
  "filter_batch cfg F exclude keep b =
     (let ks = (case keep of Some ks \<Rightarrow> ks | None \<Rightarrow> keep_indices exclude (sb_reqs b))
      in if ks = [] then Inr (b\<lparr>sb_reqs := []\<rparr>)
         else if length ks = length (sb_reqs b) then Inr b
         else filter_to cfg F ks b)"

section \<open>Merging\<close>

text \<open>A side that returns no log probabilities is filled up.\<close>

definition merge_logprobs ::
  "('f, 'p) ScheduleBatch \<Rightarrow> ('f, 'p) ScheduleBatch
     \<Rightarrow> (int list option \<times> int list option list option) result" where
  "merge_logprobs b other =
     (let n = length (sb_reqs b); n' = length (sb_reqs other) in
      if sb_return_logprob b \<and> sb_return_logprob other
      then bindE (attr (sb_top_logprobs_nums b)) (\<lambda>ns. bindE (attr (sb_top_logprobs_nums other)) (\<lambda>ns'.
           bindE (attr (sb_token_ids_logprobs b)) (\<lambda>ts. bindE (attr (sb_token_ids_logprobs other)) (\<lambda>ts'.
             Inr (Some (ns @ ns'), Some (ts @ ts'))))))
      else if sb_return_logprob b
      then bindE (attr (sb_top_logprobs_nums b)) (\<lambda>ns. bindE (attr (sb_token_ids_logprobs b)) (\<lambda>ts.
             Inr (Some (ns @ replicate n' 0), Some (ts @ replicate n' None))))
      else if sb_return_logprob other
      then bindE (attr (sb_top_logprobs_nums other)) (\<lambda>ns'. bindE (attr (sb_token_ids_logprobs other)) (\<lambda>ts'.
             Inr (Some (replicate n 0 @ ns'), Some (replicate n None @ ts'))))
      else Inr (sb_top_logprobs_nums b, sb_token_ids_logprobs b))"

text \<open>Concatenation to an attribute that may be missing: the other side must then have it.\<close>

definition cat_opt :: "'a list option \<Rightarrow> 'a list option \<Rightarrow> 'a list option result" where
  "cat_opt x y =
     (case x of None \<Rightarrow> Inr None
      | Some xs \<Rightarrow> (case y of None \<Rightarrow> Inl TypeError | Some ys \<Rightarrow> Inr (Some (xs @ ys))))"

definition merge_batch ::
  "batch_cfg \<Rightarrow> 'f torch_float \<Rightarrow> ('f, 'p) ScheduleBatch \<Rightarrow> ('f, 'p) ScheduleBatch \<Rightarrow> ('f, 'p) ScheduleBatch result" where
  "merge_batch cfg F b other =
     bindE (sampling_merge F (map b_req (sb_reqs b)) (map b_req (sb_reqs other)) (sb_sampling_info b)
              (sb_sampling_info other)) (\<lambda>si.
     bindE (cat_opt (sb_output_ids b) (sb_output_ids other)) (\<lambda>outs.
     bindE (merge_logprobs b other) (\<lambda>(ns, ts).
     bindE (cat_opt (sb_multimodal_inputs b) (sb_multimodal_inputs other)) (\<lambda>mm.
       Inr (b\<lparr>sb_sampling_info := si,
              sb_encoder_lens := (if bc_encoder_decoder cfg then sb_encoder_lens b @ sb_encoder_lens other
                                  else sb_encoder_lens b),
              sb_encoder_lens_cpu := (if bc_encoder_decoder cfg then sb_encoder_lens_cpu b @ sb_encoder_lens_cpu other
                                      else sb_encoder_lens_cpu b),
              sb_req_pool_indices := sb_req_pool_indices b @ sb_req_pool_indices other,
              sb_seq_lens := sb_seq_lens b @ sb_seq_lens other, sb_out_cache_loc := None,
              sb_seq_lens_sum := sb_seq_lens_sum b + sb_seq_lens_sum other, sb_output_ids := outs,
              sb_top_logprobs_nums := ns, sb_token_ids_logprobs := ts,
              sb_reqs := sb_reqs b @ sb_reqs other, sb_multimodal_inputs := mm,
              sb_return_logprob := sb_return_logprob b \<or> sb_return_logprob other,
              sb_has_stream := sb_has_stream b \<or> sb_has_stream other,
              sb_has_grammar := sb_has_grammar b \<or> sb_has_grammar other,
              sb_return_hidden_states := sb_return_hidden_states b \<or> sb_return_hidden_states other\<rparr>)))))"

section \<open>A decode step\<close>

definition batch_penalties ::
  "batch_cfg \<Rightarrow> 'f torch_float \<Rightarrow> ('f, 'p) ScheduleBatch \<Rightarrow> ('f, 'p) SamplingBatchInfo result" where
  "batch_penalties cfg F b =
     (let si = sb_sampling_info b; orc = si_orchestrator si in
      if o_is_required orc \<and> \<not> bc_enable_overlap cfg \<and> sb_output_ids b = None then Inl AttributeError
      else bindE (decode_penalties F (bc_enable_overlap cfg) (map b_req (sb_reqs b))
                    (case sb_output_ids b of None \<Rightarrow> [] | Some ids \<Rightarrow> ids) orc)
             (\<lambda>orc'. Inr (si\<lparr>si_orchestrator := orc'\<rparr>)))"

text \<open>\<open>req_to_token[(rows, cols)] = vals\<close>: the indices are checked first.\<close>

definition put :: "nat \<times> nat \<times> int \<Rightarrow> int list list \<Rightarrow> int list list" where
  "put e m = (case e of (r, k, v) \<Rightarrow> m[r := (m ! r)[k := v]])"

definition pool_scatter :: "nat list \<Rightarrow> nat list \<Rightarrow> int list \<Rightarrow> ReqToTokenPool \<Rightarrow> unit result \<times> ReqToTokenPool" where
  "pool_scatter rows cols vals p =
     (if length rows \<noteq> length cols \<or> length vals \<noteq> length rows then (Inl (RuntimeError ''shape mismatch''), p)
      else if \<forall>(r, c) \<in> set (zip rows cols). r < length (req_to_token p) \<and> c < length (req_to_token p ! r)
      then (Inr (), p\<lparr>req_to_token :=
             fold put (zip rows (zip cols vals)) (req_to_token p)\<rparr>)
      else (Inl IndexError, p))"

text \<open>
  The slots of the new tokens; \<open>seq_lens\<close> already counts them.  The last token of a sequence is at
  \<open>seq_len - 2\<close>, where a negative index counts from the end of the row.  \<open>buf\<close> is uninitialised memory.
\<close>

definition last_loc_index :: "nat \<Rightarrow> 'a list \<Rightarrow> nat option" where
  "last_loc_index n row =
     (if 2 \<le> n then if n - 2 < length row then Some (n - 2) else None
      else if 2 \<le> length row + n then Some (length row + n - 2) else None)"

definition last_locs :: "nat list \<Rightarrow> nat list \<Rightarrow> ReqToTokenPool \<Rightarrow> int list result" where
  "last_locs pool_idx seq_lens p =
     mapE (\<lambda>(r, n). if r < length (req_to_token p)
                   then case last_loc_index n (req_to_token p ! r) of
                          None \<Rightarrow> Inl IndexError | Some i \<Rightarrow> Inr (req_to_token p ! r ! i)
                   else Inl IndexError) (zip pool_idx seq_lens)"

definition decode_slots ::
  "cache_env \<Rightarrow> int list \<Rightarrow> nat \<Rightarrow> nat list \<Rightarrow> nat list \<Rightarrow> tree_cache \<Rightarrow> (int list option result \<times> tree_cache) option" where
  "decode_slots env buf bs pool_idx seq_lens t =
     (if kv_page_size (tc_allocator t) = 1
      then thenO (alloc_token_slots env bs False t) (\<lambda>(out, _) t1. Some (Inr out, t1))
      else case last_locs pool_idx seq_lens (tc_pool t) of
             Inl e \<Rightarrow> Some (Inl e, t)
           | Inr last_loc \<Rightarrow>
               thenO (alloc_paged_token_slots_decode env buf seq_lens last_loc False t)
                 (\<lambda>(out, _) t1. Some (Inr (Some out), t1)))"

text \<open>A missing result of the allocation has no attribute \<open>to\<close>.\<close>

definition prepare_for_decode ::
  "batch_cfg \<Rightarrow> cache_env \<Rightarrow> 'f torch_float \<Rightarrow> int list \<Rightarrow> ('f, 'p) ScheduleBatch \<Rightarrow> tree_cache
     \<Rightarrow> (unit result \<times> ('f, 'p) ScheduleBatch \<times> tree_cache) option" where
  "prepare_for_decode cfg env F buf b t =
     (let b0 = b\<lparr>sb_forward_mode := DECODE\<rparr> in
      case batch_penalties cfg F b0 of
        Inl e \<Rightarrow> Some (Inl e, b0, t)
      | Inr si \<Rightarrow>
          (let locs = (if bc_encoder_decoder cfg then map2 (+) (sb_encoder_lens b0) (sb_seq_lens b0)
                       else sb_seq_lens b0);
               b1 = b0\<lparr>sb_sampling_info := si, sb_input_ids := sb_output_ids b0, sb_output_ids := None,
                       sb_seq_lens := map Suc (sb_seq_lens b0),
                       sb_seq_lens_sum := sb_seq_lens_sum b0 + length (sb_reqs b0)\<rparr>
           in case decode_slots env buf (length (sb_reqs b1)) (sb_req_pool_indices b1) (sb_seq_lens b1) t of
                None \<Rightarrow> None
              | Some (Inl e, t1) \<Rightarrow> Some (Inl e, b1, t1)
              | Some (Inr None, t1) \<Rightarrow> Some (Inl AttributeError, b1\<lparr>sb_out_cache_loc := None\<rparr>, t1)
              | Some (Inr (Some slots), t1) \<Rightarrow>
                  (case pool_scatter (sb_req_pool_indices b1) locs slots (tc_pool t1) of
                     (r, p) \<Rightarrow> Some (r, b1\<lparr>sb_out_cache_loc := Some slots\<rparr>, tc_set_pool p t1))))"

section \<open>The rows of a batch\<close>

text \<open>What the columns hold about one request, and the tokens counted for its penalties.\<close>

record batch_row =
  w_req :: batch_req
  w_pool_idx :: nat
  w_seq_len :: nat
  w_output_id :: int
  w_encoder_len :: nat
  w_counted :: "int list"

abbreviation w_sched :: "batch_row \<Rightarrow> sched_req" where
  "w_sched w \<equiv> b_req (w_req w)"

abbreviation sam_rows :: "batch_row list \<Rightarrow> sam_row list" where
  "sam_rows rows \<equiv> map (\<lambda>w. (w_req w, w_counted w)) rows"

text \<open>The log probability settings matter for the requests that ask for log probabilities.\<close>

definition logprobs_ok :: "batch_row list \<Rightarrow> int list option \<Rightarrow> int list option list option \<Rightarrow> bool" where
  "logprobs_ok rows ns ts \<longleftrightarrow>
     (\<exists>xs ys. ns = Some xs \<and> ts = Some ys \<and>
        list_all2 (\<lambda>w n. q_return_logprob (w_sched w) \<longrightarrow> n = b_top_logprobs_num (w_req w)) rows xs \<and>
        list_all2 (\<lambda>w t. q_return_logprob (w_sched w) \<longrightarrow> t = b_token_ids_logprob (w_req w)) rows ys)"

definition aligned ::
  "batch_cfg \<Rightarrow> ('f, 'p) sampling_env \<Rightarrow> bool \<Rightarrow> nat \<Rightarrow> batch_row list \<Rightarrow> ('f, 'p) ScheduleBatch \<Rightarrow> bool" where
  "aligned cfg env en V rows b \<longleftrightarrow>
     sb_reqs b = map w_req rows \<and>
     sb_req_pool_indices b = map w_pool_idx rows \<and>
     sb_seq_lens b = map w_seq_len rows \<and> sb_seq_lens_sum b = sum_list (map w_seq_len rows) \<and>
     sb_multimodal_inputs b = Some (map (b_multimodal \<circ> w_req) rows) \<and>
     sb_output_ids b \<in> {None, Some (map w_output_id rows)} \<and>
     (bc_encoder_decoder cfg \<longrightarrow>
        sb_encoder_lens b = map w_encoder_len rows \<and> sb_encoder_lens_cpu b = map w_encoder_len rows) \<and>
     sb_return_logprob b = (\<exists>w \<in> set rows. q_return_logprob (w_sched w)) \<and>
     (sb_return_logprob b \<longrightarrow> logprobs_ok rows (sb_top_logprobs_nums b) (sb_token_ids_logprobs b)) \<and>
     sb_has_stream b = (\<exists>w \<in> set rows. q_stream (w_sched w)) \<and>
     sb_has_grammar b = (\<exists>w \<in> set rows. q_grammar (w_sched w) \<noteq> None) \<and>
     ((\<exists>w \<in> set rows. b_return_hidden_states (w_req w)) \<longrightarrow> sb_return_hidden_states b) \<and>
     sampled env en V (sam_rows rows) (sb_sampling_info b)"

lemma aligned_cols:
  assumes "aligned cfg env en V rows b"
  shows "sb_reqs b = map w_req rows" "sb_req_pool_indices b = map w_pool_idx rows" "sb_seq_lens b = map w_seq_len rows"
    "sb_seq_lens_sum b = sum_list (map w_seq_len rows)"
    "sb_multimodal_inputs b = Some (map (b_multimodal \<circ> w_req) rows)"
    "sb_return_logprob b = (\<exists>w \<in> set rows. q_return_logprob (w_sched w))"
    "sb_has_stream b = (\<exists>w \<in> set rows. q_stream (w_sched w))"
    "sb_has_grammar b = (\<exists>w \<in> set rows. q_grammar (w_sched w) \<noteq> None)"
    "(\<exists>w \<in> set rows. b_return_hidden_states (w_req w)) \<longrightarrow> sb_return_hidden_states b"
  using assms unfolding aligned_def by simp_all

lemma pick_opt_map:
  "\<forall>i \<in> set keep. i < length xs \<Longrightarrow> pick_opt keep (Some (map f xs)) = Inr (Some (map f (map ((!) xs) keep)))"
  by (simp add: pick_opt_def pick_map)

lemma logprobs_pick:
  assumes "logprobs_ok rows ns ts" "\<forall>i \<in> set keep. i < length rows"
  shows "\<exists>ns' ts'. pick_opt keep ns = Inr ns' \<and> pick_opt keep ts = Inr ts' \<and> logprobs_ok (map ((!) rows) keep) ns' ts'"
proof -
  obtain xs ys where x: "ns = Some xs" "ts = Some ys"
    "list_all2 (\<lambda>w n. q_return_logprob (w_sched w) \<longrightarrow> n = b_top_logprobs_num (w_req w)) rows xs"
    "list_all2 (\<lambda>w t. q_return_logprob (w_sched w) \<longrightarrow> t = b_token_ids_logprob (w_req w)) rows ys"
    using assms(1) by (auto simp: logprobs_ok_def)
  then show ?thesis
    using assms(2) by (auto simp: pick_opt_def pick_def logprobs_ok_def list_all2_conv_all_nth)
qed

lemma filter_logprobs_ok:
  assumes "sb_return_logprob b = (\<exists>w \<in> set rows. q_return_logprob (w_sched w))"
    "sb_return_logprob b \<longrightarrow> logprobs_ok rows (sb_top_logprobs_nums b) (sb_token_ids_logprobs b)"
    "\<forall>i \<in> set keep. i < length rows"
  shows "\<exists>ns ts. filter_logprobs keep (map w_req (map ((!) rows) keep)) b =
           Inr (b\<lparr>sb_return_logprob := \<exists>w \<in> set (map ((!) rows) keep). q_return_logprob (w_sched w),
                  sb_top_logprobs_nums := ns, sb_token_ids_logprobs := ts\<rparr>) \<and>
         ((\<exists>w \<in> set (map ((!) rows) keep). q_return_logprob (w_sched w)) \<longrightarrow> logprobs_ok (map ((!) rows) keep) ns ts)"
proof (cases "\<exists>w \<in> set (map ((!) rows) keep). q_return_logprob (w_sched w)")
  case True
  then have "\<exists>w \<in> set rows. q_return_logprob (w_sched w)" using assms(3) by auto
  then have "logprobs_ok rows (sb_top_logprobs_nums b) (sb_token_ids_logprobs b)" using assms(1,2) by simp
  from logprobs_pick[OF this assms(3)] obtain ns ts where
    "pick_opt keep (sb_top_logprobs_nums b) = Inr ns" "pick_opt keep (sb_token_ids_logprobs b) = Inr ts"
    "logprobs_ok (map ((!) rows) keep) ns ts" by blast
  moreover have "\<exists>r \<in> set (map w_req (map ((!) rows) keep)). q_return_logprob (b_req r)" using True by auto
  ultimately show ?thesis using True by (auto simp: filter_logprobs_def simp del: map_map)
next
  case False
  then show ?thesis by (auto simp: filter_logprobs_def)
qed

lemma aligned_filter:
  assumes "complete_keys (se_keys env)" "aligned cfg env en V rows b" "sb_output_ids b \<noteq> None"
    "\<forall>i \<in> set keep. i < length rows"
  shows "\<exists>b'. filter_to cfg (se_float env) keep b = Inr b' \<and> aligned cfg env en V (map ((!) rows) keep) b' \<and>
           sb_output_ids b' \<noteq> None \<and> sb_out_cache_loc b' = None"
proof -
  let ?kept = "map ((!) rows) keep"
  let ?b1 = "b\<lparr>sb_encoder_lens := if bc_encoder_decoder cfg then map w_encoder_len ?kept else sb_encoder_lens b,
               sb_encoder_lens_cpu := if bc_encoder_decoder cfg then map w_encoder_len ?kept else sb_encoder_lens_cpu b\<rparr>"
  let ?b2 = "?b1\<lparr>sb_reqs := map w_req ?kept, sb_multimodal_inputs := Some (map (b_multimodal \<circ> w_req) ?kept),
      sb_req_pool_indices := map w_pool_idx ?kept, sb_seq_lens := map w_seq_len ?kept, sb_out_cache_loc := None,
      sb_seq_lens_sum := sum_list (map w_seq_len ?kept), sb_output_ids := Some (map w_output_id ?kept)\<rparr>"
  note al = assms(2)[unfolded aligned_def]
  note pick = pick_map[OF assms(4)] pick_opt_map[OF assms(4)]
  have enc: "filter_encoder cfg keep b = Inr ?b1"
    using al by (simp add: filter_encoder_def pick del: map_map)
  obtain ns ts where lp: "filter_logprobs keep (map w_req ?kept) ?b2 =
      Inr (?b2\<lparr>sb_return_logprob := \<exists>w \<in> set ?kept. q_return_logprob (w_sched w),
               sb_top_logprobs_nums := ns, sb_token_ids_logprobs := ts\<rparr>)"
    "(\<exists>w \<in> set ?kept. q_return_logprob (w_sched w)) \<longrightarrow> logprobs_ok ?kept ns ts"
    using filter_logprobs_ok[of ?b2 rows keep] al assms(4) by (auto simp del: map_map)
  have keys: "map pen_key (map b_req (map w_req ?kept)) = map (\<lambda>i. pen_key (b_req (fst (sam_rows rows ! i)))) keep"
    using assms(4) by simp
  have samp: "sampled env en V (sam_rows rows) (sb_sampling_info b)" using al by simp
  obtain si where si: "sampling_filter (se_float env) (map b_req (map w_req ?kept)) keep (sb_sampling_info b) = Inr si"
    "sampled env en V (map ((!) (sam_rows rows)) keep) si"
    using sampled_filter[OF assms(1) samp _ keys] assms(4) by auto
  have sam: "map ((!) (sam_rows rows)) keep = sam_rows ?kept" using assms(4) by simp
  let ?b' = "?b2\<lparr>sb_return_logprob := \<exists>w \<in> set ?kept. q_return_logprob (w_sched w),
      sb_top_logprobs_nums := ns, sb_token_ids_logprobs := ts,
      sb_has_stream := \<exists>r \<in> set (map w_req ?kept). q_stream (b_req r),
      sb_has_grammar := \<exists>r \<in> set (map w_req ?kept). q_grammar (b_req r) \<noteq> None, sb_sampling_info := si\<rparr>"
  have "filter_to cfg (se_float env) keep b = Inr ?b'"
    unfolding filter_to_def enc bindE_simps
    using al assms(3) si(1) lp(1) by (simp add: pick del: map_map)
  moreover have "aligned cfg env en V ?kept ?b'"
    using al si(2) lp(2) assms(4) unfolding sam by (auto simp: aligned_def simp del: map_map)
  ultimately show ?thesis by (auto simp del: map_map)
qed

lemma keep_in_range: "\<forall>i \<in> set (keep_indices exclude reqs). i < length reqs"
  by (simp add: keep_indices_def)

text \<open>
  C13: filtering a batch.  On a batch whose columns hold the same requests row by row, with a sampled token per row,
  \<open>filter_batch\<close> succeeds; every column of the result, the sampling tensors, penalties and logit
  processors included, holds exactly the kept rows in the order of the kept indices.  Without
  indices the rows of finished and excluded requests go.  When no row stays only the request list is
  emptied.
\<close>

theorem filter_batch_keeps_rows:
  assumes "complete_keys (se_keys env)" "aligned cfg env en V rows b" "sb_output_ids b \<noteq> None"
    "\<forall>ks. keep = Some ks \<longrightarrow> (\<forall>i \<in> set ks. i < length rows)"
    "ks = (case keep of Some ks \<Rightarrow> ks | None \<Rightarrow> keep_indices exclude (map w_req rows))"
  shows "\<exists>b'. filter_batch cfg (se_float env) exclude keep b = Inr b' \<and>
           (if ks = [] then b' = b\<lparr>sb_reqs := []\<rparr>
            else aligned cfg env en V (if length ks = length rows then rows else map ((!) rows) ks) b')"
proof -
  have reqs: "sb_reqs b = map w_req rows" using assms(2) by (simp add: aligned_def)
  have range: "\<forall>i \<in> set ks. i < length rows"
    using assms(4,5) keep_in_range[of exclude "map w_req rows"] by (auto split: option.splits)
  have "filter_batch cfg (se_float env) exclude keep b =
        (if ks = [] then Inr (b\<lparr>sb_reqs := []\<rparr>) else if length ks = length rows then Inr b
         else filter_to cfg (se_float env) ks b)"
    unfolding filter_batch_def Let_def reqs assms(5)[symmetric] by simp
  then show ?thesis using aligned_filter[OF assms(1-3) range] assms(2) by (auto simp del: map_map)
qed

section \<open>Merging rows\<close>

lemma logprobs_fill:
  "\<not> (\<exists>w \<in> set rows. q_return_logprob (w_sched w)) \<Longrightarrow>
     logprobs_ok rows (Some (replicate (length rows) 0)) (Some (replicate (length rows) None))"
  by (auto simp: logprobs_ok_def list_all2_conv_all_nth)

lemma logprobs_append:
  "logprobs_ok rows (Some xs) (Some ys) \<Longrightarrow> logprobs_ok rows' (Some xs') (Some ys') \<Longrightarrow>
     logprobs_ok (rows @ rows') (Some (xs @ xs')) (Some (ys @ ys'))"
  by (auto simp: logprobs_ok_def intro!: list_all2_appendI)

lemma merge_logprobs_ok:
  assumes "aligned cfg env en V rows b" "aligned cfg env en V rows' b'"
  shows "\<exists>ns ts. merge_logprobs b b' = Inr (ns, ts) \<and>
           (sb_return_logprob b \<or> sb_return_logprob b' \<longrightarrow> logprobs_ok (rows @ rows') ns ts)"
proof -
  have len: "length (sb_reqs b) = length rows" "length (sb_reqs b') = length rows'"
    using assms by (auto simp: aligned_def)
  have fill: "\<exists>xs ys. (if sb_return_logprob c then (sb_top_logprobs_nums c, sb_token_ids_logprobs c)
                       else (Some (replicate (length rs) 0), Some (replicate (length rs) None))) = (Some xs, Some ys) \<and>
                logprobs_ok rs (Some xs) (Some ys)"
    if "aligned cfg env en V rs c" for rs and c :: "('a, 'b) ScheduleBatch"
    using that logprobs_fill[of rs] by (auto simp: aligned_def logprobs_ok_def)
  obtain xs ys where x: "(if sb_return_logprob b then (sb_top_logprobs_nums b, sb_token_ids_logprobs b)
                       else (Some (replicate (length rows) 0), Some (replicate (length rows) None))) = (Some xs, Some ys)"
    "logprobs_ok rows (Some xs) (Some ys)" using fill[OF assms(1)] by blast
  obtain xs' ys' where x': "(if sb_return_logprob b' then (sb_top_logprobs_nums b', sb_token_ids_logprobs b')
                       else (Some (replicate (length rows') 0), Some (replicate (length rows') None))) = (Some xs', Some ys')"
    "logprobs_ok rows' (Some xs') (Some ys')" using fill[OF assms(2)] by blast
  show ?thesis
    using logprobs_append[OF x(2) x'(2)] x(1) x'(1)
    by (cases "sb_return_logprob b"; cases "sb_return_logprob b'")
      (auto simp: merge_logprobs_def Let_def attr_def len)
qed

lemma merge_batch_aligned:
  assumes "complete_keys (se_keys env)" "aligned cfg env en V rows b" "aligned cfg env en V rows' other"
    "rows \<noteq> []" "rows' \<noteq> []" "inj_on (se_hash env) (strings (map w_req (rows @ rows')))"
    "sb_output_ids b \<noteq> None \<longrightarrow> sb_output_ids other \<noteq> None"
  shows "\<exists>b'. merge_batch cfg (se_float env) b other = Inr b' \<and> aligned cfg env en V (rows @ rows') b'"
proof -
  note al = assms(2)[unfolded aligned_def] and al' = assms(3)[unfolded aligned_def]
  note cols = aligned_cols[OF assms(2)] and cols' = aligned_cols[OF assms(3)]
  have "\<exists>si. sampling_merge (se_float env) (map b_req (sb_reqs b)) (map b_req (sb_reqs other))
               (sb_sampling_info b) (sb_sampling_info other) = Inr si \<and>
          sampled env en V (sam_rows rows @ sam_rows rows') si"
    by (rule sampled_merge[OF assms(1)]) (use al al' assms(4-6) in \<open>auto simp: comp_def\<close>)
  then obtain si where si: "sampling_merge (se_float env) (map b_req (sb_reqs b)) (map b_req (sb_reqs other))
      (sb_sampling_info b) (sb_sampling_info other) = Inr si" "sampled env en V (sam_rows (rows @ rows')) si"
    by auto
  obtain ns ts where lp: "merge_logprobs b other = Inr (ns, ts)"
    "sb_return_logprob b \<or> sb_return_logprob other \<longrightarrow> logprobs_ok (rows @ rows') ns ts"
    using merge_logprobs_ok[OF assms(2,3)] by blast
  have out: "sb_output_ids b \<in> {None, Some (map w_output_id rows)}"
    "sb_output_ids other \<in> {None, Some (map w_output_id rows')}" using al al' by simp_all
  obtain outs where outs: "cat_opt (sb_output_ids b) (sb_output_ids other) = Inr outs"
    "outs \<in> {None, Some (map w_output_id (rows @ rows'))}"
    using out assms(7) by (auto simp: cat_opt_def)
  have mm: "cat_opt (sb_multimodal_inputs b) (sb_multimodal_inputs other) =
            Inr (Some (map (b_multimodal \<circ> w_req) (rows @ rows')))"
    by (simp add: cols(5) cols'(5) cat_opt_def)
  have hid: "(\<exists>w \<in> set (rows @ rows'). b_return_hidden_states (w_req w)) \<longrightarrow>
      sb_return_hidden_states b \<or> sb_return_hidden_states other" using cols(9) cols'(9) by auto
  have enc: "bc_encoder_decoder cfg \<longrightarrow>
      sb_encoder_lens b @ sb_encoder_lens other = map w_encoder_len (rows @ rows') \<and>
      sb_encoder_lens_cpu b @ sb_encoder_lens_cpu other = map w_encoder_len (rows @ rows')" using al al' by simp
  show ?thesis
    unfolding merge_batch_def si(1) outs(1) lp(1) mm bindE_simps prod.case
    by (rule exI, rule conjI[OF refl])
      (use si(2) lp(2) outs(2) hid enc in \<open>simp add: aligned_def cols(1-8) cols'(1-8) bex_Un\<close>)
qed

text \<open>
  C14: merging two batches.  On two non-empty batches with aligned columns \<open>merge_batch\<close> succeeds, and
  every column of the result holds the rows of the first batch followed by those of the second: pool
  rows, lengths, sampled tokens, log probability settings, sampling tensors, the penalties of the
  tokens counted so far, and the custom logit processors.
\<close>

theorem merge_batch_appends_rows:
  assumes "complete_keys (se_keys env)" "aligned cfg env en V rows b" "aligned cfg env en V rows' other"
    "rows \<noteq> []" "rows' \<noteq> []" "inj_on (se_hash env) (strings (map w_req (rows @ rows')))"
    "sb_output_ids b \<noteq> None \<longrightarrow> sb_output_ids other \<noteq> None"
  shows "\<exists>b'. merge_batch cfg (se_float env) b other = Inr b' \<and> aligned cfg env en V (rows @ rows') b'"
  using merge_batch_aligned[OF assms] .

section \<open>The decode step on the rows\<close>

definition advance :: "int list \<Rightarrow> batch_row list \<Rightarrow> batch_row list" where
  "advance ids rows = map2 (\<lambda>i w. w\<lparr>w_seq_len := Suc (w_seq_len w), w_counted := w_counted w @ [i]\<rparr>) ids rows"

definition entry :: "nat \<Rightarrow> nat \<Rightarrow> ReqToTokenPool \<Rightarrow> int" where
  "entry r k p = req_to_token p ! r ! k"

lemma put_nth: "put (x, k, v) m ! r = (if x = r \<and> r < length m then (m ! r)[k := v] else m ! r)"
  by (cases "x < length m") (auto simp: put_def nth_list_update list_update_beyond not_less)

lemma put_length [simp]: "length (put e m) = length m" "length (put e m ! r) = length (m ! r)"
  by (cases e; simp add: put_def put_nth[unfolded put_def, simplified])+

lemma puts_other: "\<forall>(r', k', v) \<in> set es. r' \<noteq> r \<or> k' \<noteq> k \<Longrightarrow> fold put es m ! r ! k = m ! r ! k"
proof (induction es arbitrary: m)
  case (Cons e es)
  obtain x k' v where "e = (x, k', v)" by (cases e)
  then have "put e m ! r ! k = m ! r ! k" using Cons.prems by (auto simp: put_nth)
  then show ?case using Cons by simp
qed simp

lemma puts_read:
  assumes "distinct (map fst es)" "(r, k, v) \<in> set es" "r < length m" "k < length (m ! r)"
  shows "fold put es m ! r ! k = v"
  using assms
proof (induction es arbitrary: m)
  case (Cons e es)
  show ?case
  proof (cases "e = (r, k, v)")
    case True
    then have "\<forall>(r', k', v) \<in> set es. r' \<noteq> r \<or> k' \<noteq> k" using Cons.prems(1) by (auto simp: image_iff)
    from puts_other[OF this, of "put e m"] show ?thesis using True Cons.prems(3,4) by (simp add: put_nth)
  next
    case False
    then show ?thesis using Cons by simp
  qed
qed simp

lemma pool_scatter_writes:
  assumes "length cols = length idx" "length vals = length idx" "distinct idx"
    "\<forall>i < length idx. idx ! i < length (req_to_token p) \<and> cols ! i < length (req_to_token p ! (idx ! i))"
  shows "\<exists>p'. pool_scatter idx cols vals p = (Inr (), p') \<and>
           (\<forall>i < length idx. entry (idx ! i) (cols ! i) p' = vals ! i) \<and>
           (\<forall>r k. (\<forall>i < length idx. idx ! i \<noteq> r \<or> cols ! i \<noteq> k) \<longrightarrow> entry r k p' = entry r k p)"
proof -
  let ?es = "zip idx (zip cols vals)"
  let ?p' = "p\<lparr>req_to_token := fold put ?es (req_to_token p)\<rparr>"
  have "pool_scatter idx cols vals p = (Inr (), ?p')"
    using assms by (auto simp: pool_scatter_def set_zip)
  moreover have "entry (idx ! i) (cols ! i) ?p' = vals ! i" if "i < length idx" for i
    unfolding entry_def
    using assms that by (auto intro!: puts_read exI[of _ i] simp: set_zip)
  moreover have "entry r k ?p' = entry r k p" if "\<forall>i < length idx. idx ! i \<noteq> r \<or> cols ! i \<noteq> k" for r k
  proof -
    have "\<forall>(r', k', v) \<in> set ?es. r' \<noteq> r \<or> k' \<noteq> k"
      using assms(1,2) that by (fastforce simp: set_zip)
    from puts_other[OF this] show ?thesis by (simp add: entry_def)
  qed
  ultimately show ?thesis by blast
qed

text \<open>The sampling tensors depend on the requests alone, the penalties also on the counted tokens.\<close>

definition columns_ok :: "('f, 'p) sampling_env \<Rightarrow> bool \<Rightarrow> batch_req list \<Rightarrow> ('f, 'p) SamplingBatchInfo \<Rightarrow> bool" where
  "columns_ok env en rs s \<longleftrightarrow>
     si_temperatures s = map (\<lambda>r. f_of (se_float env) (sp_temperature (b_params r))) rs \<and>
     si_top_ps s = map (\<lambda>r. f_of (se_float env) (sp_top_p (b_params r))) rs \<and>
     si_top_ks s = map (\<lambda>r. sp_top_k (b_params r)) rs \<and>
     si_min_ps s = map (\<lambda>r. f_of (se_float env) (sp_min_p (b_params r))) rs \<and>
     (si_is_all_greedy s \<longrightarrow> (\<forall>r \<in> set rs. sp_top_k (b_params r) \<le> 1)) \<and>
     ((\<exists>r \<in> set rs. float_lt (Fin 0) (sp_min_p (b_params r))) \<longrightarrow> si_need_min_p_sampling s) \<and>
     customised env en rs s"

lemma sampled_columns:
  "sampled env en V rows s \<longleftrightarrow>
     columns_ok env en (map fst rows) s \<and> si_vocab_size s = V \<and>
     orchestrated (se_float env) V (se_keys env) (pen_rows rows) (si_orchestrator s)"
  unfolding sampled_def columns_ok_def by (simp add: case_prod_unfold comp_def) (rule iffI; elim conjE; intro conjI; assumption)

lemma columns_orchestrator: "columns_ok env en rs (s\<lparr>si_orchestrator := orc\<rparr>) = columns_ok env en rs s"
  by (simp add: columns_ok_def customised_def split: option.split)

lemma sampled_decode:
  assumes "complete_keys (se_keys env)" "sampled env en V rows s"
    "decodable V overlap (map (b_req \<circ> fst) rows) ids"
  shows "\<exists>orc. decode_penalties (se_float env) overlap (map (b_req \<circ> fst) rows) ids (si_orchestrator s) = Inr orc \<and>
           sampled env en V (map2 (\<lambda>i (r, h). (r, h @ [i])) (counted overlap (map (b_req \<circ> fst) rows) ids) rows)
             (s\<lparr>si_orchestrator := orc\<rparr>)"
proof -
  let ?reqs = "map (b_req \<circ> fst) rows"
  let ?ids = "counted overlap ?reqs ids"
  let ?rows = "map2 (\<lambda>i (r, h). (r, h @ [i])) ?ids rows"
  have len: "length ?ids = length rows" using length_counted[OF assms(3)] by simp
  have keys: "map pen_key ?reqs = map fst (pen_rows rows)" by (auto simp: split_beta)
  have orch: "orchestrated (se_float env) V (se_keys env) (pen_rows rows) (si_orchestrator s)"
    using assms(2) by (simp add: sampled_columns)
  obtain orc where
    orc: "decode_penalties (se_float env) overlap ?reqs ids (si_orchestrator s) = Inr orc"
      "orchestrated (se_float env) V (se_keys env) (feed ?ids (pen_rows rows)) orc"
    using decode_orchestrated[OF assms(1) orch keys assms(3)] by blast
  have feed: "feed ?ids (pen_rows rows) = pen_rows ?rows"
    by (rule nth_equalityI) (use len in \<open>auto simp: feed_def split_beta\<close>)
  have "map fst ?rows = map fst rows" by (rule nth_equalityI) (use len in \<open>auto simp: split_beta\<close>)
  then show ?thesis using orc assms(2) unfolding feed sampled_columns columns_orchestrator by simp
qed

lemma decode_slots_radix:
  assumes "slot_serving c"
  shows "\<exists>out c1 c'. decode_slots env buf n pool lens (RadixTree c) = Some (Inr out, RadixTree c') \<and>
     evicts c c1 \<and> slots_taken n out c1 c' \<and> (out = None \<longrightarrow> candidates c1 = {})"
proof -
  obtain out st c1 c' where a: "alloc_token_slots env n False (RadixTree c) = Some (Inr (out, st), RadixTree c')"
    "evicts c c1" "slots_taken n out c1 c'" "out = None \<longrightarrow> candidates c1 = {}"
    using alloc_token_slots_outcome[OF assms, of env n False] by blast
  have "kv_page_size (tc_allocator (RadixTree c)) = 1" using assms by (auto simp: slot_serving_def)
  then have "decode_slots env buf n pool lens (RadixTree c) = Some (Inr out, RadixTree c')"
    by (simp add: decode_slots_def thenO_def a(1))
  then show ?thesis using a(2-4) by (intro exI[of _ out] exI[of _ c1] exI[of _ c'] conjI)
qed

lemma evicts_pool: "evicts c c' \<Longrightarrow> req_to_token_pool c' = req_to_token_pool c"
  by (auto simp: evicts_def evicted_def)

lemma slots_taken_pool: "slots_taken n out c c' \<Longrightarrow> req_to_token_pool c' = req_to_token_pool c"
  unfolding slots_taken_def by (cases out) (elim exE conjE, simp)+

lemma slots_taken_length: "slots_taken n (Some slots) c c' \<Longrightarrow> length slots = n"
  by (auto simp: slots_taken_def available_size_def)

lemma sam_rows_advance:
  assumes "length ids = length rows"
  shows "map2 (\<lambda>i (r, h). (r, h @ [i])) ids (sam_rows rows) = sam_rows (advance ids rows)"
  by (rule nth_equalityI) (use assms in \<open>auto simp: advance_def\<close>)

text \<open>The fields that a step does not touch.\<close>

lemma map_advance:
  assumes "length ids = length rows" "\<And>w i. f (w\<lparr>w_seq_len := Suc (w_seq_len w), w_counted := w_counted w @ [i]\<rparr>) = f w"
  shows "map f (advance ids rows) = map f rows"
  by (rule nth_equalityI) (use assms in \<open>auto simp: advance_def\<close>)

lemma bex_advance:
  assumes "length ids = length rows"
  shows "(\<exists>w \<in> set (advance ids rows). P (w_req w)) \<longleftrightarrow> (\<exists>w \<in> set rows. P (w_req w))"
proof -
  have "map w_req (advance ids rows) = map w_req rows" by (rule map_advance[OF assms]) simp
  then have "w_req ` set (advance ids rows) = w_req ` set rows" by (metis list.set_map)
  then have "(\<exists>r \<in> w_req ` set (advance ids rows). P r) \<longleftrightarrow> (\<exists>r \<in> w_req ` set rows. P r)" by (rule arg_cong)
  then show ?thesis by simp
qed

lemma list_all2_advance:
  "length ids = length rows \<Longrightarrow>
     list_all2 (\<lambda>w. P (w_req w)) (advance ids rows) xs = list_all2 (\<lambda>w. P (w_req w)) rows xs"
  by (auto simp: list_all2_conv_all_nth advance_def)

lemma logprobs_advance:
  "length ids = length rows \<Longrightarrow> logprobs_ok (advance ids rows) ns ts = logprobs_ok rows ns ts"
  unfolding logprobs_ok_def
  using list_all2_advance[of ids rows "\<lambda>r n. q_return_logprob (b_req r) \<longrightarrow> n = b_top_logprobs_num r"]
    list_all2_advance[of ids rows "\<lambda>r t. q_return_logprob (b_req r) \<longrightarrow> t = b_token_ids_logprob r"] by simp

lemma map_Suc_advance:
  "length ids = length rows \<Longrightarrow> map w_seq_len (advance ids rows) = map Suc (map w_seq_len rows)"
  by (rule nth_equalityI) (auto simp: advance_def)

definition decoded ::
  "int list \<Rightarrow> ('f, 'p) SamplingBatchInfo \<Rightarrow> int list option \<Rightarrow> ('f, 'p) ScheduleBatch \<Rightarrow> ('f, 'p) ScheduleBatch" where
  "decoded ids si slots b =
     b\<lparr>sb_forward_mode := DECODE, sb_sampling_info := si, sb_input_ids := Some ids, sb_output_ids := None,
       sb_seq_lens := map Suc (sb_seq_lens b), sb_seq_lens_sum := sb_seq_lens_sum b + length (sb_reqs b),
       sb_out_cache_loc := slots\<rparr>"

lemma aligned_advance:
  assumes "aligned cfg env en V rows b" "length ids = length rows"
    "sampled env en V (sam_rows (advance ids rows)) si"
  shows "aligned cfg env en V (advance ids rows) (decoded outs si slots b)"
proof -
  note al = assms(1)[unfolded aligned_def]
  note same = map_advance[OF assms(2)] logprobs_advance[OF assms(2)]
    bex_advance[OF assms(2), of "\<lambda>r. q_return_logprob (b_req r)"] bex_advance[OF assms(2), of "\<lambda>r. q_stream (b_req r)"]
    bex_advance[OF assms(2), of "\<lambda>r. \<exists>g. q_grammar (b_req r) = Some g"]
    bex_advance[OF assms(2), of b_return_hidden_states]
  have "sum_list (map Suc (map w_seq_len rows)) = sum_list (map w_seq_len rows) + length rows"
    by (induction rows) auto
  then show ?thesis
    using al assms(3) by (simp add: aligned_def decoded_def same map_Suc_advance[OF assms(2)] del: map_map)
qed

lemma batch_penalties_ok:
  assumes "complete_keys (se_keys env)" "aligned cfg env en V rows b" "sb_output_ids b = Some (map w_output_id rows)"
    "decodable V (bc_enable_overlap cfg) (map w_sched rows) (map w_output_id rows)"
    "ids = counted (bc_enable_overlap cfg) (map w_sched rows) (map w_output_id rows)"
  shows "\<exists>si. batch_penalties cfg (se_float env) (b\<lparr>sb_forward_mode := m\<rparr>) = Inr si \<and>
           sampled env en V (sam_rows (advance ids rows)) si"
proof -
  have reqs: "map (b_req \<circ> fst) (sam_rows rows) = map w_sched rows" "map b_req (sb_reqs b) = map w_sched rows"
    using assms(2) by (simp_all add: aligned_def)
  have "sampled env en V (sam_rows rows) (sb_sampling_info b)" using assms(2) by (simp add: aligned_def)
  from sampled_decode[OF assms(1) this, unfolded reqs, OF assms(4)] obtain orc where
    orc: "decode_penalties (se_float env) (bc_enable_overlap cfg) (map w_sched rows) (map w_output_id rows)
            (si_orchestrator (sb_sampling_info b)) = Inr orc"
      "sampled env en V (map2 (\<lambda>i (r, h). (r, h @ [i])) ids (sam_rows rows))
         (sb_sampling_info b\<lparr>si_orchestrator := orc\<rparr>)"
    unfolding assms(5)[symmetric] by blast
  have "length ids = length rows" using length_counted[OF assms(4)] assms(5) by simp
  then show ?thesis
    using orc assms(3) by (simp add: batch_penalties_def Let_def reqs sam_rows_advance)
qed

lemma prepare_for_decode_run:
  assumes "batch_penalties cfg F (b\<lparr>sb_forward_mode := DECODE\<rparr>) = Inr si" "sb_output_ids b = Some ids"
    "decode_slots cenv buf (length (sb_reqs b)) (sb_req_pool_indices b) (map Suc (sb_seq_lens b)) t = Some (Inr out, t1)"
    "\<not> bc_encoder_decoder cfg"
  shows "prepare_for_decode cfg cenv F buf b t =
     Some (case out of
        None \<Rightarrow> (Inl AttributeError, decoded ids si None b, t1)
      | Some slots \<Rightarrow>
          (let (r, p) = pool_scatter (sb_req_pool_indices b) (sb_seq_lens b) slots (tc_pool t1)
           in (r, decoded ids si (Some slots) b, tc_set_pool p t1)))"
  using assms by (simp add: prepare_for_decode_def decoded_def Let_def split: option.split prod.split)

text \<open>The slots of a decode step in the token pool: one new entry in the row of each request, at its old length.\<close>

definition slots_written :: "batch_row list \<Rightarrow> int list \<Rightarrow> ReqToTokenPool \<Rightarrow> ReqToTokenPool \<Rightarrow> bool" where
  "slots_written rows slots p p' \<longleftrightarrow>
     (\<forall>i < length rows. entry (w_pool_idx (rows ! i)) (w_seq_len (rows ! i)) p' = slots ! i) \<and>
     (\<forall>x k. (\<forall>w \<in> set rows. w_pool_idx w \<noteq> x \<or> w_seq_len w \<noteq> k) \<longrightarrow> entry x k p' = entry x k p)"

lemma rows_written:
  assumes "distinct (map w_pool_idx rows)" "length slots = length rows"
    "\<forall>w \<in> set rows. w_pool_idx w < length (req_to_token p) \<and> w_seq_len w < length (req_to_token p ! w_pool_idx w)"
  shows "\<exists>p'. pool_scatter (map w_pool_idx rows) (map w_seq_len rows) slots p = (Inr (), p') \<and> slots_written rows slots p p'"
proof -
  obtain p' where p': "pool_scatter (map w_pool_idx rows) (map w_seq_len rows) slots p = (Inr (), p')"
      "\<forall>i < length rows. entry (w_pool_idx (rows ! i)) (w_seq_len (rows ! i)) p' = slots ! i"
      "\<forall>x k. (\<forall>i < length rows. w_pool_idx (rows ! i) \<noteq> x \<or> w_seq_len (rows ! i) \<noteq> k) \<longrightarrow> entry x k p' = entry x k p"
    using pool_scatter_writes[of "map w_seq_len rows" "map w_pool_idx rows" slots p] assms by auto
  then have "slots_written rows slots p p'" unfolding slots_written_def by (metis nth_mem)
  then show ?thesis using p'(1) by blast
qed

text \<open>
  C15: a decode step, without pages and without encoder.  On a batch with aligned columns whose pool rows
  are different and have room for one more token, \<open>prepare_for_decode\<close> returns.  Every request gets
  one of the slots that the allocator hands out, after evicting at most unlocked nodes; the slot is stored in
  the pool row of the request at the position of its new token, and no other entry of the pool
  changes.  The columns of the batch stay aligned, with all lengths one greater and the token of
  the last step counted for the penalties.  Only when no leaf is left to evict the step fails, with
  an \<open>AttributeError\<close>.
\<close>

theorem prepare_for_decode_writes_slots:
  assumes "complete_keys (se_keys env)" "aligned cfg env en V rows b" "sb_output_ids b \<noteq> None"
    "slot_serving c" "\<not> bc_encoder_decoder cfg" "distinct (map w_pool_idx rows)"
    "\<forall>w \<in> set rows. w_pool_idx w < length (req_to_token (req_to_token_pool c)) \<and>
       w_seq_len w < length (req_to_token (req_to_token_pool c) ! w_pool_idx w)"
    "decodable V (bc_enable_overlap cfg) (map w_sched rows) (map w_output_id rows)"
  shows "\<exists>r b' c1 c2 c' out.
      prepare_for_decode cfg cenv (se_float env) buf b (RadixTree c) = Some (r, b', RadixTree c') \<and>
      evicts c c1 \<and> slots_taken (length rows) out c1 c2 \<and>
      aligned cfg env en V (advance (counted (bc_enable_overlap cfg) (map w_sched rows) (map w_output_id rows)) rows) b' \<and>
      (case out of
         None \<Rightarrow> r = Inl AttributeError \<and> candidates c1 = {} \<and> c' = c2
       | Some slots \<Rightarrow> r = Inr () \<and> sb_out_cache_loc b' = Some slots \<and> sb_input_ids b' = Some (map w_output_id rows) \<and>
           (\<exists>p. c' = c2\<lparr>req_to_token_pool := p\<rparr> \<and> slots_written rows slots (req_to_token_pool c) p))"
proof -
  let ?ids = "counted (bc_enable_overlap cfg) (map w_sched rows) (map w_output_id rows)"
  note cols = aligned_cols[OF assms(2)]
  have outs: "sb_output_ids b = Some (map w_output_id rows)" using assms(2,3) by (simp add: aligned_def)
  have len: "length ?ids = length rows" using length_counted[OF assms(8)] by simp
  obtain si where si: "batch_penalties cfg (se_float env) (b\<lparr>sb_forward_mode := DECODE\<rparr>) = Inr si"
    "sampled env en V (sam_rows (advance ?ids rows)) si"
    using batch_penalties_ok[OF assms(1,2) outs assms(8) refl] by blast
  note al' = aligned_advance[OF assms(2) len si(2), of "map w_output_id rows"]
  obtain out c1 c2 where d: "decode_slots cenv buf (length (sb_reqs b)) (sb_req_pool_indices b) (map Suc (sb_seq_lens b))
      (RadixTree c) = Some (Inr out, RadixTree c2)" "evicts c c1" "slots_taken (length rows) out c1 c2"
    "out = None \<longrightarrow> candidates c1 = {}"
    using decode_slots_radix[OF assms(4), of cenv buf "length (sb_reqs b)" "sb_req_pool_indices b" "map Suc (sb_seq_lens b)"]
    unfolding cols(1) length_map by (elim exE conjE)
  have pool: "req_to_token_pool c2 = req_to_token_pool c"
    using evicts_pool[OF d(2)] slots_taken_pool[OF d(3)] by simp
  note run = prepare_for_decode_run[OF si(1) outs d(1) assms(5)]
  show ?thesis
  proof (cases out)
    case None
    then show ?thesis using run al'[of None] d(2-4) by fastforce
  next
    case (Some slots)
    obtain p where p: "pool_scatter (map w_pool_idx rows) (map w_seq_len rows) slots (req_to_token_pool c) = (Inr (), p)"
      "slots_written rows slots (req_to_token_pool c) p"
      using rows_written[OF assms(6) _ assms(7)] slots_taken_length[of _ slots] d(3) Some by metis
    have "prepare_for_decode cfg cenv (se_float env) buf b (RadixTree c) =
        Some (Inr (), decoded (map w_output_id rows) si (Some slots) b, RadixTree (c2\<lparr>req_to_token_pool := p\<rparr>))"
      using run Some p(1) by (simp add: cols(1-3) pool)
    then show ?thesis using al'[of "Some slots"] d(2,3) Some p(2) by (fastforce simp: decoded_def)
  qed
qed

section \<open>A running batch\<close>

definition demo_senv :: "(pyfloat, string) sampling_env" where
  "demo_senv = \<lparr>se_float = exact_float, se_keys = demo_keys, se_hash = \<lambda>s. int (length s), se_from_str = Inr\<rparr>"

definition demo_cfg :: batch_cfg where
  "demo_cfg = \<lparr>bc_encoder_decoder = False, bc_enable_overlap = False\<rparr>"

definition demo_batch_req :: "sched_req \<Rightarrow> string option \<Rightarrow> batch_req" where
  "demo_batch_req r custom =
     \<lparr>b_req = r, b_custom_logit_processor = custom, b_top_logprobs_num = 0, b_token_ids_logprob = None,
      b_multimodal = None, b_return_hidden_states = False\<rparr>"

definition demo_row :: "nat \<Rightarrow> sched_req \<Rightarrow> string option \<Rightarrow> batch_row" where
  "demo_row i r custom =
     \<lparr>w_req = demo_batch_req r custom, w_pool_idx = i, w_seq_len = 1 + i, w_output_id = int i, w_encoder_len = 0,
      w_counted = []\<rparr>"

definition demo_batch_rows :: "batch_row list" where
  "demo_batch_rows = [demo_row 0 demo_repeats (Some ''p''), demo_row 1 demo_stops None]"

definition demo_batch_of ::
  "batch_row list \<Rightarrow> (pyfloat, string) SamplingBatchInfo \<Rightarrow> (pyfloat, string) ScheduleBatch" where
  "demo_batch_of rows si =
     \<lparr>sb_reqs = map w_req rows, sb_forward_mode = EXTEND, sb_encoder_lens = [], sb_encoder_lens_cpu = [],
      sb_multimodal_inputs = Some (map (b_multimodal \<circ> w_req) rows), sb_req_pool_indices = map w_pool_idx rows,
      sb_seq_lens = map w_seq_len rows, sb_seq_lens_sum = sum_list (map w_seq_len rows), sb_input_ids = None,
      sb_output_ids = Some (map w_output_id rows), sb_out_cache_loc = None, sb_return_logprob = False,
      sb_top_logprobs_nums = None, sb_token_ids_logprobs = None, sb_has_stream = False, sb_has_grammar = False,
      sb_return_hidden_states = False, sb_sampling_info = si\<rparr>"

lemma demo_complete_senv: "complete_keys (se_keys demo_senv)"
  using demo_complete by (simp add: demo_senv_def)

lemmas demo_row_defs = demo_row_def demo_batch_req_def

lemma demo_aligned:
  assumes "set rows \<subseteq> set demo_batch_rows"
  shows "\<exists>si. aligned demo_cfg demo_senv True 4 rows (demo_batch_of rows si)"
proof -
  have "\<exists>s. from_schedule_batch demo_senv True 4 (map w_req rows) = Inr s \<and>
          sampled demo_senv True 4 (map (\<lambda>r. (r, [])) (map w_req rows)) s"
  proof (rule sampled_start[OF demo_complete_senv])
    show "\<forall>r \<in> set (map w_req rows). pen_ok 4 (pen_key (b_req r))"
      using assms demo_ok by (auto simp: demo_batch_rows_def demo_row_defs)
    show "\<forall>r \<in> set (map w_req rows). - (2 ^ 31) \<le> sp_top_k (b_params r) \<and> sp_top_k (b_params r) < 2 ^ 31"
      using assms by (auto simp: demo_batch_rows_def demo_row_defs demo_req_defs)
    have "strings (map w_req rows) \<subseteq> {''p''}"
      using assms by (auto simp: strings_def demo_batch_rows_def demo_row_defs)
    then show "strings_ok demo_senv (map w_req rows)"
      by (auto simp: strings_ok_def demo_senv_def dest: inj_on_subset[rotated])
  qed
  moreover have "map (\<lambda>r. (r, [])) (map w_req rows) = sam_rows rows"
    using assms by (auto simp: demo_batch_rows_def demo_row_def)
  ultimately obtain si where "sampled demo_senv True 4 (sam_rows rows) si" by metis
  moreover have "\<forall>w \<in> set rows. \<not> q_return_logprob (w_sched w) \<and> \<not> q_stream (w_sched w) \<and> q_grammar (w_sched w) = None \<and>
      \<not> b_return_hidden_states (w_req w)"
    using assms by (auto simp: demo_batch_rows_def demo_row_defs demo_req_defs)
  ultimately show ?thesis by (auto simp: aligned_def demo_batch_of_def demo_cfg_def)
qed

theorem filter_batch_keeps_rows_witness:
  "\<exists>si b'. aligned demo_cfg demo_senv True 4 demo_batch_rows (demo_batch_of demo_batch_rows si) \<and>
     filter_batch demo_cfg exact_float [''a''] None (demo_batch_of demo_batch_rows si) = Inr b' \<and>
     aligned demo_cfg demo_senv True 4 [demo_row 1 demo_stops None] b'"
proof -
  obtain si where al: "aligned demo_cfg demo_senv True 4 demo_batch_rows (demo_batch_of demo_batch_rows si)"
    using demo_aligned by blast
  have ks: "[1] = (case None of Some ks \<Rightarrow> ks | None \<Rightarrow> keep_indices [''a''] (map w_req demo_batch_rows))"
    by (simp add: keep_indices_def demo_batch_rows_def demo_row_defs demo_req_defs req_finished_def)
  have p: "sb_output_ids (demo_batch_of demo_batch_rows si) \<noteq> None"
    "\<forall>ks. None = Some ks \<longrightarrow> (\<forall>i \<in> set ks. i < length demo_batch_rows)" by (simp_all add: demo_batch_of_def)
  have rows: "length demo_batch_rows = 2" "map ((!) demo_batch_rows) [1] = [demo_row 1 demo_stops None]"
    by (simp_all add: demo_batch_rows_def)
  show ?thesis
    using filter_batch_keeps_rows[OF demo_complete_senv al p ks] al rows by (auto simp: demo_senv_def)
qed

theorem merge_batch_appends_rows_witness:
  "\<exists>si si' b'. aligned demo_cfg demo_senv True 4 [demo_row 0 demo_repeats (Some ''p'')]
        (demo_batch_of [demo_row 0 demo_repeats (Some ''p'')] si) \<and>
     merge_batch demo_cfg exact_float (demo_batch_of [demo_row 0 demo_repeats (Some ''p'')] si)
       (demo_batch_of [demo_row 1 demo_stops None] si') = Inr b' \<and>
     aligned demo_cfg demo_senv True 4 demo_batch_rows b'"
proof -
  let ?a = "[demo_row 0 demo_repeats (Some ''p'')]" and ?b = "[demo_row 1 demo_stops None]"
  obtain si where al: "aligned demo_cfg demo_senv True 4 ?a (demo_batch_of ?a si)"
    using demo_aligned[of ?a] by (auto simp: demo_batch_rows_def)
  obtain si' where al': "aligned demo_cfg demo_senv True 4 ?b (demo_batch_of ?b si')"
    using demo_aligned[of ?b] by (auto simp: demo_batch_rows_def)
  have "strings (map w_req (?a @ ?b)) = {''p''}" by (auto simp: strings_def demo_row_defs)
  then have inj: "inj_on (se_hash demo_senv) (strings (map w_req (?a @ ?b)))" by simp
  have "\<exists>b'. merge_batch demo_cfg (se_float demo_senv) (demo_batch_of ?a si) (demo_batch_of ?b si') = Inr b' \<and>
      aligned demo_cfg demo_senv True 4 (?a @ ?b) b'"
    by (rule merge_batch_appends_rows[OF demo_complete_senv al al' _ _ inj]) (simp_all add: demo_batch_of_def)
  then show ?thesis using al by (auto simp: demo_senv_def demo_batch_rows_def)
qed

theorem prepare_for_decode_writes_slots_witness:
  "\<exists>si. aligned demo_cfg demo_senv True 4 demo_batch_rows (demo_batch_of demo_batch_rows si) \<and>
    (\<exists>r b' c1 c2 c' out.
      prepare_for_decode demo_cfg demo_env (se_float demo_senv) [] (demo_batch_of demo_batch_rows si)
        (RadixTree demo_tree) = Some (r, b', RadixTree c') \<and>
      evicts demo_tree c1 \<and> slots_taken (length demo_batch_rows) out c1 c2 \<and>
      aligned demo_cfg demo_senv True 4 (advance (counted (bc_enable_overlap demo_cfg) (map w_sched demo_batch_rows)
        (map w_output_id demo_batch_rows)) demo_batch_rows) b' \<and>
      (case out of
         None \<Rightarrow> r = Inl AttributeError \<and> candidates c1 = {} \<and> c' = c2
       | Some slots \<Rightarrow> r = Inr () \<and> sb_out_cache_loc b' = Some slots \<and>
           sb_input_ids b' = Some (map w_output_id demo_batch_rows) \<and>
           (\<exists>p. c' = c2\<lparr>req_to_token_pool := p\<rparr> \<and> slots_written demo_batch_rows slots (req_to_token_pool demo_tree) p)))"
proof -
  obtain si where al: "aligned demo_cfg demo_senv True 4 demo_batch_rows (demo_batch_of demo_batch_rows si)"
    using demo_aligned by blast
  have serve: "slot_serving demo_tree"
    using demo_tree_serving unfolding slot_serving_def
    by (simp add: demo_tree_def cache_eval allocator_init_def alloc_clear_def)
  have pool: "req_to_token (req_to_token_pool demo_tree) = replicate 2 (replicate 8 0)"
    by (simp add: demo_tree_def cache_eval req_pool_init_def)
  have "distinct (map w_pool_idx demo_batch_rows)" "\<not> bc_encoder_decoder demo_cfg"
    "sb_output_ids (demo_batch_of demo_batch_rows si) \<noteq> None"
    "\<forall>w \<in> set demo_batch_rows. w_pool_idx w < length (req_to_token (req_to_token_pool demo_tree)) \<and>
       w_seq_len w < length (req_to_token (req_to_token_pool demo_tree) ! w_pool_idx w)"
    "decodable 4 (bc_enable_overlap demo_cfg) (map w_sched demo_batch_rows) (map w_output_id demo_batch_rows)"
    by (simp_all add: pool demo_batch_rows_def demo_cfg_def demo_batch_of_def demo_row_defs decodable_def counted_def
        demo_req_defs)
  note decode = prepare_for_decode_writes_slots[OF demo_complete_senv al this(3) serve this(2,1,4,5), of demo_env "[]"]
  show ?thesis by (rule exI[of _ si], rule conjI[OF al], rule decode)
qed

end
