(* ===== verification/Batch_Extend.thy ===== *)
theory Batch_Extend
  imports Batch_Rows
begin

text \<open>
  \<open>managers/schedule_batch.py\<close>, class \<open>ScheduleBatch\<close>: a prefill batch.  \<open>init_new\<close> and \<open>prepare_for_extend\<close> take a
  row of the token pool for every request, copy the cached prefix into it, allocate the slots of the
  new tokens and write them behind the prefix, by a Triton kernel or by a loop; \<open>mix_with_running\<close>
  appends the running requests.
\<close>

section \<open>Requests of a prefill batch\<close>

text \<open>Fields of a request that only the prefill reads; embeddings are of an arbitrary type.\<close>

record 'e extend_req =
  xr_req :: batch_req
  xr_input_embeds :: "'e list option"
  xr_cached_tokens :: int
  xr_num_image_tokens :: "nat option"

abbreviation x_sched :: "'e extend_req \<Rightarrow> sched_req" where
  "x_sched x \<equiv> b_req (xr_req x)"

abbreviation x_pre :: "'e extend_req \<Rightarrow> nat" where
  "x_pre x \<equiv> length (q_prefix_indices (x_sched x))"

abbreviation x_seq :: "'e extend_req \<Rightarrow> nat" where
  "x_seq x \<equiv> length (q_fill_ids (x_sched x))"

text \<open>The attributes of a batch that only a prefill has.\<close>

record 'e extend_info =
  xi_input_embeds :: "'e list option"
  xi_prefix_lens :: "int list"
  xi_extend_lens :: "int list"
  xi_extend_num_tokens :: int
  xi_logprob_start_lens :: "int list"
  xi_logprob_token_ids :: "int list option"
  xi_encoder_cached :: "bool list"
  xi_encoder_out_cache_loc :: "int list"

text \<open>The tokens whose log probabilities the input needs: the next token of each position, padded by 0.\<close>

definition logprob_start :: "sched_req \<Rightarrow> int" where
  "logprob_start r =
     (let pre = int (length (q_prefix_indices r)) in
      if pre \<le> q_logprob_start_len r
      then min (min (q_logprob_start_len r - pre) (q_extend_input_len r)) (int (seqlen r) - 1) else 0)"

definition logprob_token_ids :: "sched_req \<Rightarrow> int list" where
  "logprob_token_ids r =
     (let pre = int (length (q_prefix_indices r));
          start = (if pre < q_logprob_start_len r then q_logprob_start_len r else pre);
          ids = py_slice (nat (start + 1)) (length (q_fill_ids r) + 1) (q_origin_input_ids r)
      in ids @ replicate (nat (q_extend_input_len r - logprob_start r - int (length ids))) 0)"

text \<open>
  What the loop does to one request, which gets the pool row \<open>idx\<close>.  The prefix of a request is a prefix of
  \<open>fill_ids\<close>, so \<open>extend_input_len\<close> is not negative.
\<close>

definition extended :: "nat \<Rightarrow> 'e extend_req \<Rightarrow> 'e extend_req" where
  "extended idx x =
     (let r = x_sched x in
      x\<lparr>xr_req := (xr_req x)\<lparr>b_req := r\<lparr>q_req_pool_idx := Some idx, q_already_computed := x_seq x,
          q_is_retracted := False, q_extend_logprob_start_len := logprob_start r\<rparr>\<rparr>,
        xr_cached_tokens := xr_cached_tokens x + (int (x_pre x) - int (q_already_computed r))\<rparr>)"

definition extend_row :: "nat \<Rightarrow> 'e extend_req \<Rightarrow> 'e extend_req result" where
  "extend_row idx x =
     (if int (x_seq x) - int (x_pre x) \<noteq> q_extend_input_len (x_sched x) then Inl AssertionError
      else Inr (extended idx x))"

fun extend_loop :: "nat list \<Rightarrow> 'e extend_req list \<Rightarrow> ReqToTokenPool \<Rightarrow> 'e extend_req list result \<times> ReqToTokenPool" where
  "extend_loop (i # is) (x # xs) p =
     (case extend_row i x of
        Inl e \<Rightarrow> (Inl e, p)
      | Inr x' \<Rightarrow>
          andThen (if 0 < x_pre x then req_pool_write i 0 (x_pre x) (q_prefix_indices (x_sched x)) p else (Inr (), p))
            (\<lambda>_ p1. andThen (extend_loop is xs p1) (\<lambda>xs' p2. (Inr (x' # xs'), p2))))"
| "extend_loop _ _ p = (Inr [], p)"

section \<open>The slots of the new tokens\<close>

definition get_last_loc :: "int list list \<Rightarrow> nat list \<Rightarrow> nat list \<Rightarrow> int list" where
  "get_last_loc m idx pres = map2 (\<lambda>i n. if 0 < n then m ! i ! (n - 1) else - 1) idx pres"

definition extend_slots ::
  "cache_env \<Rightarrow> int list \<Rightarrow> nat list \<Rightarrow> (nat \<times> nat) list \<Rightarrow> nat \<Rightarrow> tree_cache \<Rightarrow> (int list option result \<times> tree_cache) option" where
  "extend_slots env buf idx lens n t =
     (if kv_page_size (tc_allocator t) = 1
      then thenO (alloc_token_slots env n False t) (\<lambda>(out, _) t1. Some (Inr out, t1))
      else thenO (alloc_paged_token_slots_extend env buf lens
                    (get_last_loc (req_to_token (tc_pool t)) idx (map fst lens)) n False t)
             (\<lambda>(out, _) t1. Some (Inr (Some out), t1)))"

text \<open>Writing the slots by the loop over the requests.\<close>

fun write_loop :: "nat list \<Rightarrow> (nat \<times> nat) list \<Rightarrow> int list \<Rightarrow> ReqToTokenPool \<Rightarrow> unit result \<times> ReqToTokenPool" where
  "write_loop (i # is) ((a, b) # lens) out p =
     andThen (req_pool_write i a b (take (b - a) out) p) (\<lambda>_ p1. write_loop is lens (drop (b - a) out) p1)"
| "write_loop _ _ out p = (Inr (), p)"

text \<open>
  The kernel: one program per request, blocks of 512 lanes with a mask, on the tensor as flat memory with
  a stride.  Rows are distinct, so the order of the programs does not matter.
\<close>

definition kernel_lanes :: "nat \<Rightarrow> nat list" where
  "kernel_lanes n =
     concat (map (\<lambda>i. filter (\<lambda>off. off < n) (map (\<lambda>lane. lane + i * 512) [0..<512])) [0..<(n + 511) div 512])"

definition kernel_program :: "nat \<Rightarrow> nat list \<Rightarrow> (nat \<times> nat) list \<Rightarrow> int list \<Rightarrow> nat \<Rightarrow> int list \<Rightarrow> int list" where
  "kernel_program stride idx lens out pid flat =
     (let (pre, seq) = lens ! pid; start = sum_list (map (\<lambda>(a, b). b - a) (take pid lens))
      in fold (\<lambda>off m. m[idx ! pid * stride + off + pre := out ! (start + off)]) (kernel_lanes (seq - pre)) flat)"

definition write_kernel :: "nat \<Rightarrow> nat list \<Rightarrow> (nat \<times> nat) list \<Rightarrow> int list \<Rightarrow> int list \<Rightarrow> int list" where
  "write_kernel stride idx lens out flat = fold (kernel_program stride idx lens out) [0..<length lens] flat"

definition split_rows :: "nat \<Rightarrow> nat \<Rightarrow> int list \<Rightarrow> int list list" where
  "split_rows stride n flat = map (\<lambda>i. take stride (drop (i * stride) flat)) [0..<n]"

definition write_slots ::
  "bool \<Rightarrow> nat list \<Rightarrow> (nat \<times> nat) list \<Rightarrow> int list \<Rightarrow> ReqToTokenPool \<Rightarrow> unit result \<times> ReqToTokenPool" where
  "write_slots triton idx lens out p =
     (if triton
      then (Inr (), p\<lparr>req_to_token := split_rows (rt_max_context_len p) (length (req_to_token p))
              (write_kernel (rt_max_context_len p) idx lens out (concat (req_to_token p)))\<rparr>)
      else write_loop idx lens out p)"

section \<open>Encoders\<close>

text \<open>
  \<open>prepare_encoder_info_extend\<close>, given the input tokens, lengths and slots of each request: the first
  \<open>encoder_len\<close> tokens are those of the encoder, either all new or all cached.
\<close>

definition encoder_len :: "'e extend_req \<Rightarrow> nat" where
  "encoder_len x =
     (case b_multimodal (xr_req x) of
        None \<Rightarrow> 0 | Some _ \<Rightarrow> (case xr_num_image_tokens x of None \<Rightarrow> 0 | Some n \<Rightarrow> n))"

fun encoder_split :: "'e extend_req list \<Rightarrow> int list list \<Rightarrow> int list \<Rightarrow> (int list list \<times> int list \<times> int list) result" where
  "encoder_split (x # xs) (ids # idss) loc =
     (let enc = encoder_len x; n = nat (q_extend_input_len (x_sched x)) in
      if x_pre x < enc
      then if x_pre x \<noteq> 0 then Inl AssertionError
           else bindE (encoder_split xs idss (drop n loc)) (\<lambda>(i, e, d).
                  Inr (drop enc ids # i, take enc loc @ e, drop enc (take n loc) @ d))
      else bindE (encoder_split xs idss (drop n loc)) (\<lambda>(i, e, d). Inr (ids # i, e, take n loc @ d)))"
| "encoder_split _ _ loc = Inr ([], [], [])"

text \<open>The result is the encoder lengths, the input tokens, the lengths, the slots and the other attributes.\<close>

definition prepare_encoder_info_extend ::
  "'e extend_req list \<Rightarrow> int list list \<Rightarrow> nat list \<Rightarrow> int list \<Rightarrow> 'e extend_info
     \<Rightarrow> (nat list \<times> int list \<times> nat list \<times> int list \<times> 'e extend_info) result" where
  "prepare_encoder_info_extend xs ids seq_lens loc x =
     bindE (encoder_split xs ids loc) (\<lambda>(inp, e, d).
       let encs = map encoder_len xs; fresh = filter (\<lambda>y. x_pre y < encoder_len y) xs;
           n = xi_extend_num_tokens x - int (sum_list (map encoder_len fresh))
       in if int (length d) \<noteq> n then Inl AssertionError
          else Inr (encs, concat inp, map2 (-) seq_lens encs, d,
                x\<lparr>xi_encoder_cached := map (\<lambda>y. b_multimodal (xr_req y) = None \<or> xr_num_image_tokens y = None \<or>
                                                 encoder_len y \<le> x_pre y) xs,
                  xi_encoder_out_cache_loc := e, xi_extend_num_tokens := n,
                  xi_extend_lens := map2 (\<lambda>l y. if x_pre y < encoder_len y then l - int (encoder_len y) else l)
                    (xi_extend_lens x) xs,
                  xi_prefix_lens := map2 (\<lambda>l y. if x_pre y < encoder_len y then l else l - int (encoder_len y))
                    (xi_prefix_lens x) xs\<rparr>))"

section \<open>The prefill batch\<close>

text \<open>The batch of \<open>init_new\<close> with the columns of \<open>prepare_for_extend\<close>, and its other attributes.\<close>

definition extend_batch ::
  "'e extend_req list \<Rightarrow> nat list \<Rightarrow> nat list \<times> int list \<times> nat list \<times> int list \<Rightarrow> ('f, 'p) SamplingBatchInfo
     \<Rightarrow> ('f, 'p) ScheduleBatch" where
  "extend_batch ys idx cols si =
     (let (encs, inputs, lens, loc) = cols; reqs = map xr_req ys; lp = (\<exists>r \<in> set reqs. q_return_logprob (b_req r)) in
      \<lparr>sb_reqs = reqs, sb_forward_mode = EXTEND, sb_encoder_lens = encs, sb_encoder_lens_cpu = encs,
       sb_multimodal_inputs = Some (map b_multimodal reqs), sb_req_pool_indices = idx, sb_seq_lens = lens,
       sb_seq_lens_sum = sum_list (map x_seq ys), sb_input_ids = Some inputs, sb_output_ids = None,
       sb_out_cache_loc = Some loc, sb_return_logprob = lp,
       sb_top_logprobs_nums = (if lp then Some (map b_top_logprobs_num reqs) else None),
       sb_token_ids_logprobs = (if lp then Some (map b_token_ids_logprob reqs) else None),
       sb_has_stream = (\<exists>r \<in> set reqs. q_stream (b_req r)),
       sb_has_grammar = (\<exists>r \<in> set reqs. q_grammar (b_req r) \<noteq> None),
       sb_return_hidden_states = (\<exists>r \<in> set reqs. b_return_hidden_states r), sb_sampling_info = si\<rparr>)"

definition extend_attributes :: "'e extend_req list \<Rightarrow> 'e extend_info" where
  "extend_attributes ys =
     (let embeds = concat (map (\<lambda>y. case xr_input_embeds y of None \<Rightarrow> [] | Some e \<Rightarrow> e) ys) in
      \<lparr>xi_input_embeds = (if embeds = [] then None else Some embeds),
       xi_prefix_lens = map (\<lambda>y. int (x_pre y)) ys, xi_extend_lens = map (\<lambda>y. q_extend_input_len (x_sched y)) ys,
       xi_extend_num_tokens = int (sum_list (map (\<lambda>y. x_seq y - x_pre y) ys)),
       xi_logprob_start_lens = map (\<lambda>y. q_extend_logprob_start_len (x_sched y)) ys,
       xi_logprob_token_ids =
         (if \<exists>y \<in> set ys. q_return_logprob (x_sched y)
          then Some (concat (map (\<lambda>y. logprob_token_ids (x_sched y)) ys)) else None),
       xi_encoder_cached = [], xi_encoder_out_cache_loc = []\<rparr>)"

definition finish_extend ::
  "batch_cfg \<Rightarrow> ('f, 'p) sampling_env \<Rightarrow> bool \<Rightarrow> nat \<Rightarrow> nat list \<Rightarrow> int list \<Rightarrow> 'e extend_req list
     \<Rightarrow> (('f, 'p) ScheduleBatch \<times> 'e extend_info \<times> 'e extend_req list) result" where
  "finish_extend cfg senv en V idx out ys =
     (let inputs = map (\<lambda>y. drop (x_pre y) (q_fill_ids (x_sched y))) ys; x = extend_attributes ys in
      bindE (if bc_encoder_decoder cfg then prepare_encoder_info_extend ys inputs (map x_seq ys) out x
             else Inr ([], concat inputs, map x_seq ys, out, x)) (\<lambda>(encs, inp, lens, loc, x1).
      bindE (from_schedule_batch senv en V (map xr_req ys)) (\<lambda>si.
        Inr (extend_batch ys idx (encs, inp, lens, loc) si, x1, ys))))"

text \<open>Slots that could not be allocated cannot be indexed: the step fails.\<close>

definition prepare_for_extend ::
  "batch_cfg \<Rightarrow> bool \<Rightarrow> cache_env \<Rightarrow> ('f, 'p) sampling_env \<Rightarrow> bool \<Rightarrow> nat \<Rightarrow> int list \<Rightarrow> 'e extend_req list \<Rightarrow> tree_cache
     \<Rightarrow> ((('f, 'p) ScheduleBatch \<times> 'e extend_info \<times> 'e extend_req list) result \<times> tree_cache) option" where
  "prepare_for_extend cfg triton env senv en V buf xs t =
     (case alloc_req_slots (length xs) t of
        (Inl e, t1) \<Rightarrow> Some (Inl e, t1)
      | (Inr idx, t1) \<Rightarrow>
          (let lens = map (\<lambda>x. (x_pre x, x_seq x)) xs; num = sum_list (map (\<lambda>x. x_seq x - x_pre x) xs) in
           case extend_loop idx xs (tc_pool t1) of
             (Inl e, p) \<Rightarrow> Some (Inl e, tc_set_pool p t1)
           | (Inr ys, p) \<Rightarrow>
               (case extend_slots env buf idx lens num (tc_set_pool p t1) of
                  None \<Rightarrow> None
                | Some (Inl e, t2) \<Rightarrow> Some (Inl e, t2)
                | Some (Inr None, t2) \<Rightarrow> Some (Inl TypeError, t2)
                | Some (Inr (Some out), t2) \<Rightarrow>
                    (case write_slots triton idx lens out (tc_pool t2) of
                       (Inl e, q) \<Rightarrow> Some (Inl e, tc_set_pool q t2)
                     | (Inr _, q) \<Rightarrow> Some (finish_extend cfg senv en V idx out ys, tc_set_pool q t2)))))"

section \<open>Mixing with the running batch\<close>

definition cat_both :: "'a list option \<Rightarrow> 'a list option \<Rightarrow> 'a list result" where
  "cat_both x y = (case (x, y) of (Some xs, Some ys) \<Rightarrow> Inr (xs @ ys) | _ \<Rightarrow> Inl TypeError)"

definition one_token :: "batch_req \<Rightarrow> batch_req" where
  "one_token r =
     r\<lparr>b_req := (b_req r)\<lparr>q_fill_ids := q_origin_input_ids (b_req r) @ q_output_ids (b_req r), q_extend_input_len := 1\<rparr>\<rparr>"

definition mix_with_running ::
  "batch_cfg \<Rightarrow> 'f torch_float \<Rightarrow> ('f, 'p) ScheduleBatch \<times> 'e extend_info \<Rightarrow> ('f, 'p) ScheduleBatch
     \<Rightarrow> (('f, 'p) ScheduleBatch \<times> 'e extend_info) result" where
  "mix_with_running cfg F s running =
     (let (b, x) = s; run = running\<lparr>sb_reqs := map one_token (sb_reqs running)\<rparr>; bs = length (sb_reqs run);
          delta = (if bc_enable_overlap cfg then 0 else - 1) in
      bindE (cat_both (sb_input_ids b) (sb_input_ids run)) (\<lambda>inp.
      bindE (cat_both (sb_out_cache_loc b) (sb_out_cache_loc run)) (\<lambda>loc.
      bindE (merge_batch cfg F (b\<lparr>sb_forward_mode := MIXED\<rparr>) run) (\<lambda>b1.
        Inr (b1\<lparr>sb_input_ids := Some inp, sb_out_cache_loc := Some loc\<rparr>,
             x\<lparr>xi_prefix_lens := xi_prefix_lens x @ map (\<lambda>r. int (seqlen (b_req r)) + delta) (sb_reqs run),
               xi_extend_lens := xi_extend_lens x @ replicate bs 1,
               xi_extend_num_tokens := xi_extend_num_tokens x + int bs,
               xi_logprob_start_lens := xi_logprob_start_lens x @ replicate bs 0\<rparr>)))))"

section \<open>The kernel\<close>

lemma kernel_lanes_upt: "kernel_lanes n = [0..<n]"
proof -
  have block: "map (\<lambda>lane. lane + i * 512) [0..<512] = [i * 512..<Suc i * 512]" for i :: nat
    by (simp add: map_add_upt add.commute)
  have "concat (map (\<lambda>i. filter (\<lambda>off. off < n) [i * 512..<Suc i * 512]) [0..<k]) = filter (\<lambda>off. off < n) [0..<k * 512]" for k
  proof (induction k)
    case (Suc k)
    have "[0..<Suc k * 512] = [0..<k * 512] @ [k * 512..<Suc k * 512]" using upt_add_eq_append[of 0 "k * 512" 512] by (simp add: add.commute)
    then show ?case using Suc by simp
  qed simp
  then have "kernel_lanes n = filter (\<lambda>off. off < n) [0..<(n + 511) div 512 * 512]"
    unfolding kernel_lanes_def block .
  moreover have "n \<le> (n + 511) div 512 * 512"
    using div_mult_mod_eq[of "n + 511" 512] mod_less_divisor[of 512 "n + 511"] by linarith
  moreover have "filter (\<lambda>off. off < n) [0..<m] = [0..<min n m]" for m by (induction m) (auto simp: min_def le_Suc_eq)
  ultimately show ?thesis by (simp only: min_absorb1)
qed

text \<open>One program overwrites one segment of the memory.\<close>

lemma fold_segment:
  "base + n \<le> length m \<Longrightarrow> fold (\<lambda>off m. m[base + off := g off]) [0..<n] m = take base m @ map g [0..<n] @ drop (base + n) m"
proof (induction n)
  case (Suc n)
  have "drop (base + n) m = m ! (base + n) # drop (Suc (base + n)) m" using Suc.prems by (simp add: Cons_nth_drop_Suc)
  then show ?case using Suc by (simp add: list_update_append)
qed simp

lemma length_concat_rows: "\<forall>row \<in> set rows. length row = stride \<Longrightarrow> length (concat rows) = length rows * stride"
  by (induction rows) auto

text \<open>A segment within a row is that row changed.\<close>

lemma concat_split:
  assumes "\<forall>row \<in> set rows. length row = stride" "i < length rows"
  shows "concat rows = concat (take i rows) @ rows ! i @ concat (drop (Suc i) rows)"
    "length (concat (take i rows)) = i * stride"
proof -
  show "concat rows = concat (take i rows) @ rows ! i @ concat (drop (Suc i) rows)"
    using arg_cong[OF id_take_nth_drop[OF assms(2)], of concat] by simp
  have "\<forall>row \<in> set (take i rows). length row = stride" using assms(1) in_set_takeD by fastforce
  from length_concat_rows[OF this] show "length (concat (take i rows)) = i * stride" using assms(2) by simp
qed

lemma row_segment:
  assumes "\<forall>row \<in> set rows. length row = stride" "i < length rows" "a \<le> b" "b \<le> stride"
  shows "take (i * stride + a) (concat rows) @ vals @ drop (i * stride + b) (concat rows) =
         concat (rows[i := take a (rows ! i) @ vals @ drop b (rows ! i)])"
proof -
  note split = concat_split[OF assms(1,2)]
  have len: "length (rows ! i) = stride" using assms(1,2) by simp
  have "take (i * stride + a) (concat rows) = concat (take i rows) @ take a (rows ! i)"
    "drop (i * stride + b) (concat rows) = drop b (rows ! i) @ concat (drop (Suc i) rows)"
    unfolding split(1) using split(2) len assms(3,4) by simp_all
  then show ?thesis using assms(2) by (simp add: upd_conv_take_nth_drop)
qed

lemma split_rows_concat:
  assumes "\<forall>row \<in> set rows. length row = stride"
  shows "split_rows stride (length rows) (concat rows) = rows"
proof (rule nth_equalityI)
  fix i assume "i < length (split_rows stride (length rows) (concat rows))"
  then have i: "i < length rows" by (simp add: split_rows_def)
  then show "split_rows stride (length rows) (concat rows) ! i = rows ! i"
    using concat_split[OF assms i] assms by (simp add: split_rows_def)
qed (simp add: split_rows_def)

section \<open>Kernel and loop\<close>

definition pool_shaped :: "ReqToTokenPool \<Rightarrow> bool" where
  "pool_shaped p \<longleftrightarrow> (\<forall>row \<in> set (req_to_token p). length row = rt_max_context_len p)"

definition in_pool :: "nat list \<Rightarrow> (nat \<times> nat) list \<Rightarrow> ReqToTokenPool \<Rightarrow> bool" where
  "in_pool idx lens p \<longleftrightarrow>
     length idx = length lens \<and> (\<forall>i \<in> set idx. i < length (req_to_token p)) \<and>
     (\<forall>(a, b) \<in> set lens. a \<le> b \<and> b \<le> rt_max_context_len p)"

abbreviation new_tokens :: "(nat \<times> nat) list \<Rightarrow> nat" where
  "new_tokens lens \<equiv> sum_list (map (\<lambda>(a, b). b - a) lens)"

lemma pool_write_row:
  assumes "pool_shaped p" "i < length (req_to_token p)" "a \<le> b" "b \<le> rt_max_context_len p" "length vals = b - a"
  shows "req_pool_write i a b vals p =
     (Inr (), p\<lparr>req_to_token := (req_to_token p)[i := take a (req_to_token p ! i) @ vals @ drop b (req_to_token p ! i)]\<rparr>)"
    and "pool_shaped (snd (req_pool_write i a b vals p))"
proof -
  have len: "length (req_to_token p ! i) = rt_max_context_len p" using assms(1,2) by (simp add: pool_shaped_def)
  then show eq: "req_pool_write i a b vals p =
     (Inr (), p\<lparr>req_to_token := (req_to_token p)[i := take a (req_to_token p ! i) @ vals @ drop b (req_to_token p ! i)]\<rparr>)"
    using assms by (simp add: req_pool_write_def Let_def min_def max_def)
  have "length (take a (req_to_token p ! i) @ vals @ drop b (req_to_token p ! i)) = rt_max_context_len p"
    using len assms(3-5) by simp
  then show "pool_shaped (snd (req_pool_write i a b vals p))"
    using assms(1) set_update_subset_insert unfolding eq pool_shaped_def by fastforce
qed

lemma write_loop_snoc:
  "length is = length ls \<Longrightarrow>
   write_loop (is @ [i]) (ls @ [(a, b)]) out p =
     andThen (write_loop is ls out p) (\<lambda>_ p1. req_pool_write i a b (take (b - a) (drop (new_tokens ls) out)) p1)"
proof (induction "is" ls arbitrary: out p rule: list_induct2)
  case Nil
  then show ?case by (simp add: andThen_def split: prod.splits sum.splits)
next
  case (Cons j js l ls)
  then show ?case
    by (cases l) (auto simp: andThen_def add.commute split: prod.splits sum.splits)
qed

text \<open>After \<open>k\<close> programs the memory is that of the loop after \<open>k\<close> requests.\<close>

lemma kernel_is_loop_upto:
  assumes "pool_shaped p" "in_pool idx lens p" "new_tokens lens \<le> length out" "k \<le> length lens"
  shows "\<exists>q. write_loop (take k idx) (take k lens) out p = (Inr (), q) \<and> pool_shaped q \<and>
           length (req_to_token q) = length (req_to_token p) \<and> q = p\<lparr>req_to_token := req_to_token q\<rparr> \<and>
           concat (req_to_token q) =
             fold (kernel_program (rt_max_context_len p) idx lens out) [0..<k] (concat (req_to_token p))"
  using assms(4)
proof (induction k)
  case 0
  then show ?case using assms(1) by simp
next
  case (Suc k)
  then obtain q where q: "write_loop (take k idx) (take k lens) out p = (Inr (), q)" "pool_shaped q"
    "length (req_to_token q) = length (req_to_token p)" "q = p\<lparr>req_to_token := req_to_token q\<rparr>"
    "concat (req_to_token q) = fold (kernel_program (rt_max_context_len p) idx lens out) [0..<k] (concat (req_to_token p))"
    by auto
  have ctx: "rt_max_context_len q = rt_max_context_len p" by (subst q(4)) simp
  obtain a b where ab: "lens ! k = (a, b)" by (cases "lens ! k")
  have k: "k < length lens" "k < length idx" using Suc.prems assms(2) by (simp_all add: in_pool_def)
  have bounds: "a \<le> b" "b \<le> rt_max_context_len q" "idx ! k < length (req_to_token q)"
    using assms(2) nth_mem[OF k(1)] k ab q(3) ctx by (auto simp: in_pool_def)
  let ?s = "new_tokens (take k lens)" and ?r = "rt_max_context_len q"
  have "new_tokens lens = ?s + (b - a) + new_tokens (drop (Suc k) lens)"
    using arg_cong[OF id_take_nth_drop[OF k(1)], of new_tokens] ab by simp
  then have room: "?s + (b - a) \<le> length out" using assms(3) by simp
  let ?vals = "take (b - a) (drop ?s out)"
  have len: "length ?vals = b - a" using room by simp
  note w = pool_write_row[OF q(2) bounds(3,1,2) len]
  have "write_loop (take (Suc k) idx) (take (Suc k) lens) out p = req_pool_write (idx ! k) a b ?vals q"
    using k q(1) ab write_loop_snoc[of "take k idx" "take k lens" "idx ! k" a b out p]
    by (simp add: take_Suc_conv_app_nth)
  moreover have "concat (req_to_token (snd (req_pool_write (idx ! k) a b ?vals q))) =
      kernel_program ?r idx lens out k (concat (req_to_token q))"
  proof -
    have "idx ! k * ?r + a + (b - a) \<le> length (concat (req_to_token q))"
    proof -
      have "Suc (idx ! k) * ?r \<le> length (req_to_token q) * ?r" using bounds(3) by (intro mult_le_mono1) simp
      then show ?thesis using bounds q(2) length_concat_rows[of "req_to_token q" ?r] by (simp add: pool_shaped_def)
    qed
    note seg = fold_segment[OF this, of "\<lambda>off. out ! (?s + off)"]
    have "map (\<lambda>off. out ! (?s + off)) [0..<b - a] = ?vals" using room by (intro nth_equalityI) auto
    then have "kernel_program ?r idx lens out k (concat (req_to_token q)) =
        take (idx ! k * ?r + a) (concat (req_to_token q)) @ ?vals @ drop (idx ! k * ?r + b) (concat (req_to_token q))"
      using seg bounds(1) by (simp add: kernel_program_def ab kernel_lanes_upt add.commute add.left_commute)
    then show ?thesis
      using w(1) row_segment[of "req_to_token q" ?r "idx ! k" a b ?vals] q(2) bounds by (simp add: pool_shaped_def)
  qed
  moreover have "snd (req_pool_write (idx ! k) a b ?vals q) =
      p\<lparr>req_to_token := req_to_token (snd (req_pool_write (idx ! k) a b ?vals q))\<rparr>"
    unfolding w(1) by (subst q(4)) simp
  ultimately show ?case using w q(3,5) ctx by (intro exI[of _ "snd (req_pool_write (idx ! k) a b ?vals q)"]) simp
qed

lemma kernel_same:
  assumes "pool_shaped p" "in_pool idx lens p" "new_tokens lens \<le> length out"
  shows "write_slots True idx lens out p = write_slots False idx lens out p \<and>
         fst (write_slots False idx lens out p) = Inr ()"
proof -
  obtain q where q: "write_loop idx lens out p = (Inr (), q)" "pool_shaped q"
    "length (req_to_token q) = length (req_to_token p)" "q = p\<lparr>req_to_token := req_to_token q\<rparr>"
    "concat (req_to_token q) = write_kernel (rt_max_context_len p) idx lens out (concat (req_to_token p))"
    using kernel_is_loop_upto[OF assms order_refl] assms(2) by (auto simp: in_pool_def write_kernel_def)
  have "rt_max_context_len q = rt_max_context_len p" by (subst q(4)) simp
  then have "split_rows (rt_max_context_len p) (length (req_to_token p)) (concat (req_to_token q)) = req_to_token q"
    using split_rows_concat[of "req_to_token q" "rt_max_context_len q"] q(2,3) by (simp add: pool_shaped_def)
  then show ?thesis using q(1,4,5) by (simp add: write_slots_def)
qed

text \<open>
  C16: the kernel that writes the slots of a prefill batch, one program per request in blocks of 512 masked
  lanes on flat memory, has the same result as the loop that assigns a slice of a row per request,
  when the rows and lengths are within the pool and there is a slot for every new token.
\<close>

theorem write_kernel_is_loop:
  assumes "pool_shaped p" "in_pool idx lens p" "new_tokens lens \<le> length out"
  shows "write_slots True idx lens out p = write_slots False idx lens out p \<and>
         fst (write_slots False idx lens out p) = Inr ()"
  using kernel_same[OF assms] .

theorem write_kernel_is_loop_witness:
  "write_slots True [2, 0] [(1, 3), (0, 2)] [7, 8, 9, 5] (req_pool_init 3 4) =
   write_slots False [2, 0] [(1, 3), (0, 2)] [7, 8, 9, 5] (req_pool_init 3 4) \<and>
   fst (write_slots False [2, 0] [(1, 3), (0, 2)] [7, 8, 9, 5] (req_pool_init 3 4)) = Inr ()"
  by (rule write_kernel_is_loop) (simp_all add: pool_shaped_def in_pool_def req_pool_init_def)

section \<open>The rows of the requests\<close>

text \<open>A pool in which the rows \<open>idx\<close> are changed, each by its own function, and nothing else.\<close>

definition patched :: "nat list \<Rightarrow> (int list \<Rightarrow> int list) list \<Rightarrow> ReqToTokenPool \<Rightarrow> ReqToTokenPool \<Rightarrow> bool" where
  "patched idx fs p q \<longleftrightarrow>
     pool_shaped q \<and> q = p\<lparr>req_to_token := req_to_token q\<rparr> \<and> length (req_to_token q) = length (req_to_token p) \<and>
     list_all2 (\<lambda>i f. req_to_token q ! i = f (req_to_token p ! i)) idx fs \<and>
     (\<forall>x. x \<notin> set idx \<longrightarrow> req_to_token q ! x = req_to_token p ! x)"

lemma only_rows_trans:
  "q = p\<lparr>req_to_token := m\<rparr> \<Longrightarrow> r = q\<lparr>req_to_token := m'\<rparr> \<Longrightarrow> r = p\<lparr>req_to_token := m'\<rparr>"
  by simp

lemma patched_Nil: "pool_shaped p \<Longrightarrow> patched [] [] p p"
  by (simp add: patched_def)

lemma patched_same:
  assumes "patched idx fs p q"
  shows "pool_shaped q" "rt_max_context_len q = rt_max_context_len p" "rt_free_slots q = rt_free_slots p"
    "length (req_to_token q) = length (req_to_token p)"
proof -
  have "q = p\<lparr>req_to_token := req_to_token q\<rparr>" using assms by (simp add: patched_def)
  then show "rt_max_context_len q = rt_max_context_len p" "rt_free_slots q = rt_free_slots p"
    by (metis ReqToTokenPool.ext_inject ReqToTokenPool.surjective ReqToTokenPool.update_convs(3))+
qed (use assms in \<open>simp_all add: patched_def\<close>)

lemma patched_Cons:
  assumes "patched [i] [f] p q" "patched is fs q r" "i \<notin> set is"
  shows "patched (i # is) (f # fs) p r"
proof -
  have "list_all2 (\<lambda>j g. req_to_token r ! j = g (req_to_token q ! j)) is fs" using assms(2) by (simp add: patched_def)
  then have "list_all2 (\<lambda>j g. req_to_token r ! j = g (req_to_token p ! j)) is fs"
    by (rule list.rel_mono_strong) (use assms(1,3) in \<open>auto simp: patched_def\<close>)
  moreover have "r = p\<lparr>req_to_token := req_to_token r\<rparr>"
    using assms(1,2) only_rows_trans[of q "req_to_token q" p r "req_to_token r"] unfolding patched_def by blast
  ultimately show ?thesis using assms by (simp add: patched_def)
qed

lemma patched_trans:
  assumes "patched idx fs p q" "patched idx gs q r"
  shows "patched idx (map2 (\<lambda>f g. g \<circ> f) fs gs) p r"
proof -
  have "length idx = length fs" "length idx = length gs"
    using assms by (auto simp: patched_def dest: list_all2_lengthD)
  moreover have "r = p\<lparr>req_to_token := req_to_token r\<rparr>"
    using assms(1,2) only_rows_trans[of q "req_to_token q" p r "req_to_token r"] unfolding patched_def by blast
  ultimately show ?thesis using assms by (simp add: patched_def list_all2_conv_all_nth)
qed

text \<open>A slice of a row.\<close>

definition write_at :: "nat \<Rightarrow> nat \<Rightarrow> int list \<Rightarrow> int list \<Rightarrow> int list" where
  "write_at a b vals row = take a row @ vals @ drop b row"

lemma pool_write_patched:
  assumes "pool_shaped p" "i < length (req_to_token p)" "a \<le> b" "b \<le> rt_max_context_len p" "length vals = b - a"
  shows "\<exists>q. req_pool_write i a b vals p = (Inr (), q) \<and> patched [i] [write_at a b vals] p q"
  using pool_write_row[OF assms] assms(2) by (auto simp: patched_def write_at_def)

text \<open>The slots of each request.\<close>

fun cut_slots :: "(nat \<times> nat) list \<Rightarrow> int list \<Rightarrow> int list list" where
  "cut_slots ((a, b) # lens) out = take (b - a) out # cut_slots lens (drop (b - a) out)"
| "cut_slots [] out = []"

lemma length_cut_slots [simp]: "length (cut_slots lens out) = length lens"
  by (induction lens out rule: cut_slots.induct) auto

lemma concat_cut_slots: "length out = new_tokens lens \<Longrightarrow> concat (cut_slots lens out) = out"
  by (induction lens out rule: cut_slots.induct) auto

lemma in_pool_Cons:
  "in_pool (i # is) ((a, b) # lens) p \<longleftrightarrow>
     i < length (req_to_token p) \<and> a \<le> b \<and> b \<le> rt_max_context_len p \<and> in_pool is lens p"
  by (auto simp: in_pool_def)

lemma in_pool_patched: "patched js fs p q \<Longrightarrow> in_pool idx lens q = in_pool idx lens p"
  using patched_same[of js fs p q] by (simp add: in_pool_def)

lemma write_loop_patched:
  assumes "length idx = length lens" "pool_shaped p" "in_pool idx lens p" "distinct idx" "new_tokens lens \<le> length out"
  shows "\<exists>q. write_loop idx lens out p = (Inr (), q) \<and>
     patched idx (map2 (\<lambda>(a, b) vals. write_at a b vals) lens (cut_slots lens out)) p q"
  using assms
proof (induction idx lens arbitrary: out p rule: list_induct2)
  case Nil
  then show ?case by (simp add: patched_Nil)
next
  case (Cons i "is" l ls)
  obtain a b where l: "l = (a, b)" by (cases l)
  have "length (take (b - a) out) = b - a" using Cons.prems(4) l by simp
  then obtain p1 where p1: "req_pool_write i a b (take (b - a) out) p = (Inr (), p1)"
    "patched [i] [write_at a b (take (b - a) out)] p p1"
    using pool_write_patched[of p i a b "take (b - a) out"] Cons.prems(1,2) l by (auto simp: in_pool_Cons)
  note same = patched_same[OF p1(2)]
  obtain q where q: "write_loop is ls (drop (b - a) out) p1 = (Inr (), q)"
    "patched is (map2 (\<lambda>(a, b) vals. write_at a b vals) ls (cut_slots ls (drop (b - a) out))) p1 q"
  proof -
    have "in_pool is ls p1" "distinct is" "new_tokens ls \<le> length (drop (b - a) out)"
      using Cons.prems l in_pool_patched[OF p1(2)] by (simp_all add: in_pool_Cons)
    then show ?thesis using Cons.IH[OF same(1)] that by blast
  qed
  then show ?case using p1 patched_Cons[OF p1(2) q(2)] Cons.prems(3) l by (simp add: andThen_def)
qed

abbreviation x_lens :: "'e extend_req \<Rightarrow> nat \<times> nat" where
  "x_lens x \<equiv> (x_pre x, x_seq x)"

lemma extend_loop_patched:
  assumes "length idx = length xs" "pool_shaped p" "in_pool idx (map x_lens xs) p" "distinct idx"
    "\<forall>x \<in> set xs. q_extend_input_len (x_sched x) = int (x_seq x) - int (x_pre x)"
  shows "\<exists>q. extend_loop idx xs p = (Inr (map2 extended idx xs), q) \<and>
     patched idx (map (\<lambda>x. write_at 0 (x_pre x) (q_prefix_indices (x_sched x))) xs) p q"
  using assms
proof (induction idx xs arbitrary: p rule: list_induct2)
  case Nil
  then show ?case by (simp add: patched_Nil)
next
  case (Cons i "is" x xs)
  let ?f = "write_at 0 (x_pre x) (q_prefix_indices (x_sched x))"
  have row: "i < length (req_to_token p)" "x_pre x \<le> rt_max_context_len p" "in_pool is (map x_lens xs) p"
    using Cons.prems(2) by (simp_all add: in_pool_Cons)
  obtain p1 where p1: "(if 0 < x_pre x then req_pool_write i 0 (x_pre x) (q_prefix_indices (x_sched x)) p
      else (Inr (), p)) = (Inr (), p1)" "patched [i] [?f] p p1"
  proof (cases "0 < x_pre x")
    case True
    then show ?thesis
      using pool_write_patched[OF Cons.prems(1) row(1) _ row(2), of 0 "q_prefix_indices (x_sched x)"] that by auto
  next
    case False
    then show ?thesis using that[of p] Cons.prems(1) by (simp add: patched_def write_at_def)
  qed
  have "in_pool is (map x_lens xs) p1" "distinct is" using row(3) in_pool_patched[OF p1(2)] Cons.prems(3) by simp_all
  then obtain q where q: "extend_loop is xs p1 = (Inr (map2 extended is xs), q)"
    "patched is (map (\<lambda>x. write_at 0 (x_pre x) (q_prefix_indices (x_sched x))) xs) p1 q"
    using Cons.IH[OF patched_same(1)[OF p1(2)]] Cons.prems(4) by auto
  have "extend_row i x = Inr (extended i x)" using Cons.prems(4) by (simp add: extend_row_def)
  then have "extend_loop (i # is) (x # xs) p = (Inr (map2 extended (i # is) (x # xs)), q)"
    using p1(1) q(1) by (simp add: andThen_def)
  then show ?case using patched_Cons[OF p1(2) q(2)] Cons.prems(3) by simp
qed

text \<open>The row of a request after a prefill: prefix, new slots, and what was behind them.\<close>

definition rows_filled :: "nat list \<Rightarrow> 'e extend_req list \<Rightarrow> int list \<Rightarrow> ReqToTokenPool \<Rightarrow> ReqToTokenPool \<Rightarrow> bool" where
  "rows_filled idx xs slots p q \<longleftrightarrow>
     list_all2 (\<lambda>i (x, vals). req_to_token q ! i =
         q_prefix_indices (x_sched x) @ vals @ drop (x_seq x) (req_to_token p ! i))
       idx (zip xs (cut_slots (map x_lens xs) slots)) \<and>
     (\<forall>i. i \<notin> set idx \<longrightarrow> req_to_token q ! i = req_to_token p ! i)"

lemma write_after_prefix:
  "x_pre x \<le> x_seq x \<Longrightarrow>
   write_at (x_pre x) (x_seq x) vals (write_at 0 (x_pre x) (q_prefix_indices (x_sched x)) row) =
     q_prefix_indices (x_sched x) @ vals @ drop (x_seq x) row"
  by (simp add: write_at_def)

lemma filled_after_loops:
  assumes "in_pool idx (map x_lens xs) p0"
    "patched idx (map (\<lambda>x. write_at 0 (x_pre x) (q_prefix_indices (x_sched x))) xs) p p1"
    "patched idx (map2 (\<lambda>(a, b) vals. write_at a b vals) (map x_lens xs) (cut_slots (map x_lens xs) slots)) p1 q"
  shows "rows_filled idx xs slots p q"
proof -
  have "length idx = length xs" "\<forall>x \<in> set xs. x_pre x \<le> x_seq x" using assms(1) by (auto simp: in_pool_def)
  then show ?thesis
    using patched_trans[OF assms(2,3)]
    by (simp add: rows_filled_def patched_def list_all2_conv_all_nth write_after_prefix)
qed

text \<open>The rows of the new batch, and a request that can be prefilled.\<close>

definition extend_rows :: "nat list \<Rightarrow> 'e extend_req list \<Rightarrow> batch_row list" where
  "extend_rows idx xs =
     map2 (\<lambda>i x. \<lparr>w_req = xr_req (extended i x), w_pool_idx = i, w_seq_len = x_seq x, w_output_id = 0,
                  w_encoder_len = 0, w_counted = []\<rparr>) idx xs"

definition extendable :: "nat \<Rightarrow> nat \<Rightarrow> 'e extend_req \<Rightarrow> bool" where
  "extendable ctx V x \<longleftrightarrow>
     x_pre x \<le> x_seq x \<and> x_seq x \<le> ctx \<and> q_extend_input_len (x_sched x) = int (x_seq x) - int (x_pre x) \<and>
     pen_ok V (pen_key (x_sched x)) \<and>
     - (2 ^ 31) \<le> sp_top_k (b_params (xr_req x)) \<and> sp_top_k (b_params (xr_req x)) < 2 ^ 31"

lemma extended_same [simp]:
  "x_pre (extended i x) = x_pre x" "x_seq (extended i x) = x_seq x"
  "q_fill_ids (x_sched (extended i x)) = q_fill_ids (x_sched x)"
  "pen_key (x_sched (extended i x)) = pen_key (x_sched x)"
  "b_params (xr_req (extended i x)) = b_params (xr_req x)"
  "b_custom_logit_processor (xr_req (extended i x)) = b_custom_logit_processor (xr_req x)"
  by (simp_all add: extended_def Let_def pen_key_def)

lemma strings_by_list: "strings rs = {s. Some s \<in> set (map b_custom_logit_processor rs)}"
  unfolding strings_def set_map image_iff by metis

lemma extended_list:
  assumes "length idx = length xs"
  shows "map x_pre (map2 extended idx xs) = map x_pre xs" "map x_seq (map2 extended idx xs) = map x_seq xs"
    "map (\<lambda>y. drop (x_pre y) (q_fill_ids (x_sched y))) (map2 extended idx xs) =
     map (\<lambda>x. drop (x_pre x) (q_fill_ids (x_sched x))) xs"
    "map xr_req (map2 extended idx xs) = map w_req (extend_rows idx xs)"
    "strings (map w_req (extend_rows idx xs)) = strings (map xr_req xs)"
proof -
  show "map x_pre (map2 extended idx xs) = map x_pre xs" "map x_seq (map2 extended idx xs) = map x_seq xs"
    "map (\<lambda>y. drop (x_pre y) (q_fill_ids (x_sched y))) (map2 extended idx xs) =
     map (\<lambda>x. drop (x_pre x) (q_fill_ids (x_sched x))) xs"
    "map xr_req (map2 extended idx xs) = map w_req (extend_rows idx xs)"
    by (rule nth_equalityI, use assms in \<open>auto simp: extend_rows_def\<close>)+
  have "map b_custom_logit_processor (map w_req (extend_rows idx xs)) = map b_custom_logit_processor (map xr_req xs)"
    by (rule nth_equalityI) (use assms in \<open>auto simp: extend_rows_def\<close>)
  then show "strings (map w_req (extend_rows idx xs)) = strings (map xr_req xs)" unfolding strings_by_list by simp
qed

text \<open>The sampling parameters and the columns of the new batch.\<close>

lemma sampled_extend:
  assumes "complete_keys (se_keys senv)" "length idx = length xs" "\<forall>x \<in> set xs. extendable ctx V x"
    "en \<Longrightarrow> strings_ok senv (map xr_req xs)"
  shows "\<exists>si. from_schedule_batch senv en V (map w_req (extend_rows idx xs)) = Inr si \<and>
     sampled senv en V (sam_rows (extend_rows idx xs)) si"
proof -
  have "\<forall>w \<in> set (extend_rows idx xs). pen_ok V (pen_key (w_sched w)) \<and>
      - (2 ^ 31) \<le> sp_top_k (b_params (w_req w)) \<and> sp_top_k (b_params (w_req w)) < 2 ^ 31"
    using assms(3) by (auto simp: extend_rows_def extendable_def dest: set_zip_rightD)
  moreover have "strings_ok senv (map w_req (extend_rows idx xs))" if en
    using assms(4)[OF that] by (simp add: strings_ok_def extended_list(5)[OF assms(2)])
  moreover have rows: "map (\<lambda>r. (r, [])) (map w_req (extend_rows idx xs)) = sam_rows (extend_rows idx xs)"
    by (auto simp: extend_rows_def)
  ultimately show ?thesis
    using sampled_start[OF assms(1), of "map w_req (extend_rows idx xs)" V en, unfolded rows] by auto
qed

lemma extend_batch_aligned:
  assumes "length idx = length xs" "sampled senv en V (sam_rows (extend_rows idx xs)) si" "\<not> bc_encoder_decoder cfg"
  shows "aligned cfg senv en V (extend_rows idx xs)
     (extend_batch (map2 extended idx xs) idx ([], inp, map x_seq (map2 extended idx xs), loc) si)"
proof -
  have cols: "map w_pool_idx (extend_rows idx xs) = idx" "map w_seq_len (extend_rows idx xs) = map x_seq xs"
    by (rule nth_equalityI, use assms(1) in \<open>auto simp: extend_rows_def\<close>)+
  have lp: "logprobs_ok rows (Some (map b_top_logprobs_num (map w_req rows))) (Some (map b_token_ids_logprob (map w_req rows)))"
    for rows by (simp add: logprobs_ok_def list.rel_map list.rel_refl)
  show ?thesis
    unfolding aligned_def extend_batch_def Let_def prod.case extended_list(2,4)[OF assms(1)]
    using assms(2,3) cols lp[of "extend_rows idx xs"] by simp
qed

text \<open>The lengths of a prefill batch: prefix and new tokens make the sequence, and there is an input and a slot per new token.\<close>

definition lengths_fit :: "('f, 'p) ScheduleBatch \<Rightarrow> 'e extend_info \<Rightarrow> bool" where
  "lengths_fit b x \<longleftrightarrow>
     list_all2 (\<lambda>(a, n) l. a + n = int l) (zip (xi_prefix_lens x) (xi_extend_lens x)) (sb_seq_lens b) \<and>
     length (xi_prefix_lens x) = length (sb_reqs b) \<and> length (xi_extend_lens x) = length (sb_reqs b) \<and>
     length (xi_logprob_start_lens x) = length (sb_reqs b) \<and> sum_list (xi_extend_lens x) = xi_extend_num_tokens x \<and>
     (\<exists>ids loc. sb_input_ids b = Some ids \<and> sb_out_cache_loc b = Some loc \<and>
        int (length ids) = xi_extend_num_tokens x \<and> int (length loc) = xi_extend_num_tokens x)"

lemma extended_input_len [simp]: "q_extend_input_len (x_sched (extended i x)) = q_extend_input_len (x_sched x)"
  by (simp add: extended_def Let_def)

lemma sum_new_tokens:
  "\<forall>y \<in> set ys. q_extend_input_len (x_sched y) = int (x_seq y) - int (x_pre y) \<and> x_pre y \<le> x_seq y \<Longrightarrow>
   sum_list (map (\<lambda>y. q_extend_input_len (x_sched y)) ys) = int (sum_list (map (\<lambda>y. x_seq y - x_pre y) ys))"
  by (induction ys) (auto simp: of_nat_diff)

lemma extend_batch_columns:
  "sb_input_ids (extend_batch ys idx (encs, inp, lens, loc) si) = Some inp"
  "sb_out_cache_loc (extend_batch ys idx (encs, inp, lens, loc) si) = Some loc"
  by (simp_all add: extend_batch_def Let_def)

lemma extend_lengths_fit:
  assumes "length idx = length xs" "\<forall>x \<in> set xs. extendable ctx V x" "length out = new_tokens (map x_lens xs)"
    "inp = concat (map (\<lambda>x. drop (x_pre x) (q_fill_ids (x_sched x))) xs)"
  shows "lengths_fit (extend_batch (map2 extended idx xs) idx ([], inp, map x_seq (map2 extended idx xs), out) si)
     (extend_attributes (map2 extended idx xs))"
proof -
  let ?ys = "map2 extended idx xs"
  have ys: "\<forall>y \<in> set ?ys. q_extend_input_len (x_sched y) = int (x_seq y) - int (x_pre y) \<and> x_pre y \<le> x_seq y"
    using assms(2) by (auto simp: extendable_def dest: set_zip_rightD)
  have num: "new_tokens (map x_lens xs) = sum_list (map (\<lambda>y. x_seq y - x_pre y) ?ys)"
    by (rule arg_cong[of _ _ sum_list], rule nth_equalityI) (use assms(1) in auto)
  have "sum_list (map (\<lambda>y. q_extend_input_len (x_sched y)) ?ys) = int (sum_list (map (\<lambda>y. x_seq y - x_pre y) ?ys))"
    using ys by (rule sum_new_tokens)
  moreover have "length inp = new_tokens (map x_lens xs)" unfolding assms(4) by (simp add: length_concat comp_def)
  moreover have "\<forall>i < length xs. int (x_pre (xs ! i)) + q_extend_input_len (x_sched (xs ! i)) = int (x_seq (xs ! i))"
    using assms(2) by (simp add: extendable_def all_set_conv_all_nth)
  ultimately show ?thesis
    using assms(1,3) num
    by (simp add: lengths_fit_def extend_attributes_def extend_batch_def Let_def list_all2_conv_all_nth)
qed

lemma finish_extend_aligned:
  assumes "complete_keys (se_keys senv)" "length idx = length xs" "\<forall>x \<in> set xs. extendable ctx V x"
    "en \<Longrightarrow> strings_ok senv (map xr_req xs)" "\<not> bc_encoder_decoder cfg"
    "length out = new_tokens (map x_lens xs)"
  shows "\<exists>b x. finish_extend cfg senv en V idx out (map2 extended idx xs) = Inr (b, x, map2 extended idx xs) \<and>
     aligned cfg senv en V (extend_rows idx xs) b \<and> sb_out_cache_loc b = Some out \<and>
     lengths_fit b x \<and> sb_input_ids b = Some (concat (map (\<lambda>x. drop (x_pre x) (q_fill_ids (x_sched x))) xs))"
proof -
  obtain si where si: "from_schedule_batch senv en V (map w_req (extend_rows idx xs)) = Inr si"
    "sampled senv en V (sam_rows (extend_rows idx xs)) si"
    using sampled_extend[OF assms(1-4)] by blast
  let ?ys = "map2 extended idx xs" and ?inp = "concat (map (\<lambda>x. drop (x_pre x) (q_fill_ids (x_sched x))) xs)"
  have run: "finish_extend cfg senv en V idx out ?ys =
      Inr (extend_batch ?ys idx ([], ?inp, map x_seq ?ys, out) si, extend_attributes ?ys, ?ys)"
    unfolding finish_extend_def Let_def extended_list(3,4)[OF assms(2)] using si(1) assms(5) by simp
  show ?thesis
    by (intro exI conjI, rule run, rule extend_batch_aligned[OF assms(2) si(2) assms(5)], rule extend_batch_columns,
        rule extend_lengths_fit[OF assms(2,3,6) refl], rule extend_batch_columns)
qed

section \<open>A prefill step\<close>

text \<open>A pool from which \<open>n\<close> rows can be taken.\<close>

definition rows_free :: "nat \<Rightarrow> ReqToTokenPool \<Rightarrow> bool" where
  "rows_free n p \<longleftrightarrow>
     pool_shaped p \<and> distinct (rt_free_slots p) \<and> (\<forall>i \<in> set (rt_free_slots p). i < length (req_to_token p)) \<and>
     n \<le> length (rt_free_slots p)"

lemma extend_slots_radix:
  assumes "slot_serving c"
  shows "\<exists>out c1 c'. extend_slots env buf idx lens n (RadixTree c) = Some (Inr out, RadixTree c') \<and>
     evicts c c1 \<and> slots_taken n out c1 c' \<and> (out = None \<longrightarrow> candidates c1 = {})"
proof -
  obtain out st c1 c' where a: "alloc_token_slots env n False (RadixTree c) = Some (Inr (out, st), RadixTree c')"
    "evicts c c1" "slots_taken n out c1 c'" "out = None \<longrightarrow> candidates c1 = {}"
    using alloc_token_slots_outcome[OF assms, of env n False] by blast
  have "kv_page_size (tc_allocator (RadixTree c)) = 1" using assms by (auto simp: slot_serving_def)
  then have "extend_slots env buf idx lens n (RadixTree c) = Some (Inr out, RadixTree c')"
    by (simp add: extend_slots_def thenO_def a(1))
  then show ?thesis using a(2-4) by (intro exI[of _ out] exI[of _ c1] exI[of _ c'] conjI)
qed

lemma slot_serving_pool: "slot_serving c \<Longrightarrow> slot_serving (c\<lparr>req_to_token_pool := p\<rparr>)"
  by (simp add: slot_serving_def serving_def cache_ok_def roots_ok_def namespace_roots_def)

text \<open>The rows taken from the pool and filled with the prefixes, before the slots of the new tokens are allocated.\<close>

lemma prefixes_written:
  assumes "rows_free (length xs) p" "idx = take (length xs) (rt_free_slots p)"
    "p0 = p\<lparr>rt_free_slots := drop (length xs) (rt_free_slots p)\<rparr>"
    "\<forall>x \<in> set xs. extendable (rt_max_context_len p) V x"
  shows "length idx = length xs" "distinct idx" "in_pool idx (map x_lens xs) p0"
    "\<exists>p1. extend_loop idx xs p0 = (Inr (map2 extended idx xs), p1) \<and>
       patched idx (map (\<lambda>x. write_at 0 (x_pre x) (q_prefix_indices (x_sched x))) xs) p0 p1"
proof -
  show len: "length idx = length xs" and dist: "distinct idx" using assms(1,2) by (simp_all add: rows_free_def)
  have "pool_shaped p0" using assms(1,3) by (simp add: rows_free_def pool_shaped_def)
  moreover show pool: "in_pool idx (map x_lens xs) p0"
    using assms len by (auto simp: rows_free_def in_pool_def extendable_def dest: in_set_takeD)
  moreover have "\<forall>x \<in> set xs. q_extend_input_len (x_sched x) = int (x_seq x) - int (x_pre x)"
    using assms(4) by (simp add: extendable_def)
  ultimately show "\<exists>p1. extend_loop idx xs p0 = (Inr (map2 extended idx xs), p1) \<and>
       patched idx (map (\<lambda>x. write_at 0 (x_pre x) (q_prefix_indices (x_sched x))) xs) p0 p1"
    using extend_loop_patched[OF len _ _ dist] by blast
qed

text \<open>The slots behind the prefixes, by the kernel or by the loop.\<close>

lemma slots_behind_prefixes:
  assumes "length idx = length xs" "distinct idx" "in_pool idx (map x_lens xs) p0"
    "patched idx (map (\<lambda>x. write_at 0 (x_pre x) (q_prefix_indices (x_sched x))) xs) p0 p1"
    "length slots = new_tokens (map x_lens xs)"
  shows "\<exists>q. write_slots triton idx (map x_lens xs) slots p1 = (Inr (), q) \<and> rows_filled idx xs slots p0 q \<and>
     rt_free_slots q = rt_free_slots p0"
proof -
  note same = patched_same[OF assms(4)]
  have pool: "in_pool idx (map x_lens xs) p1" using assms(3) in_pool_patched[OF assms(4)] by simp
  obtain q where q: "write_loop idx (map x_lens xs) slots p1 = (Inr (), q)"
    "patched idx (map2 (\<lambda>(a, b) vals. write_at a b vals) (map x_lens xs) (cut_slots (map x_lens xs) slots)) p1 q"
    using write_loop_patched[OF _ same(1) pool assms(2), of slots] assms(1,5) by auto
  then have "write_slots triton idx (map x_lens xs) slots p1 = (Inr (), q)"
    using kernel_same[OF same(1) pool, of slots] assms(5) by (cases triton) (simp_all add: write_slots_def)
  then show ?thesis using filled_after_loops[OF assms(3,4) q(2)] patched_same(3)[OF q(2)] same(3) by auto
qed

text \<open>
  C11: a prefill step, without pages and without encoder.  On a radix cache and a token pool with enough
  free rows, \<open>prepare_for_extend\<close> returns.  Each request gets a row of its own, taken from the front of
  the free rows, and one allocated slot for each token behind its cached prefix, after
  evicting at most unlocked nodes.  The row then reads the prefix, the new slots in their order, and beyond the
  sequence what it held before; no other row changes, whether the kernel or the loop writes.  The
  columns of the new batch are aligned with its requests, its lengths fit each other, and its input is the
  new tokens of each request.
  Only when no leaf is left to evict the step fails, with a \<open>TypeError\<close>.
\<close>

theorem prepare_for_extend_fills_rows:
  assumes "complete_keys (se_keys senv)" "slot_serving c" "\<not> bc_encoder_decoder cfg"
    "rows_free (length xs) (req_to_token_pool c)"
    "\<forall>x \<in> set xs. extendable (rt_max_context_len (req_to_token_pool c)) V x"
    "en \<Longrightarrow> strings_ok senv (map xr_req xs)"
    "idx = take (length xs) (rt_free_slots (req_to_token_pool c))"
  shows "\<exists>r p1 c1 c2 c' out.
      prepare_for_extend cfg triton cenv senv en V buf xs (RadixTree c) = Some (r, RadixTree c') \<and>
      evicts (c\<lparr>req_to_token_pool := p1\<rparr>) c1 \<and> slots_taken (new_tokens (map x_lens xs)) out c1 c2 \<and>
      (case out of
         None \<Rightarrow> r = Inl TypeError \<and> candidates c1 = {} \<and> c' = c2
       | Some slots \<Rightarrow>
           (\<exists>b x q. r = Inr (b, x, map2 extended idx xs) \<and> aligned cfg senv en V (extend_rows idx xs) b \<and>
              lengths_fit b x \<and> sb_out_cache_loc b = Some slots \<and>
              sb_input_ids b = Some (concat (map (\<lambda>x. drop (x_pre x) (q_fill_ids (x_sched x))) xs)) \<and>
              c' = c2\<lparr>req_to_token_pool := q\<rparr> \<and> rows_filled idx xs slots (req_to_token_pool c) q \<and>
              rt_free_slots q = drop (length xs) (rt_free_slots (req_to_token_pool c))))"
proof -
  let ?p = "req_to_token_pool c" and ?n = "new_tokens (map x_lens xs)"
  define p0 where "p0 = ?p\<lparr>rt_free_slots := drop (length xs) (rt_free_slots ?p)\<rparr>"
  note rows = prefixes_written[OF assms(4,7) p0_def assms(5)]
  obtain p1 where p1: "extend_loop idx xs p0 = (Inr (map2 extended idx xs), p1)"
    "patched idx (map (\<lambda>x. write_at 0 (x_pre x) (q_prefix_indices (x_sched x))) xs) p0 p1"
    using rows(4) by blast
  let ?c = "c\<lparr>req_to_token_pool := p1\<rparr>"
  have alloc: "alloc_req_slots (length xs) (RadixTree c) = (Inr idx, RadixTree (c\<lparr>req_to_token_pool := p0\<rparr>))"
    using assms(4,7) by (simp add: alloc_req_slots_def req_pool_alloc_def rows_free_def p0_def)
  have num: "sum_list (map (\<lambda>x. x_seq x - x_pre x) xs) = ?n" by (simp add: comp_def)
  obtain out c1 c2 where d: "extend_slots cenv buf idx (map x_lens xs) ?n (RadixTree ?c) = Some (Inr out, RadixTree c2)"
    "evicts ?c c1" "slots_taken ?n out c1 c2" "out = None \<longrightarrow> candidates c1 = {}"
    using extend_slots_radix[OF slot_serving_pool[OF assms(2)], of cenv buf idx "map x_lens xs" ?n p1] by (elim exE conjE)
  have pool: "req_to_token_pool c2 = p1" using evicts_pool[OF d(2)] slots_taken_pool[OF d(3)] by simp
  have run: "prepare_for_extend cfg triton cenv senv en V buf xs (RadixTree c) =
      (case out of None \<Rightarrow> Some (Inl TypeError, RadixTree c2)
       | Some slots \<Rightarrow> (case write_slots triton idx (map x_lens xs) slots p1 of
            (Inl e, q) \<Rightarrow> Some (Inl e, RadixTree (c2\<lparr>req_to_token_pool := q\<rparr>))
          | (Inr _, q) \<Rightarrow> Some (finish_extend cfg senv en V idx slots (map2 extended idx xs),
                              RadixTree (c2\<lparr>req_to_token_pool := q\<rparr>))))"
    unfolding prepare_for_extend_def alloc num using p1(1) d(1) pool
    by (simp add: Let_def split: option.split prod.split sum.split)
  show ?thesis
  proof (cases out)
    case None
    then show ?thesis using run d(2-4) by fastforce
  next
    case (Some slots)
    then have len: "length slots = ?n" using slots_taken_length[of ?n slots c1 c2] d(3) by simp
    obtain q where q: "write_slots triton idx (map x_lens xs) slots p1 = (Inr (), q)" "rows_filled idx xs slots p0 q"
      "rt_free_slots q = rt_free_slots p0"
      using slots_behind_prefixes[OF rows(1-3) p1(2) len] by blast
    obtain b x where b: "finish_extend cfg senv en V idx slots (map2 extended idx xs) = Inr (b, x, map2 extended idx xs)"
      "aligned cfg senv en V (extend_rows idx xs) b" "sb_out_cache_loc b = Some slots" "lengths_fit b x"
      "sb_input_ids b = Some (concat (map (\<lambda>x. drop (x_pre x) (q_fill_ids (x_sched x))) xs))"
      using finish_extend_aligned[OF assms(1) rows(1) assms(5,6,3) len] by blast
    have "rows_filled idx xs slots ?p q" "rt_free_slots q = drop (length xs) (rt_free_slots ?p)"
      using q(2,3) by (simp_all add: rows_filled_def p0_def)
    then show ?thesis using run q(1) b d(2,3) Some by fastforce
  qed
qed

text \<open>Two requests on the example tree: the first has its first token cached, the second nothing.\<close>

definition demo_extends :: "unit extend_req list" where
  "demo_extends =
     [\<lparr>xr_req = demo_batch_req (demo_repeats\<lparr>q_fill_ids := [0, 1, 2], q_prefix_indices := [7], q_extend_input_len := 2\<rparr>)
         (Some ''p''), xr_input_embeds = None, xr_cached_tokens = 0, xr_num_image_tokens = None\<rparr>,
      \<lparr>xr_req = demo_batch_req (demo_stops\<lparr>q_fill_ids := [0], q_extend_input_len := 1\<rparr>) None,
       xr_input_embeds = None, xr_cached_tokens = 0, xr_num_image_tokens = None\<rparr>]"

theorem prepare_for_extend_fills_rows_witness:
  "\<exists>r p1 c1 c2 c' out.
      prepare_for_extend demo_cfg True demo_env demo_senv True 4 [] demo_extends (RadixTree demo_tree) = Some (r, RadixTree c') \<and>
      evicts (demo_tree\<lparr>req_to_token_pool := p1\<rparr>) c1 \<and> slots_taken (new_tokens (map x_lens demo_extends)) out c1 c2 \<and>
      (case out of
         None \<Rightarrow> r = Inl TypeError \<and> candidates c1 = {} \<and> c' = c2
       | Some slots \<Rightarrow>
           (\<exists>b x q. r = Inr (b, x, map2 extended [0, 1] demo_extends) \<and>
              aligned demo_cfg demo_senv True 4 (extend_rows [0, 1] demo_extends) b \<and>
              lengths_fit b x \<and> sb_out_cache_loc b = Some slots \<and>
              sb_input_ids b = Some (concat (map (\<lambda>x. drop (x_pre x) (q_fill_ids (x_sched x))) demo_extends)) \<and>
              c' = c2\<lparr>req_to_token_pool := q\<rparr> \<and> rows_filled [0, 1] demo_extends slots (req_to_token_pool demo_tree) q \<and>
              rt_free_slots q = drop (length demo_extends) (rt_free_slots (req_to_token_pool demo_tree))))"
proof -
  have serve: "slot_serving demo_tree"
    using demo_tree_serving unfolding slot_serving_def
    by (simp add: demo_tree_def cache_eval allocator_init_def alloc_clear_def)
  have pool: "req_to_token_pool demo_tree = req_pool_init 2 8" by (simp add: demo_tree_def cache_eval)
  have len: "length demo_extends = 2" by (simp add: demo_extends_def)
  have "rows_free (length demo_extends) (req_to_token_pool demo_tree)"
    "[0, 1] = take (length demo_extends) (rt_free_slots (req_to_token_pool demo_tree))"
    unfolding pool len by (simp_all add: rows_free_def pool_shaped_def req_pool_init_def upt_rec)
  moreover have "\<forall>x \<in> set demo_extends. extendable (rt_max_context_len (req_to_token_pool demo_tree)) 4 x"
    unfolding pool
    by (simp add: demo_extends_def extendable_def demo_batch_req_def req_pool_init_def pen_ok_def stoppable_def pen_key_def
        stop_set_def some_ids_def demo_req_defs)
  moreover have "strings_ok demo_senv (map xr_req demo_extends)"
    by (auto simp: strings_ok_def strings_def demo_extends_def demo_batch_req_def demo_senv_def)
  ultimately show ?thesis
    using prepare_for_extend_fills_rows[OF demo_complete_senv serve, of demo_cfg demo_extends 4 True "[0, 1]" True demo_env "[]"]
    by (simp add: demo_cfg_def)
qed

section \<open>Mixed batches\<close>

abbreviation one_row :: "batch_row \<Rightarrow> batch_row" where
  "one_row w \<equiv> w\<lparr>w_req := one_token (w_req w)\<rparr>"

lemma one_token_same [simp]:
  "pen_key (b_req (one_token r)) = pen_key (b_req r)" "b_params (one_token r) = b_params r"
  "b_custom_logit_processor (one_token r) = b_custom_logit_processor r" "b_multimodal (one_token r) = b_multimodal r"
  "b_top_logprobs_num (one_token r) = b_top_logprobs_num r" "b_token_ids_logprob (one_token r) = b_token_ids_logprob r"
  "b_return_hidden_states (one_token r) = b_return_hidden_states r"
  "q_return_logprob (b_req (one_token r)) = q_return_logprob (b_req r)" "q_stream (b_req (one_token r)) = q_stream (b_req r)"
  "q_grammar (b_req (one_token r)) = q_grammar (b_req r)" "seqlen (b_req (one_token r)) = seqlen (b_req r)"
  "processor_key senv en (one_token r) = processor_key senv en r"
  by (simp_all add: one_token_def pen_key_def seqlen_def processor_key_def)

lemma customised_one: "customised senv en (map one_token rs) s = customised senv en rs s"
  by (simp add: customised_def masks_ok_def loads_to_def comp_def list.rel_map split: option.split)

lemma sampled_one: "sampled senv en V (sam_rows (map one_row rows)) s = sampled senv en V (sam_rows rows) s"
  using customised_one[of senv en "map w_req rows" s] by (simp add: sampled_def comp_def)

lemma aligned_one:
  "aligned cfg senv en V rows b \<Longrightarrow>
   aligned cfg senv en V (map one_row rows) (b\<lparr>sb_reqs := map one_token (sb_reqs b)\<rparr>)"
  using sampled_one[of senv en V rows "sb_sampling_info b"]
  by (simp add: aligned_def logprobs_ok_def list.rel_map comp_def)

lemma aligned_columns_free:
  "aligned cfg senv en V rows (b\<lparr>sb_forward_mode := m\<rparr>) = aligned cfg senv en V rows b"
  "aligned cfg senv en V rows (b\<lparr>sb_input_ids := i, sb_out_cache_loc := l\<rparr>) = aligned cfg senv en V rows b"
  by (simp_all add: aligned_def)

lemma merge_batch_mode: "merge_batch cfg F b other = Inr b' \<Longrightarrow> sb_forward_mode b' = sb_forward_mode b"
  by (auto simp: merge_batch_def bindE_def split: sum.splits prod.splits)

text \<open>The lengths of the running requests: with overlap the last token is not yet among the output tokens.\<close>

definition decoding :: "batch_cfg \<Rightarrow> batch_row list \<Rightarrow> ('f, 'p) ScheduleBatch \<Rightarrow> bool" where
  "decoding cfg rows b \<longleftrightarrow>
     (\<forall>w \<in> set rows. w_seq_len w = seqlen (w_sched w) + (if bc_enable_overlap cfg then 1 else 0)) \<and>
     (\<exists>ids loc. sb_input_ids b = Some ids \<and> sb_out_cache_loc b = Some loc \<and>
        length ids = length rows \<and> length loc = length rows)"

definition mixed_attributes :: "batch_cfg \<Rightarrow> batch_row list \<Rightarrow> 'e extend_info \<Rightarrow> 'e extend_info" where
  "mixed_attributes cfg rows x =
     (let n = length rows in
      x\<lparr>xi_prefix_lens := xi_prefix_lens x @ map (\<lambda>w. int (w_seq_len w) - 1) rows,
        xi_extend_lens := xi_extend_lens x @ replicate n 1, xi_extend_num_tokens := xi_extend_num_tokens x + int n,
        xi_logprob_start_lens := xi_logprob_start_lens x @ replicate n 0\<rparr>)"

lemma mixed_lengths_fit:
  assumes "lengths_fit b x" "sb_seq_lens b' = sb_seq_lens b @ map w_seq_len rows" "length (sb_reqs b') = length (sb_reqs b) + length rows"
    "sb_input_ids b = Some ids" "sb_out_cache_loc b = Some loc" "sb_input_ids b' = Some (ids @ ids')"
    "sb_out_cache_loc b' = Some (loc @ loc')" "length ids' = length rows" "length loc' = length rows"
  shows "lengths_fit b' (mixed_attributes cfg rows x)"
proof -
  have "list_all2 (\<lambda>(a, n) l. a + n = int l) (zip (map (\<lambda>w. int (w_seq_len w) - 1) rows) (replicate (length rows) 1))
      (map w_seq_len rows)"
    by (simp add: list_all2_conv_all_nth)
  then show ?thesis
    using assms by (simp add: lengths_fit_def mixed_attributes_def Let_def list_all2_appendI sum_list_replicate)
qed


text \<open>A prefill of one token behind a prefix of one, and a request that decodes its first token.\<close>

definition demo_prefilled :: "(pyfloat, string) SamplingBatchInfo \<Rightarrow> (pyfloat, string) ScheduleBatch" where
  "demo_prefilled si = (demo_batch_of [demo_row 1 demo_stops None] si)
     \<lparr>sb_output_ids := None, sb_input_ids := Some [3], sb_out_cache_loc := Some [8]\<rparr>"

definition demo_running :: "(pyfloat, string) SamplingBatchInfo \<Rightarrow> (pyfloat, string) ScheduleBatch" where
  "demo_running si = (demo_batch_of [demo_row 0 demo_repeats (Some ''p'')] si)
     \<lparr>sb_input_ids := Some [0], sb_out_cache_loc := Some [9]\<rparr>"

definition demo_attributes :: "unit extend_info" where
  "demo_attributes = \<lparr>xi_input_embeds = None, xi_prefix_lens = [1], xi_extend_lens = [1], xi_extend_num_tokens = 1,
     xi_logprob_start_lens = [0], xi_logprob_token_ids = None, xi_encoder_cached = [], xi_encoder_out_cache_loc = []\<rparr>"


end
