(* ===== verification/Expert_Balance.thy ===== *)
theory Expert_Balance
  imports Prelude
begin

text \<open>
  \<open>managers/eplb_algorithms/deepseek.py\<close>: the expert-parallelism load balancer.  It packs groups of
  experts to nodes, replicates the most loaded experts within a node and packs the replicas to GPUs.

  All tensors are processed row by row, and the model is that of one layer.  Loads are of an
  arbitrary type: sorting, the position of a maximum, addition and division are parameters, since the
  tie-breaking of \<open>torch\<close> is not determined.  A reshaped tensor is given by its entry at each flat
  index.
\<close>

section \<open>Tensors\<close>

record 'w load_ops =
  ld_zero :: 'w
  ld_add :: "'w \<Rightarrow> 'w \<Rightarrow> 'w"
  ld_div :: "'w \<Rightarrow> nat \<Rightarrow> 'w"
  ld_less :: "'w \<Rightarrow> 'w \<Rightarrow> bool"
  ld_sort_desc :: "'w list \<Rightarrow> nat list"
  ld_argmax :: "'w list \<Rightarrow> nat"

text \<open>The indices of a sorted tensor are a permutation; the index of a maximum is an index.\<close>

definition load_ops_ok :: "'w load_ops \<Rightarrow> bool" where
  "load_ops_ok ops \<longleftrightarrow>
     (\<forall>xs. distinct (ld_sort_desc ops xs) \<and> set (ld_sort_desc ops xs) = {..<length xs}) \<and>
     (\<forall>xs. xs \<noteq> [] \<longrightarrow> ld_argmax ops xs < length xs)"

definition tabulate :: "nat \<Rightarrow> (nat \<Rightarrow> 'a) \<Rightarrow> 'a list" where
  "tabulate n f = map f [0..<n]"

lemma tabulate_nth [simp]: "i < n \<Longrightarrow> tabulate n f ! i = f i"
  by (simp add: tabulate_def)

lemma length_tabulate [simp]: "length (tabulate n f) = n"
  by (simp add: tabulate_def)

text \<open>\<open>inverse\<close>: \<open>scatter_\<close> of the positions into an uninitialised tensor.\<close>

definition inverse_row :: "nat list \<Rightarrow> nat list" where
  "inverse_row perm = fold (\<lambda>i inv. inv[perm ! i := i]) [0..<length perm] (replicate (length perm) 0)"

section \<open>Packing\<close>

text \<open>\<open>min(\<dots>, key=\<dots>)\<close>: the first candidate with a minimal key.\<close>

fun first_min :: "'w load_ops \<Rightarrow> ('a \<Rightarrow> 'w) \<Rightarrow> 'a \<Rightarrow> 'a list \<Rightarrow> 'a" where
  "first_min ops f best [] = best"
| "first_min ops f best (x # xs) = first_min ops f (if ld_less ops (f x) (f best) then x else best) xs"

type_synonym 'w pack_state = "'w list \<times> nat list \<times> int list \<times> int list"

fun pack_loop :: "'w load_ops \<Rightarrow> nat \<Rightarrow> nat \<Rightarrow> 'w list \<Rightarrow> nat list \<Rightarrow> 'w pack_state \<Rightarrow> 'w pack_state result" where
  "pack_loop ops num_packs per_pack weight [] s = Inr s"
| "pack_loop ops num_packs per_pack weight (g # gs) (pack_weights, pack_items, pack_index, rank) =
     (case filter (\<lambda>i. pack_items ! i < per_pack) [0..<num_packs] of
        [] \<Rightarrow> Inl (ValueError ''min() arg is an empty sequence'')
      | c # cs \<Rightarrow>
          (let p = first_min ops ((!) pack_weights) c cs
           in if pack_items ! p < per_pack
              then pack_loop ops num_packs per_pack weight gs
                     (pack_weights[p := ld_add ops (pack_weights ! p) (weight ! g)],
                      pack_items[p := Suc (pack_items ! p)],
                      pack_index[g := int p], rank[g := int (pack_items ! p)])
              else Inl AssertionError))"

definition balanced_packing :: "'w load_ops \<Rightarrow> 'w list \<Rightarrow> nat \<Rightarrow> (int list \<times> int list) result" where
  "balanced_packing ops weight num_packs =
     (let n = length weight in
      if num_packs = 0 then Inl ZeroDivisionError
      else if n mod num_packs \<noteq> 0 then Inl AssertionError
      else let per_pack = n div num_packs in
        if per_pack = 1 then Inr (map int [0..<n], replicate n 0)
        else bindE (pack_loop ops num_packs per_pack weight (ld_sort_desc ops weight)
                      (replicate num_packs (ld_zero ops), replicate num_packs 0, replicate n (-1), replicate n (-1)))
               (\<lambda>(_, _, pack_index, rank). Inr (pack_index, rank)))"

section \<open>Replication\<close>

type_synonym rep_state = "nat list \<times> nat list \<times> nat list"

definition replicate_step :: "'w load_ops \<Rightarrow> 'w list \<Rightarrow> nat \<Rightarrow> rep_state \<Rightarrow> rep_state" where
  "replicate_step ops weight i s =
     (let (phy2log, rank, logcnt) = s; r = ld_argmax ops (map2 (ld_div ops) weight logcnt)
      in (phy2log[i := r], rank[i := logcnt ! r], logcnt[r := Suc (logcnt ! r)]))"

text \<open>Without logical experts the maximum of an empty dimension raises.\<close>

definition replicate_experts :: "'w load_ops \<Rightarrow> 'w list \<Rightarrow> nat \<Rightarrow> rep_state result" where
  "replicate_experts ops weight num_phy =
     (let num_log = length weight in
      if num_phy < num_log then Inl AssertionError
      else if num_log = 0 \<and> 0 < num_phy then Inl IndexError
      else Inr (fold (replicate_step ops weight) [num_log..<num_phy]
                  ([0..<num_phy], replicate num_phy 0, replicate num_log 1)))"

section \<open>The hierarchical balancer\<close>

record balance =
  bl_phy2log :: "nat list"
  bl_phyrank :: "nat list"
  bl_logcnt :: "nat list"

text \<open>Steps 2 and 3 on one node: replicas of its experts, and their places on its GPUs.\<close>

definition place_replicas ::
  "'w load_ops \<Rightarrow> nat \<Rightarrow> nat \<Rightarrow> nat \<Rightarrow> 'w list \<Rightarrow> (nat list \<times> nat list \<times> nat list) result" where
  "place_replicas ops num_phy num_packs per_gpu tokens_per_mlog =
     bindE (replicate_experts ops tokens_per_mlog num_phy) (\<lambda>(phy2mlog, phyrank, mlogcnt).
       let tokens_per_phy = map (\<lambda>m. ld_div ops (tokens_per_mlog ! m) (mlogcnt ! m)) phy2mlog
       in bindE (balanced_packing ops tokens_per_phy num_packs) (\<lambda>(pack_index, rank).
            let pphy2phy = inverse_row (map2 (\<lambda>p r. nat (p * int per_gpu + r)) pack_index rank)
            in Inr (map ((!) phy2mlog) pphy2phy, map ((!) phyrank) pphy2phy, mlogcnt)))"

definition rebalance_experts_hierarchical ::
  "'w load_ops \<Rightarrow> 'w list \<Rightarrow> nat \<Rightarrow> nat \<Rightarrow> nat \<Rightarrow> nat \<Rightarrow> balance result" where
  "rebalance_experts_hierarchical ops weight num_phy num_groups num_nodes num_gpus =
     (let num_log = length weight in
      if num_groups = 0 \<or> num_nodes = 0 \<or> num_gpus = 0 then Inl ZeroDivisionError
      else if num_log mod num_groups \<noteq> 0 \<or> num_groups mod num_nodes \<noteq> 0 \<or> num_gpus mod num_nodes \<noteq> 0 \<or>
              num_phy mod num_gpus \<noteq> 0 then Inl AssertionError
      else
        let group_size = num_log div num_groups; groups_per_node = num_groups div num_nodes;
            per_gpu = num_phy div num_gpus; node_log = num_log div num_nodes; node_phy = num_phy div num_nodes;
            tokens_per_group = tabulate num_groups (\<lambda>g.
              fold (\<lambda>j x. ld_add ops x (weight ! (g * group_size + j))) [0..<group_size] (ld_zero ops))
        in bindE (balanced_packing ops tokens_per_group num_nodes) (\<lambda>(group_pack_index, group_rank).
           let log2mlog = tabulate num_log (\<lambda>e.
                 nat ((group_pack_index ! (e div group_size) * int groups_per_node + group_rank ! (e div group_size))
                      * int group_size) + e mod group_size);
               mlog2log = inverse_row log2mlog
           in if num_log = 0 then Inl (RuntimeError ''cannot reshape tensor of 0 elements'')
              else bindE (mapE (\<lambda>k. place_replicas ops node_phy (num_gpus div num_nodes) per_gpu
                            (tabulate node_log (\<lambda>j. weight ! (mlog2log ! (k * node_log + j))))) [0..<num_nodes])
                (\<lambda>nodes.
                   Inr \<lparr>bl_phy2log = tabulate num_phy (\<lambda>i.
                          mlog2log ! (fst (nodes ! (i div node_phy)) ! (i mod node_phy) + i div node_phy * node_log)),
                        bl_phyrank = tabulate num_phy (\<lambda>i. fst (snd (nodes ! (i div node_phy))) ! (i mod node_phy)),
                        bl_logcnt = tabulate num_log (\<lambda>e.
                          snd (snd (nodes ! (log2mlog ! e div node_log))) ! (log2mlog ! e mod node_log))\<rparr>)))"

section \<open>The entry point\<close>

text \<open>
  The table of replicas of each expert, \<open>width\<close> entries per expert: the largest number of replicas in any
  layer.
\<close>

definition log2phy_table :: "nat \<Rightarrow> nat \<Rightarrow> balance \<Rightarrow> int list list" where
  "log2phy_table num_log width b =
     (let flat = fold (\<lambda>i t. t[bl_phy2log b ! i * width + bl_phyrank b ! i := int i]) [0..<length (bl_phy2log b)]
                   (replicate (num_log * width) (-1))
      in tabulate num_log (\<lambda>e. tabulate width (\<lambda>r. flat ! (e * width + r))))"

definition rebalance_experts ::
  "'w load_ops \<Rightarrow> 'w list list \<Rightarrow> nat \<Rightarrow> nat \<Rightarrow> nat \<Rightarrow> nat \<Rightarrow> bool
     \<Rightarrow> (balance \<times> int list list) list result" where
  "rebalance_experts ops weight num_replicas num_groups num_nodes num_gpus enable_hierarchical =
     bindE (mapE (\<lambda>w. if enable_hierarchical
                       then rebalance_experts_hierarchical ops w num_replicas num_groups num_nodes num_gpus
                       else rebalance_experts_hierarchical ops w num_replicas 1 1 num_gpus) weight) (\<lambda>layers.
       if concat (map bl_logcnt layers) = [] then Inl (RuntimeError ''max() of an empty tensor'')
       else let maxlogcnt = Max (set (concat (map bl_logcnt layers)))
            in Inr (map (\<lambda>b. (b, log2phy_table (length (bl_logcnt b)) maxlogcnt b)) layers))"

section \<open>Permutations\<close>

definition perm :: "nat list \<Rightarrow> nat \<Rightarrow> bool" where
  "perm xs n \<longleftrightarrow> length xs = n \<and> distinct xs \<and> set xs = {..<n}"

lemma perm_less: "perm xs n \<Longrightarrow> i < n \<Longrightarrow> xs ! i < n"
  unfolding perm_def by (metis lessThan_iff nth_mem)

lemma perm_inj: "perm xs n \<Longrightarrow> i < n \<Longrightarrow> j < n \<Longrightarrow> xs ! i = xs ! j \<longleftrightarrow> i = j"
  by (simp add: perm_def nth_eq_iff_index_eq)

lemma perm_onto: "perm xs n \<Longrightarrow> j < n \<Longrightarrow> \<exists>i < n. xs ! i = j"
  unfolding perm_def by (metis in_set_conv_nth lessThan_iff)

lemma permI:
  assumes "length xs = n" "\<And>i. i < n \<Longrightarrow> xs ! i < n" "\<And>i j. i < n \<Longrightarrow> j < n \<Longrightarrow> xs ! i = xs ! j \<Longrightarrow> i = j"
  shows "perm xs n"
proof -
  have "distinct xs" using assms(1,3) by (auto simp: distinct_conv_nth)
  moreover have "set xs \<subseteq> {..<n}" using assms(1,2) by (auto simp: in_set_conv_nth)
  ultimately have "set xs = {..<n}"
    using assms(1) by (metis card_lessThan card_subset_eq distinct_card finite_lessThan)
  then show ?thesis using assms(1) \<open>distinct xs\<close> by (simp add: perm_def)
qed

text \<open>Writing to different positions one after the other.\<close>

lemma scatter_fold:
  assumes "inj_on f {..<k}" "\<forall>i < k. f i < length xs"
  shows "length (fold (\<lambda>i t. t[f i := g i]) [0..<k] xs) = length xs \<and>
     (\<forall>i < k. fold (\<lambda>i t. t[f i := g i]) [0..<k] xs ! f i = g i) \<and>
     (\<forall>j. j \<notin> f ` {..<k} \<longrightarrow> fold (\<lambda>i t. t[f i := g i]) [0..<k] xs ! j = xs ! j)"
  using assms
proof (induction k)
  case (Suc k)
  let ?t = "fold (\<lambda>i t. t[f i := g i]) [0..<k] xs"
  have IH: "length ?t = length xs" "\<forall>i < k. ?t ! f i = g i" "\<forall>j. j \<notin> f ` {..<k} \<longrightarrow> ?t ! j = xs ! j"
    using Suc by (auto simp: lessThan_Suc)
  have "\<forall>i < k. f k \<noteq> f i"
    using Suc.prems(1) by (metis inj_onD lessI lessThan_iff less_SucI less_irrefl)
  then show ?case using IH Suc.prems(2) by (auto simp: less_Suc_eq lessThan_Suc nth_list_update)
qed simp

lemma inverse_row_perm:
  assumes "perm p n"
  shows "perm (inverse_row p) n" "\<And>i. i < n \<Longrightarrow> inverse_row p ! (p ! i) = i"
    "\<And>j. j < n \<Longrightarrow> p ! (inverse_row p ! j) = j"
proof -
  have len: "length p = n" using assms by (simp add: perm_def)
  have "inj_on ((!) p) {..<n}" using perm_inj[OF assms] by (auto simp: inj_on_def)
  note sc = scatter_fold[OF this, of "replicate n 0" "\<lambda>i. i"]
  have sc1: "length (inverse_row p) = n" "\<forall>i < n. inverse_row p ! (p ! i) = i"
    using sc perm_less[OF assms] by (simp_all add: inverse_row_def len)
  then show inv: "\<And>i. i < n \<Longrightarrow> inverse_row p ! (p ! i) = i" by simp
  show right: "\<And>j. j < n \<Longrightarrow> p ! (inverse_row p ! j) = j" using perm_onto[OF assms] inv by metis
  show "perm (inverse_row p) n"
  proof (rule permI[OF sc1(1)])
    fix i assume "i < n"
    then obtain j where "j < n" "p ! j = i" using perm_onto[OF assms] by blast
    then show "inverse_row p ! i < n" using inv by auto
  next
    fix i j assume "i < n" "j < n" "inverse_row p ! i = inverse_row p ! j"
    then show "i = j" using right by metis
  qed
qed

section \<open>Packing\<close>

lemma first_min_in: "first_min ops f best xs \<in> insert best (set xs)"
  by (induction xs arbitrary: best) (auto split: if_splits)

text \<open>Every item of \<open>D\<close> has a place of its own below the fill levels of the packs.\<close>

definition packing_inv :: "nat \<Rightarrow> nat \<Rightarrow> nat \<Rightarrow> nat set \<Rightarrow> nat list \<Rightarrow> int list \<Rightarrow> int list \<Rightarrow> bool" where
  "packing_inv n packs per D items idx rk \<longleftrightarrow>
     length items = packs \<and> length idx = n \<and> length rk = n \<and> D \<subseteq> {..<n} \<and>
     (\<forall>p < packs. items ! p \<le> per) \<and> sum_list items = card D \<and>
     (\<forall>g \<in> D. \<exists>p r. idx ! g = int p \<and> rk ! g = int r \<and> p < packs \<and> r < items ! p) \<and>
     inj_on (\<lambda>g. (idx ! g, rk ! g)) D"

lemma full_packs: "\<forall>p < length items. per \<le> items ! p \<Longrightarrow> length items * per \<le> sum_list (items :: nat list)"
proof (induction items)
  case (Cons a items)
  have "per \<le> a" using Cons.prems by (metis length_Cons nth_Cons_0 zero_less_Suc)
  moreover have "\<forall>p < length items. per \<le> items ! p" using Cons.prems by (metis Suc_less_eq length_Cons nth_Cons_Suc)
  ultimately show ?case using Cons.IH by simp
qed simp

lemma room_left:
  assumes "packing_inv n packs per D items idx rk" "card D < packs * per"
  shows "filter (\<lambda>i. items ! i < per) [0..<packs] \<noteq> []"
proof
  assume "filter (\<lambda>i. items ! i < per) [0..<packs] = []"
  then have "\<forall>p < length items. per \<le> items ! p"
    using assms(1) by (auto simp: packing_inv_def filter_empty_conv not_less)
  from full_packs[OF this] show False using assms by (simp add: packing_inv_def)
qed

lemma packing_step:
  assumes inv: "packing_inv n packs per D items idx rk" and g: "g \<notin> D" "g < n" and p: "p < packs" "items ! p < per"
  shows "packing_inv n packs per (insert g D) (items[p := Suc (items ! p)]) (idx[g := int p]) (rk[g := int (items ! p)])"
proof -
  note i = inv[unfolded packing_inv_def]
  have "sum_list (items[p := Suc (items ! p)]) = Suc (sum_list items)"
    using i p by (simp add: sum_list_update)
  moreover have "finite D" using i finite_subset by blast
  moreover have "\<exists>q r. (idx[g := int p]) ! h = int q \<and> (rk[g := int (items ! p)]) ! h = int r \<and> q < packs \<and>
      r < items[p := Suc (items ! p)] ! q" if "h \<in> insert g D" for h
  proof (cases "h = g")
    case True
    then show ?thesis using i g p by auto
  next
    case False
    then obtain q r where "idx ! h = int q" "rk ! h = int r" "q < packs" "r < items ! q" using i \<open>h \<in> insert g D\<close> by auto
    then show ?thesis using False i p by (intro exI[of _ q] exI[of _ r]) (auto simp: nth_list_update)
  qed
  moreover have "inj_on (\<lambda>h. ((idx[g := int p]) ! h, (rk[g := int (items ! p)]) ! h)) (insert g D)"
  proof -
    have "(idx ! h, rk ! h) \<noteq> (int p, int (items ! p))" if "h \<in> D" for h
      using i that by fastforce
    moreover have "idx[g := v] ! h = idx ! h" "rk[g := v] ! h = rk ! h" if "h \<in> D" for h v
      using that g by (metis nth_list_update_neq)+
    ultimately show ?thesis using i g by (fastforce simp: inj_on_def)
  qed
  ultimately show ?thesis using i g p by (auto simp: packing_inv_def nth_list_update Suc_le_eq)
qed

lemma pack_loop_packs:
  assumes "packing_inv n packs per D items idx rk" "distinct gs" "set gs \<inter> D = {}" "set gs \<subseteq> {..<n}" "n = packs * per"
  shows "\<exists>pw' items' idx' rk'. pack_loop ops packs per weight gs (pw, items, idx, rk) = Inr (pw', items', idx', rk') \<and>
           packing_inv n packs per (D \<union> set gs) items' idx' rk'"
  using assms
proof (induction gs arbitrary: D pw items idx rk)
  case (Cons g gs)
  have "finite D" "insert g D \<subseteq> {..<n}" "g \<notin> D"
    using Cons.prems(1,3,4) finite_subset by (auto simp: packing_inv_def)
  then have "card D < n" using card_mono[of "{..<n}" "insert g D"] by simp
  from room_left[OF Cons.prems(1)] this obtain c cs where
    cs: "filter (\<lambda>i. items ! i < per) [0..<packs] = c # cs"
    using Cons.prems(5) by (metis list.exhaust)
  define p where "p = first_min ops ((!) pw) c cs"
  have "p \<in> set (filter (\<lambda>i. items ! i < per) [0..<packs])"
    using first_min_in[of ops "(!) pw" c cs] cs by (simp add: p_def)
  then have p: "p < packs" "items ! p < per" by simp_all
  note step = packing_step[OF Cons.prems(1) \<open>g \<notin> D\<close> _ p]
  have "\<exists>pw' items' idx' rk'. pack_loop ops packs per weight gs (pw[p := ld_add ops (pw ! p) (weight ! g)],
      items[p := Suc (items ! p)], idx[g := int p], rk[g := int (items ! p)]) = Inr (pw', items', idx', rk') \<and>
      packing_inv n packs per (insert g D \<union> set gs) items' idx' rk'"
    by (rule Cons.IH[OF step]) (use Cons.prems in auto)
  then show ?case using cs p by (simp add: p_def Let_def)
qed auto

definition packs_ok :: "nat \<Rightarrow> nat \<Rightarrow> int list \<Rightarrow> int list \<Rightarrow> bool" where
  "packs_ok packs per idx rk \<longleftrightarrow>
     length idx = packs * per \<and> length rk = packs * per \<and>
     (\<forall>g < packs * per. 0 \<le> idx ! g \<and> idx ! g < int packs \<and> 0 \<le> rk ! g \<and> rk ! g < int per) \<and>
     inj_on (\<lambda>g. (idx ! g, rk ! g)) {..<packs * per}"

lemma balanced_packing_packs:
  assumes "load_ops_ok ops" "length weight = packs * per" "0 < packs"
  shows "\<exists>idx rk. balanced_packing ops weight packs = Inr (idx, rk) \<and> packs_ok packs per idx rk"
proof (cases "per = 1")
  case True
  then show ?thesis
    using assms by (auto simp: balanced_packing_def packs_ok_def inj_on_def)
next
  case False
  let ?n = "packs * per" and ?gs = "ld_sort_desc ops weight"
  have "packing_inv ?n packs per {} (replicate packs 0) (replicate ?n (-1)) (replicate ?n (-1))"
    by (simp add: packing_inv_def)
  from pack_loop_packs[OF this, of ?gs ops weight "replicate packs (ld_zero ops)"] obtain pw items idx rk where
    run: "pack_loop ops packs per weight ?gs (replicate packs (ld_zero ops), replicate packs 0,
      replicate ?n (-1), replicate ?n (-1)) = Inr (pw, items, idx, rk)"
    and inv: "packing_inv ?n packs per (set ?gs) items idx rk"
    using assms(1,2) by (auto simp: load_ops_ok_def)
  have D: "set ?gs = {..<?n}" using assms(1,2) by (simp add: load_ops_ok_def)
  have "0 \<le> idx ! g \<and> idx ! g < int packs \<and> 0 \<le> rk ! g \<and> rk ! g < int per" if "g < ?n" for g
  proof -
    note i = inv[unfolded packing_inv_def D]
    have "\<exists>p r. idx ! g = int p \<and> rk ! g = int r \<and> p < packs \<and> r < items ! p" using i that by simp
    then obtain p r where "idx ! g = int p" "rk ! g = int r" "p < packs" "r < items ! p" by blast
    moreover from this have "items ! p \<le> per" using i by simp
    ultimately show ?thesis by simp
  qed
  then have "packs_ok packs per idx rk" using inv unfolding packing_inv_def packs_ok_def D by blast
  then show ?thesis using run False assms(2,3) by (simp add: balanced_packing_def Let_def)
qed

text \<open>The place of an item in the sequence of all packs.\<close>

lemma mixed_radix: "(a :: nat) * k + b = c * k + d \<Longrightarrow> b < k \<Longrightarrow> d < k \<Longrightarrow> a = c \<and> b = d"
  by (metis add.commute add_left_cancel div_mult_self3 div_less mult.commute add_0 less_nat_zero_code)

lemma radix_less: "(a :: nat) < c \<Longrightarrow> b < k \<Longrightarrow> a * k + b < c * k"
  using mult_le_mono1[of "Suc a" c k] by simp

lemma packs_perm:
  assumes "packs_ok packs per idx rk"
  shows "perm (map2 (\<lambda>p r. nat (p * int per + r)) idx rk) (packs * per)"
proof (rule permI)
  note ok = assms[unfolded packs_ok_def]
  have nth: "map2 (\<lambda>p r. nat (p * int per + r)) idx rk ! g = nat (idx ! g) * per + nat (rk ! g)"
    "nat (idx ! g) < packs" "nat (rk ! g) < per" if "g < packs * per" for g
    using ok that by (auto simp: nat_add_distrib nat_mult_distrib)
  show "length (map2 (\<lambda>p r. nat (p * int per + r)) idx rk) = packs * per" using ok by simp
  fix i assume i: "i < packs * per"
  show "map2 (\<lambda>p r. nat (p * int per + r)) idx rk ! i < packs * per" using nth[OF i] by (simp add: radix_less)
  fix j assume j: "j < packs * per"
    "map2 (\<lambda>p r. nat (p * int per + r)) idx rk ! i = map2 (\<lambda>p r. nat (p * int per + r)) idx rk ! j"
  then have "nat (idx ! i) = nat (idx ! j) \<and> nat (rk ! i) = nat (rk ! j)"
    using mixed_radix[of "nat (idx ! i)" per "nat (rk ! i)" "nat (idx ! j)" "nat (rk ! j)"] nth[OF i] nth[OF j(1)] by simp
  then have "(idx ! i, rk ! i) = (idx ! j, rk ! j)" using ok i j(1) by (auto simp: nat_eq_iff2)
  then show "i = j" using ok i j(1) by (auto simp: inj_on_def)
qed

section \<open>Replication\<close>

text \<open>The physical experts below \<open>k\<close> are exactly the replicas that the counts announce.\<close>

abbreviation replicas :: "nat \<Rightarrow> nat list \<Rightarrow> (nat \<times> nat) set" where
  "replicas n cnt \<equiv> {(e, r). e < n \<and> r < cnt ! e}"

definition replicated :: "nat \<Rightarrow> nat \<Rightarrow> nat \<Rightarrow> rep_state \<Rightarrow> bool" where
  "replicated n num_phy k s \<longleftrightarrow>
     (case s of (phy2log, rank, logcnt) \<Rightarrow>
        length phy2log = num_phy \<and> length rank = num_phy \<and> length logcnt = n \<and> (\<forall>e < n. 1 \<le> logcnt ! e) \<and>
        bij_betw (\<lambda>i. (phy2log ! i, rank ! i)) {..<k} (replicas n logcnt))"

lemma replicated_start:
  assumes "n \<le> num_phy"
  shows "replicated n num_phy n ([0..<num_phy], replicate num_phy 0, replicate n 1)"
proof -
  have "bij_betw (\<lambda>i. (i, 0 :: nat)) {..<n} (replicas n (replicate n 1))"
    by (auto simp: bij_betw_def inj_on_def image_iff)
  moreover have "bij_betw (\<lambda>i. ([0..<num_phy] ! i, replicate num_phy (0 :: nat) ! i)) {..<n} (replicas n (replicate n 1)) \<longleftrightarrow>
      bij_betw (\<lambda>i. (i, 0 :: nat)) {..<n} (replicas n (replicate n 1))"
    by (rule bij_betw_cong) (use assms in simp)
  ultimately show ?thesis by (simp add: replicated_def)
qed

lemma replicated_step:
  assumes "load_ops_ok ops" "length weight = n" "0 < n" "replicated n num_phy k s" "k < num_phy"
  shows "replicated n num_phy (Suc k) (replicate_step ops weight k s)"
proof -
  obtain pl rk cnt where s: "s = (pl, rk, cnt)" by (cases s)
  note ok = assms(4)[unfolded replicated_def s prod.case]
  define r where "r = ld_argmax ops (map2 (ld_div ops) weight cnt)"
  have len: "length (map2 (ld_div ops) weight cnt) = n" using assms(2) ok by simp
  then have "map2 (ld_div ops) weight cnt \<noteq> []" using assms(3) by fastforce
  then have "r < length (map2 (ld_div ops) weight cnt)" using assms(1) unfolding load_ops_ok_def r_def by blast
  then have r: "r < n" unfolding len .
  let ?f = "\<lambda>i. (pl[k := r] ! i, rk[k := cnt ! r] ! i)"
  have "bij_betw ?f {..<k} (replicas n cnt) \<longleftrightarrow> bij_betw (\<lambda>i. (pl ! i, rk ! i)) {..<k} (replicas n cnt)"
    by (rule bij_betw_cong) simp
  then have "bij_betw ?f {..<k} (replicas n cnt)" using ok by simp
  moreover have fk: "?f k = (r, cnt ! r)" using ok assms(5) by simp
  ultimately have "bij_betw ?f ({..<k} \<union> {k}) (replicas n cnt \<union> {?f k})"
    by (intro notIn_Un_bij_betw) auto
  moreover have "replicas n cnt \<union> {?f k} = replicas n (cnt[r := Suc (cnt ! r)])"
    unfolding fk using r ok by (auto simp: nth_list_update less_Suc_eq split: if_splits)
  moreover have "{..<k} \<union> {k} = {..<Suc k}" by auto
  ultimately have "bij_betw ?f {..<Suc k} (replicas n (cnt[r := Suc (cnt ! r)]))" by metis
  then show ?thesis
    using ok r by (auto simp: replicated_def replicate_step_def s Let_def r_def[symmetric] nth_list_update)
qed

lemma replicate_experts_ok:
  assumes "load_ops_ok ops" "length weight = n" "0 < n" "n \<le> num_phy"
  shows "\<exists>s. replicate_experts ops weight num_phy = Inr s \<and> replicated n num_phy num_phy s"
proof -
  have "replicated n num_phy k (fold (replicate_step ops weight) [n..<k] ([0..<num_phy], replicate num_phy 0, replicate n 1))"
    if "n \<le> k" "k \<le> num_phy" for k
    using that
  proof (induction k rule: dec_induct)
    case base
    then show ?case using replicated_start[OF assms(4)] by simp
  next
    case (step k)
    then show ?case using replicated_step[OF assms(1-3)] by simp
  qed
  from this[OF assms(4) order_refl] show ?thesis using assms by (simp add: replicate_experts_def)
qed

section \<open>One node\<close>

text \<open>The result for one node: each replica of each of its experts has one place on its GPUs.\<close>

definition node_ok :: "nat \<Rightarrow> nat \<Rightarrow> nat list \<times> nat list \<times> nat list \<Rightarrow> bool" where
  "node_ok n num_phy node \<longleftrightarrow>
     (case node of (pphy2mlog, pphyrank, mlogcnt) \<Rightarrow>
        length mlogcnt = n \<and> (\<forall>e < n. 1 \<le> mlogcnt ! e) \<and>
        bij_betw (\<lambda>i. (pphy2mlog ! i, pphyrank ! i)) {..<num_phy} (replicas n mlogcnt))"

lemma perm_bij: "perm p n \<Longrightarrow> bij_betw ((!) p) {..<n} {..<n}"
  unfolding perm_def by (metis bij_betw_nth)

lemma place_replicas_ok:
  assumes "load_ops_ok ops" "length tokens = n" "0 < n" "n \<le> packs * per" "0 < packs"
  shows "\<exists>node. place_replicas ops (packs * per) packs per tokens = Inr node \<and> node_ok n (packs * per) node"
proof -
  obtain pl rk cnt where rep: "replicate_experts ops tokens (packs * per) = Inr (pl, rk, cnt)"
    "replicated n (packs * per) (packs * per) (pl, rk, cnt)"
    using replicate_experts_ok[OF assms(1-4)] by (metis prod_cases3)
  let ?load = "map (\<lambda>m. ld_div ops (tokens ! m) (cnt ! m)) pl"
  have "length ?load = packs * per" using rep(2) by (simp add: replicated_def)
  from balanced_packing_packs[OF assms(1) this assms(5)] obtain idx rk' where
    pack: "balanced_packing ops ?load packs = Inr (idx, rk')" "packs_ok packs per idx rk'" by blast
  let ?q = "inverse_row (map2 (\<lambda>p r. nat (p * int per + r)) idx rk')"
  have q: "perm ?q (packs * per)" by (rule inverse_row_perm(1)[OF packs_perm[OF pack(2)]])
  have "bij_betw ((\<lambda>i. (pl ! i, rk ! i)) \<circ> (!) ?q) {..<packs * per} (replicas n cnt)"
    by (rule bij_betw_trans[OF perm_bij[OF q]]) (use rep(2) in \<open>simp add: replicated_def\<close>)
  moreover have "bij_betw (\<lambda>i. (map ((!) pl) ?q ! i, map ((!) rk) ?q ! i)) {..<packs * per} (replicas n cnt) \<longleftrightarrow>
      bij_betw ((\<lambda>i. (pl ! i, rk ! i)) \<circ> (!) ?q) {..<packs * per} (replicas n cnt)"
    by (rule bij_betw_cong) (use q in \<open>simp add: perm_def\<close>)
  ultimately have "node_ok n (packs * per) (map ((!) pl) ?q, map ((!) rk) ?q, cnt)"
    using rep(2) by (simp add: node_ok_def replicated_def)
  then show ?thesis using rep(1) pack(1) by (simp add: place_replicas_def Let_def)
qed

section \<open>All nodes\<close>

text \<open>
  The result for a layer: the replicas of the logical experts in \<open>num_phy\<close> places, and for each place the
  node of the group of its expert.
\<close>

definition balance_ok :: "nat \<Rightarrow> nat \<Rightarrow> balance \<Rightarrow> bool" where
  "balance_ok n num_phy b \<longleftrightarrow>
     length (bl_phy2log b) = num_phy \<and> length (bl_phyrank b) = num_phy \<and> length (bl_logcnt b) = n \<and>
     (\<forall>e < n. 1 \<le> bl_logcnt b ! e) \<and>
     bij_betw (\<lambda>i. (bl_phy2log b ! i, bl_phyrank b ! i)) {..<num_phy} (replicas n (bl_logcnt b))"

definition groups_together :: "nat \<Rightarrow> nat \<Rightarrow> nat \<Rightarrow> balance \<Rightarrow> bool" where
  "groups_together group_size node_phy num_phy b \<longleftrightarrow>
     (\<forall>i < num_phy. \<forall>j < num_phy. bl_phy2log b ! i div group_size = bl_phy2log b ! j div group_size \<longrightarrow>
        i div node_phy = j div node_phy)"

text \<open>The experts of a group move together.\<close>

lemma group_perm:
  assumes "perm q num_groups" "n = num_groups * gs"
  shows "perm (tabulate n (\<lambda>e. q ! (e div gs) * gs + e mod gs)) n"
proof (rule permI)
  fix e assume e: "e < n"
  then have "0 < gs" using assms(2) by (cases gs) auto
  then have d: "e div gs < num_groups" "e mod gs < gs" using e assms(2) by (auto simp: less_mult_imp_div_less)
  show "tabulate n (\<lambda>e. q ! (e div gs) * gs + e mod gs) ! e < n"
    using e radix_less[OF perm_less[OF assms(1) d(1)] d(2)] assms(2) by simp
  fix f assume f: "f < n" "tabulate n (\<lambda>e. q ! (e div gs) * gs + e mod gs) ! e =
      tabulate n (\<lambda>e. q ! (e div gs) * gs + e mod gs) ! f"
  have d': "f div gs < num_groups" "f mod gs < gs"
    using f(1) \<open>0 < gs\<close> assms(2) by (auto simp: less_mult_imp_div_less)
  have "q ! (e div gs) = q ! (f div gs) \<and> e mod gs = f mod gs"
    using mixed_radix[OF _ d(2) d'(2)] e f by simp
  then show "e = f" using perm_inj[OF assms(1) d(1) d'(1)] by (metis div_mult_mod_eq)
qed simp

text \<open>Place \<open>i\<close> of the cluster is on node \<open>i div ph\<close>, and its expert is one of the \<open>lg\<close> experts of that node.\<close>

lemma node_place:
  assumes "num_phy = nodes * ph" "\<forall>k < nodes. node_ok lg ph (ns ! k)" "i < num_phy"
  shows "i div ph < nodes" "i mod ph < ph" "fst (ns ! (i div ph)) ! (i mod ph) < lg"
    "fst (snd (ns ! (i div ph))) ! (i mod ph) < snd (snd (ns ! (i div ph))) ! (fst (ns ! (i div ph)) ! (i mod ph))"
proof -
  have "0 < ph" using assms(1,3) by (cases ph) auto
  then show ix: "i div ph < nodes" "i mod ph < ph" using assms(1,3) by (auto simp: less_mult_imp_div_less)
  have "bij_betw (\<lambda>j. (fst (ns ! (i div ph)) ! j, fst (snd (ns ! (i div ph))) ! j)) {..<ph}
      (replicas lg (snd (snd (ns ! (i div ph)))))"
    using assms(2) ix(1) by (auto simp: node_ok_def split_beta)
  from bij_betw_apply[OF this, of "i mod ph"] ix(2)
  show "fst (ns ! (i div ph)) ! (i mod ph) < lg"
    "fst (snd (ns ! (i div ph))) ! (i mod ph) < snd (snd (ns ! (i div ph))) ! (fst (ns ! (i div ph)) ! (i mod ph))"
    by auto
qed

text \<open>The replicas of all nodes, where the experts of node \<open>k\<close> are numbered from \<open>k * lg\<close>.\<close>

lemma nodes_flat_bij:
  assumes "num_phy = nodes * ph" "\<forall>k < nodes. node_ok lg ph (ns ! k)" "0 < lg"
  shows "bij_betw (\<lambda>i. (fst (ns ! (i div ph)) ! (i mod ph) + i div ph * lg, fst (snd (ns ! (i div ph))) ! (i mod ph)))
           {..<num_phy} {(x, r). x < nodes * lg \<and> r < snd (snd (ns ! (x div lg))) ! (x mod lg)}"
    (is "bij_betw ?f _ ?R")
proof (rule bij_betw_imageI)
  have node: "bij_betw (\<lambda>j. (fst (ns ! k) ! j, fst (snd (ns ! k)) ! j)) {..<ph} (replicas lg (snd (snd (ns ! k))))"
    if "k < nodes" for k
    using assms(2) that by (auto simp: node_ok_def split_beta)
  note at = node_place[OF assms(1,2)]
  show "inj_on ?f {..<num_phy}"
  proof (rule inj_onI)
    fix i j assume "i \<in> {..<num_phy}" "j \<in> {..<num_phy}" and same: "?f i = ?f j"
    then have i: "i < num_phy" and j: "j < num_phy" by simp_all
    have k: "i div ph = j div ph" "fst (ns ! (i div ph)) ! (i mod ph) = fst (ns ! (j div ph)) ! (j mod ph)"
      using mixed_radix[OF _ at(3)[OF i] at(3)[OF j], of "i div ph" "j div ph"] same by (simp_all add: add.commute)
    have "i mod ph = j mod ph"
      using inj_onD[OF bij_betw_imp_inj_on[OF node[OF at(1)[OF i]]], of "i mod ph" "j mod ph"]
        at(2)[OF i] at(2)[OF j] k same by simp
    then show "i = j" using k(1) by (metis div_mult_mod_eq)
  qed
  show "?f ` {..<num_phy} = ?R"
  proof (intro equalityI subsetI)
    fix x assume "x \<in> ?f ` {..<num_phy}"
    then obtain i where i: "i < num_phy" "x = ?f i" by auto
    then show "x \<in> ?R" using at[OF i(1)] radix_less[OF at(1,3)[OF i(1)]] by (simp add: add.commute)
  next
    fix x assume "x \<in> ?R"
    then obtain y q where x: "x = (y, q)" "y < nodes * lg" "q < snd (snd (ns ! (y div lg))) ! (y mod lg)" by auto
    let ?k = "y div lg"
    have k: "?k < nodes" using x(2) by (simp add: less_mult_imp_div_less)
    have "(y mod lg, q) \<in> (\<lambda>j. (fst (ns ! ?k) ! j, fst (snd (ns ! ?k)) ! j)) ` {..<ph}"
      using bij_betw_imp_surj_on[OF node[OF k]] x(3) assms(3) by simp
    then obtain j where j: "j < ph" "fst (ns ! ?k) ! j = y mod lg" "fst (snd (ns ! ?k)) ! j = q" by auto
    let ?i = "?k * ph + j"
    have "?i div ph = ?k" "?i mod ph = j" using j(1) by simp_all
    then have "x = ?f ?i" using j x(1) by simp
    then show "x \<in> ?f ` {..<num_phy}" using radix_less[OF k j(1)] assms(1) by blast
  qed
qed

text \<open>Replicas on the nodes, renamed by a permutation of the experts.\<close>

lemma perm_rename_bij:
  assumes "perm p n"
  shows "bij_betw (\<lambda>(x, r). (inverse_row p ! x, r)) {(x, r). x < n \<and> r < c x} {(e, r). e < n \<and> r < c (p ! e)}"
  by (rule bij_betw_byWitness[where f' = "\<lambda>(e, r). (p ! e, r)"])
    (use inverse_row_perm(2,3)[OF assms] perm_less[OF assms] perm_less[OF inverse_row_perm(1)[OF assms]] in auto)

lemma nodes_bij:
  assumes "perm p n" "n = nodes * lg" "num_phy = nodes * ph" "\<forall>k < nodes. node_ok lg ph (ns ! k)" "0 < lg"
  shows "bij_betw (\<lambda>i. (inverse_row p ! (fst (ns ! (i div ph)) ! (i mod ph) + i div ph * lg),
                        fst (snd (ns ! (i div ph))) ! (i mod ph))) {..<num_phy}
           {(e, r). e < n \<and> r < snd (snd (ns ! (p ! e div lg))) ! (p ! e mod lg)}"
    and "\<And>i. i < num_phy \<Longrightarrow>
      p ! (inverse_row p ! (fst (ns ! (i div ph)) ! (i mod ph) + i div ph * lg)) div lg = i div ph"
proof -
  show "bij_betw (\<lambda>i. (inverse_row p ! (fst (ns ! (i div ph)) ! (i mod ph) + i div ph * lg),
                        fst (snd (ns ! (i div ph))) ! (i mod ph))) {..<num_phy}
           {(e, r). e < n \<and> r < snd (snd (ns ! (p ! e div lg))) ! (p ! e mod lg)}"
    using bij_betw_trans[OF nodes_flat_bij[OF assms(3-5), folded assms(2)] perm_rename_bij[OF assms(1)]]
    by (simp add: comp_def)
  fix i assume "i < num_phy"
  note at = node_place[OF assms(3,4) this]
  have "fst (ns ! (i div ph)) ! (i mod ph) + i div ph * lg < n"
    using radix_less[OF at(1,3)] assms(2) by (simp add: add.commute)
  then show "p ! (inverse_row p ! (fst (ns ! (i div ph)) ! (i mod ph) + i div ph * lg)) div lg = i div ph"
    using inverse_row_perm(3)[OF assms(1)] at(3) by simp
qed

lemma nodes_balance_ok:
  assumes "perm p n" "n = nodes * lg" "num_phy = nodes * ph" "\<forall>k < nodes. node_ok lg ph (ns ! k)" "0 < lg"
  shows "balance_ok n num_phy
    \<lparr>bl_phy2log = tabulate num_phy (\<lambda>i. inverse_row p ! (fst (ns ! (i div ph)) ! (i mod ph) + i div ph * lg)),
     bl_phyrank = tabulate num_phy (\<lambda>i. fst (snd (ns ! (i div ph))) ! (i mod ph)),
     bl_logcnt = tabulate n (\<lambda>e. snd (snd (ns ! (p ! e div lg))) ! (p ! e mod lg))\<rparr>"
proof -
  let ?f = "\<lambda>i. (inverse_row p ! (fst (ns ! (i div ph)) ! (i mod ph) + i div ph * lg), fst (snd (ns ! (i div ph))) ! (i mod ph))"
    and ?cnt = "\<lambda>e. snd (snd (ns ! (p ! e div lg))) ! (p ! e mod lg)"
  have "1 \<le> ?cnt e" if "e < n" for e
  proof -
    have "p ! e div lg < nodes" using perm_less[OF assms(1) that] assms(2) by (simp add: less_mult_imp_div_less)
    then show ?thesis using assms(4,5) by (auto simp: node_ok_def split_beta)
  qed
  moreover have "bij_betw (\<lambda>i. (tabulate num_phy (fst \<circ> ?f) ! i, tabulate num_phy (snd \<circ> ?f) ! i)) {..<num_phy}
      (replicas n (tabulate n ?cnt)) \<longleftrightarrow> bij_betw ?f {..<num_phy} (replicas n (tabulate n ?cnt))"
    by (rule bij_betw_cong) simp
  moreover have "replicas n (tabulate n ?cnt) = {(e, r). e < n \<and> r < ?cnt e}" by auto
  ultimately show ?thesis using nodes_bij(1)[OF assms] by (simp add: balance_ok_def comp_def)
qed

lemma nodes_groups_together:
  assumes "\<And>i. i < num_phy \<Longrightarrow> bl_phy2log b ! i < n \<and> p ! (bl_phy2log b ! i) div lg = i div ph"
    and "\<And>e. e < n \<Longrightarrow> p ! e = q ! (e div gs) * gs + e mod gs" "lg = gpn * gs" "0 < gs"
  shows "groups_together gs ph num_phy b"
  unfolding groups_together_def
proof (intro allI impI)
  fix i j assume i: "i < num_phy" and j: "j < num_phy" and same: "bl_phy2log b ! i div gs = bl_phy2log b ! j div gs"
  have node: "q ! (bl_phy2log b ! k div gs) div gpn = k div ph" if "k < num_phy" for k
  proof -
    let ?e = "bl_phy2log b ! k"
    have "p ! ?e div lg = p ! ?e div gs div gpn" by (simp add: assms(3) div_mult2_eq mult.commute[of gpn])
    moreover have "p ! ?e div gs = q ! (?e div gs)" using assms(1)[OF that] assms(2,4) by simp
    ultimately show ?thesis using assms(1)[OF that] by simp
  qed
  show "i div ph = j div ph" using node[OF i] node[OF j] same by metis
qed

lemma tabulate_cong: "(\<And>i. i < n \<Longrightarrow> f i = g i) \<Longrightarrow> tabulate n f = tabulate n g"
  by (simp add: tabulate_def)

text \<open>The shape of the cluster: every division of the balancer is exact.\<close>

definition cluster_ok :: "nat \<Rightarrow> nat \<Rightarrow> nat \<Rightarrow> nat \<Rightarrow> nat \<Rightarrow> bool" where
  "cluster_ok num_log num_phy num_groups num_nodes num_gpus \<longleftrightarrow>
     0 < num_log \<and> num_log \<le> num_phy \<and> 0 < num_nodes \<and> num_groups dvd num_log \<and> num_nodes dvd num_groups \<and>
     num_nodes dvd num_gpus \<and> num_gpus dvd num_phy"

lemma cluster_obtain:
  assumes "cluster_ok num_log num_phy num_groups num_nodes num_gpus"
  obtains gs gpn gp per where "num_log = num_groups * gs" "num_groups = num_nodes * gpn" "num_gpus = num_nodes * gp"
    "num_phy = num_gpus * per" "0 < gs" "0 < gpn" "0 < gp" "0 < per" "gpn * gs \<le> gp * per"
proof -
  obtain gs gpn gp per where e: "num_log = num_groups * gs" "num_groups = num_nodes * gpn" "num_gpus = num_nodes * gp"
      "num_phy = num_gpus * per"
    using assms unfolding cluster_ok_def dvd_def by blast
  have "num_nodes * (gpn * gs) \<le> num_nodes * (gp * per)" "0 < num_nodes * (gpn * gs)"
    using assms unfolding cluster_ok_def e by (simp_all add: mult.assoc)
  then have pos: "gpn * gs \<le> gp * per" "0 < gpn * gs" by simp_all
  then have "0 < gp * per" by (rule order.strict_trans2[rotated])
  then show thesis using that[OF e] pos by simp
qed

text \<open>Step 1: the experts in the order of the nodes, where the number of a node depends on the group only.\<close>

lemma group_order:
  assumes "packs_ok num_nodes gpn idx rk" "0 < gs" "0 < gpn" "num_groups = num_nodes * gpn"
  defines "q \<equiv> map2 (\<lambda>p r. nat (p * int gpn + r)) idx rk"
  shows "tabulate (num_groups * gs) (\<lambda>e. nat ((idx ! (e div gs) * int gpn + rk ! (e div gs)) * int gs) + e mod gs) =
           tabulate (num_groups * gs) (\<lambda>e. q ! (e div gs) * gs + e mod gs)"
    and "perm q num_groups"
proof -
  show "perm q num_groups" using packs_perm[OF assms(1)] assms(4) by (simp add: q_def)
  show "tabulate (num_groups * gs) (\<lambda>e. nat ((idx ! (e div gs) * int gpn + rk ! (e div gs)) * int gs) + e mod gs) =
           tabulate (num_groups * gs) (\<lambda>e. q ! (e div gs) * gs + e mod gs)"
  proof (rule tabulate_cong)
    fix e assume "e < num_groups * gs"
    then have "e div gs < num_nodes * gpn" using assms(2,4) by (simp add: less_mult_imp_div_less)
    moreover from this have "0 \<le> idx ! (e div gs) * int gpn + rk ! (e div gs)"
      using assms(1) by (simp add: packs_ok_def)
    ultimately show "nat ((idx ! (e div gs) * int gpn + rk ! (e div gs)) * int gs) + e mod gs = q ! (e div gs) * gs + e mod gs"
      using assms(1) by (simp add: q_def packs_ok_def nat_mult_distrib)
  qed
qed

lemma hierarchical_balances:
  assumes "load_ops_ok ops" "cluster_ok (length weight) num_phy num_groups num_nodes num_gpus"
  shows "\<exists>b. rebalance_experts_hierarchical ops weight num_phy num_groups num_nodes num_gpus = Inr b \<and>
           balance_ok (length weight) num_phy b \<and>
           groups_together (length weight div num_groups) (num_phy div num_nodes) num_phy b"
proof -
  obtain gs gpn gp per where c: "length weight = num_groups * gs" "num_groups = num_nodes * gpn"
      "num_gpus = num_nodes * gp" "num_phy = num_gpus * per"
    and pos: "0 < gs" "0 < gpn" "0 < gp" "0 < per" "gpn * gs \<le> gp * per"
    using cluster_obtain[OF assms(2)] .
  have nodes: "0 < num_nodes" using assms(2) by (simp add: cluster_ok_def)
  let ?lg = "gpn * gs" and ?ph = "gp * per" and ?n = "num_groups * gs"
  have divs: "?n div num_groups = gs" "num_groups div num_nodes = gpn" "num_phy div num_gpus = per"
      "?n div num_nodes = ?lg" "num_phy div num_nodes = ?ph" "num_gpus div num_nodes = gp"
    "?n = num_nodes * ?lg" "num_phy = num_nodes * ?ph" "num_gpus * per = num_phy"
    using nodes pos c by (simp_all add: mult.assoc)
  have mods: "?n mod num_groups = 0" "num_groups mod num_nodes = 0" "num_gpus mod num_nodes = 0"
      "num_phy mod num_gpus = 0" "num_groups \<noteq> 0" "num_nodes \<noteq> 0" "num_gpus \<noteq> 0" "?n \<noteq> 0"
    using nodes pos c by simp_all
  define loads where "loads = tabulate num_groups (\<lambda>g.
      fold (\<lambda>j x. ld_add ops x (weight ! (g * gs + j))) [0..<gs] (ld_zero ops))"
  have "length loads = num_nodes * gpn" by (simp add: loads_def c(2))
  from balanced_packing_packs[OF assms(1) this nodes] obtain idx rk where
    pack: "balanced_packing ops loads num_nodes = Inr (idx, rk)" "packs_ok num_nodes gpn idx rk" by blast
  define q where "q = map2 (\<lambda>p r. nat (p * int gpn + r)) idx rk"
  define p where "p = tabulate ?n (\<lambda>e. q ! (e div gs) * gs + e mod gs)"
  note order = group_order[OF pack(2) pos(1,2) c(2), folded q_def, folded p_def]
  have p: "perm p ?n" unfolding p_def by (rule group_perm[OF order(2)]) simp
  have "\<exists>ns. mapE (\<lambda>k. place_replicas ops ?ph gp per (tabulate ?lg (\<lambda>j. weight ! (inverse_row p ! (k * ?lg + j)))))
          [0..<num_nodes] = Inr ns \<and> list_all2 (\<lambda>k. node_ok ?lg ?ph) [0..<num_nodes] ns"
    by (rule mapE_obtain) (use place_replicas_ok[OF assms(1)] pos in simp)
  then obtain ns where run: "mapE (\<lambda>k. place_replicas ops ?ph gp per
      (tabulate ?lg (\<lambda>j. weight ! (inverse_row p ! (k * ?lg + j))))) [0..<num_nodes] = Inr ns"
    and ns: "\<forall>k < num_nodes. node_ok ?lg ?ph (ns ! k)" by (auto simp: list_all2_conv_all_nth)
  have "0 < ?lg" using pos by simp
  note nb = nodes_bij[OF p divs(7,8) ns this]
  define b where "b = \<lparr>bl_phy2log = tabulate num_phy (\<lambda>i. inverse_row p ! (fst (ns ! (i div ?ph)) ! (i mod ?ph) + i div ?ph * ?lg)),
     bl_phyrank = tabulate num_phy (\<lambda>i. fst (snd (ns ! (i div ?ph))) ! (i mod ?ph)),
     bl_logcnt = tabulate ?n (\<lambda>e. snd (snd (ns ! (p ! e div ?lg))) ! (p ! e mod ?lg))\<rparr>"
  have "rebalance_experts_hierarchical ops weight num_phy num_groups num_nodes num_gpus = Inr b"
    unfolding rebalance_experts_hierarchical_def Let_def c(1) using mods pack(1) run
    by (simp add: divs(1-6) loads_def[symmetric] order(1) b_def)
  moreover have "balance_ok ?n num_phy b"
    unfolding b_def using nodes_balance_ok[OF p divs(7,8) ns] pos by simp
  moreover have "groups_together gs ?ph num_phy b"
  proof (rule nodes_groups_together[of _ _ ?n p ?lg ?ph q gs gpn])
    show "bl_phy2log b ! i < ?n \<and> p ! (bl_phy2log b ! i) div ?lg = i div ?ph" if "i < num_phy" for i
      using nb(2)[OF that] bij_betw_apply[OF nb(1), of i] that by (simp add: b_def)
    show "p ! e = q ! (e div gs) * gs + e mod gs" if "e < ?n" for e using that by (simp add: p_def)
  qed (use pos in simp_all)
  ultimately show ?thesis unfolding c(1) divs(1,5) by blast
qed

section \<open>The table of replicas\<close>

text \<open>
  A table is the inverse of the placement when place \<open>i\<close> is the entry of its expert and replica number, and
  every other entry is \<open>-1\<close>.
\<close>

definition table_ok :: "nat \<Rightarrow> nat \<Rightarrow> balance \<Rightarrow> int list list \<Rightarrow> bool" where
  "table_ok num_log num_phy b t \<longleftrightarrow>
     length t = num_log \<and>
     (\<forall>i < num_phy. bl_phy2log b ! i < num_log \<and> t ! (bl_phy2log b ! i) ! (bl_phyrank b ! i) = int i) \<and>
     (\<forall>e < num_log. 1 \<le> bl_logcnt b ! e \<and> bl_logcnt b ! e \<le> length (t ! e) \<and>
        (\<forall>r < length (t ! e).
           if r < bl_logcnt b ! e
           then \<exists>i < num_phy. t ! e ! r = int i \<and> bl_phy2log b ! i = e \<and> bl_phyrank b ! i = r
           else t ! e ! r = - 1))"

lemma log2phy_table_ok:
  assumes "balance_ok n num_phy b" "\<forall>e < n. bl_logcnt b ! e \<le> width"
  shows "table_ok n num_phy b (log2phy_table n width b)"
proof -
  note ok = assms(1)[unfolded balance_ok_def]
  let ?l = "\<lambda>i. bl_phy2log b ! i" and ?r = "\<lambda>i. bl_phyrank b ! i"
  let ?at = "\<lambda>i. ?l i * width + ?r i"
  define flat where "flat = fold (\<lambda>i t. t[?at i := int i]) [0..<num_phy] (replicate (n * width) (-1 :: int))"
  have bij: "bij_betw (\<lambda>i. (?l i, ?r i)) {..<num_phy} (replicas n (bl_logcnt b))" using ok by simp
  have lr: "?l i < n" "?r i < bl_logcnt b ! ?l i" "?r i < width" if "i < num_phy" for i
    using bij_betw_apply[OF bij, of i] that assms(2) by fastforce+
  have "inj_on ?at {..<num_phy}"
  proof (rule inj_onI)
    fix i j assume ij: "i \<in> {..<num_phy}" "j \<in> {..<num_phy}" "?at i = ?at j"
    then have "(?l i, ?r i) = (?l j, ?r j)" using mixed_radix[OF ij(3)] lr(3) by simp
    then show "i = j" using inj_onD[OF bij_betw_imp_inj_on[OF bij]] ij by blast
  qed
  moreover have "\<forall>i < num_phy. ?at i < length (replicate (n * width) (-1 :: int))"
    using lr by (simp add: radix_less)
  ultimately have flat: "\<And>i. i < num_phy \<Longrightarrow> flat ! ?at i = int i"
    "\<And>j. j \<notin> ?at ` {..<num_phy} \<Longrightarrow> flat ! j = replicate (n * width) (-1) ! j"
    using scatter_fold[of ?at num_phy "replicate (n * width) (-1 :: int)" int] unfolding flat_def by blast+
  have t: "log2phy_table n width b = tabulate n (\<lambda>e. tabulate width (\<lambda>r. flat ! (e * width + r)))"
    using ok by (simp add: log2phy_table_def flat_def)
  have "if r < bl_logcnt b ! e then \<exists>i < num_phy. flat ! (e * width + r) = int i \<and> ?l i = e \<and> ?r i = r
        else flat ! (e * width + r) = - 1" if e: "e < n" and r: "r < width" for e r
  proof (cases "r < bl_logcnt b ! e")
    case True
    then have "(e, r) \<in> (\<lambda>i. (?l i, ?r i)) ` {..<num_phy}" using bij_betw_imp_surj_on[OF bij] e by simp
    then obtain i where "i < num_phy" "?l i = e" "?r i = r" by auto
    then show ?thesis using True flat(1) by auto
  next
    case False
    have "e * width + r \<notin> ?at ` {..<num_phy}"
    proof
      assume "e * width + r \<in> ?at ` {..<num_phy}"
      then obtain i where "i < num_phy" "e * width + r = ?at i" by auto
      then show False using mixed_radix[OF _ r, of e "?l i" "?r i"] lr[of i] False by simp
    qed
    moreover have "e * width + r < n * width" by (rule radix_less[OF e r])
    ultimately show ?thesis using False flat(2) by simp
  qed
  then show ?thesis using ok lr flat(1) assms(2) by (simp add: table_ok_def t)
qed

section \<open>What the balancer promises\<close>

text \<open>The policy of the entry point: hierarchical, or global as one group on one node.\<close>

abbreviation policy_ok :: "bool \<Rightarrow> nat \<Rightarrow> nat \<Rightarrow> nat \<Rightarrow> nat \<Rightarrow> nat \<Rightarrow> bool" where
  "policy_ok hierarchical num_log num_phy num_groups num_nodes num_gpus \<equiv>
     if hierarchical then cluster_ok num_log num_phy num_groups num_nodes num_gpus
     else cluster_ok num_log num_phy 1 1 num_gpus"

lemma layers_balanced:
  assumes "load_ops_ok ops" "policy_ok h num_log num_phy num_groups num_nodes num_gpus"
    "weight \<noteq> []" "\<forall>w \<in> set weight. length w = num_log"
  shows "\<exists>layers width. rebalance_experts ops weight num_phy num_groups num_nodes num_gpus h =
           Inr (map (\<lambda>b. (b, log2phy_table num_log width b)) layers) \<and> length layers = length weight \<and>
           (\<forall>b \<in> set layers. balance_ok num_log num_phy b \<and> (\<forall>e < num_log. bl_logcnt b ! e \<le> width) \<and>
              (h \<longrightarrow> groups_together (num_log div num_groups) (num_phy div num_nodes) num_phy b))"
proof -
  let ?run = "\<lambda>w. if h then rebalance_experts_hierarchical ops w num_phy num_groups num_nodes num_gpus
                  else rebalance_experts_hierarchical ops w num_phy 1 1 num_gpus"
  let ?P = "\<lambda>b. balance_ok num_log num_phy b \<and>
     (h \<longrightarrow> groups_together (num_log div num_groups) (num_phy div num_nodes) num_phy b)"
  have "\<exists>b. ?run w = Inr b \<and> ?P b" if "w \<in> set weight" for w
    using hierarchical_balances[OF assms(1), of w num_phy num_groups num_nodes num_gpus]
      hierarchical_balances[OF assms(1), of w num_phy 1 1 num_gpus] assms(2,4) that by (cases h) auto
  then have "\<exists>layers. mapE ?run weight = Inr layers \<and> list_all2 (\<lambda>w. ?P) weight layers" by (rule mapE_obtain)
  then obtain layers where run: "mapE ?run weight = Inr layers" and P: "list_all2 (\<lambda>w. ?P) weight layers" by blast
  have len: "length layers = length weight" and all: "\<forall>b \<in> set layers. ?P b"
    using P by (auto simp: list_all2_conv_all_nth in_set_conv_nth)
  let ?cnts = "concat (map bl_logcnt layers)"
  obtain b where "b \<in> set layers" using len assms(3) by (cases layers) auto
  moreover have "0 < num_log" using assms(2) by (auto simp: cluster_ok_def split: if_splits)
  ultimately have "?cnts \<noteq> []" using all by (fastforce simp: balance_ok_def)
  moreover have "\<forall>e < num_log. bl_logcnt b ! e \<le> Max (set ?cnts)" if "b \<in> set layers" for b
  proof (intro allI impI)
    fix e assume "e < num_log"
    then have "bl_logcnt b ! e \<in> set (bl_logcnt b)" using all that by (simp add: balance_ok_def)
    then show "bl_logcnt b ! e \<le> Max (set ?cnts)" using that by (intro Max_ge) auto
  qed
  moreover have "map (\<lambda>b. (b, log2phy_table (length (bl_logcnt b)) (Max (set ?cnts)) b)) layers =
      map (\<lambda>b. (b, log2phy_table num_log (Max (set ?cnts)) b)) layers"
    using all by (simp add: balance_ok_def)
  ultimately show ?thesis
    using run len all by (intro exI[of _ layers] exI[of _ "Max (set ?cnts)"]) (simp add: rebalance_experts_def Let_def)
qed

text \<open>
  C35: On a cluster whose sizes divide each other and that has room for every expert, balancing returns, and in
  every layer the table of replicas is the inverse of the placement: each of the \<open>num_phy\<close> places holds a
  replica of an expert and is the entry of that expert at the replica's number; every expert has at least one
  replica, its first \<open>logcnt\<close> entries are the places of its replicas and the rest is \<open>-1\<close>.  Hence no place is
  left empty or given twice.
\<close>

theorem rebalance_experts_inverse:
  assumes "load_ops_ok ops" "policy_ok h num_log num_phy num_groups num_nodes num_gpus"
    "weight \<noteq> []" "\<forall>w \<in> set weight. length w = num_log"
  shows "\<exists>layers. rebalance_experts ops weight num_phy num_groups num_nodes num_gpus h = Inr layers \<and>
           length layers = length weight \<and>
           (\<forall>(b, t) \<in> set layers. length (bl_phy2log b) = num_phy \<and> length (bl_logcnt b) = num_log \<and>
              table_ok num_log num_phy b t)"
proof -
  obtain layers width where r: "rebalance_experts ops weight num_phy num_groups num_nodes num_gpus h =
           Inr (map (\<lambda>b. (b, log2phy_table num_log width b)) layers)" "length layers = length weight"
    and ok: "\<forall>b \<in> set layers. balance_ok num_log num_phy b \<and> (\<forall>e < num_log. bl_logcnt b ! e \<le> width)"
    using layers_balanced[OF assms] by blast
  have "length (bl_phy2log b) = num_phy \<and> length (bl_logcnt b) = num_log \<and>
      table_ok num_log num_phy b (log2phy_table num_log width b)" if "b \<in> set layers" for b
    using ok that log2phy_table_ok by (auto simp: balance_ok_def)
  then show ?thesis using r by auto
qed

text \<open>
  With the hierarchical policy the experts of one group stay on one node: two places whose experts are of the
  same group are places of the same node, so routing within a group never crosses nodes.
\<close>

theorem groups_stay_on_one_node:
  assumes "load_ops_ok ops" "cluster_ok num_log num_phy num_groups num_nodes num_gpus"
    "weight \<noteq> []" "\<forall>w \<in> set weight. length w = num_log"
  shows "\<exists>layers. rebalance_experts ops weight num_phy num_groups num_nodes num_gpus True = Inr layers \<and>
           (\<forall>(b, t) \<in> set layers. groups_together (num_log div num_groups) (num_phy div num_nodes) num_phy b)"
  using layers_balanced[of ops True num_log num_phy num_groups num_nodes num_gpus weight] assms by fastforce

section \<open>Integer loads\<close>

text \<open>Sorting by the negated load, and a first largest entry.\<close>

definition int_loads :: "int load_ops" where
  "int_loads = \<lparr>ld_zero = 0, ld_add = (+), ld_div = (\<lambda>x n. x div int n), ld_less = (<),
     ld_sort_desc = (\<lambda>xs. sort_key (\<lambda>i. - (xs ! i)) [0..<length xs]),
     ld_argmax = (\<lambda>xs. hd (sort_key (\<lambda>i. - (xs ! i)) [0..<length xs]))\<rparr>"

lemma int_loads_ok: "load_ops_ok int_loads"
proof -
  have "hd (sort_key f [0..<length xs]) < length xs" if "xs \<noteq> []" for f :: "nat \<Rightarrow> int" and xs :: "int list"
  proof -
    have "sort_key f [0..<length xs] \<noteq> []" using that by (metis length_greater_0_conv length_sort length_upt diff_zero)
    from hd_in_set[OF this] show ?thesis by simp
  qed
  then show ?thesis by (simp add: load_ops_ok_def int_loads_def atLeast0LessThan)
qed

theorem rebalance_experts_inverse_witness:
  "\<exists>layers. rebalance_experts int_loads [[90, 132, 40, 61], [20, 107, 104, 64]] 8 2 2 4 True = Inr layers \<and>
     length layers = 2 \<and>
     (\<forall>(b, t) \<in> set layers. length (bl_phy2log b) = 8 \<and> length (bl_logcnt b) = 4 \<and> table_ok 4 8 b t)"
  using rebalance_experts_inverse[OF int_loads_ok, of True 4 8 2 2 4 "[[90, 132, 40, 61], [20, 107, 104, 64]]"]
  by (simp add: cluster_ok_def flip: numeral_2_eq_2)

theorem groups_stay_on_one_node_witness:
  "\<exists>layers. rebalance_experts int_loads [[90, 132, 40, 61], [20, 107, 104, 64]] 8 2 2 4 True = Inr layers \<and>
     (\<forall>(b, t) \<in> set layers. groups_together 2 4 8 b)"
  using groups_stay_on_one_node[OF int_loads_ok, of 4 8 2 2 4 "[[90, 132, 40, 61], [20, 107, 104, 64]]"]
  by (simp add: cluster_ok_def)

end
