(* ===== verification/Req_Input.thy ===== *)
theory Req_Input
  imports Prelude
begin

text \<open>
  \<open>managers/io_struct.py\<close>: the requests as the HTTP server receives them, \<open>GenerateReqInput\<close> and
  \<open>EmbeddingReqInput\<close>, their normalisation to a single request or a batch, and the request at a position
  of a batch; from \<open>managers/tokenizer_manager.py\<close> the choice of the input tokens of a request, the length
  check and the requests that a batch becomes.

  Fields hold whatever the client sent, so they are Python values and every operation on them may
  raise.  Images enter as strings or dictionaries.  Long error messages are cut after their first
  sentence.  A request whose normalisation raises is answered with the
  error and dropped.
\<close>

section \<open>Operations on Python values\<close>

definition as_int :: "pyval \<Rightarrow> int option" where
  "as_int v = (case v of VInt k \<Rightarrow> Some k | VBool b \<Rightarrow> Some (if b then 1 else 0) | _ \<Rightarrow> None)"

definition numeric :: "pyval \<Rightarrow> pyfloat option" where
  "numeric v = (case v of VFloat f \<Rightarrow> Some f | _ \<Rightarrow> map_option (\<lambda>k. Fin (of_int k)) (as_int v))"

definition float_eq :: "pyfloat \<Rightarrow> pyfloat \<Rightarrow> bool" where
  "float_eq x y \<longleftrightarrow> float_le x y \<and> float_le y x"

text \<open>\<open>==\<close>: numbers by value; other values of \<open>n\<close> only ever lead to an exception.\<close>

definition py_eq :: "pyval \<Rightarrow> pyval \<Rightarrow> bool" where
  "py_eq a b =
     (case numeric a of
        Some x \<Rightarrow> (case numeric b of Some y \<Rightarrow> float_eq x y | None \<Rightarrow> False)
      | None \<Rightarrow> a = b)"

definition py_gt :: "pyval \<Rightarrow> int \<Rightarrow> bool result" where
  "py_gt v k =
     (case numeric v of
        Some x \<Rightarrow> Inr (float_le (Fin (of_int k)) x \<and> \<not> float_eq x (Fin (of_int k)))
      | None \<Rightarrow> Inl TypeError)"

definition py_len :: "pyval \<Rightarrow> nat result" where
  "py_len v =
     (case v of VList xs \<Rightarrow> Inr (length xs) | VStr s \<Rightarrow> Inr (length s) | VDict d \<Rightarrow> Inr (length d) | _ \<Rightarrow> Inl TypeError)"

text \<open>\<open>v[i]\<close>; a dictionary of the request has no integer keys.\<close>

definition py_item :: "pyval \<Rightarrow> nat \<Rightarrow> pyval result" where
  "py_item v i =
     (case v of
        VList xs \<Rightarrow> if i < length xs then Inr (xs ! i) else Inl IndexError
      | VStr s \<Rightarrow> if i < length s then Inr (VStr [s ! i]) else Inl IndexError
      | VDict d \<Rightarrow> Inl (KeyError ''int'')
      | _ \<Rightarrow> Inl TypeError)"

fun is_list :: "pyval \<Rightarrow> bool" where
  "is_list (VList xs) = True"
| "is_list v = False"

fun is_str :: "pyval \<Rightarrow> bool" where
  "is_str (VStr s) = True"
| "is_str v = False"

fun is_dict :: "pyval \<Rightarrow> bool" where
  "is_dict (VDict d) = True"
| "is_dict v = False"

text \<open>\<open>xs * n\<close> for a list or string, and \<open>[v] * num\<close>.\<close>

definition repeat_list :: "int \<Rightarrow> 'a list \<Rightarrow> 'a list" where
  "repeat_list k xs = concat (replicate (nat k) xs)"

definition py_mul :: "pyval \<Rightarrow> pyval \<Rightarrow> pyval result" where
  "py_mul v n =
     (case as_int n of
        None \<Rightarrow> Inl TypeError
      | Some k \<Rightarrow> (case v of VList xs \<Rightarrow> Inr (VList (repeat_list k xs)) | VStr s \<Rightarrow> Inr (VStr (repeat_list k s))
                   | _ \<Rightarrow> Inl TypeError))"

abbreviation fill :: "int \<Rightarrow> pyval \<Rightarrow> pyval" where
  "fill num v \<equiv> VList (replicate (nat num) v)"

text \<open>\<open>v.get(k, d)\<close>.\<close>

definition py_get :: "pyval \<Rightarrow> string \<Rightarrow> pyval \<Rightarrow> pyval result" where
  "py_get v k d = (case v of VDict m \<Rightarrow> Inr (dict_get m k d) | _ \<Rightarrow> Inl AttributeError)"

section \<open>The generation request\<close>

text \<open>The last three attributes are set by the normalisation.\<close>

record GenerateReqInput =
  g_text :: pyval
  g_input_ids :: pyval
  g_input_embeds :: pyval
  g_image_data :: pyval
  g_audio_data :: pyval
  g_sampling_params :: pyval
  g_rid :: pyval
  g_return_logprob :: pyval
  g_logprob_start_len :: pyval
  g_top_logprobs_num :: pyval
  g_token_ids_logprob :: pyval
  g_return_text_in_logprobs :: pyval
  g_stream :: pyval
  g_log_metrics :: pyval
  g_modalities :: pyval
  g_lora_path :: pyval
  g_session_params :: pyval
  g_custom_logit_processor :: pyval
  g_return_hidden_states :: pyval
  g_bootstrap_host :: pyval
  g_bootstrap_port :: pyval
  g_bootstrap_room :: pyval
  g_is_single :: bool
  g_batch_size :: nat
  g_parallel_sample_num :: pyval

text \<open>The default of every field.\<close>

definition generate_default :: GenerateReqInput where
  "generate_default =
     \<lparr>g_text = VNone, g_input_ids = VNone, g_input_embeds = VNone, g_image_data = VNone, g_audio_data = VNone,
      g_sampling_params = VNone, g_rid = VNone, g_return_logprob = VNone, g_logprob_start_len = VNone,
      g_top_logprobs_num = VNone, g_token_ids_logprob = VNone, g_return_text_in_logprobs = VBool False,
      g_stream = VBool False, g_log_metrics = VBool True, g_modalities = VNone, g_lora_path = VNone,
      g_session_params = VNone, g_custom_logit_processor = VNone, g_return_hidden_states = VBool False,
      g_bootstrap_host = VNone, g_bootstrap_port = VNone, g_bootstrap_room = VNone,
      g_is_single = False, g_batch_size = 0, g_parallel_sample_num = VNone\<rparr>"

text \<open>\<open>has_valid_data\<close> looks through nested lists.\<close>

fun has_valid_data :: "pyval \<Rightarrow> bool" where
  "has_valid_data VNone = False"
| "has_valid_data (VList xs) = (\<exists>x \<in> set xs. has_valid_data x)"
| "has_valid_data v = True"

definition contains_mm_input :: "GenerateReqInput \<Rightarrow> bool" where
  "contains_mm_input q \<longleftrightarrow> has_valid_data (g_image_data q) \<or> has_valid_data (g_audio_data q)"

definition validate_inputs :: "GenerateReqInput \<Rightarrow> unit result" where
  "validate_inputs q =
     (if g_text q = VNone \<and> g_input_ids q = VNone \<and> g_input_embeds q = VNone \<or>
         g_text q \<noteq> VNone \<and> g_input_ids q \<noteq> VNone \<and> g_input_embeds q \<noteq> VNone
      then Inl (ValueError ''Either text, input_ids or input_embeds should be provided.'') else Inr ())"

definition determine_batch_size :: "GenerateReqInput \<Rightarrow> GenerateReqInput result" where
  "determine_batch_size q =
     (if g_text q \<noteq> VNone
      then bindE (if is_str (g_text q) then Inr (True, 1) else bindE (py_len (g_text q)) (\<lambda>n. Inr (False, n)))
             (\<lambda>(single, n). Inr (q\<lparr>g_is_single := single, g_batch_size := n, g_input_embeds := VNone\<rparr>))
      else if g_input_ids q \<noteq> VNone
      then bindE (py_len (g_input_ids q)) (\<lambda>n.
             if n = 0 then Inl (ValueError ''input_ids cannot be empty.'')
             else bindE (py_item (g_input_ids q) 0) (\<lambda>x.
               Inr (if as_int x \<noteq> None then q\<lparr>g_is_single := True, g_batch_size := 1, g_input_embeds := VNone\<rparr>
                    else q\<lparr>g_is_single := False, g_batch_size := n, g_input_embeds := VNone\<rparr>)))
      else bindE (py_item (g_input_embeds q) 0) (\<lambda>row. bindE (py_item row 0) (\<lambda>x.
             case x of
               VFloat _ \<Rightarrow> Inr (q\<lparr>g_is_single := True, g_batch_size := 1\<rparr>)
             | _ \<Rightarrow> bindE (py_len (g_input_embeds q)) (\<lambda>n. Inr (q\<lparr>g_is_single := False, g_batch_size := n\<rparr>)))))"

text \<open>\<open>n\<close> of the sampling parameters; a list must agree on it.\<close>

definition sample_num :: "pyval \<Rightarrow> pyval result" where
  "sample_num params =
     (case params of
        VNone \<Rightarrow> Inr (VInt 1)
      | VDict d \<Rightarrow> Inr (dict_get d ''n'' (VInt 1))
      | _ \<Rightarrow>
          bindE (py_item params 0) (\<lambda>first. bindE (py_get first ''n'' (VInt 1)) (\<lambda>n.
            foldE (\<lambda>sp k. bindE (py_get sp ''n'' (VInt 1)) (\<lambda>m.
                if py_eq n m then Inr k
                else Inl (ValueError ''The parallel_sample_num should be the same for all samples in sample params.'')))
              (case params of VList xs \<Rightarrow> xs | _ \<Rightarrow> []) n)))"

definition handle_parallel_sampling :: "GenerateReqInput \<Rightarrow> GenerateReqInput result" where
  "handle_parallel_sampling q =
     bindE (sample_num (g_sampling_params q)) (\<lambda>n. bindE (py_gt n 1) (\<lambda>many.
       let q1 = q\<lparr>g_parallel_sample_num := n\<rparr> in
       Inr (if many \<and> g_is_single q1
            then q1\<lparr>g_is_single := False,
                    g_text := (if g_text q1 \<noteq> VNone then VList [g_text q1] else VNone),
                    g_input_ids := (if g_input_ids q1 \<noteq> VNone then VList [g_input_ids q1] else VNone)\<rparr>
            else q1)))"

text \<open>A missing value is replaced by its default.\<close>

definition or_default :: "pyval \<Rightarrow> pyval \<Rightarrow> pyval" where
  "or_default v d = (if v = VNone then d else v)"

text \<open>\<open>uuid k\<close> is the identifier of the \<open>k\<close>-th call of \<open>uuid4\<close>.\<close>

definition normalize_single_inputs :: "(nat \<Rightarrow> string) \<Rightarrow> GenerateReqInput \<Rightarrow> GenerateReqInput" where
  "normalize_single_inputs uuid q =
     q\<lparr>g_sampling_params := or_default (g_sampling_params q) (VDict []),
       g_rid := or_default (g_rid q) (VStr (uuid 0)),
       g_return_logprob := or_default (g_return_logprob q) (VBool False),
       g_logprob_start_len := or_default (g_logprob_start_len q) (VInt (-1)),
       g_top_logprobs_num := or_default (g_top_logprobs_num q) (VInt 0),
       g_token_ids_logprob := (if py_bool (g_token_ids_logprob q) then g_token_ids_logprob q else VNone)\<rparr>"

section \<open>Batches\<close>

definition expand_inputs :: "GenerateReqInput \<Rightarrow> GenerateReqInput result" where
  "expand_inputs q =
     (let n = g_parallel_sample_num q in
      if g_text q \<noteq> VNone
      then if \<not> is_list (g_text q) then Inl (ValueError ''Text should be a list for batch processing.'')
           else bindE (py_mul (g_text q) n) (\<lambda>v. Inr (q\<lparr>g_text := v\<rparr>))
      else if g_input_ids q \<noteq> VNone
      then if \<not> is_list (g_input_ids q)
           then Inl (ValueError ''input_ids should be a list of lists for batch processing.'')
           else bindE (py_item (g_input_ids q) 0) (\<lambda>x.
                  if \<not> is_list x then Inl (ValueError ''input_ids should be a list of lists for batch processing.'')
                  else bindE (py_mul (g_input_ids q) n) (\<lambda>v. Inr (q\<lparr>g_input_ids := v\<rparr>)))
      else if g_input_embeds q \<noteq> VNone
      then if \<not> is_list (g_input_embeds q) then Inl (ValueError ''input_embeds should be a list for batch processing.'')
           else bindE (py_mul (g_input_embeds q) n) (\<lambda>v. Inr (q\<lparr>g_input_embeds := v\<rparr>))
      else Inr q)"

definition normalize_lora_paths :: "int \<Rightarrow> GenerateReqInput \<Rightarrow> GenerateReqInput result" where
  "normalize_lora_paths num q =
     (case g_lora_path q of
        VNone \<Rightarrow> Inr q
      | VStr s \<Rightarrow> Inr (q\<lparr>g_lora_path := fill num (VStr s)\<rparr>)
      | VList xs \<Rightarrow> bindE (py_mul (VList xs) (g_parallel_sample_num q)) (\<lambda>v. Inr (q\<lparr>g_lora_path := v\<rparr>))
      | _ \<Rightarrow> Inl (ValueError ''lora_path should be a list or a string.''))"

text \<open>The modality of the images of one request; an empty list has none, not even \<open>None\<close>.\<close>

definition modality :: "pyval \<Rightarrow> pyval list result" where
  "modality v =
     (if v = VNone \<or> v = VList [VNone] then Inr [VNone]
      else bindE (py_len v) (\<lambda>n. Inr (if n = 1 then [VStr ''image''] else if n > 1 then [VStr ''multi-images''] else [])))"

definition normalize_image_data :: "int \<Rightarrow> GenerateReqInput \<Rightarrow> GenerateReqInput result" where
  "normalize_image_data num q =
     (let n = g_parallel_sample_num q in
      case g_image_data q of
        VNone \<Rightarrow> Inr (q\<lparr>g_image_data := fill num VNone\<rparr>)
      | VList xs \<Rightarrow>
          if length xs \<noteq> g_batch_size q
          then Inl (ValueError ''The length of image_data should be equal to the batch size.'')
          else if xs \<noteq> [] \<and> is_list (hd xs)
          then bindE (mapE modality xs) (\<lambda>ms. bindE (py_mul (VList xs) n) (\<lambda>imgs.
               bindE (py_mul (VList (concat ms)) n) (\<lambda>mods. Inr (q\<lparr>g_image_data := imgs, g_modalities := mods\<rparr>))))
          else bindE (py_mul (VList (map (\<lambda>x. VList [x]) xs)) n) (\<lambda>imgs.
                 Inr (q\<lparr>g_image_data := imgs, g_modalities := fill num (VStr ''image'')\<rparr>))
      | v \<Rightarrow> Inr (q\<lparr>g_image_data := fill num (VList [v]), g_modalities := fill num (VStr ''image'')\<rparr>))"

definition normalize_audio_data :: "int \<Rightarrow> GenerateReqInput \<Rightarrow> GenerateReqInput result" where
  "normalize_audio_data num q =
     (case g_audio_data q of
        VList xs \<Rightarrow> bindE (py_mul (VList xs) (g_parallel_sample_num q)) (\<lambda>v. Inr (q\<lparr>g_audio_data := v\<rparr>))
      | v \<Rightarrow> Inr (q\<lparr>g_audio_data := fill num v\<rparr>))"

definition normalize_sampling_params :: "int \<Rightarrow> GenerateReqInput \<Rightarrow> GenerateReqInput result" where
  "normalize_sampling_params num q =
     (case g_sampling_params q of
        VNone \<Rightarrow> Inr (q\<lparr>g_sampling_params := fill num (VDict [])\<rparr>)
      | VDict d \<Rightarrow> Inr (q\<lparr>g_sampling_params := fill num (VDict d)\<rparr>)
      | v \<Rightarrow> bindE (py_mul v (g_parallel_sample_num q)) (\<lambda>w. Inr (q\<lparr>g_sampling_params := w\<rparr>)))"

definition normalize_rid :: "(nat \<Rightarrow> string) \<Rightarrow> int \<Rightarrow> GenerateReqInput \<Rightarrow> GenerateReqInput result" where
  "normalize_rid uuid num q =
     (if g_rid q = VNone then Inr (q\<lparr>g_rid := VList (map (VStr \<circ> uuid) [0..<nat num])\<rparr>)
      else if is_list (g_rid q) then Inr q
      else Inl (ValueError ''The rid should be a list for batch processing.''))"

definition normalize_param :: "pyval \<Rightarrow> int \<Rightarrow> pyval \<Rightarrow> pyval \<Rightarrow> string \<Rightarrow> pyval result" where
  "normalize_param n num v d name =
     (if v = VNone then Inr (fill num d)
      else if \<not> is_list v then Inr (fill num v)
      else bindE (py_gt n 1) (\<lambda>many.
             if many then Inl (ValueError (''Cannot use list '' @ name @ '' with parallel_sample_num > 1'')) else Inr v))"

definition normalize_token_ids :: "pyval \<Rightarrow> int \<Rightarrow> pyval \<Rightarrow> pyval result" where
  "normalize_token_ids n num v =
     (if \<not> py_bool v then Inr (fill num VNone)
      else if \<not> is_list v then Inr (fill num (VList [v]))
      else bindE (py_item v 0) (\<lambda>x.
             if \<not> is_list x then Inr (fill num v)
             else bindE (py_gt n 1) (\<lambda>many.
               if many then Inl (ValueError ''Cannot use list token_ids_logprob with parallel_sample_num > 1'')
               else Inr v)))"

definition normalize_logprob_params :: "int \<Rightarrow> GenerateReqInput \<Rightarrow> GenerateReqInput result" where
  "normalize_logprob_params num q =
     (let n = g_parallel_sample_num q in
      bindE (normalize_param n num (g_return_logprob q) (VBool False) ''return_logprob'') (\<lambda>a.
      bindE (normalize_param n num (g_logprob_start_len q) (VInt (-1)) ''logprob_start_len'') (\<lambda>b.
      bindE (normalize_param n num (g_top_logprobs_num q) (VInt 0) ''top_logprobs_num'') (\<lambda>c.
      bindE (normalize_token_ids n num (g_token_ids_logprob q)) (\<lambda>d.
        Inr (q\<lparr>g_return_logprob := a, g_logprob_start_len := b, g_top_logprobs_num := c, g_token_ids_logprob := d\<rparr>))))))"

definition normalize_custom_logit_processor :: "int \<Rightarrow> GenerateReqInput \<Rightarrow> GenerateReqInput result" where
  "normalize_custom_logit_processor num q =
     bindE (normalize_param (g_parallel_sample_num q) num (g_custom_logit_processor q) VNone ''custom_logit_processor'')
       (\<lambda>v. Inr (q\<lparr>g_custom_logit_processor := v\<rparr>))"

definition normalize_batch_inputs :: "(nat \<Rightarrow> string) \<Rightarrow> GenerateReqInput \<Rightarrow> GenerateReqInput result" where
  "normalize_batch_inputs uuid q =
     (let n = g_parallel_sample_num q;
          num = (if py_eq n (VInt 1) then int (g_batch_size q)
                 else int (g_batch_size q) * (case as_int n of Some k \<Rightarrow> k | None \<Rightarrow> 0))
      in foldE (\<lambda>f. f)
           [expand_inputs, normalize_lora_paths num, normalize_image_data num, normalize_audio_data num,
            normalize_sampling_params num, normalize_rid uuid num, normalize_logprob_params num,
            normalize_custom_logit_processor num] q)"

definition validate_session_params :: "GenerateReqInput \<Rightarrow> unit result" where
  "validate_session_params q =
     (if g_session_params q \<noteq> VNone \<and> \<not> is_dict (g_session_params q)
      then bindE (py_item (g_session_params q) 0) (\<lambda>x.
             if is_dict x then Inr () else Inl (ValueError ''Session params must be a dict or a list of dicts.''))
      else Inr ())"

definition normalize_batch_and_arguments :: "(nat \<Rightarrow> string) \<Rightarrow> GenerateReqInput \<Rightarrow> GenerateReqInput result" where
  "normalize_batch_and_arguments uuid q =
     bindE (validate_inputs q) (\<lambda>_.
     bindE (determine_batch_size q) (\<lambda>q1.
     bindE (handle_parallel_sampling q1) (\<lambda>q2.
     bindE (if g_is_single q2 then Inr (normalize_single_inputs uuid q2) else normalize_batch_inputs uuid q2) (\<lambda>q3.
     bindE (validate_session_params q3) (\<lambda>_. Inr q3)))))"

text \<open>The request at a position of a batch; fields that are not listed get their default.\<close>

definition item_or_none :: "pyval \<Rightarrow> nat \<Rightarrow> pyval result" where
  "item_or_none v i = (if v \<noteq> VNone then py_item v i else Inr VNone)"

definition item_if_truthy :: "pyval \<Rightarrow> nat \<Rightarrow> pyval result" where
  "item_if_truthy v i = (if py_bool v then py_item v i else Inr VNone)"

definition get_item :: "GenerateReqInput \<Rightarrow> nat \<Rightarrow> GenerateReqInput result" where
  "get_item q i =
     bindE (item_or_none (g_text q) i) (\<lambda>txt.
     bindE (item_or_none (g_input_ids q) i) (\<lambda>ids.
     bindE (py_item (g_image_data q) i) (\<lambda>img.
     bindE (py_item (g_audio_data q) i) (\<lambda>aud.
     bindE (py_item (g_sampling_params q) i) (\<lambda>sp.
     bindE (py_item (g_rid q) i) (\<lambda>rid.
     bindE (py_item (g_return_logprob q) i) (\<lambda>rl.
     bindE (py_item (g_logprob_start_len q) i) (\<lambda>ls.
     bindE (py_item (g_top_logprobs_num q) i) (\<lambda>tl.
     bindE (py_item (g_token_ids_logprob q) i) (\<lambda>ti.
     bindE (item_if_truthy (g_modalities q) i) (\<lambda>mo.
     bindE (item_or_none (g_lora_path q) i) (\<lambda>lo.
     bindE (item_or_none (g_custom_logit_processor q) i) (\<lambda>cu.
     bindE (item_or_none (g_bootstrap_host q) i) (\<lambda>bh.
     bindE (item_or_none (g_bootstrap_port q) i) (\<lambda>bp.
     bindE (item_or_none (g_bootstrap_room q) i) (\<lambda>br.
       Inr (generate_default\<lparr>g_text := txt, g_input_ids := ids, g_image_data := img, g_audio_data := aud,
              g_sampling_params := sp, g_rid := rid, g_return_logprob := rl, g_logprob_start_len := ls,
              g_top_logprobs_num := tl, g_token_ids_logprob := ti,
              g_return_text_in_logprobs := g_return_text_in_logprobs q, g_stream := g_stream q,
              g_log_metrics := g_log_metrics q, g_modalities := mo, g_lora_path := lo,
              g_custom_logit_processor := cu, g_return_hidden_states := g_return_hidden_states q,
              g_bootstrap_host := bh, g_bootstrap_port := bp, g_bootstrap_room := br\<rparr>)))))))))))))))))"

section \<open>The tokens of a request\<close>

text \<open>
  \<open>_tokenize_one_request\<close> up to the multimodal processor; \<open>encode\<close> is the tokenizer, if there is one.
\<close>

definition request_input_ids :: "bool \<Rightarrow> (pyval \<Rightarrow> pyval result) option \<Rightarrow> GenerateReqInput \<Rightarrow> pyval result" where
  "request_input_ids disable_radix_cache encode q =
     (if g_input_embeds q \<noteq> VNone
      then if disable_radix_cache then Inr (g_input_ids q)
           else Inl (ValueError ''input_embeds is provided while disable_radix_cache is False.'')
      else if g_input_ids q \<noteq> VNone then Inr (g_input_ids q)
      else case encode of
             None \<Rightarrow> Inl (ValueError ''The engine initialized with skip_tokenizer_init=True cannot accept text prompts.'')
           | Some enc \<Rightarrow> enc (g_text q))"

definition float_plus :: "pyfloat \<Rightarrow> nat \<Rightarrow> pyfloat" where
  "float_plus x n = (case x of Fin r \<Rightarrow> Fin (r + of_nat n) | NegZero \<Rightarrow> Fin (of_nat n) | y \<Rightarrow> y)"

definition validate_token_len :: "nat \<Rightarrow> pyval \<Rightarrow> pyval \<Rightarrow> unit result" where
  "validate_token_len context_len params ids =
     bindE (if ids = VNone then Inr 0 else py_len ids) (\<lambda>n.
       if context_len \<le> n then Inl (ValueError ''The input is longer than the context length.'')
       else bindE (py_get params ''max_new_tokens'' VNone) (\<lambda>m.
         if m = VNone then Inr ()
         else case numeric m of
                None \<Rightarrow> Inl TypeError
              | Some x \<Rightarrow> if float_le (Fin (of_nat context_len)) (float_plus x n)
                          then Inl (ValueError ''Requested token count exceeds the maximum context length.'')
                          else Inr ()))"

text \<open>\<open>_handle_batch_request\<close>: the requests of a batch.\<close>

definition batch_requests :: "GenerateReqInput \<Rightarrow> GenerateReqInput list result" where
  "batch_requests q = mapE (get_item q) [0..<g_batch_size q]"

section \<open>The embedding request\<close>

record EmbeddingReqInput =
  e_text :: pyval
  e_image_data :: pyval
  e_audio_data :: pyval
  e_input_ids :: pyval
  e_rid :: pyval
  e_sampling_params :: pyval
  e_input_embeds :: pyval
  e_log_metrics :: pyval
  e_modalities :: pyval
  e_is_single :: bool
  e_batch_size :: nat

definition embedding_default :: EmbeddingReqInput where
  "embedding_default =
     \<lparr>e_text = VNone, e_image_data = VNone, e_audio_data = VNone, e_input_ids = VNone, e_rid = VNone,
      e_sampling_params = VNone, e_input_embeds = VNone, e_log_metrics = VBool True, e_modalities = VNone,
      e_is_single = False, e_batch_size = 0\<rparr>"

definition embedding_batch_size :: "EmbeddingReqInput \<Rightarrow> nat result" where
  "embedding_batch_size q =
     bindE (if e_text q = VNone then Inr 0 else if is_list (e_text q) then py_len (e_text q) else Inr 1) (\<lambda>a.
     bindE (if e_input_ids q = VNone then Inr 0
            else bindE (py_item (e_input_ids q) 0) (\<lambda>x. if is_list x then py_len (e_input_ids q) else Inr 1)) (\<lambda>b.
       Inr (a + b)))"

text \<open>\<open>sampling_params["max_new_tokens"] = 0\<close>.\<close>

definition no_new_tokens :: "pyval \<Rightarrow> pyval result" where
  "no_new_tokens v = (case v of VDict d \<Rightarrow> Inr (VDict (dict_set ''max_new_tokens'' (VInt 0) d)) | _ \<Rightarrow> Inl TypeError)"

text \<open>
  In a batch without parameters all entries are the same dictionary, so every assignment is seen by all
  of them.
\<close>

definition embedding_params :: "nat \<Rightarrow> pyval \<Rightarrow> pyval result" where
  "embedding_params bs v =
     (if v = VNone then Inr (VList (replicate bs (VDict [(''max_new_tokens'', VInt 0)])))
      else case v of
        VList xs \<Rightarrow> bindE (mapE no_new_tokens (take bs xs)) (\<lambda>ys.
          if length xs < bs then Inl IndexError else Inr (VList (ys @ drop bs xs)))
      | VDict d \<Rightarrow> Inl (KeyError ''int'')
      | _ \<Rightarrow> Inl TypeError)"

definition embedding_normalize :: "(nat \<Rightarrow> string) \<Rightarrow> EmbeddingReqInput \<Rightarrow> EmbeddingReqInput result" where
  "embedding_normalize uuid q =
     (if e_text q = VNone \<and> e_input_ids q = VNone \<and> e_image_data q = VNone
      then Inl (ValueError ''At least one of text, input_ids, or image should be provided'')
      else if e_text q \<noteq> VNone \<and> e_input_ids q \<noteq> VNone
      then Inl (ValueError ''text and input_ids cannot be provided at the same time'')
      else bindE (embedding_batch_size q) (\<lambda>bs.
        if bs \<le> 1
        then bindE (no_new_tokens (or_default (e_sampling_params q) (VDict []))) (\<lambda>sp.
               Inr (q\<lparr>e_batch_size := bs, e_is_single := True, e_rid := or_default (e_rid q) (VStr (uuid 0)),
                      e_sampling_params := sp\<rparr>))
        else if e_rid q \<noteq> VNone \<and> \<not> is_list (e_rid q) then Inl AssertionError
        else bindE (embedding_params bs (e_sampling_params q)) (\<lambda>sp.
               Inr (q\<lparr>e_batch_size := bs, e_is_single := False,
                      e_rid := or_default (e_rid q) (VList (map (VStr \<circ> uuid) [0..<bs])), e_sampling_params := sp\<rparr>))))"

definition embedding_item :: "EmbeddingReqInput \<Rightarrow> nat \<Rightarrow> EmbeddingReqInput result" where
  "embedding_item q i =
     bindE (item_or_none (e_text q) i) (\<lambda>txt.
     bindE (item_or_none (e_input_ids q) i) (\<lambda>ids.
     bindE (item_or_none (e_image_data q) i) (\<lambda>img.
     bindE (py_item (e_sampling_params q) i) (\<lambda>sp.
     bindE (py_item (e_rid q) i) (\<lambda>rid.
       Inr (embedding_default\<lparr>e_text := txt, e_input_ids := ids, e_image_data := img, e_sampling_params := sp,
                              e_rid := rid\<rparr>))))))"

section \<open>Columns\<close>

text \<open>A normalised field of a batch: a list whose entry at \<open>i\<close> is \<open>f i\<close>.\<close>

definition col :: "nat \<Rightarrow> (nat \<Rightarrow> pyval) \<Rightarrow> pyval \<Rightarrow> bool" where
  "col bs f v \<longleftrightarrow> (\<exists>xs. v = VList xs \<and> bs \<le> length xs \<and> (\<forall>i < bs. xs ! i = f i))"

lemma col_item: "col bs f v \<Longrightarrow> i < bs \<Longrightarrow> py_item v i = Inr (f i)"
  by (auto simp: col_def py_item_def)

lemma col_item_or_none: "col bs f v \<Longrightarrow> i < bs \<Longrightarrow> item_or_none v i = Inr (f i)"
  by (auto simp: col_def py_item_def item_or_none_def)

lemma col_fill: "bs \<le> nat num \<Longrightarrow> col bs (\<lambda>_. v) (fill num v)"
  by (simp add: col_def)

lemma col_list: "length xs = bs \<Longrightarrow> col bs ((!) xs) (VList xs)"
  by (simp add: col_def)

lemma repeat_list_nth:
  assumes "1 \<le> k"
  shows "length xs \<le> length (repeat_list k xs)" "i < length xs \<Longrightarrow> repeat_list k xs ! i = xs ! i"
proof -
  obtain m where "nat k = Suc m" using assms by (cases "nat k") auto
  then have "repeat_list k xs = xs @ concat (replicate m xs)" by (simp add: repeat_list_def)
  then show "length xs \<le> length (repeat_list k xs)" "i < length xs \<Longrightarrow> repeat_list k xs ! i = xs ! i"
    by (simp_all add: nth_append)
qed

lemma col_mul:
  assumes "length xs = bs" "1 \<le> k"
  shows "\<exists>w. py_mul (VList xs) (VInt k) = Inr w \<and> col bs ((!) xs) w"
  using repeat_list_nth[OF assms(2), where xs = xs] assms(1) by (auto simp: py_mul_def as_int_def col_def)

text \<open>The value of a field for request \<open>i\<close>: its default, the value for all, or the entry of the list.\<close>

definition spread :: "pyval \<Rightarrow> pyval \<Rightarrow> nat \<Rightarrow> pyval" where
  "spread d v i = (case v of VNone \<Rightarrow> d | VList xs \<Rightarrow> xs ! i | w \<Rightarrow> w)"

definition fits :: "nat \<Rightarrow> pyval \<Rightarrow> bool" where
  "fits bs v \<longleftrightarrow> (case v of VList xs \<Rightarrow> length xs = bs | _ \<Rightarrow> True)"

definition listed :: "nat \<Rightarrow> pyval \<Rightarrow> bool" where
  "listed bs v \<longleftrightarrow> v = VNone \<or> is_list v \<and> fits bs v"

lemma py_gt_int [simp]: "py_gt (VInt k) 1 = Inr (1 < k)"
  by (auto simp: py_gt_def numeric_def as_int_def float_eq_def)

lemma py_eq_one [simp]: "py_eq (VInt k) (VInt 1) \<longleftrightarrow> k = 1"
  by (auto simp: py_eq_def numeric_def as_int_def float_eq_def)

lemma normalize_param_col:
  assumes "fits bs v" "1 < k \<longrightarrow> \<not> is_list v" "bs \<le> nat num"
  shows "\<exists>w. normalize_param (VInt k) num v d name = Inr w \<and> col bs (spread d v) w"
  using assms by (cases v) (auto simp: normalize_param_def spread_def[abs_def] fits_def col_def)

section \<open>Well-formed batches\<close>

text \<open>
  A well-formed batch of \<open>bs\<close> requests with \<open>n = k\<close>: every list the client gives has an entry per request, and
  lists of images are not empty.
\<close>

definition prompts_ok :: "nat \<Rightarrow> GenerateReqInput \<Rightarrow> bool" where
  "prompts_ok bs q \<longleftrightarrow>
     (case (g_text q, g_input_ids q) of
        (VList ts, VNone) \<Rightarrow> length ts = bs
      | (VNone, VList ls) \<Rightarrow> length ls = bs \<and> (\<forall>x \<in> set ls. is_list x)
      | _ \<Rightarrow> False)"

definition params_ok :: "nat \<Rightarrow> int \<Rightarrow> pyval \<Rightarrow> bool" where
  "params_ok bs k v \<longleftrightarrow>
     (case v of
        VNone \<Rightarrow> k = 1
      | VDict d \<Rightarrow> dict_get d ''n'' (VInt 1) = VInt k
      | VList ps \<Rightarrow> length ps = bs \<and> (\<forall>p \<in> set ps. py_get p ''n'' (VInt 1) = Inr (VInt k))
      | _ \<Rightarrow> False)"

definition images_ok :: "nat \<Rightarrow> pyval \<Rightarrow> bool" where
  "images_ok bs v \<longleftrightarrow>
     (case v of
        VList xs \<Rightarrow> length xs = bs \<and>
          (is_list (hd xs) \<longrightarrow> (\<forall>x \<in> set xs. x = VNone \<or> is_list x \<and> x \<noteq> VList []))
      | _ \<Rightarrow> True)"

definition tokens_ok :: "nat \<Rightarrow> int \<Rightarrow> pyval \<Rightarrow> bool" where
  "tokens_ok bs k v \<longleftrightarrow> (case v of VList (x # xs) \<Rightarrow> is_list x \<longrightarrow> k \<le> 1 \<and> fits bs v | _ \<Rightarrow> True)"

definition batch_ok :: "nat \<Rightarrow> int \<Rightarrow> GenerateReqInput \<Rightarrow> bool" where
  "batch_ok bs k q \<longleftrightarrow>
     0 < bs \<and> 1 \<le> k \<and> prompts_ok bs q \<and> params_ok bs k (g_sampling_params q) \<and> listed bs (g_rid q) \<and>
     (g_lora_path q = VNone \<or> is_str (g_lora_path q) \<or> is_list (g_lora_path q)) \<and> fits bs (g_lora_path q) \<and>
     images_ok bs (g_image_data q) \<and> fits bs (g_audio_data q) \<and> listed bs (g_modalities q) \<and>
     (\<forall>v \<in> {g_return_logprob q, g_logprob_start_len q, g_top_logprobs_num q, g_custom_logit_processor q}.
        fits bs v \<and> (1 < k \<longrightarrow> \<not> is_list v)) \<and>
     tokens_ok bs k (g_token_ids_logprob q) \<and>
     (\<forall>v \<in> {g_bootstrap_host q, g_bootstrap_port q, g_bootstrap_room q}. listed bs v) \<and>
     validate_session_params q = Inr ()"

text \<open>The request at position \<open>i\<close>, from what the client sent.\<close>

definition image_at :: "pyval \<Rightarrow> nat \<Rightarrow> pyval" where
  "image_at v i =
     (case v of
        VNone \<Rightarrow> VNone
      | VList xs \<Rightarrow> if is_list (hd xs) then xs ! i else VList [xs ! i]
      | w \<Rightarrow> VList [w])"

definition modality_at :: "pyval \<Rightarrow> pyval \<Rightarrow> nat \<Rightarrow> pyval" where
  "modality_at img given i =
     (case img of
        VNone \<Rightarrow> spread VNone given i
      | VList xs \<Rightarrow>
          if is_list (hd xs)
          then if xs ! i \<in> {VNone, VList [VNone]} then VNone
               else if py_len (xs ! i) = Inr 1 then VStr ''image'' else VStr ''multi-images''
          else VStr ''image''
      | w \<Rightarrow> VStr ''image'')"

definition token_ids_at :: "pyval \<Rightarrow> nat \<Rightarrow> pyval" where
  "token_ids_at v i =
     (if \<not> py_bool v then VNone else if \<not> is_list v then VList [v]
      else case v of VList (x # xs) \<Rightarrow> if is_list x then (x # xs) ! i else v | _ \<Rightarrow> VNone)"

definition batch_item :: "(nat \<Rightarrow> string) \<Rightarrow> GenerateReqInput \<Rightarrow> nat \<Rightarrow> GenerateReqInput" where
  "batch_item uuid q i =
     generate_default\<lparr>g_text := spread VNone (g_text q) i, g_input_ids := spread VNone (g_input_ids q) i,
       g_image_data := image_at (g_image_data q) i, g_audio_data := spread VNone (g_audio_data q) i,
       g_sampling_params := spread (VDict []) (g_sampling_params q) i,
       g_rid := spread (VStr (uuid i)) (g_rid q) i,
       g_return_logprob := spread (VBool False) (g_return_logprob q) i,
       g_logprob_start_len := spread (VInt (-1)) (g_logprob_start_len q) i,
       g_top_logprobs_num := spread (VInt 0) (g_top_logprobs_num q) i,
       g_token_ids_logprob := token_ids_at (g_token_ids_logprob q) i,
       g_return_text_in_logprobs := g_return_text_in_logprobs q, g_stream := g_stream q,
       g_log_metrics := g_log_metrics q, g_modalities := modality_at (g_image_data q) (g_modalities q) i,
       g_lora_path := spread VNone (g_lora_path q) i,
       g_custom_logit_processor := spread VNone (g_custom_logit_processor q) i,
       g_return_hidden_states := g_return_hidden_states q,
       g_bootstrap_host := spread VNone (g_bootstrap_host q) i,
       g_bootstrap_port := spread VNone (g_bootstrap_port q) i,
       g_bootstrap_room := spread VNone (g_bootstrap_room q) i\<rparr>"

section \<open>The columns of a normalised batch\<close>

definition carried :: "nat \<Rightarrow> pyval \<Rightarrow> pyval \<Rightarrow> bool" where
  "carried bs v w \<longleftrightarrow> (if v = VNone then w = VNone else col bs (spread VNone v) w)"

lemma carried_item: "carried bs v w \<Longrightarrow> i < bs \<Longrightarrow> item_or_none w i = Inr (spread VNone v i)"
  by (cases "v = VNone") (simp_all add: carried_def col_item_or_none, simp add: item_or_none_def spread_def)

lemma carried_list: "length xs = bs \<Longrightarrow> col bs ((!) xs) w \<Longrightarrow> carried bs (VList xs) w"
  by (simp add: carried_def spread_def[abs_def])

lemma carried_listed: "listed bs v \<Longrightarrow> carried bs v v"
  by (cases v) (auto simp: listed_def fits_def carried_def spread_def[abs_def] col_list)

lemma prompts_cases:
  assumes "prompts_ok bs q"
  obtains (texts) ts where "g_text q = VList ts" "g_input_ids q = VNone" "length ts = bs"
    | (ids) ls where "g_text q = VNone" "g_input_ids q = VList ls" "length ls = bs" "\<forall>x \<in> set ls. is_list x"
  using assms by (auto simp: prompts_ok_def split: pyval.splits)

lemma expand_inputs_col:
  assumes "prompts_ok bs q" "g_parallel_sample_num q = VInt k" "1 \<le> k" "0 < bs"
  shows "\<exists>t d. expand_inputs q = Inr (q\<lparr>g_text := t, g_input_ids := d\<rparr>) \<and>
           carried bs (g_text q) t \<and> carried bs (g_input_ids q) d"
proof -
  from assms(1) show ?thesis
  proof (cases rule: prompts_cases)
    case (texts ts)
    obtain w where "py_mul (VList ts) (VInt k) = Inr w" "col bs ((!) ts) w" using col_mul[OF texts(3) assms(3)] by blast
    then show ?thesis
      using texts assms(2) carried_list[OF texts(3)]
      by (intro exI[of _ w] exI[of _ VNone]) (simp add: expand_inputs_def carried_def)
  next
    case (ids ls)
    obtain w where w: "py_mul (VList ls) (VInt k) = Inr w" "col bs ((!) ls) w" using col_mul[OF ids(3) assms(3)] by blast
    have "py_item (VList ls) 0 = Inr (ls ! 0)" "is_list (ls ! 0)" using ids(3,4) assms(4) by (simp_all add: py_item_def)
    then show ?thesis
      using ids w assms(2) carried_list[OF ids(3)]
      by (intro exI[of _ VNone] exI[of _ w]) (simp add: expand_inputs_def carried_def)
  qed
qed

lemma normalize_lora_paths_col:
  assumes "g_lora_path q = VNone \<or> is_str (g_lora_path q) \<or> is_list (g_lora_path q)" "fits bs (g_lora_path q)"
    "g_parallel_sample_num q = VInt k" "1 \<le> k" "bs \<le> nat num"
  shows "\<exists>w. normalize_lora_paths num q = Inr (q\<lparr>g_lora_path := w\<rparr>) \<and> carried bs (g_lora_path q) w"
proof (cases "g_lora_path q")
  case VNone
  then show ?thesis by (intro exI[of _ VNone]) (simp add: normalize_lora_paths_def carried_def)
next
  case (VStr x)
  then show ?thesis
    using col_fill[OF assms(5), of "VStr x"] by (auto simp: normalize_lora_paths_def carried_def spread_def[abs_def])
next
  case (VList xs)
  then have "length xs = bs" using assms(2) by (simp add: fits_def)
  then show ?thesis
    using VList col_mul[OF _ assms(4)] assms(3) carried_list by (fastforce simp: normalize_lora_paths_def)
qed (use assms(1) in simp_all)

lemma normalize_audio_data_col:
  assumes "fits bs (g_audio_data q)" "g_parallel_sample_num q = VInt k" "1 \<le> k" "bs \<le> nat num"
  shows "\<exists>w. normalize_audio_data num q = Inr (q\<lparr>g_audio_data := w\<rparr>) \<and> col bs (spread VNone (g_audio_data q)) w"
proof (cases "g_audio_data q")
  case (VList xs)
  then have "length xs = bs" using assms(1) by (simp add: fits_def)
  then show ?thesis
    using VList col_mul[OF _ assms(3)] assms(2) by (fastforce simp: normalize_audio_data_def spread_def[abs_def])
qed (use col_fill[OF assms(4)] in \<open>fastforce simp: normalize_audio_data_def spread_def[abs_def]\<close>)+

lemma normalize_sampling_params_col:
  assumes "params_ok bs k (g_sampling_params q)" "g_parallel_sample_num q = VInt k" "1 \<le> k" "bs \<le> nat num"
  shows "\<exists>w. normalize_sampling_params num q = Inr (q\<lparr>g_sampling_params := w\<rparr>) \<and>
           col bs (spread (VDict []) (g_sampling_params q)) w"
proof (cases "g_sampling_params q")
  case (VList xs)
  then have "length xs = bs" using assms(1) by (simp add: params_ok_def)
  then show ?thesis
    using VList col_mul[OF _ assms(3)] assms(2) by (fastforce simp: normalize_sampling_params_def spread_def[abs_def])
qed (use assms(1) col_fill[OF assms(4)] in \<open>fastforce simp: params_ok_def normalize_sampling_params_def spread_def[abs_def]\<close>)+

lemma normalize_rid_col:
  assumes "listed bs (g_rid q)" "bs \<le> nat num"
  shows "\<exists>w. normalize_rid uuid num q = Inr (q\<lparr>g_rid := w\<rparr>) \<and> col bs (\<lambda>i. spread (VStr (uuid i)) (g_rid q) i) w"
proof (cases "g_rid q = VNone")
  case True
  then show ?thesis using assms(2) by (auto simp: normalize_rid_def col_def spread_def)
next
  case False
  then obtain xs where xs: "g_rid q = VList xs" "length xs = bs"
    using assms(1) by (cases "g_rid q") (auto simp: listed_def fits_def)
  then have "normalize_rid uuid num q = Inr (q\<lparr>g_rid := g_rid q\<rparr>)" by (simp add: normalize_rid_def)
  then show ?thesis using xs by (intro exI[of _ "g_rid q"]) (simp add: spread_def col_list)
qed

lemma normalize_token_ids_col:
  assumes "tokens_ok bs k v" "bs \<le> nat num"
  shows "\<exists>w. normalize_token_ids (VInt k) num v = Inr w \<and> col bs (token_ids_at v) w"
proof (cases v)
  case (VList ys)
  then show ?thesis
    using assms
    by (cases ys) (auto simp: normalize_token_ids_def py_item_def fits_def col_def tokens_ok_def token_ids_at_def)
qed (use assms in \<open>auto simp: normalize_token_ids_def col_def token_ids_at_def\<close>)

lemma normalize_logprob_params_col:
  assumes "\<forall>v \<in> {g_return_logprob q, g_logprob_start_len q, g_top_logprobs_num q}. fits bs v \<and> (1 < k \<longrightarrow> \<not> is_list v)"
    "tokens_ok bs k (g_token_ids_logprob q)" "g_parallel_sample_num q = VInt k" "bs \<le> nat num"
  shows "\<exists>a b c d. normalize_logprob_params num q =
           Inr (q\<lparr>g_return_logprob := a, g_logprob_start_len := b, g_top_logprobs_num := c, g_token_ids_logprob := d\<rparr>) \<and>
         col bs (spread (VBool False) (g_return_logprob q)) a \<and> col bs (spread (VInt (-1)) (g_logprob_start_len q)) b \<and>
         col bs (spread (VInt 0) (g_top_logprobs_num q)) c \<and> col bs (token_ids_at (g_token_ids_logprob q)) d"
proof -
  note n = normalize_param_col[OF _ _ assms(4), where k = k]
  obtain a where "normalize_param (VInt k) num (g_return_logprob q) (VBool False) ''return_logprob'' = Inr a"
    "col bs (spread (VBool False) (g_return_logprob q)) a" using n assms(1) by blast
  moreover obtain b where "normalize_param (VInt k) num (g_logprob_start_len q) (VInt (-1)) ''logprob_start_len'' = Inr b"
    "col bs (spread (VInt (-1)) (g_logprob_start_len q)) b" using n assms(1) by blast
  moreover obtain c where "normalize_param (VInt k) num (g_top_logprobs_num q) (VInt 0) ''top_logprobs_num'' = Inr c"
    "col bs (spread (VInt 0) (g_top_logprobs_num q)) c" using n assms(1) by blast
  moreover obtain d where "normalize_token_ids (VInt k) num (g_token_ids_logprob q) = Inr d"
    "col bs (token_ids_at (g_token_ids_logprob q)) d" using normalize_token_ids_col[OF assms(2,4)] by blast
  ultimately show ?thesis using assms(3) by (simp add: normalize_logprob_params_def) blast
qed

text \<open>Images: the modality of each request is at its position because no list of images is empty.\<close>

definition modality_of :: "pyval \<Rightarrow> pyval" where
  "modality_of v =
     (if v \<in> {VNone, VList [VNone]} then VNone else if py_len v = Inr 1 then VStr ''image'' else VStr ''multi-images'')"

lemma modality_some: "x = VNone \<or> is_list x \<and> x \<noteq> VList [] \<Longrightarrow> modality x = Inr [modality_of x]"
proof (elim disjE conjE)
  assume "is_list x" and ne: "x \<noteq> VList []"
  then obtain ys where x: "x = VList ys" by (elim is_list.elims(2))
  with ne consider "length ys = 1" | "1 < length ys" by (cases ys) auto
  then show ?thesis using x by cases (auto simp: modality_def modality_of_def py_len_def)
qed (simp add: modality_def modality_of_def)

lemma normalize_image_data_col:
  assumes "images_ok bs (g_image_data q)" "listed bs (g_modalities q)" "g_batch_size q = bs"
    "g_parallel_sample_num q = VInt k" "1 \<le> k" "bs \<le> nat num" "0 < bs"
  shows "\<exists>w m. normalize_image_data num q = Inr (q\<lparr>g_image_data := w, g_modalities := m\<rparr>) \<and>
     col bs (image_at (g_image_data q)) w \<and>
     (\<forall>i < bs. item_if_truthy m i = Inr (modality_at (g_image_data q) (g_modalities q) i))"
proof -
  have truthy: "item_if_truthy m i = Inr (f i)" if "col bs f m" "i < bs" for f m i
    using that col_item[OF that] assms(7) by (auto simp: col_def item_if_truthy_def)
  consider (none) "g_image_data q = VNone" | (list) xs where "g_image_data q = VList xs" "length xs = bs"
    | (one) "g_image_data q \<noteq> VNone" "\<not> is_list (g_image_data q)"
    using assms(1) by (cases "g_image_data q") (auto simp: images_ok_def)
  then show ?thesis
  proof cases
    case none
    have "item_if_truthy (g_modalities q) i = Inr (spread VNone (g_modalities q) i)"
      if "i < bs" for i
      using assms(2) that by (cases "g_modalities q") (auto simp: listed_def fits_def spread_def py_item_def item_if_truthy_def)
    moreover have "normalize_image_data num q = Inr (q\<lparr>g_image_data := fill num VNone, g_modalities := g_modalities q\<rparr>)"
      using none by (simp add: normalize_image_data_def)
    ultimately show ?thesis
      using none col_fill[OF assms(6), of VNone]
      by (intro exI[of _ "fill num VNone"] exI[of _ "g_modalities q"]) (simp add: image_at_def[abs_def] modality_at_def)
  next
    case one
    then have eq: "normalize_image_data num q =
        Inr (q\<lparr>g_image_data := fill num (VList [g_image_data q]), g_modalities := fill num (VStr ''image'')\<rparr>)"
      "image_at (g_image_data q) = (\<lambda>_. VList [g_image_data q])"
      "modality_at (g_image_data q) (g_modalities q) = (\<lambda>_. VStr ''image'')"
      by (cases "g_image_data q"; force simp: normalize_image_data_def image_at_def modality_at_def)+
    show ?thesis unfolding eq using col_fill[OF assms(6)] truthy[OF col_fill[OF assms(6)]] by blast
  next
    case list
    have ne: "xs \<noteq> []" using list(2) assms(7) by auto
    show ?thesis
    proof (cases "is_list (hd xs)")
      case True
      then have "\<forall>x \<in> set xs. modality x = Inr [modality_of x]"
        using assms(1) list(1) modality_some by (simp add: images_ok_def)
      then have ms: "mapE modality xs = Inr (map (\<lambda>x. [modality_of x]) xs)" by (intro mapE_Inr) simp
      have cat: "concat (map (\<lambda>x. [modality_of x]) xs) = map modality_of xs" by (induction xs) auto
      obtain w where w: "py_mul (VList xs) (VInt k) = Inr w" "col bs ((!) xs) w" using col_mul[OF list(2) assms(5)] by blast
      obtain m where m: "py_mul (VList (map modality_of xs)) (VInt k) = Inr m" "col bs ((!) (map modality_of xs)) m"
        using col_mul[of "map modality_of xs" bs, OF _ assms(5)] list(2) by auto
      have "normalize_image_data num q = Inr (q\<lparr>g_image_data := w, g_modalities := m\<rparr>)"
        using list ne True ms cat w(1) m(1) assms(3,4) by (simp add: normalize_image_data_def)
      moreover have "col bs (image_at (g_image_data q)) w" using w(2) list(1) True by (simp add: image_at_def[abs_def])
      moreover have "\<forall>i < bs. map modality_of xs ! i = modality_at (g_image_data q) (g_modalities q) i"
        using list True by (simp add: modality_at_def modality_of_def)
      ultimately show ?thesis using truthy[OF m(2)] by (intro exI[of _ w] exI[of _ m]) simp
    next
      case False
      obtain w where w: "py_mul (VList (map (\<lambda>x. VList [x]) xs)) (VInt k) = Inr w" "col bs ((!) (map (\<lambda>x. VList [x]) xs)) w"
        using col_mul[of "map (\<lambda>x. VList [x]) xs" bs, OF _ assms(5)] list(2) by auto
      have "normalize_image_data num q = Inr (q\<lparr>g_image_data := w, g_modalities := fill num (VStr ''image'')\<rparr>)"
        using list False w(1) assms(3,4) by (simp add: normalize_image_data_def)
      moreover have "col bs (image_at (g_image_data q)) w"
        using w(2) list False by (auto simp: image_at_def col_def)
      moreover have "\<forall>i < bs. VStr ''image'' = modality_at (g_image_data q) (g_modalities q) i"
        using list False by (simp add: modality_at_def)
      ultimately show ?thesis
        using truthy[OF col_fill[OF assms(6)], of _ "VStr ''image''"] by (intro exI[of _ w] exI[of _ "fill num (VStr ''image'')"]) simp
    qed
  qed
qed

section \<open>Requests of a batch\<close>

lemma determine_batch:
  assumes "prompts_ok bs q" "0 < bs"
  shows "validate_inputs q = Inr ()"
    "determine_batch_size q = Inr (q\<lparr>g_is_single := False, g_batch_size := bs, g_input_embeds := VNone\<rparr>)"
proof -
  show "validate_inputs q = Inr ()" using assms(1) by (cases rule: prompts_cases) (simp_all add: validate_inputs_def)
  from assms(1) show "determine_batch_size q = Inr (q\<lparr>g_is_single := False, g_batch_size := bs, g_input_embeds := VNone\<rparr>)"
  proof (cases rule: prompts_cases)
    case (ids ls)
    then have "is_list (ls ! 0)" using assms(2) by simp
    then obtain l where "ls ! 0 = VList l" by (elim is_list.elims(2))
    then have "py_item (g_input_ids q) 0 = Inr (VList l)" using ids assms(2) by (simp add: py_item_def)
    then show ?thesis using ids assms(2) by (simp add: determine_batch_size_def py_len_def as_int_def)
  qed (simp add: determine_batch_size_def py_len_def)
qed

lemma same_samples: "\<forall>p \<in> set ps. py_get p ''n'' (VInt 1) = Inr (VInt k) \<Longrightarrow>
  foldE (\<lambda>sp m. bindE (py_get sp ''n'' (VInt 1)) (\<lambda>j. if py_eq (VInt k) j then Inr m else Inl e)) ps n = Inr n"
  by (induction ps) (auto simp: py_eq_def numeric_def as_int_def float_eq_def)

lemma sample_num_ok: "params_ok bs k v \<Longrightarrow> 0 < bs \<Longrightarrow> sample_num v = Inr (VInt k)"
  by (cases v) (auto simp: params_ok_def sample_num_def py_item_def same_samples)

lemma batch_okD:
  assumes "batch_ok bs k q"
  shows "0 < bs" "1 \<le> k" "prompts_ok bs q" "params_ok bs k (g_sampling_params q)" "listed bs (g_rid q)"
    "g_lora_path q = VNone \<or> is_str (g_lora_path q) \<or> is_list (g_lora_path q)" "fits bs (g_lora_path q)"
    "images_ok bs (g_image_data q)" "fits bs (g_audio_data q)" "listed bs (g_modalities q)"
    "\<forall>v \<in> {g_return_logprob q, g_logprob_start_len q, g_top_logprobs_num q}. fits bs v \<and> (1 < k \<longrightarrow> \<not> is_list v)"
    "fits bs (g_custom_logit_processor q)" "1 < k \<longrightarrow> \<not> is_list (g_custom_logit_processor q)"
    "tokens_ok bs k (g_token_ids_logprob q)"
    "listed bs (g_bootstrap_host q)" "listed bs (g_bootstrap_port q)" "listed bs (g_bootstrap_room q)"
    "validate_session_params q = Inr ()"
  using assms unfolding batch_ok_def by blast+

lemma foldE_append: "foldE f xs s = Inr t \<Longrightarrow> foldE f (xs @ ys) s = foldE f ys t"
  by (induction xs arbitrary: s) auto

text \<open>The prompts with their adapters and media.\<close>

lemma prompt_columns:
  assumes ok: "batch_ok bs k q" and n: "g_batch_size q = bs" "g_parallel_sample_num q = VInt k" and num: "bs \<le> nat num"
  shows "\<exists>t d l w m a.
     foldE (\<lambda>f. f) [expand_inputs, normalize_lora_paths num, normalize_image_data num, normalize_audio_data num] q =
       Inr (q\<lparr>g_text := t, g_input_ids := d, g_lora_path := l, g_image_data := w, g_modalities := m, g_audio_data := a\<rparr>) \<and>
     carried bs (g_text q) t \<and> carried bs (g_input_ids q) d \<and> carried bs (g_lora_path q) l \<and>
     col bs (image_at (g_image_data q)) w \<and> col bs (spread VNone (g_audio_data q)) a \<and>
     (\<forall>i < bs. item_if_truthy m i = Inr (modality_at (g_image_data q) (g_modalities q) i))"
proof -
  note k = batch_okD(2,1)[OF ok] and ok = batch_okD[OF ok]
  obtain t d where s1: "expand_inputs q = Inr (q\<lparr>g_text := t, g_input_ids := d\<rparr>)"
    and c1: "carried bs (g_text q) t" "carried bs (g_input_ids q) d"
    using expand_inputs_col[OF ok(3) n(2) k] by blast
  define q1 where "q1 = q\<lparr>g_text := t, g_input_ids := d\<rparr>"
  obtain l where s2: "normalize_lora_paths num q1 = Inr (q1\<lparr>g_lora_path := l\<rparr>)" and c2: "carried bs (g_lora_path q) l"
    using normalize_lora_paths_col[of q1, OF _ _ _ k(1) num] ok(6,7) n(2) unfolding q1_def by auto
  define q2 where "q2 = q1\<lparr>g_lora_path := l\<rparr>"
  obtain w m where s3: "normalize_image_data num q2 = Inr (q2\<lparr>g_image_data := w, g_modalities := m\<rparr>)"
    and c3: "col bs (image_at (g_image_data q)) w"
    "\<forall>i < bs. item_if_truthy m i = Inr (modality_at (g_image_data q) (g_modalities q) i)"
    using normalize_image_data_col[of bs q2, OF _ _ _ _ k(1) num k(2)] ok(8,10) n unfolding q1_def q2_def by auto
  define q3 where "q3 = q2\<lparr>g_image_data := w, g_modalities := m\<rparr>"
  obtain a where s4: "normalize_audio_data num q3 = Inr (q3\<lparr>g_audio_data := a\<rparr>)"
    and c4: "col bs (spread VNone (g_audio_data q)) a"
    using normalize_audio_data_col[of bs q3, OF _ _ k(1) num] ok(9) n unfolding q1_def q2_def q3_def by auto
  have "foldE (\<lambda>f. f) [expand_inputs, normalize_lora_paths num, normalize_image_data num, normalize_audio_data num] q =
      Inr (q3\<lparr>g_audio_data := a\<rparr>)"
    by (simp add: s1[folded q1_def] s2[folded q2_def] s3[folded q3_def] s4)
  then show ?thesis
    using c1 c2 c3 c4 unfolding q1_def q2_def q3_def by blast
qed

text \<open>The settings of the requests.\<close>

lemma setting_columns:
  assumes ok: "batch_ok bs k q" and n: "g_parallel_sample_num q' = VInt k" and num: "bs \<le> nat num"
    and same: "g_sampling_params q' = g_sampling_params q" "g_rid q' = g_rid q" "g_return_logprob q' = g_return_logprob q"
      "g_logprob_start_len q' = g_logprob_start_len q" "g_top_logprobs_num q' = g_top_logprobs_num q"
      "g_token_ids_logprob q' = g_token_ids_logprob q" "g_custom_logit_processor q' = g_custom_logit_processor q"
  shows "\<exists>p r e f g h u.
     foldE (\<lambda>f. f) [normalize_sampling_params num, normalize_rid uuid num, normalize_logprob_params num,
                   normalize_custom_logit_processor num] q' =
       Inr (q'\<lparr>g_sampling_params := p, g_rid := r, g_return_logprob := e, g_logprob_start_len := f,
               g_top_logprobs_num := g, g_token_ids_logprob := h, g_custom_logit_processor := u\<rparr>) \<and>
     col bs (spread (VDict []) (g_sampling_params q)) p \<and> col bs (\<lambda>i. spread (VStr (uuid i)) (g_rid q) i) r \<and>
     col bs (spread (VBool False) (g_return_logprob q)) e \<and> col bs (spread (VInt (-1)) (g_logprob_start_len q)) f \<and>
     col bs (spread (VInt 0) (g_top_logprobs_num q)) g \<and> col bs (token_ids_at (g_token_ids_logprob q)) h \<and>
     col bs (spread VNone (g_custom_logit_processor q)) u"
proof -
  note k = batch_okD(2)[OF ok] and ok = batch_okD[OF ok]
  obtain p where s1: "normalize_sampling_params num q' = Inr (q'\<lparr>g_sampling_params := p\<rparr>)"
    and c1: "col bs (spread (VDict []) (g_sampling_params q)) p"
    using normalize_sampling_params_col[of bs k q', unfolded same, OF ok(4) n k num] by blast
  define q1 where "q1 = q'\<lparr>g_sampling_params := p\<rparr>"
  obtain r where s2: "normalize_rid uuid num q1 = Inr (q1\<lparr>g_rid := r\<rparr>)"
    and c2: "col bs (\<lambda>i. spread (VStr (uuid i)) (g_rid q) i) r"
    using normalize_rid_col[of bs q1, OF _ num] ok(5) same(2) unfolding q1_def by auto
  define q2 where "q2 = q1\<lparr>g_rid := r\<rparr>"
  have q2: "g_return_logprob q2 = g_return_logprob q" "g_logprob_start_len q2 = g_logprob_start_len q"
    "g_top_logprobs_num q2 = g_top_logprobs_num q" "g_token_ids_logprob q2 = g_token_ids_logprob q"
    "g_parallel_sample_num q2 = VInt k" "g_custom_logit_processor q2 = g_custom_logit_processor q"
    using n same by (simp_all add: q1_def q2_def)
  obtain e f g h where s3: "normalize_logprob_params num q2 =
      Inr (q2\<lparr>g_return_logprob := e, g_logprob_start_len := f, g_top_logprobs_num := g, g_token_ids_logprob := h\<rparr>)"
    and c3: "col bs (spread (VBool False) (g_return_logprob q)) e" "col bs (spread (VInt (-1)) (g_logprob_start_len q)) f"
    "col bs (spread (VInt 0) (g_top_logprobs_num q)) g" "col bs (token_ids_at (g_token_ids_logprob q)) h"
    using normalize_logprob_params_col[of q2 bs k num, unfolded q2, OF ok(11,14) refl num] by blast
  define q3 where "q3 = q2\<lparr>g_return_logprob := e, g_logprob_start_len := f, g_top_logprobs_num := g, g_token_ids_logprob := h\<rparr>"
  obtain u where u: "normalize_param (VInt k) num (g_custom_logit_processor q) VNone ''custom_logit_processor'' = Inr u"
    and c4: "col bs (spread VNone (g_custom_logit_processor q)) u"
    using normalize_param_col[OF ok(12,13) num] by blast
  have "normalize_custom_logit_processor num q3 = Inr (q3\<lparr>g_custom_logit_processor := u\<rparr>)"
    using u q2(5,6) by (simp add: normalize_custom_logit_processor_def q3_def)
  then have "foldE (\<lambda>f. f) [normalize_sampling_params num, normalize_rid uuid num, normalize_logprob_params num,
      normalize_custom_logit_processor num] q' = Inr (q3\<lparr>g_custom_logit_processor := u\<rparr>)"
    by (simp add: s1[folded q1_def] s2[folded q2_def] s3[folded q3_def])
  then show ?thesis
    using c1 c2 c3 c4 unfolding q1_def q2_def q3_def by blast
qed

lemma normalize_batch_inputs_cols:
  assumes ok: "batch_ok bs k q" and n: "g_batch_size q = bs" "g_parallel_sample_num q = VInt k"
  shows "\<exists>q'. normalize_batch_inputs uuid q = Inr q' \<and> g_is_single q' = g_is_single q \<and> g_batch_size q' = bs \<and>
     g_session_params q' = g_session_params q \<and> (\<forall>i < bs. get_item q' i = Inr (batch_item uuid q i))"
proof -
  define num where "num = int bs * k"
  have num: "bs \<le> nat num" using batch_okD(1,2)[OF ok] by (simp add: num_def nat_mult_distrib Suc_le_eq)
  have numeq: "(if k = 1 then int bs else int bs * k) = num" by (simp add: num_def)
  obtain t d l w m a where one: "foldE (\<lambda>f. f) [expand_inputs, normalize_lora_paths num, normalize_image_data num,
        normalize_audio_data num] q =
      Inr (q\<lparr>g_text := t, g_input_ids := d, g_lora_path := l, g_image_data := w, g_modalities := m, g_audio_data := a\<rparr>)"
    and c1: "carried bs (g_text q) t" "carried bs (g_input_ids q) d" "carried bs (g_lora_path q) l"
      "col bs (image_at (g_image_data q)) w" "col bs (spread VNone (g_audio_data q)) a"
      "\<forall>i < bs. item_if_truthy m i = Inr (modality_at (g_image_data q) (g_modalities q) i)"
    using prompt_columns[OF ok n num] by blast
  define q1 where
    "q1 = q\<lparr>g_text := t, g_input_ids := d, g_lora_path := l, g_image_data := w, g_modalities := m, g_audio_data := a\<rparr>"
  obtain p r e f g h u where two: "foldE (\<lambda>f. f) [normalize_sampling_params num, normalize_rid uuid num,
        normalize_logprob_params num, normalize_custom_logit_processor num] q1 =
      Inr (q1\<lparr>g_sampling_params := p, g_rid := r, g_return_logprob := e, g_logprob_start_len := f,
              g_top_logprobs_num := g, g_token_ids_logprob := h, g_custom_logit_processor := u\<rparr>)"
    and c2: "col bs (spread (VDict []) (g_sampling_params q)) p" "col bs (\<lambda>i. spread (VStr (uuid i)) (g_rid q) i) r"
      "col bs (spread (VBool False) (g_return_logprob q)) e" "col bs (spread (VInt (-1)) (g_logprob_start_len q)) f"
      "col bs (spread (VInt 0) (g_top_logprobs_num q)) g" "col bs (token_ids_at (g_token_ids_logprob q)) h"
      "col bs (spread VNone (g_custom_logit_processor q)) u"
    using setting_columns[OF ok, of q1 num uuid] n num unfolding q1_def by auto
  have boot: "carried bs (g_bootstrap_host q) (g_bootstrap_host q)" "carried bs (g_bootstrap_port q) (g_bootstrap_port q)"
    "carried bs (g_bootstrap_room q) (g_bootstrap_room q)" using batch_okD(15-17)[OF ok] by (simp_all add: carried_listed)
  define q2 where "q2 = q1\<lparr>g_sampling_params := p, g_rid := r, g_return_logprob := e, g_logprob_start_len := f,
     g_top_logprobs_num := g, g_token_ids_logprob := h, g_custom_logit_processor := u\<rparr>"
  have "normalize_batch_inputs uuid q = Inr q2"
    unfolding normalize_batch_inputs_def Let_def n py_eq_one as_int_def pyval.case option.case numeq
    using foldE_append[OF one[folded q1_def], where ys = "[normalize_sampling_params num, normalize_rid uuid num,
        normalize_logprob_params num, normalize_custom_logit_processor num]"] two[folded q2_def] by simp
  moreover have "get_item q2 i = Inr (batch_item uuid q i)" if "i < bs" for i
    using that c1 c2 boot
    by (simp add: get_item_def carried_item col_item col_item_or_none batch_item_def q1_def q2_def)
  ultimately show ?thesis using n by (intro exI[of _ q2]) (simp add: q1_def q2_def)
qed

lemma batch_item_shape [simp]:
  "batch_item uuid (q\<lparr>g_is_single := x, g_batch_size := y, g_input_embeds := z, g_parallel_sample_num := n\<rparr>) =
   batch_item uuid q"
  by (rule ext) (simp add: batch_item_def)

lemma batch_ok_shape [simp]:
  "batch_ok bs k (q\<lparr>g_is_single := x, g_batch_size := y, g_input_embeds := z, g_parallel_sample_num := n\<rparr>) = batch_ok bs k q"
  by (simp add: batch_ok_def prompts_ok_def validate_session_params_def)

lemma normalize_batch:
  assumes "batch_ok bs k q"
  shows "\<exists>q'. normalize_batch_and_arguments uuid q = Inr q' \<and> \<not> g_is_single q' \<and> g_batch_size q' = bs \<and>
           (\<forall>i < bs. get_item q' i = Inr (batch_item uuid q i))"
proof -
  note ok = batch_okD[OF assms]
  let ?q = "q\<lparr>g_is_single := False, g_batch_size := bs, g_input_embeds := VNone, g_parallel_sample_num := VInt k\<rparr>"
  obtain q' where q': "normalize_batch_inputs uuid ?q = Inr q'" "\<not> g_is_single q'" "g_batch_size q' = bs"
    "g_session_params q' = g_session_params q" "\<forall>i < bs. get_item q' i = Inr (batch_item uuid q i)"
    using normalize_batch_inputs_cols[of bs k ?q uuid] assms by auto
  have "handle_parallel_sampling (q\<lparr>g_is_single := False, g_batch_size := bs, g_input_embeds := VNone\<rparr>) = Inr ?q"
    using sample_num_ok[OF ok(4,1)] by (simp add: handle_parallel_sampling_def)
  moreover have "validate_session_params q' = validate_session_params q"
    unfolding validate_session_params_def q'(4) ..
  ultimately have "normalize_batch_and_arguments uuid q = Inr q'"
    using determine_batch[OF ok(3,1)] q'(1,2) ok(18) by (simp add: normalize_batch_and_arguments_def)
  then show ?thesis using q' by blast
qed


text \<open>Without text and tokens no step of the normalisation makes them up.\<close>

definition promptless :: "GenerateReqInput \<Rightarrow> bool" where
  "promptless q \<longleftrightarrow> g_text q = VNone \<and> g_input_ids q = VNone"

lemma foldE_keeps:
  "foldE (\<lambda>f. f) fs s = Inr t \<Longrightarrow> (\<And>f s t. f \<in> set fs \<Longrightarrow> f s = Inr t \<Longrightarrow> P s \<Longrightarrow> P t) \<Longrightarrow> P s \<Longrightarrow> P t"
proof (induction fs arbitrary: s)
  case (Cons f fs)
  from Cons.prems(1) obtain u where "f s = Inr u" "foldE (\<lambda>f. f) fs u = Inr t" by auto
  with Cons show ?case by (meson list.set_intros)
qed simp

lemma promptless_steps:
  "expand_inputs q = Inr q' \<Longrightarrow> promptless q \<Longrightarrow> promptless q'"
  "normalize_lora_paths num q = Inr q' \<Longrightarrow> promptless q \<Longrightarrow> promptless q'"
  "normalize_image_data num q = Inr q' \<Longrightarrow> promptless q \<Longrightarrow> promptless q'"
  "normalize_audio_data num q = Inr q' \<Longrightarrow> promptless q \<Longrightarrow> promptless q'"
  "normalize_sampling_params num q = Inr q' \<Longrightarrow> promptless q \<Longrightarrow> promptless q'"
  "normalize_rid uuid num q = Inr q' \<Longrightarrow> promptless q \<Longrightarrow> promptless q'"
  "normalize_logprob_params num q = Inr q' \<Longrightarrow> promptless q \<Longrightarrow> promptless q'"
  "normalize_custom_logit_processor num q = Inr q' \<Longrightarrow> promptless q \<Longrightarrow> promptless q'"
  unfolding promptless_def
  subgoal by (auto simp: expand_inputs_def Let_def split: if_splits)
  subgoal by (auto simp: normalize_lora_paths_def split: pyval.splits)
  subgoal by (auto simp: normalize_image_data_def Let_def split: pyval.splits if_splits)
  subgoal by (auto simp: normalize_audio_data_def split: pyval.splits)
  subgoal by (auto simp: normalize_sampling_params_def split: pyval.splits)
  subgoal by (auto simp: normalize_rid_def split: if_splits)
  subgoal by (auto simp: normalize_logprob_params_def Let_def)
  subgoal by (auto simp: normalize_custom_logit_processor_def)
  done

lemma promptless_batch: "normalize_batch_inputs uuid q = Inr q' \<Longrightarrow> promptless q \<Longrightarrow> promptless q'"
  unfolding normalize_batch_inputs_def Let_def by (erule foldE_keeps) (auto dest: promptless_steps)

lemma promptless_normalize:
  assumes "normalize_batch_and_arguments uuid q = Inr q'" "promptless q"
  shows "promptless q'"
proof -
  obtain q1 q2 where q: "determine_batch_size q = Inr q1" "handle_parallel_sampling q1 = Inr q2"
    "(if g_is_single q2 then Inr (normalize_single_inputs uuid q2) else normalize_batch_inputs uuid q2) = Inr q'"
    using assms(1) unfolding normalize_batch_and_arguments_def bindE_eq_Inr by blast
  obtain x where "(case x of VFloat _ \<Rightarrow> Inr (q\<lparr>g_is_single := True, g_batch_size := Suc 0\<rparr>)
      | _ \<Rightarrow> bindE (py_len (g_input_embeds q)) (\<lambda>n. Inr (q\<lparr>g_is_single := False, g_batch_size := n\<rparr>))) = Inr q1"
    using q(1) assms(2) unfolding determine_batch_size_def promptless_def by auto
  then have "promptless q1" using assms(2) by (cases x) (auto simp: promptless_def)
  then have "promptless q2" using q(2) by (auto simp: handle_parallel_sampling_def promptless_def Let_def)
  then show ?thesis
    using q(3) promptless_batch by (auto simp: normalize_single_inputs_def promptless_def split: if_splits)
qed

text \<open>
  A batch of embeddings never reaches the model.  The requests of the batch carry no embeddings, no
  tokens and no text, so with a tokenizer \<open>None\<close> is tokenized, and without one the request is refused as
  a text prompt.
\<close>

theorem batched_embeddings_are_lost:
  assumes "g_text q = VNone" "g_input_ids q = VNone"
    "normalize_batch_and_arguments uuid q = Inr q'" "\<not> g_is_single q'"
    "batch_requests q' = Inr items" "it \<in> set items"
  shows "g_input_embeds it = VNone \<and>
     request_input_ids dis encode it =
       (case encode of
          None \<Rightarrow> Inl (ValueError ''The engine initialized with skip_tokenizer_init=True cannot accept text prompts.'')
        | Some enc \<Rightarrow> enc VNone)"
proof -
  have "promptless q'" using promptless_normalize[OF assms(3)] assms(1,2) by (simp add: promptless_def)
  moreover obtain i where "get_item q' i = Inr it"
    using assms(5,6) mapE_all2[of "get_item q'" "[0..<g_batch_size q']" items]
    by (auto simp: batch_requests_def list_all2_conv_all_nth in_set_conv_nth)
  ultimately have "g_text it = VNone" "g_input_ids it = VNone" "g_input_embeds it = VNone"
    by (auto simp: get_item_def promptless_def item_or_none_def generate_default_def)
  then show ?thesis by (simp add: request_input_ids_def split: option.split)
qed

section \<open>Embeddings\<close>

text \<open>Every request of a batch of texts asks for no new tokens and keeps its other parameters.\<close>

definition zeroed :: "pyval \<Rightarrow> pyval" where
  "zeroed v = (case v of VDict d \<Rightarrow> VDict (dict_set ''max_new_tokens'' (VInt 0) d) | _ \<Rightarrow> v)"

lemma no_new_tokens_zeroed: "is_dict v \<Longrightarrow> no_new_tokens v = Inr (zeroed v)"
  by (cases v) (simp_all add: no_new_tokens_def zeroed_def)

lemma embedding_batch_items:
  assumes "e_text q = VList ts" "length ts = bs" "2 \<le> bs" "e_input_ids q = VNone" "listed bs (e_image_data q)"
    "listed bs (e_rid q)" "e_sampling_params q = VNone \<or> (\<exists>ps. e_sampling_params q = VList ps \<and> length ps = bs \<and> (\<forall>p \<in> set ps. is_dict p))"
  shows "\<exists>q'. embedding_normalize uuid q = Inr q' \<and> \<not> e_is_single q' \<and> e_batch_size q' = bs \<and>
     (\<forall>i < bs. embedding_item q' i =
        Inr (embedding_default\<lparr>e_text := ts ! i, e_image_data := spread VNone (e_image_data q) i,
               e_sampling_params := zeroed (spread (VDict []) (e_sampling_params q) i),
               e_rid := spread (VStr (uuid i)) (e_rid q) i\<rparr>))"
proof -
  obtain sp where sp: "embedding_params bs (e_sampling_params q) = Inr sp"
    "col bs (\<lambda>i. zeroed (spread (VDict []) (e_sampling_params q) i)) sp"
  proof (cases "e_sampling_params q = VNone")
    case True
    then show thesis by (intro that) (auto simp: embedding_params_def col_def zeroed_def spread_def)
  next
    case False
    then obtain ps where ps: "e_sampling_params q = VList ps" "length ps = bs" "\<forall>p \<in> set ps. is_dict p" using assms(7) by auto
    have "mapE no_new_tokens ps = Inr (map zeroed ps)" using ps(3) by (intro mapE_Inr) (simp add: no_new_tokens_zeroed)
    then show thesis using ps(1,2) by (intro that) (auto simp: embedding_params_def col_def spread_def)
  qed
  let ?rid = "or_default (e_rid q) (VList (map (VStr \<circ> uuid) [0..<bs]))"
  have rid: "col bs (\<lambda>i. spread (VStr (uuid i)) (e_rid q) i) ?rid"
    using assms(6) by (cases "e_rid q") (auto simp: listed_def fits_def or_default_def col_def spread_def)
  define q' where "q' = q\<lparr>e_batch_size := bs, e_is_single := False, e_rid := ?rid, e_sampling_params := sp\<rparr>"
  have "embedding_normalize uuid q = Inr q'"
    using assms(1-4,6) sp(1) by (auto simp: embedding_normalize_def embedding_batch_size_def py_len_def q'_def listed_def)
  moreover have "embedding_item q' i = Inr (embedding_default\<lparr>e_text := ts ! i, e_image_data := spread VNone (e_image_data q) i,
      e_sampling_params := zeroed (spread (VDict []) (e_sampling_params q) i),
      e_rid := spread (VStr (uuid i)) (e_rid q) i\<rparr>)" if "i < bs" for i
  proof -
    have "item_or_none (e_text q) i = Inr (ts ! i)" "item_or_none (e_input_ids q) i = Inr VNone"
      using assms(1,2,4) that by (simp_all add: item_or_none_def py_item_def)
    then show ?thesis
      using carried_item[OF carried_listed[OF assms(5)] that] col_item[OF sp(2) that] col_item[OF rid that]
      by (simp add: embedding_item_def q'_def embedding_default_def)
  qed
  ultimately show ?thesis by (intro exI[of _ q']) (simp add: q'_def)
qed

text \<open>A list with one text counts as a single request whose text is still the list.\<close>

lemma embedding_list_of_one:
  assumes "e_text q = VList [t]" "e_input_ids q = VNone" "e_sampling_params q = VNone"
  shows "\<exists>q'. embedding_normalize uuid q = Inr q' \<and> e_is_single q' \<and> e_text q' = VList [t]"
  using assms by (simp add: embedding_normalize_def embedding_batch_size_def py_len_def no_new_tokens_def or_default_def)

section \<open>Examples\<close>

text \<open>Two prompts with one image each, two samples per prompt.\<close>

definition demo_generate :: GenerateReqInput where
  "demo_generate =
     generate_default\<lparr>g_text := VList [VStr ''a'', VStr ''b''], g_sampling_params := VDict [(''n'', VInt 2)],
       g_image_data := VList [VList [VStr ''x''], VList [VStr ''y'', VStr ''z'']], g_lora_path := VStr ''l''\<rparr>"


definition demo_embeds :: GenerateReqInput where
  "demo_embeds = generate_default\<lparr>g_input_embeds := VList [VList [VList [VFloat (Fin 1)]]]\<rparr>"

theorem batched_embeddings_are_lost_witness:
  "\<exists>q' it. normalize_batch_and_arguments (\<lambda>k. replicate k CHR ''i'') demo_embeds = Inr q' \<and> \<not> g_is_single q' \<and>
     batch_requests q' = Inr [it] \<and> g_input_embeds it = VNone \<and> request_input_ids True (Some Inr) it = Inr VNone"
proof -
  let ?q = "the (case normalize_batch_and_arguments (\<lambda>k. replicate k CHR ''i'') demo_embeds of Inl _ \<Rightarrow> None | Inr q \<Rightarrow> Some q)"
  let ?it = "hd (case batch_requests ?q of Inl _ \<Rightarrow> [] | Inr its \<Rightarrow> its)"
  have run: "normalize_batch_and_arguments (\<lambda>k. replicate k CHR ''i'') demo_embeds = Inr ?q" "\<not> g_is_single ?q"
    "batch_requests ?q = Inr [?it]"
    by code_simp+
  have "g_text demo_embeds = VNone" "g_input_ids demo_embeds = VNone" by (simp_all add: demo_embeds_def generate_default_def)
  from batched_embeddings_are_lost[OF this run, of ?it True "Some Inr"]
  show ?thesis using run by (intro exI[of _ ?q] exI[of _ ?it]) simp
qed

end
