(* ===== verification/Spec2Isabelle.thy ===== *)
theory Spec2Isabelle
  imports Principal Registry Ledger Mem_Pool Paged_Alloc Heapq Radix_Isolation Radix_Lock Radix_Evict Radix_Reach
    Radix_Path Sampling_Params Sched_Req Schedule_Policy Prefill_Adder Reasoning Session_Controller Chunk_Cache Host_Pool
    Batch_Retract Judge_Pipeline RW_Lock Radix_Roundtrip Detokenizer Batch_Extend Expert_Balance Req_Input
begin

text \<open>
  Verification of the serving core of InferShield: SGLang's runtime with the SafeKV extension, which
  shares KV-cache prefixes between tenants only where a policy allows it.  All file names below are
  relative to \<open>src/python/sglang/srt/\<close>.

  \<^bold>\<open>How the program works.\<close>  The HTTP server binds a request to a principal.  The scheduler looks up
  the longest cached prefix of its prompt in a radix tree of KV slots, orders the waiting requests,
  and adds them to a prefill batch as long as the token budgets allow.  When a request is cached, its
  tokens are inserted into the tree of its principal or, with an authorisation that the registry
  accepts, into the tree of a public object.  In balanced mode nodes may be shared with other tenants
  for a limited number of hits, which a ledger on disk counts across processes.  Memory comes from slot
  or page allocators; unlocked leaves of the tree are evicted when it runs out, and as a last resort
  running requests are retracted.  Between steps the running batch is filtered and merged; penalties on the
  logits follow the requests.  A judge with two tiers, rules and then a neural classifier, decides
  in the background which prompts may be shared at all.

  \<^bold>\<open>Theories and sources.\<close>
  \<^item> \<open>Prelude\<close>: Python values, exceptions, dictionaries, byte packing, slices; the combinators for
    calls that may raise (\<open>bindE\<close>, \<open>andThen\<close>).  \<open>Py_Strings\<close>: \<open>in\<close>, \<open>split\<close>, \<open>replace\<close>, \<open>rstrip\<close>.
  \<^item> \<open>Policy\<close>, \<open>Registry\<close>, \<open>Ledger\<close>: \<open>mem_cache/safekv_policy.py\<close>.  Records and metrics; the registry of
    public objects with its MAC; the hit ledger with its file, its lock and I/O failures.
  \<^item> \<open>Principal\<close>: \<open>principal_binding.py\<close> and the authentication step of \<open>entrypoints/http_server.py\<close>.
  \<^item> \<open>Mem_Pool\<close>, \<open>Paged_Alloc\<close>, \<open>Host_Pool\<close>: \<open>mem_cache/memory_pool.py\<close> and
    \<open>mem_cache/paged_allocator.py\<close>, the two Triton kernels included.
  \<^item> \<open>Heapq\<close>: the heap of CPython that eviction uses.
  \<^item> \<open>Tree_Node\<close>, \<open>Radix_Cache\<close>: \<open>mem_cache/tree_node.py\<close> and \<open>mem_cache/radix_cache.py\<close>.  Nodes live in
    an arena and refer to each other by index; every method of the class is a definition.
    \<open>Chunk_Cache\<close>: \<open>mem_cache/chunk_cache.py\<close>.
  \<^item> \<open>Sampling_Params\<close>: \<open>sampling/sampling_params.py\<close>.  \<open>Sched_Req\<close>: class \<open>Req\<close> of
    \<open>managers/schedule_batch.py\<close> and the admission checks of \<open>managers/scheduler.py\<close>,
    \<open>managers/utils.py\<close> and \<open>managers/tp_worker.py\<close>.
  \<^item> \<open>Schedule_Policy\<close>, \<open>Prefill_Adder\<close>: \<open>managers/schedule_policy.py\<close>.
    \<open>Session_Controller\<close>: \<open>managers/session_controller.py\<close>.  \<open>Reasoning\<close>: \<open>reasoning_parser.py\<close>.
  \<^item> \<open>Batch_Memory\<close>, \<open>Batch_Retract\<close>: class \<open>ScheduleBatch\<close> of \<open>managers/schedule_batch.py\<close>, the methods that
    take memory from the pools or give it back.  \<open>Batch_Rows\<close>: the columns of a running batch with
    \<open>filter_batch\<close>, \<open>merge_batch\<close> and \<open>prepare_for_decode\<close>.  \<open>Batch_Extend\<close>: prefill and mixed batches,
    \<open>prepare_for_extend\<close> and \<open>mix_with_running\<close>, with the kernel that writes the slots.
  \<^item> \<open>Penalizers\<close>, \<open>Penalty_Batch\<close>: \<open>sampling/penaltylib/\<close>, the abstract penalizer, its three classes and the
    orchestrator.  \<open>Sampling_Batch\<close>: \<open>sampling/sampling_batch_info.py\<close> with the custom logit processors.
  \<^item> \<open>Privacy_Detector\<close>, \<open>Pii_Detector\<close>, \<open>Judge_Pipeline\<close>: \<open>managers/private_service/\<close>.  The rules, the
    decision of the second tier, and the threads of the judge with the queues between them.
  \<^item> \<open>Req_Input\<close>: the requests of \<open>managers/io_struct.py\<close>, and from \<open>managers/tokenizer_manager.py\<close> the choice of
    the input tokens, the length check and the requests of a batch.
  \<^item> \<open>RW_Lock\<close>: \<open>aio_rwlock.py\<close>.  \<open>Detokenizer\<close>: \<open>managers/detokenizer_manager.py\<close>.
    \<open>Expert_Balance\<close>: \<open>managers/eplb_algorithms/deepseek.py\<close>.

  \<^bold>\<open>What the lemmas show.\<close>
  \<^item> \<open>Radix_Tree\<close>, \<open>Radix_Lookup\<close>, \<open>Radix_Insert\<close>: the well-formedness of the trees (\<open>cache_ok\<close>) and that
    lookups, splits and insertions keep it.  The locale \<open>lookup_law\<close> is the contract of the single steps
    of a lookup; whatever relation satisfies it holds for whole lookups.  It is interpreted for the
    shape of the arena, for the view of every tenant (\<open>narrow\<close>), for nodes a tenant may not see
    (\<open>spare\<close>) and for the page size (\<open>sized\<close>).
  \<^item> \<open>Radix_Isolation\<close>: lookups return only slots the requester may see, change nothing it may not see
    and charge shared hits first.  \<open>Radix_Path\<close>: the slots returned belong to the first tokens of the
    request; the locale \<open>prefix_cache\<close> is what the scheduler relies on, interpreted for the radix cache
    and for the chunk cache.  \<open>Radix_Root\<close>: the roots of the namespaces stay below the global root
    (\<open>rooted\<close>, another interpretation of \<open>lookup_law\<close>).  \<open>Radix_Reach\<close>: every reachable cache is well
    formed and rooted, and insertion returns.  \<open>Radix_Owner\<close>: below the root of a principal every node
    was created by that principal (\<open>owned\<close>, again a \<open>lookup_law\<close>), and insertion leaves a path that reads
    the whole key.  \<open>Radix_Roundtrip\<close>: the principal finds this path again.
  \<^item> \<open>Radix_Lock\<close>, \<open>Radix_Walk\<close>, \<open>Radix_Evict\<close>: locks are neutral, tree walks end and visit each node
    once, eviction ends, spares locked nodes and frees exactly the slots of the nodes it removes.
  \<^item> \<open>Batch_Memory\<close>, \<open>Batch_Retract\<close>: allocation returns and gives up only when nothing can be evicted;
    retraction never touches what the remaining requests hold.  \<open>Batch_Rows\<close>: the columns of a batch
    represent one list of rows (\<open>aligned\<close>), which filtering, merging and decode steps change as the
    operations on that list say; a decode step writes one new slot per request.  \<open>Batch_Extend\<close>: a prefill
    step gives each request a row with its prefix and its new slots (\<open>rows_filled\<close>); the kernel, on the pool as
    flat memory, does what the loop does; mixing keeps the lengths consistent (\<open>lengths_fit\<close>).
  \<^item> \<open>Penalizers\<close>: the locale \<open>batched_penalizer\<close> is the contract of a penalizer class, a tensor state that
    encodes the counted tokens of each row; teardown, rebuilding, filter and merge are proved once in it.
    It is interpreted for the frequency, the presence and the minimum-length penalizer.
    \<open>Penalty_Batch\<close>: in every run of a batch (\<open>penalty_run\<close>) the penalties of a request are those of its
    own tokens.
  \<^item> \<open>Expert_Balance\<close>: packing and replication are bijections, so the placement of the experts and the
    table of their replicas are inverse to each other; groups of experts stay on one node.
  \<^item> \<open>Req_Input\<close>: every normalised field of a batch is a column (\<open>col\<close>), so the batch becomes the requests the
    client sent; a batch of embeddings does not.
  \<^item> \<open>Judge_Pipeline\<close>: an invariant of all interleavings of the judge's threads; a node is shared only
    after both tiers cleared its text.  \<open>RW_Lock\<close>: exclusion and wake-ups by counting tasks.
  \<^item> The remaining theories close with their own properties, each stated after its claim id.  The end of
    this theory composes them: a request prepared by a lookup on a reachable cache can always be locked
    and offered to a prefill batch.

  \<^bold>\<open>Loops and bounds.\<close>  Structural loops are \<open>fun\<close>; loops with a measure are \<open>function\<close> with a
  termination proof; walks along pointers, which need not end on a malformed arena, are
  \<open>partial_function (option)\<close> with \<open>None\<close> for a run that does not end, and their theorems prove that
  they return on well-formed caches.  There is no fuel.  Clock readings, I/O outcomes, \<open>hash\<close>, the
  digests and the IEEE encoding are parameters (\<open>cache_env\<close>, \<open>stdlib\<close>), as are single precision
  arithmetic (\<open>torch_float\<close>) and the sorting of loads (\<open>load_ops\<close>); theorems hold for all of them unless a
  hypothesis names what is needed (\<open>ieee\<close>, \<open>load_ops_ok\<close>).

  \<^bold>\<open>Not modelled.\<close>  Device tensors and the kernels that compute with them; the event loop of the
  scheduler, the processes and sockets around it, and the tokenizer itself; the hierarchical cache and the
  branches that serve it; the neural models and the regular-expression engine of the privacy judge,
  which are parameters, and its configuration file; the OpenAI-compatible API;
  speculative decoding, grammar masks and the vectorised expert balancer.
  Floats that enter budgets are computed as rationals.  The scrub of a device buffer after a miss and
  pretty printing change nothing the program reads.
\<close>

section \<open>From the lookup to the batch\<close>

text \<open>In a sound cache every path that a lookup can read leads back up to the global root.\<close>

lemma starts_chain:
  assumes "sound_cache c" "r \<in> starts c"
  shows "\<exists>xs. chain (nodes c) (root_node c) r xs"
proof (cases "r = root_node c")
  case True
  then have "chain (nodes c) (root_node c) r []" by simp
  then show ?thesis by blast
next
  case False
  then have "chain (nodes c) (root_node c) r [r]"
    using assms by (auto simp: sound_cache_def rooted_def cache_ok_def starts_def)
  then show ?thesis by blast
qed

lemma reads_chain:
  assumes "reads ns r i ks vs" "tree_ok ps ns" "n_parent (ns ! rt) = None" "\<exists>xs. chain ns rt r xs"
  shows "\<exists>xs. chain ns rt i xs"
  using assms(1,4)
proof (induction rule: reads.induct)
  case (down p ks vs i)
  then obtain xs where "chain ns rt p xs" by blast
  then have "chain ns rt i (i # xs)" using child_relD(2,3)[OF assms(2) down(2)] assms(3) by auto
  then show ?case by blast
qed

lemma answers_chain:
  assumes "sound_cache c" "answers c key slots i"
  shows "\<exists>xs. chain (nodes c) (root_node c) i xs"
proof -
  obtain r ms where r: "r \<in> starts c" "reads (nodes c) r i ms slots"
    using assms(2) by (auto simp: answers_def)
  show ?thesis
    by (rule reads_chain[OF r(2) _ _ starts_chain[OF assms(1) r(1)], of "page_size c"])
       (use assms(1) in \<open>auto simp: sound_cache_def cache_ok_def rooted_def\<close>)
qed

lemma next_round_lockable:
  assumes run: "init_next_round_input env True r c = (Inr (), (r', c'))"
    and sound: "sound_cache c" and on: "\<not> disable c'"
  shows "\<exists>xs. lockable r' xs c'" "q_max_new_tokens r' = q_max_new_tokens r" "cache_step env c c'"
proof -
  obtain key r1 slots i where a: "adjust_max_prefix_ids (r\<lparr>q_fill_ids := q_origin_input_ids r @ q_output_ids r\<rparr>)
      = (Inr key, r1)"
    and m: "match_prefix env key (q_user_id r1) (q_public_authorization r1) c = (Inr (slots, i), c')"
    and r': "q_last_node r' = Some i" "q_max_new_tokens r' = q_max_new_tokens r1"
    using run
    by (auto simp: init_next_round_input_def match_request_def Let_def andThen_Inr split: prod.splits sum.splits)
  show step: "cache_step env c c'" by (rule cache_step.lookup[OF m])
  have sound': "sound_cache c'" by (rule cache_step_ok[OF step sound])
  from answers_chain[OF sound' match_prefix_answers[OF m sound_cache_ok[OF sound]]]
  show "\<exists>xs. lockable r' xs c'" using sound' on r'(1) by (simp add: lockable_def sound_cache_def)
  show "q_max_new_tokens r' = q_max_new_tokens r" using adjust_max_prefix_ids_Inr(1)[OF a] r'(2) by simp
qed

text \<open>
  C26: from the lookup to the batch.  Take any cache the operations can reach, prepare a request with a
  token limit against it and offer it to a prefill batch over the resulting cache: the walk that locks
  the matched path ends and nothing raises.  If the request is refused, batch and cache are unchanged;
  if it is taken it is in the batch once, and the cache is the one after a single \<open>inc_lock_ref\<close> of the
  matched node, which is again a reachable one.
\<close>

theorem prepared_request_is_batched:
  assumes "cache_reachable env c" and "init_next_round_input env True r c = (Inr (), (r', pa_tree A))"
    and "\<not> disable (pa_tree A)" and "q_max_new_tokens r = Some m" and "0 \<le> m"
  shows "\<exists>res A'. add_one_req r' A = Some (Inr res, A') \<and> cache_reachable env (pa_tree A') \<and>
     (A' = A \<and> res \<noteq> CONTINUE \<or>
      (\<exists>s d. pa_can_run_list A' = pa_can_run_list A @ [s] \<and> q_rid s = q_rid r' \<and>
         lock_req r' (pa_tree A) = Some (Inr d, pa_tree A')))"
proof -
  note nr = next_round_lockable[OF assms(2) reachable_sound[OF assms(1)] assms(3)]
  obtain xs where lk: "lockable r' xs (pa_tree A)" using nr(1) by blast
  have reach: "cache_reachable env (pa_tree A)" by (rule cache_reachable.step[OF assms(1) nr(3)])
  have m: "q_max_new_tokens r' = Some m" using nr(2) assms(4) by simp
  obtain d where lock: "lock_req r' (pa_tree A) = Some (Inr d, lock_path xs (pa_tree A))"
    using lock_req_path(1)[OF lk] by blast
  then have "cache_step env (pa_tree A) (lock_path xs (pa_tree A))"
    using lk by (auto simp: lock_req_def lockable_def intro: cache_step.lock)
  then have reach': "cache_reachable env (lock_path xs (pa_tree A))" by (rule cache_reachable.step[OF reach])
  from lk m show ?thesis
  proof (cases rule: add_one_req_cases)
    case (refused res)
    then show ?thesis using reach by blast
  next
    case (taken A')
    have "0 < page_size (pa_tree A)" using lk by (auto simp: lockable_def cache_ok_def tree_ok_def)
    note t = taken_facts[OF taken(2) this assms(5)]
    show ?thesis using taken(1) t(1,2) lock reach' by metis
  qed
qed

text \<open>A reachable cache with one prompt, a request that shares its prefix, and a batch over them.\<close>

lemma demo_tree_reachable: "cache_reachable demo_env demo_tree"
proof -
  let ?c = "demo_cache ''strict'' False"
  have start: "cache_reachable demo_env ?c"
    by (rule cache_reachable.start[of "req_pool_init 2 8" "Slots (allocator_init 8)" 1 False False 2 2
          "''strict''" None 1 None None None False NoFile])
       (auto simp: demo_cache_def cache_init_def registry_init_def utf8_def)
  obtain r c' where run: "cache_insert demo_env [1, 2, 3] (Some (map ((+) 10) [1, 2, 3])) None (Some ''al'') None ?c
      = Some (r, c')"
    using cache_insert_ok[OF demo_cache_ok[of "''strict''" False], of "Some (map ((+) 10) [1, 2, 3])" "[1, 2, 3]" demo_env]
    by (auto simp: cache_eval)
  have eq: "demo_tree = c'" using run by (simp add: demo_tree_def demo_insert_def)
  have ps: "page_size ?c \<le> chunk_size" by (simp add: cache_eval)
  have "cache_step demo_env ?c demo_tree" unfolding eq by (rule cache_step.insert[OF _ ps run]) auto
  with start show ?thesis by (rule cache_reachable.step)
qed

theorem prepared_request_is_batched_witness:
  "let r = req_init ''r'' None [1, 2, 3, 4, 5] (default_params\<lparr>sp_max_new_tokens := Some 2, sp_user_id := Some ''al''\<rparr>)
             False False None None None;
       run = init_next_round_input demo_env True r demo_tree;
       A = demo_adder\<lparr>pa_tree := snd (snd run)\<rparr>
   in fst run = Inr () \<and> q_prefix_indices (fst (snd run)) = [11, 12, 13] \<and>
      (\<exists>res A'. add_one_req (fst (snd run)) A = Some (Inr res, A') \<and> cache_reachable demo_env (pa_tree A'))"
proof -
  let ?r = "req_init ''r'' None [1, 2, 3, 4, 5] (default_params\<lparr>sp_max_new_tokens := Some 2, sp_user_id := Some ''al''\<rparr>)
             False False None None None"
  let ?run = "init_next_round_input demo_env True ?r demo_tree"
  let ?A = "demo_adder\<lparr>pa_tree := snd (snd ?run)\<rparr>"
  have run: "fst ?run = Inr ()" "q_prefix_indices (fst (snd ?run)) = [11, 12, 13]" "\<not> disable (snd (snd ?run))"
    by (simp_all add: init_next_round_input_def match_request_def adjust_max_prefix_ids_def demo_tree_def
        max_prefix_len_def req_init_def default_params_def numeral_2_eq_2 cache_eval)
  then have eq: "?run = (Inr (), (fst (snd ?run), pa_tree ?A))" by (simp add: prod_eq_iff)
  have m: "q_max_new_tokens ?r = Some 2" by (simp add: req_init_def default_params_def)
  have on: "\<not> disable (pa_tree ?A)" using run(3) by simp
  from prepared_request_is_batched[OF demo_tree_reachable eq on m] run show ?thesis
    unfolding Let_def by auto
qed

end
